(* ===== verification/ReacPrelude.thy ===== *)
theory ReacPrelude
  imports Main "HOL-Library.Word" "HOL-Library.Monad_Syntax"
begin

unbundle bit_operations_syntax

text \<open>
  Prelude of the ReacJack development: the machine integer types of the C sources, memory
  accesses that fail (\<^term>\<open>None\<close>) outside their object instead of returning an
  unspecified value, the counted \<open>for\<close> loop, and the lemmas on lists, words and
  modular slots that the component theories share.
\<close>

section \<open>Machine integers\<close>

text \<open>
  The C sources use \<open>uint8_t\<close> to \<open>uint64_t\<close> and \<open>size_t\<close>; every supported target is
  LP64, so \<open>size_t\<close> is 64 bits wide.  Arithmetic on words wraps around as unsigned C
  arithmetic does; a C cast between unsigned types is \<^term>\<open>ucast\<close>.
\<close>

type_synonym u8 = "8 word"
type_synonym u16 = "16 word"
type_synonym u32 = "32 word"
type_synonym u64 = "64 word"

named_theorems mem_simps \<open>successful accesses to memory objects\<close>
named_theorems word_nat_simps \<open>C integer operations as operations on natural numbers\<close>

section \<open>Checked memory accesses\<close>

text \<open>
  A C object (array, mapped region, packet) is a list.  An access outside the object is
  undefined behaviour; the model makes it the value \<^term>\<open>None\<close>, so that a theorem that
  an operation returns \<^term>\<open>Some\<close> also says that it stays inside its buffers.
\<close>

definition rd :: "'a list \<Rightarrow> nat \<Rightarrow> 'a option" where
  "rd xs i = (if i < length xs then Some (xs ! i) else None)"

definition wr :: "'a list \<Rightarrow> nat \<Rightarrow> 'a \<Rightarrow> 'a list option" where
  "wr xs i v = (if i < length xs then Some (xs[i := v]) else None)"

definition splice :: "'a list \<Rightarrow> nat \<Rightarrow> 'a list \<Rightarrow> 'a list" where
  "splice dst d xs = take d dst @ xs @ drop (d + length xs) dst"

definition memcpy :: "'a list \<Rightarrow> nat \<Rightarrow> 'a list \<Rightarrow> nat \<Rightarrow> nat \<Rightarrow> 'a list option" where
  "memcpy dst d src s n =
     (if d + n \<le> length dst \<and> s + n \<le> length src
      then Some (splice dst d (take n (drop s src))) else None)"

text \<open>\<open>memcpy\<close> inside one object: source and destination must not overlap.\<close>

definition memcpy_within :: "'a list \<Rightarrow> nat \<Rightarrow> nat \<Rightarrow> nat \<Rightarrow> 'a list option" where
  "memcpy_within buf d s n =
     (if n = 0 \<or> s + n \<le> d \<or> d + n \<le> s then memcpy buf d buf s n else None)"

definition memset :: "'a list \<Rightarrow> nat \<Rightarrow> 'a \<Rightarrow> nat \<Rightarrow> 'a list option" where
  "memset dst d v n =
     (if d + n \<le> length dst then Some (splice dst d (replicate n v)) else None)"

text \<open>The loop \<open>for (i = lo; i < hi; i++) body\<close> runs its body over \<^term>\<open>[lo..<hi]\<close>.\<close>

fun for_each :: "(nat \<Rightarrow> 's \<Rightarrow> 's option) \<Rightarrow> nat list \<Rightarrow> 's \<Rightarrow> 's option" where
  "for_each body [] s = Some s"
| "for_each body (i # is) s = body i s \<bind> for_each body is"

section \<open>Lemmas on lists and memory\<close>

lemma rd_Some [mem_simps]: "i < length xs \<Longrightarrow> rd xs i = Some (xs ! i)"
  by (simp add: rd_def)

lemma rd_eq_Some_iff: "rd xs i = Some v \<longleftrightarrow> i < length xs \<and> xs ! i = v"
  by (auto simp: rd_def)

lemma wr_Some [mem_simps]: "i < length xs \<Longrightarrow> wr xs i v = Some (xs[i := v])"
  by (simp add: wr_def)

lemma length_splice [simp]:
  "d + length xs \<le> length dst \<Longrightarrow> length (splice dst d xs) = length dst"
  by (simp add: splice_def)

lemma nth_splice:
  assumes "d + length xs \<le> length dst" "i < length dst"
  shows "splice dst d xs ! i = (if d \<le> i \<and> i < d + length xs then xs ! (i - d) else dst ! i)"
  using assms by (auto simp: splice_def nth_append min_def)

lemma splice_Nil [simp]: "splice dst d [] = dst"
  by (simp add: splice_def)

lemma splice_behind: "length P = d \<Longrightarrow> splice (P @ rest) d X = P @ X @ drop (length X) rest"
  by (auto simp: splice_def)

lemma memcpy_Some [mem_simps]:
  "d + n \<le> length dst \<Longrightarrow> s + n \<le> length src \<Longrightarrow>
   memcpy dst d src s n = Some (splice dst d (take n (drop s src)))"
  by (simp add: memcpy_def)

lemma memset_Some [mem_simps]:
  "d + n \<le> length dst \<Longrightarrow> memset dst d v n = Some (splice dst d (replicate n v))"
  by (simp add: memset_def)

lemma for_each_append:
  "for_each body (is @ js) s = for_each body is s \<bind> for_each body js"
  by (induction "is" arbitrary: s) (auto split: bind_splits)

text \<open>The invariant rule for counted loops: total correctness.\<close>

lemma for_each_range:
  assumes "lo \<le> hi" and "I lo s"
    and step: "\<And>i s. lo \<le> i \<Longrightarrow> i < hi \<Longrightarrow> I i s \<Longrightarrow> \<exists>s'. body i s = Some s' \<and> I (Suc i) s'"
  shows "\<exists>s'. for_each body [lo..<hi] s = Some s' \<and> I hi s'"
  using assms(1) step
proof (induction hi rule: dec_induct)
  case base
  with assms(2) show ?case by simp
next
  case (step n)
  then obtain s1 where s1: "for_each body [lo..<n] s = Some s1" "I n s1"
    by (metis less_SucI)
  from step.hyps step.prems s1(2) obtain s2 where "body n s1 = Some s2" "I (Suc n) s2"
    by blast
  with s1 step.hyps show ?case
    by (simp add: for_each_append)
qed

lemma map_nth_upt_shift: "map (\<lambda>i. f (i + d)) [0..<n] = map f [d..<d + n]"
  by (rule nth_equalityI) (auto simp: add.commute)

text \<open>Blocks of equal length laid out one after the other.\<close>

lemma length_concat_uniform:
  assumes "\<And>i. i < n \<Longrightarrow> length (g i) = k"
  shows "length (concat (map g [0..<n])) = k * n"
  using assms by (induction n) (auto simp: algebra_simps)

lemma block_index_less:
  fixes i n k r :: nat
  assumes "i < n" "r < k" shows "k * i + r < k * n"
proof -
  have "k * i + r < k * Suc i" using assms(2) by simp
  also have "\<dots> \<le> k * n" using assms(1) by (intro mult_le_mono2) simp
  finally show ?thesis .
qed

lemma block_index_inject:
  fixes a b s t k :: nat
  assumes "s < k" "t < k"
  shows "a * k + s = b * k + t \<longleftrightarrow> a = b \<and> s = t"
proof
  assume eq: "a * k + s = b * k + t"
  then have "(a * k + s) div k = (b * k + t) div k" "(a * k + s) mod k = (b * k + t) mod k" by simp_all
  with assms show "a = b \<and> s = t" by simp
qed simp

lemma nth_concat_uniform:
  assumes "\<And>i. i < n \<Longrightarrow> length (g i) = k" "i < n" "r < k"
  shows "concat (map g [0..<n]) ! (k * i + r) = g i ! r"
  using assms
proof (induction n)
  case (Suc n)
  have len: "length (concat (map g [0..<n])) = k * n"
    using Suc.prems(1) by (intro length_concat_uniform) simp
  show ?case
  proof (cases "i < n")
    case True
    then have "k * i + r < k * n" using Suc.prems(3) by (rule block_index_less)
    with True Suc len show ?thesis by (simp add: nth_append)
  next
    case False
    with Suc.prems(2) have "i = n" by simp
    with len show ?thesis by (simp add: nth_append)
  qed
qed simp

section \<open>Modular slots\<close>

lemma mod_slot:
  fixes cap :: nat
  assumes "i \<le> cap" "0 < cap"
  shows "(w + i) mod cap = (if w mod cap + i < cap then w mod cap + i else w mod cap + i - cap)"
proof -
  have lt: "w mod cap < cap" using assms(2) by (rule mod_less_divisor)
  have eq: "(w + i) mod cap = (w mod cap + i) mod cap"
    by (rule mod_add_left_eq [symmetric])
  show ?thesis
  proof (cases "w mod cap + i < cap")
    case True
    with eq show ?thesis by simp
  next
    case False
    have "w mod cap + i - cap < cap" using assms(1) lt by linarith
    moreover have "(w mod cap + i) mod cap = (w mod cap + i - cap) mod cap"
      using False by (intro le_mod_geq) simp
    ultimately show ?thesis using eq False by simp
  qed
qed

lemma mod_slot_inj:
  fixes cap :: nat
  assumes "i < j" "j - i < cap"
  shows "i mod cap \<noteq> j mod cap"
proof
  assume "i mod cap = j mod cap"
  then have "cap dvd j - i"
    using assms by (metis less_imp_le mod_eq_dvd_iff_nat)
  with assms show False by (auto dest: dvd_imp_le)
qed

section \<open>Words as natural numbers\<close>

lemma unat_add_nowrap [word_nat_simps]:
  "unat (a :: 'a::len word) + unat b < 2 ^ LENGTH('a) \<Longrightarrow> unat (a + b) = unat a + unat b"
  by (simp add: unat_word_ariths)

lemma unat_sub_pos [word_nat_simps]:
  "unat (b :: 'a::len word) \<le> unat a \<Longrightarrow> unat (a - b) = unat a - unat b"
  by (simp add: unat_sub word_le_nat_alt)

lemma unat_of_nat_small [word_nat_simps]:
  "n < 2 ^ LENGTH('a) \<Longrightarrow> unat (of_nat n :: 'a::len word) = n"
  by (simp add: unsigned_of_nat take_bit_nat_eq_self)

lemma unat_u32_bound [simp]: "unat (x :: u32) < 4294967296"
  using unsigned_less[of x] by simp

lemma unat_u16_bound [simp]: "unat (x :: u16) < 65536"
  using unsigned_less[of x] by simp

lemma unat_u64_bound [simp]: "unat (x :: u64) < 18446744073709551616"
  using unsigned_less[of x] by simp

lemma unat_u64_of_u32 [simp]: "unat (ucast (x :: u32) :: u64) = unat x"
  by (simp add: unsigned_ucast_eq take_bit_nat_eq_self order.strict_trans [OF unat_u32_bound])

lemma unat_u32_of_u16 [simp]: "unat (ucast (x :: u16) :: u32) = unat x"
  by (simp add: unsigned_ucast_eq take_bit_nat_eq_self order.strict_trans [OF unat_u16_bound])

lemma unat_u64_of_u16 [simp]: "unat (ucast (x :: u16) :: u64) = unat x"
  by (simp add: unsigned_ucast_eq take_bit_nat_eq_self order.strict_trans [OF unat_u16_bound])

lemma unat_u32_of_u64 [word_nat_simps]:
  "unat (x :: u64) < 2 ^ 32 \<Longrightarrow> unat (ucast x :: u32) = unat x"
  by (simp add: unsigned_ucast_eq take_bit_nat_eq_self)

lemma unat_u16_of_u64 [word_nat_simps]:
  "unat (x :: u64) < 2 ^ 16 \<Longrightarrow> unat (ucast x :: u16) = unat x"
  by (simp add: unsigned_ucast_eq take_bit_nat_eq_self)

end
