(* ===== verification/RingSpec.thy ===== *)
theory RingSpec
  imports ReacPrelude
begin

text \<open>
  The abstract contract of the single-writer single-reader audio rings.  A ring is a bounded
  FIFO of audio frames; \<open>src/shared_audio.c\<close> and \<open>src/reacjack-pw.c\<close> implement it with two
  different memory layouts.  The locale \<open>frame_fifo\<close> states what a client relies on, and
  its lemmas hold for every sequence of writes and reads; both rings interpret it.
\<close>

section \<open>The window of live frames\<close>

text \<open>
  Positions are absolute frame counts; frame \<open>i\<close> lives in slot \<open>i mod cap\<close>.  The live
  frames are the positions from the read position up to the write position.
\<close>

definition window :: "(nat \<Rightarrow> 'f) \<Rightarrow> nat \<Rightarrow> nat \<Rightarrow> nat \<Rightarrow> 'f list" where
  "window slots cap r w = map (\<lambda>i. slots (i mod cap)) [r..<w]"

datatype 'f fifo_op = Push "'f list" | Pop nat

text \<open>
  A run performs writes and reads in the given order and collects the frames accepted by the
  writes and the frames delivered by the reads.
\<close>

fun run_ops ::
  "('r \<Rightarrow> 'f list \<Rightarrow> ('r \<times> bool) option) \<Rightarrow> ('r \<Rightarrow> nat \<Rightarrow> ('r \<times> 'f list) option) \<Rightarrow>
   'r \<Rightarrow> 'f fifo_op list \<Rightarrow> ('r \<times> 'f list \<times> 'f list) option" where
  "run_ops push pop r [] = Some (r, [], [])"
| "run_ops push pop r (Push fs # ops) =
     do { (r', accepted) \<leftarrow> push r fs;
          (r'', ins, outs) \<leftarrow> run_ops push pop r' ops;
          Some (r'', (if accepted then fs else []) @ ins, outs) }"
| "run_ops push pop r (Pop n # ops) =
     do { (r', got) \<leftarrow> pop r n;
          (r'', ins, outs) \<leftarrow> run_ops push pop r' ops;
          Some (r'', ins, got @ outs) }"

fun pushed :: "'f fifo_op list \<Rightarrow> 'f list list" where
  "pushed [] = []"
| "pushed (Push fs # ops) = fs # pushed ops"
| "pushed (Pop n # ops) = pushed ops"

section \<open>Lemmas on windows\<close>

lemma length_window [simp]: "length (window slots cap r w) = w - r"
  by (simp add: window_def)

lemma nth_window: "i < w - r \<Longrightarrow> window slots cap r w ! i = slots ((r + i) mod cap)"
  by (simp add: window_def)

lemma window_empty [simp]: "window slots cap r r = []"
  by (simp add: window_def)

lemma window_drop: "window slots cap (r + k) w = drop k (window slots cap r w)"
  by (simp add: window_def drop_map)

lemma window_take: "r + k \<le> w \<Longrightarrow> window slots cap r (r + k) = take k (window slots cap r w)"
  by (simp add: window_def take_map)

lemma window_append:
  assumes pos: "r \<le> w" "w - r + length fs \<le> cap"
    and new: "\<And>i. i < length fs \<Longrightarrow> slots' ((w + i) mod cap) = fs ! i"
    and old: "\<And>k. k < cap \<Longrightarrow> (\<And>i. i < length fs \<Longrightarrow> (w + i) mod cap \<noteq> k) \<Longrightarrow> slots' k = slots k"
  shows "window slots' cap r (w + length fs) = window slots cap r w @ fs"
proof (rule nth_equalityI)
  fix j assume j: "j < length (window slots' cap r (w + length fs))"
  show "window slots' cap r (w + length fs) ! j = (window slots cap r w @ fs) ! j"
  proof (cases "j < w - r")
    case True
    have "(w + i) mod cap \<noteq> (r + j) mod cap" if "i < length fs" for i
    proof -
      have "r + j < w + i" "w + i - (r + j) < cap" using that True pos by linarith+
      from mod_slot_inj[OF this] show ?thesis by (rule not_sym)
    qed
    moreover have "(r + j) mod cap < cap" using True pos by simp
    ultimately have "slots' ((r + j) mod cap) = slots ((r + j) mod cap)" by (rule old[rotated])
    with True j show ?thesis by (simp add: nth_window nth_append)
  next
    case False
    with j pos have "r + j = w + (j - (w - r))" "j - (w - r) < length fs" by auto
    with new[of "j - (w - r)"] False j show ?thesis by (simp add: nth_window nth_append)
  qed
qed (use pos in simp)

section \<open>The interface of a frame FIFO\<close>

text \<open>
  \<open>push\<close> writes a block of frames, all or none, and reports whether it was accepted; \<open>pop\<close>
  removes up to the given number of frames and returns the real ones.  \<open>headroom\<close> is the
  number of frames that may still be written before the position counter wraps, and \<open>fits\<close>
  says that a block has the shape the ring expects (one sample per channel in each frame).
\<close>

locale frame_fifo =
  fixes inv :: "'r \<Rightarrow> bool"
    and queue :: "'r \<Rightarrow> 'f list"
    and capacity :: "'r \<Rightarrow> nat"
    and headroom :: "'r \<Rightarrow> nat"
    and fits :: "'r \<Rightarrow> 'f list \<Rightarrow> bool"
    and push :: "'r \<Rightarrow> 'f list \<Rightarrow> ('r \<times> bool) option"
    and pop :: "'r \<Rightarrow> nat \<Rightarrow> ('r \<times> 'f list) option"
  assumes queue_bounded: "inv r \<Longrightarrow> length (queue r) \<le> capacity r"
    and push_accepts:
      "inv r \<Longrightarrow> fits r fs \<Longrightarrow> length fs < headroom r \<Longrightarrow>
       length (queue r) + length fs \<le> capacity r \<Longrightarrow>
       \<exists>r'. push r fs = Some (r', True) \<and> inv r' \<and> queue r' = queue r @ fs \<and>
            capacity r' = capacity r \<and> headroom r' = headroom r - length fs \<and> fits r' = fits r"
    and push_rejects:
      "inv r \<Longrightarrow> fits r fs \<Longrightarrow> length fs < headroom r \<Longrightarrow>
       capacity r < length (queue r) + length fs \<Longrightarrow>
       \<exists>r'. push r fs = Some (r', False) \<and> inv r' \<and> queue r' = queue r \<and>
            capacity r' = capacity r \<and> headroom r' = headroom r \<and> fits r' = fits r"
    and pop_delivers:
      "inv r \<Longrightarrow>
       \<exists>r'. pop r n = Some (r', take n (queue r)) \<and> inv r' \<and> queue r' = drop n (queue r) \<and>
            capacity r' = capacity r \<and> headroom r' = headroom r \<and> fits r' = fits r"
begin

lemma push_cases:
  assumes "inv r" "fits r fs" "length fs < headroom r"
  obtains r' acc where "push r fs = Some (r', acc)" "inv r'"
    "queue r' = queue r @ (if acc then fs else [])"
    "acc \<longleftrightarrow> length (queue r) + length fs \<le> capacity r"
    "capacity r' = capacity r" "headroom r - length fs \<le> headroom r'" "fits r' = fits r"
proof (cases "length (queue r) + length fs \<le> capacity r")
  case True
  with push_accepts[OF assms True] that[of _ True] show ?thesis by fastforce
next
  case False
  then have "capacity r < length (queue r) + length fs" by simp
  with push_rejects[OF assms this] that[of _ False] show ?thesis by fastforce
qed

text \<open>
  For every interleaving of writes and reads: no access leaves the ring's memory, the
  invariant is kept, and the frames delivered so far followed by the frames still queued are
  exactly the frames queued at the start followed by the accepted ones, in order.
\<close>

lemma run_conservation:
  assumes "inv r" "\<forall>fs \<in> set (pushed ops). fits r fs"
    "sum_list (map length (pushed ops)) < headroom r"
  shows "\<exists>r' ins outs. run_ops push pop r ops = Some (r', ins, outs) \<and> inv r' \<and>
           capacity r' = capacity r \<and> queue r @ ins = outs @ queue r'"
  using assms
proof (induction ops arbitrary: r)
  case Nil
  then show ?case by simp
next
  case (Cons op ops)
  show ?case
  proof (cases op)
    case (Push fs)
    with Cons.prems have "fits r fs" "length fs < headroom r" by auto
    from push_cases[OF Cons.prems(1) this] obtain r1 acc where
      p: "push r fs = Some (r1, acc)" "inv r1" "queue r1 = queue r @ (if acc then fs else [])"
        "capacity r1 = capacity r" "headroom r - length fs \<le> headroom r1" "fits r1 = fits r"
      by metis
    from Cons.prems(3) Push p(5) have "sum_list (map length (pushed ops)) < headroom r1"
      by simp
    with p Cons.prems(2) Push Cons.IH[of r1] obtain r' ins outs where
      "run_ops push pop r1 ops = Some (r', ins, outs)" "inv r'" "capacity r' = capacity r1"
      "queue r1 @ ins = outs @ queue r'"
      by auto
    with p Push show ?thesis by simp
  next
    case (Pop n)
    from pop_delivers[OF Cons.prems(1), of n] obtain r1 where
      p: "pop r n = Some (r1, take n (queue r))" "inv r1" "queue r1 = drop n (queue r)"
        "capacity r1 = capacity r" "headroom r1 = headroom r" "fits r1 = fits r"
      by auto
    with Cons.prems Pop Cons.IH[of r1] obtain r' ins outs where
      "run_ops push pop r1 ops = Some (r', ins, outs)" "inv r'" "capacity r' = capacity r1"
      "queue r1 @ ins = outs @ queue r'"
      by auto
    moreover from this p have "queue r @ ins = take n (queue r) @ outs @ queue r'"
      by (metis append.assoc append_take_drop_id)
    ultimately show ?thesis using p Pop by simp
  qed
qed

text \<open>Starting empty, what the reader gets is a prefix of what the writer put in.\<close>

lemma run_prefix:
  assumes "inv r" "queue r = []" "\<forall>fs \<in> set (pushed ops). fits r fs"
    "sum_list (map length (pushed ops)) < headroom r"
  shows "\<exists>r' ins outs. run_ops push pop r ops = Some (r', ins, outs) \<and>
           outs = take (length outs) ins \<and> length ins - length outs \<le> capacity r"
proof -
  from run_conservation[OF assms(1,3,4)] assms(2) obtain r' ins outs where
    r: "run_ops push pop r ops = Some (r', ins, outs)" "inv r'" "capacity r' = capacity r"
      "ins = outs @ queue r'"
    by auto
  with queue_bounded[OF r(2)] show ?thesis by auto
qed

end

end
