(* ===== verification/BlockCopies.thy ===== *)
theory BlockCopies
  imports RingSpec
begin

text \<open>
  Copies between a ring and a linear buffer, element by element.  A block that wraps around the end of
  a ring is copied in contiguous chunks; as a list of pairs of a destination and a source index it is
  the same for every way of cutting it, and the order of the elements does not matter.
\<close>

section \<open>Copies as index pairs\<close>

definition copy_elements :: "(nat \<times> nat) list \<Rightarrow> 'a list \<Rightarrow> 'a list \<Rightarrow> 'a list" where
  "copy_elements ps src dst =
     map (\<lambda>k. case map_of ps k of None \<Rightarrow> dst ! k | Some s \<Rightarrow> src ! s) [0..<length dst]"

definition block_pairs :: "nat \<Rightarrow> nat \<Rightarrow> nat \<Rightarrow> (nat \<times> nat) list" where
  "block_pairs d s n = map (\<lambda>j. (d + j, s + j)) [0..<n]"

lemma length_copy_elements [simp]: "length (copy_elements ps src dst) = length dst"
  by (simp add: copy_elements_def)

lemma copy_elements_Nil [simp]: "copy_elements [] src dst = dst"
  by (rule nth_equalityI) (simp_all add: copy_elements_def)

lemma copy_elements_hit:
  assumes "distinct (map fst ps)" "(d, s) \<in> set ps" "d < length dst"
  shows "copy_elements ps src dst ! d = src ! s"
  using assms map_of_is_SomeI[OF assms(1,2)] by (simp add: copy_elements_def)

lemma copy_elements_miss:
  assumes "d \<notin> fst ` set ps" "d < length dst"
  shows "copy_elements ps src dst ! d = dst ! d"
proof -
  have "map_of ps d = None" using assms(1) by (simp add: map_of_eq_None_iff)
  then show ?thesis using assms(2) by (simp add: copy_elements_def)
qed

lemma copy_elements_append:
  assumes "fst ` set ps \<inter> fst ` set qs = {}"
  shows "copy_elements qs src (copy_elements ps src dst) = copy_elements (ps @ qs) src dst"
proof (rule nth_equalityI)
  fix k assume "k < length (copy_elements qs src (copy_elements ps src dst))"
  moreover have "map_of qs k = None \<or> map_of ps k = None"
    using assms by (auto simp: map_of_eq_None_iff)
  ultimately show "copy_elements qs src (copy_elements ps src dst) ! k = copy_elements (ps @ qs) src dst ! k"
    by (auto simp: copy_elements_def map_add_def split: option.split)
qed simp

text \<open>Only the set of the pairs matters.\<close>

lemma copy_elements_cong:
  assumes "distinct (map fst ps)" "distinct (map fst qs)" "set ps = set qs"
  shows "copy_elements ps src dst = copy_elements qs src dst"
  using map_of_inject_set[OF assms(1,2)] assms(3) by (simp add: copy_elements_def)

lemma copy_elements_step:
  assumes "distinct (map fst ps)" "(d, s) \<in> set ps" "d < length dst"
  shows "copy_elements (remove1 (d, s) ps) src (dst[d := src ! s]) = copy_elements ps src dst"
proof (rule nth_equalityI)
  have ps: "distinct ps" "distinct (map fst (remove1 (d, s) ps))"
    using assms(1) by (simp_all add: distinct_map inj_on_def distinct_remove1)
  have hit: "s' = s" if "(d, s') \<in> set ps" for s' using assms(1,2) that by (metis eq_key_imp_eq_value)
  fix k assume "k < length (copy_elements (remove1 (d, s) ps) src (dst[d := src ! s]))"
  then have k: "k < length dst" by simp
  show "copy_elements (remove1 (d, s) ps) src (dst[d := src ! s]) ! k = copy_elements ps src dst ! k"
  proof (cases "k = d")
    case True
    have "d \<notin> fst ` set (remove1 (d, s) ps)" using hit ps(1) by (auto simp: set_remove1_eq)
    then have "copy_elements (remove1 (d, s) ps) src (dst[d := src ! s]) ! d = src ! s"
      using assms(3) by (simp add: copy_elements_miss)
    with True copy_elements_hit[OF assms] show ?thesis by simp
  next
    case False
    show ?thesis
    proof (cases "k \<in> fst ` set ps")
      case True
      then obtain v where v: "(k, v) \<in> set ps" by force
      then have "(k, v) \<in> set (remove1 (d, s) ps)" using False by simp
      with k show ?thesis by (simp add: copy_elements_hit[OF ps(2)] copy_elements_hit[OF assms(1) v])
    next
      case no: False
      then have "k \<notin> fst ` set (remove1 (d, s) ps)" using set_remove1_subset[of "(d, s)" ps] by blast
      with no k False show ?thesis by (simp add: copy_elements_miss)
    qed
  qed
qed simp

lemma length_block_pairs [simp]: "length (block_pairs d s n) = n"
  by (simp add: block_pairs_def)

lemma block_pairs_0 [simp]: "block_pairs d s 0 = []"
  by (simp add: block_pairs_def)

lemma swap_block_pairs: "map prod.swap (block_pairs d s n) = block_pairs s d n"
  by (simp add: block_pairs_def comp_def)

lemma map_of_block_pairs: "map_of (block_pairs d s n) k = (if d \<le> k \<and> k < d + n then Some (s + (k - d)) else None)"
proof (cases "d \<le> k \<and> k < d + n")
  case True
  have "distinct (map fst (block_pairs d s n))" by (simp add: block_pairs_def comp_def distinct_map inj_on_def)
  moreover have "(k, s + (k - d)) \<in> set (block_pairs d s n)"
    using True unfolding block_pairs_def by (auto intro!: image_eqI[of _ _ "k - d"])
  ultimately show ?thesis using True by (simp add: map_of_is_SomeI)
next
  case False
  then show ?thesis by (auto simp: map_of_eq_None_iff block_pairs_def)
qed

lemma memcpy_elements:
  assumes "d + n \<le> length dst" "s + n \<le> length src"
  shows "memcpy dst d src s n = Some (copy_elements (block_pairs d s n) src dst)"
proof -
  have "splice dst d (take n (drop s src)) = copy_elements (block_pairs d s n) src dst"
    using assms by (intro nth_equalityI) (auto simp: copy_elements_def map_of_block_pairs nth_splice)
  with assms show ?thesis by (simp add: mem_simps)
qed

section \<open>A block that wraps around\<close>

text \<open>Element \<open>i\<close> of a block at position \<open>p\<close> of a ring that begins at index \<open>b\<close>.\<close>

definition slot_pairs :: "nat \<Rightarrow> nat \<Rightarrow> nat \<Rightarrow> nat \<Rightarrow> (nat \<times> nat) list" where
  "slot_pairs b cap p n = map (\<lambda>i. (b + (p + i) mod cap, i)) [0..<n]"

lemma length_slot_pairs [simp]: "length (slot_pairs b cap p n) = n"
  by (simp add: slot_pairs_def)

lemma set_slot_pairs: "set (slot_pairs b cap p n) = (\<lambda>i. (b + (p + i) mod cap, i)) ` {..<n}"
  by (auto simp: slot_pairs_def)

lemma mod_slot_eq:
  fixes cap :: nat
  assumes "n \<le> cap" "i < n" "j < n" "(p + i) mod cap = (p + j) mod cap" shows "i = j"
proof (rule ccontr)
  have lt: "i - j < cap" "j - i < cap" using assms(1-3) by linarith+
  assume "i \<noteq> j"
  then have "p + i < p + j \<or> p + j < p + i" by linarith
  then show False using mod_slot_inj[of "p + i" "p + j" cap] mod_slot_inj[of "p + j" "p + i" cap] lt assms(4) by auto
qed

lemma distinct_slot_pairs: "n \<le> cap \<Longrightarrow> distinct (map fst (slot_pairs b cap p n))" "distinct (map snd (slot_pairs b cap p n))"
  by (auto simp: slot_pairs_def comp_def distinct_map intro!: inj_onI dest: mod_slot_eq[of n])

text \<open>The two chunks of the code are the block.\<close>

lemma two_chunks:
  assumes n: "n \<le> cap" "0 < cap" and first: "first = min n (cap - p mod cap)"
  shows "block_pairs (b + p mod cap) 0 first @ block_pairs b first (n - first) = slot_pairs b cap p n"
proof (rule nth_equalityI)
  show "length (block_pairs (b + p mod cap) 0 first @ block_pairs b first (n - first)) = length (slot_pairs b cap p n)"
    using first by simp
  fix i assume "i < length (block_pairs (b + p mod cap) 0 first @ block_pairs b first (n - first))"
  then have i: "i < n" using first by simp
  have x: "p mod cap < cap" using n(2) by simp
  show "(block_pairs (b + p mod cap) 0 first @ block_pairs b first (n - first)) ! i = slot_pairs b cap p n ! i"
    using i x first n mod_slot[of i cap p] by (auto simp: nth_append block_pairs_def slot_pairs_def)
qed

text \<open>Both directions of a copy in two chunks.\<close>

lemma memcpy_two_chunks:
  assumes n: "n \<le> cap" "0 < cap" and first: "first = min n (cap - p mod cap)"
    and len: "b + cap \<le> length ringbuf" "n \<le> length buf"
  shows "memcpy ringbuf (b + p mod cap) buf 0 first \<bind>
      (\<lambda>m. if first < n then memcpy m b buf first (n - first) else Some m) =
      Some (copy_elements (slot_pairs b cap p n) buf ringbuf)"
    "memcpy buf 0 ringbuf (b + p mod cap) first \<bind>
      (\<lambda>m. if first < n then memcpy m first ringbuf b (n - first) else Some m) =
      Some (copy_elements (map prod.swap (slot_pairs b cap p n)) ringbuf buf)"
proof -
  have x: "p mod cap < cap" using n(2) by simp
  have "first \<le> cap - p mod cap" "first \<le> n" "n - first \<le> cap" using first n(1) by simp_all
  then have fit: "b + p mod cap + first \<le> length ringbuf" "first \<le> length buf" "first \<le> n" "b + (n - first) \<le> length ringbuf"
    using x len by linarith+
  let ?P = "block_pairs (b + p mod cap) 0 first" and ?Q = "block_pairs b first (n - first)"
  have s: "slot_pairs b cap p n = ?P @ ?Q" using two_chunks[OF n first, of b] by simp
  have d: "fst ` set ?P \<inter> fst ` set ?Q = {}" "snd ` set ?P \<inter> snd ` set ?Q = {}"
    using distinct_slot_pairs(1)[OF n(1), of b p] unfolding s by (simp, auto simp: block_pairs_def)
  then have d': "fst ` set (map prod.swap ?P) \<inter> fst ` set (map prod.swap ?Q) = {}"
    by (simp add: image_image)
  show "memcpy ringbuf (b + p mod cap) buf 0 first \<bind>
      (\<lambda>m. if first < n then memcpy m b buf first (n - first) else Some m) =
      Some (copy_elements (slot_pairs b cap p n) buf ringbuf)"
    using fit len by (cases "first < n") (simp_all add: memcpy_elements s copy_elements_append[OF d(1)])
  show "memcpy buf 0 ringbuf (b + p mod cap) first \<bind>
      (\<lambda>m. if first < n then memcpy m first ringbuf b (n - first) else Some m) =
      Some (copy_elements (map prod.swap (slot_pairs b cap p n)) ringbuf buf)"
    using fit len copy_elements_append[OF d', of ringbuf buf]
    by (cases "first < n") (simp_all add: memcpy_elements s swap_block_pairs)
qed

section \<open>A block of frames\<close>

text \<open>
  Frames of \<open>c\<close> samples each, stored one after the other in the ring as in the buffer: frames
  \<open>d\<close> to \<open>n\<close> of a block at position \<open>p\<close>.
\<close>

definition frame_pairs :: "nat \<Rightarrow> nat \<Rightarrow> nat \<Rightarrow> nat \<Rightarrow> nat \<Rightarrow> (nat \<times> nat) list" where
  "frame_pairs cap c p d n = concat (map (\<lambda>i. block_pairs ((p + i) mod cap * c) (i * c) c) [d..<n])"

lemma frame_pairs_empty [simp]: "frame_pairs cap c p n n = []"
  by (simp add: frame_pairs_def)

lemma frame_pairs_append:
  assumes "d \<le> m" "m \<le> n"
  shows "frame_pairs cap c p d n = frame_pairs cap c p d m @ frame_pairs cap c p m n"
proof -
  have "[d..<n] = [d..<m] @ [m..<n]" using assms by (metis le_add_diff_inverse upt_add_eq_append)
  then show ?thesis by (simp add: frame_pairs_def)
qed

lemma set_frame_pairs:
  "set (frame_pairs cap c p d n) = (\<lambda>(i, k). ((p + i) mod cap * c + k, i * c + k)) ` ({d..<n} \<times> {..<c})"
  by (force simp: frame_pairs_def block_pairs_def)

text \<open>Frames whose slots follow one another are one contiguous block.\<close>

lemma block_pairs_add: "block_pairs d s (m + n) = block_pairs d s m @ block_pairs (d + m) (s + m) n"
  by (rule nth_equalityI) (auto simp: block_pairs_def nth_append)

lemma frame_pairs_run:
  assumes "\<And>j. j < m \<Longrightarrow> (p + (d + j)) mod cap = x + j"
  shows "frame_pairs cap c p d (d + m) = block_pairs (x * c) (d * c) (m * c)"
  using assms
proof (induction m)
  case (Suc m)
  have "frame_pairs cap c p d (d + Suc m) = frame_pairs cap c p d (d + m) @ block_pairs ((x + m) * c) ((d + m) * c) c"
    using Suc.prems[of m] by (subst frame_pairs_append[of d "d + m"]) (simp_all add: frame_pairs_def)
  then show ?case using Suc block_pairs_add[of "x * c" "d * c" "m * c" c] by (simp add: add_mult_distrib add.commute)
qed simp

lemma distinct_frame_pairs:
  assumes "n \<le> cap"
  shows "distinct (map fst (frame_pairs cap c p d n))" "distinct (map snd (frame_pairs cap c p d n))"
proof -
  have "map snd (frame_pairs cap c p d n) = [d * c..<n * c]" if "d \<le> n"
    using that
  proof (induction n rule: dec_induct)
    case (step m)
    have "[d * c..<Suc m * c] = [d * c..<m * c] @ [m * c..<m * c + c]"
      using step(1) by (metis add.commute mult_Suc mult_le_mono1 upt_add_eq_append)
    then show ?case using step by (simp add: frame_pairs_append[of d m "Suc m"] frame_pairs_def block_pairs_def comp_def map_add_upt add.commute)
  qed simp
  then show snd: "distinct (map snd (frame_pairs cap c p d n))" by (cases "d \<le> n") (simp_all add: frame_pairs_def)
  have "inj_on fst (set (frame_pairs cap c p d n))"
  proof (rule inj_onI, clarsimp simp: set_frame_pairs)
    fix i k i' k' assume "i < n" "k < c" "i' < n" "k' < c" "(p + i) mod cap * c + k = (p + i') mod cap * c + k'"
    then have "(p + i) mod cap = (p + i') mod cap \<and> k = k'" using block_index_inject[of k c k'] by simp
    with mod_slot_eq[OF assms \<open>i < n\<close> \<open>i' < n\<close>, of p] show "i * c + k = i' * c + k'" by simp
  qed
  with snd show "distinct (map fst (frame_pairs cap c p d n))" by (simp add: distinct_map)
qed

lemma frame_pairs_in_ring:
  assumes "(d, s) \<in> set (frame_pairs cap c p i n)" "0 < cap"
  shows "d < cap * c" "s < n * c"
proof -
  obtain j k where "i \<le> j" "j < n" "k < c" "d = (p + j) mod cap * c + k" "s = j * c + k" using assms(1) by (auto simp: set_frame_pairs)
  then show "d < cap * c" "s < n * c"
    using block_index_less[of "(p + j) mod cap" cap k c] block_index_less[of j n k c] assms(2) by (simp_all add: mult.commute)
qed

end
