(* ===== verification/SharedAudio.thy ===== *)
theory SharedAudio
  imports BlockCopies
begin

text \<open>
  The shared memory audio ring of \<open>src/shared_audio.h\<close> and \<open>src/shared_audio.c\<close>: the header,
  the sample area and every operation on them.  The record \<open>shared_ring\<close> is the memory
  that the \<open>header\<close> and \<open>samples\<close> pointers of a \<open>SharedAudio\<close> handle reach; the handle itself
  is in \<open>SharedAudioShm\<close>.  Samples are of any type with a zero, the value of silence.
\<close>

section \<open>Data\<close>

record SharedAudioHeader =
  h_magic :: u32
  h_abi_version :: u32
  h_header_bytes :: u32
  h_sample_rate :: u32
  h_channels :: u32
  h_capacity_frames :: u32
  h_write_pos :: u64
  h_read_pos :: u64
  h_underruns :: u64
  h_overruns :: u64
  h_dropped_packets :: u64
  h_resets :: u64
  h_inserted_frames :: u64
  h_dropped_frames :: u64
  h_clock_seq :: u64
  h_clock_host_time :: u64
  h_clock_sample_pos :: u64

record 'a shared_ring =
  header :: SharedAudioHeader
  samples :: "'a list"

abbreviation (input) SHARED_AUDIO_MAX_CORRECTION :: u32 where "SHARED_AUDIO_MAX_CORRECTION \<equiv> 8"

section \<open>Operations\<close>

definition load_pos :: "u64 \<Rightarrow> u64" where
  "load_pos pos = pos"

definition store_write_pos :: "'a shared_ring \<Rightarrow> u64 \<Rightarrow> 'a shared_ring" where
  "store_write_pos a value = a\<lparr>header := (header a)\<lparr>h_write_pos := value\<rparr>\<rparr>"

definition store_read_pos :: "'a shared_ring \<Rightarrow> u64 \<Rightarrow> 'a shared_ring" where
  "store_read_pos a value = a\<lparr>header := (header a)\<lparr>h_read_pos := value\<rparr>\<rparr>"

definition shared_audio_writable_frames :: "'a shared_ring \<Rightarrow> u32" where
  "shared_audio_writable_frames a =
     (let used = load_pos (h_write_pos (header a)) - load_pos (h_read_pos (header a))
      in h_capacity_frames (header a) - ucast used)"

definition shared_audio_readable_frames :: "'a shared_ring \<Rightarrow> u32" where
  "shared_audio_readable_frames a =
     ucast (load_pos (h_write_pos (header a)) - load_pos (h_read_pos (header a)))"

text \<open>The body of the channel loop of \<open>shared_audio_write\<close>.\<close>

definition write_channel ::
  "nat \<Rightarrow> nat \<Rightarrow> nat \<Rightarrow> nat \<Rightarrow> 'a list list \<Rightarrow> nat \<Rightarrow> 'a list \<Rightarrow> 'a list option" where
  "write_channel capacity index first frames channels ch smp =
     do { chan \<leftarrow> rd channels ch;
          smp1 \<leftarrow> memcpy smp (ch * capacity + index) chan 0 first;
          if first < frames then memcpy smp1 (ch * capacity) chan first (frames - first)
          else Some smp1 }"

definition shared_audio_write ::
  "'a shared_ring \<Rightarrow> 'a list list \<Rightarrow> u32 \<Rightarrow> ('a shared_ring \<times> int) option" where
  "shared_audio_write a channels frames =
     (if frames > shared_audio_writable_frames a
      then Some (a\<lparr>header := (header a)\<lparr>h_overruns := h_overruns (header a) + 1\<rparr>\<rparr>, - 1)
      else
        let write_pos = load_pos (h_write_pos (header a));
            capacity = h_capacity_frames (header a)
        in if capacity = 0 then None
           else
             let index = ucast (write_pos mod ucast capacity) :: u32;
                 first = (if frames < capacity - index then frames else capacity - index)
             in do {
               smp \<leftarrow> for_each (write_channel (unat capacity) (unat index) (unat first) (unat frames) channels)
                        [0..<unat (h_channels (header a))] (samples a);
               Some (store_write_pos (a\<lparr>samples := smp\<rparr>) (write_pos + ucast frames), 0) })"

text \<open>The body of the channel loop of \<open>shared_audio_read\<close>; the state is the output buffers.\<close>

definition read_channel ::
  "('a::zero) list \<Rightarrow> nat \<Rightarrow> nat \<Rightarrow> nat \<Rightarrow> nat \<Rightarrow> nat \<Rightarrow> nat \<Rightarrow> 'a list list \<Rightarrow> 'a list list option" where
  "read_channel smp capacity index first to_read frames ch outs =
     do { chan \<leftarrow> rd outs ch;
          c1 \<leftarrow> memcpy chan 0 smp (ch * capacity + index) first;
          c2 \<leftarrow> (if first < to_read then memcpy c1 first smp (ch * capacity) (to_read - first) else Some c1);
          c3 \<leftarrow> (if to_read < frames then memset c2 to_read 0 (frames - to_read) else Some c2);
          wr outs ch c3 }"

definition note_underrun :: "bool \<Rightarrow> 'a shared_ring \<Rightarrow> 'a shared_ring" where
  "note_underrun short a =
     (if short then a\<lparr>header := (header a)\<lparr>h_underruns := h_underruns (header a) + 1\<rparr>\<rparr> else a)"

definition frames_to_read :: "'a shared_ring \<Rightarrow> u32 \<Rightarrow> u32" where
  "frames_to_read a frames =
     (let available = load_pos (h_write_pos (header a)) - load_pos (h_read_pos (header a))
      in if available < ucast frames then ucast available else frames)"

definition shared_audio_read ::
  "('a::zero) shared_ring \<Rightarrow> 'a list list \<Rightarrow> u32 \<Rightarrow> ('a shared_ring \<times> 'a list list \<times> u32) option" where
  "shared_audio_read a channels frames =
     (let read_pos = load_pos (h_read_pos (header a));
          to_read = frames_to_read a frames;
          capacity = h_capacity_frames (header a)
      in if capacity = 0 then None
         else
           let index = ucast (read_pos mod ucast capacity) :: u32;
               first = (if to_read < capacity - index then to_read else capacity - index)
           in do {
             outs \<leftarrow> for_each (read_channel (samples a) (unat capacity) (unat index) (unat first)
                                 (unat to_read) (unat frames))
                       [0..<unat (h_channels (header a))] channels;
             Some (store_read_pos (note_underrun (to_read < frames) a) (read_pos + ucast to_read),
                   outs, to_read) })"

text \<open>The two loops of \<open>shared_audio_read_interleaved\<close>, over channels and frames.\<close>

definition interleave_sample ::
  "'a list \<Rightarrow> u32 \<Rightarrow> u64 \<Rightarrow> nat \<Rightarrow> nat \<Rightarrow> nat \<Rightarrow> 'a list \<Rightarrow> 'a list option" where
  "interleave_sample smp capacity read_pos out_channels ch frame out =
     (if capacity = 0 then None
      else do {
        v \<leftarrow> rd smp (ch * unat capacity +
               unat (ucast ((read_pos + of_nat frame) mod ucast capacity) :: u32));
        wr out (frame * out_channels + ch) v })"

definition shared_audio_read_interleaved ::
  "('a::zero) shared_ring \<Rightarrow> 'a list \<Rightarrow> u16 \<Rightarrow> u32 \<Rightarrow> ('a shared_ring \<times> 'a list \<times> u32) option" where
  "shared_audio_read_interleaved a out out_channels frames =
     (let read_pos = load_pos (h_read_pos (header a));
          to_read = frames_to_read a frames;
          capacity = h_capacity_frames (header a);
          copy_channels = (if h_channels (header a) < ucast out_channels
                           then h_channels (header a) else ucast out_channels)
      in do {
        out0 \<leftarrow> memset out 0 0 (unat frames * unat out_channels);
        out1 \<leftarrow> for_each
                  (\<lambda>ch. for_each (interleave_sample (samples a) capacity read_pos (unat out_channels) ch)
                          [0..<unat to_read])
                  [0..<unat copy_channels] out0;
        Some (store_read_pos (note_underrun (to_read < frames) a) (read_pos + ucast to_read),
              out1, to_read) })"

definition shared_audio_seek_to_fill :: "'a shared_ring \<Rightarrow> u32 \<Rightarrow> 'a shared_ring \<times> u32" where
  "shared_audio_seek_to_fill a target_fill =
     (let write_pos = load_pos (h_write_pos (header a));
          fill = write_pos - load_pos (h_read_pos (header a));
          new_fill = (if fill < ucast target_fill then ucast fill else target_fill) :: u32;
          a1 = store_read_pos a (write_pos - ucast new_fill)
      in (a1\<lparr>header := (header a1)\<lparr>h_resets := h_resets (header a1) + 1\<rparr>\<rparr>, new_fill))"

definition shared_audio_read_interleaved_regulated ::
  "('a::zero) shared_ring \<Rightarrow> 'a list \<Rightarrow> u16 \<Rightarrow> u32 \<Rightarrow> u32 \<Rightarrow> u32 \<Rightarrow>
   ('a shared_ring \<times> 'a list \<times> u32) option" where
  "shared_audio_read_interleaved_regulated a out out_channels frames target_fill tolerance =
     (let read_pos = load_pos (h_read_pos (header a));
          fill = load_pos (h_write_pos (header a)) - read_pos
      in if fill > ucast target_fill + ucast tolerance then
           let excess = ucast (fill - ucast target_fill) :: u32;
               drop = (if excess < SHARED_AUDIO_MAX_CORRECTION then excess else SHARED_AUDIO_MAX_CORRECTION);
               a1 = store_read_pos a (read_pos + ucast drop);
               a2 = a1\<lparr>header := (header a1)\<lparr>h_dropped_frames := h_dropped_frames (header a1) + ucast drop\<rparr>\<rparr>
           in shared_audio_read_interleaved a2 out out_channels frames
         else if fill + ucast tolerance < ucast target_fill \<and> frames > 0 then
           let deficit = ucast (ucast target_fill - fill) :: u32;
               insert0 = (if deficit < SHARED_AUDIO_MAX_CORRECTION then deficit else SHARED_AUDIO_MAX_CORRECTION);
               insert = (if insert0 > frames then frames else insert0);
               oc = unat out_channels;
               tail = unat (frames - insert) * oc
           in do {
             (a1, out1, real) \<leftarrow> shared_audio_read_interleaved a out out_channels (frames - insert);
             if real > 0 then do {
               out2 \<leftarrow> for_each (\<lambda>i buf. memcpy_within buf (tail + i * oc) ((unat real - 1) * oc) oc)
                         [0..<unat insert] out1;
               Some (a1\<lparr>header := (header a1)\<lparr>h_inserted_frames :=
                          h_inserted_frames (header a1) + ucast insert\<rparr>\<rparr>, out2, real) }
             else do {
               out2 \<leftarrow> memset out1 tail 0 (unat insert * oc);
               Some (a1, out2, real) } }
         else shared_audio_read_interleaved a out out_channels frames)"

section \<open>Invariant and abstraction\<close>

text \<open>Natural number views of the header fields.\<close>

abbreviation cap_of :: "'a shared_ring \<Rightarrow> nat" where "cap_of a \<equiv> unat (h_capacity_frames (header a))"
abbreviation chans_of :: "'a shared_ring \<Rightarrow> nat" where "chans_of a \<equiv> unat (h_channels (header a))"
abbreviation wpos :: "'a shared_ring \<Rightarrow> nat" where "wpos a \<equiv> unat (h_write_pos (header a))"
abbreviation rpos :: "'a shared_ring \<Rightarrow> nat" where "rpos a \<equiv> unat (h_read_pos (header a))"

text \<open>
  A well-formed ring: the read position trails the write position by at most the capacity
  and the sample area holds one ring of samples per channel.
\<close>

definition ring_ok :: "'a shared_ring \<Rightarrow> bool" where
  "ring_ok a \<longleftrightarrow> 0 < cap_of a \<and> rpos a \<le> wpos a \<and> wpos a - rpos a \<le> cap_of a \<and>
     chans_of a * cap_of a \<le> length (samples a)"

definition fill_of :: "'a shared_ring \<Rightarrow> nat" where
  "fill_of a = wpos a - rpos a"

text \<open>The frame stored in a slot: one sample of every channel.\<close>

definition frame_at :: "'a shared_ring \<Rightarrow> nat \<Rightarrow> 'a list" where
  "frame_at a k = map (\<lambda>ch. samples a ! (ch * cap_of a + k)) [0..<chans_of a]"

definition ring_frames :: "'a shared_ring \<Rightarrow> 'a list list" where
  "ring_frames a = window (frame_at a) (cap_of a) (rpos a) (wpos a)"

text \<open>The frames held by one buffer per channel.\<close>

definition frames_of :: "nat \<Rightarrow> nat \<Rightarrow> 'a list list \<Rightarrow> 'a list list" where
  "frames_of C n chans = map (\<lambda>i. map (\<lambda>ch. chans ! ch ! i) [0..<C]) [0..<n]"

definition buffers_ok :: "nat \<Rightarrow> nat \<Rightarrow> 'a list list \<Rightarrow> bool" where
  "buffers_ok C n chans \<longleftrightarrow> C \<le> length chans \<and> (\<forall>ch < C. n \<le> length (chans ! ch))"

section \<open>Writing\<close>

lemma write_channel_spec:
  assumes cap: "n \<le> cap" "0 < cap" and first: "first = min n (cap - w mod cap)"
    and ch: "ch < length chans" "n \<le> length (chans ! ch)" and smp: "Suc ch * cap \<le> length smp"
  shows "\<exists>smp'. write_channel cap (w mod cap) first n chans ch smp = Some smp' \<and>
    length smp' = length smp \<and>
    (\<forall>i < n. smp' ! (ch * cap + (w + i) mod cap) = chans ! ch ! i) \<and>
    (\<forall>k < length smp. (\<forall>i < n. k \<noteq> ch * cap + (w + i) mod cap) \<longrightarrow> smp' ! k = smp ! k)"
proof -
  let ?P = "slot_pairs (ch * cap) cap w n"
  have room: "ch * cap + cap \<le> length smp" using smp by simp
  have "write_channel cap (w mod cap) first n chans ch smp = Some (copy_elements ?P (chans ! ch) smp)"
    using memcpy_two_chunks(1)[OF cap first room ch(2)] ch(1) by (simp add: write_channel_def rd_Some)
  moreover have "copy_elements ?P (chans ! ch) smp ! (ch * cap + (w + i) mod cap) = chans ! ch ! i" if "i < n" for i
  proof (rule copy_elements_hit[OF distinct_slot_pairs(1)[OF cap(1)]])
    have "(w + i) mod cap < cap" using cap(2) by simp
    with room show "ch * cap + (w + i) mod cap < length smp" by linarith
  qed (use that in \<open>auto simp: set_slot_pairs\<close>)
  moreover have "copy_elements ?P (chans ! ch) smp ! k = smp ! k"
    if "k < length smp" "\<forall>i < n. k \<noteq> ch * cap + (w + i) mod cap" for k
    using that by (intro copy_elements_miss) (auto simp: set_slot_pairs)
  ultimately show ?thesis by simp
qed

lemma write_channels_spec:
  assumes cap: "n \<le> cap" "0 < cap" and first: "first = min n (cap - w mod cap)"
    and ch: "buffers_ok C n chans" and smp: "C * cap \<le> length smp"
  shows "\<exists>smp'. for_each (write_channel cap (w mod cap) first n chans) [0..<C] smp = Some smp' \<and>
    length smp' = length smp \<and>
    (\<forall>ch < C. \<forall>i < n. smp' ! (ch * cap + (w + i) mod cap) = chans ! ch ! i) \<and>
    (\<forall>k < length smp. (\<forall>ch < C. \<forall>i < n. k \<noteq> ch * cap + (w + i) mod cap) \<longrightarrow> smp' ! k = smp ! k)"
proof -
  let ?s = "\<lambda>ch i. ch * cap + (w + i) mod cap"
  have inj: "?s a i \<noteq> ?s b j" if "a \<noteq> b" for a b i j
    using that cap(2) by (simp add: block_index_inject)
  show ?thesis
  proof (rule for_each_range [where I = "\<lambda>c smp'. length smp' = length smp \<and>
      (\<forall>ch < c. \<forall>i < n. smp' ! ?s ch i = chans ! ch ! i) \<and>
      (\<forall>k < length smp. (\<forall>ch < c. \<forall>i < n. k \<noteq> ?s ch i) \<longrightarrow> smp' ! k = smp ! k)"])
    fix c s assume c: "c < C" and I: "length s = length smp \<and> (\<forall>ch < c. \<forall>i < n. s ! ?s ch i = chans ! ch ! i) \<and>
      (\<forall>k < length smp. (\<forall>ch < c. \<forall>i < n. k \<noteq> ?s ch i) \<longrightarrow> s ! k = smp ! k)"
    have "Suc c * cap \<le> C * cap" using c by (intro mult_le_mono1) simp
    with smp I have room: "Suc c * cap \<le> length s" by linarith
    have bufs: "c < length chans" "n \<le> length (chans ! c)" using ch c by (auto simp: buffers_ok_def)
    from write_channel_spec[OF cap first bufs room] obtain s' where s':
      "write_channel cap (w mod cap) first n chans c s = Some s'" "length s' = length s"
      "\<forall>i < n. s' ! ?s c i = chans ! c ! i"
      "\<forall>k < length s. (\<forall>i < n. k \<noteq> ?s c i) \<longrightarrow> s' ! k = s ! k" by blast
    have "s' ! ?s ch i = chans ! ch ! i" if "ch < Suc c" "i < n" for ch i
    proof (cases "ch = c")
      case True with s'(3) that show ?thesis by simp
    next
      case False
      have "?s ch i < C * cap"
        using that c cap(2) block_index_less[of ch C "(w + i) mod cap" cap] by (simp add: mult.commute)
      with False s'(4) inj smp I have "s' ! ?s ch i = s ! ?s ch i" by simp
      with False that I show ?thesis by simp
    qed
    with s' I show "\<exists>s'. write_channel cap (w mod cap) first n chans c s = Some s' \<and>
      length s' = length smp \<and> (\<forall>ch < Suc c. \<forall>i < n. s' ! ?s ch i = chans ! ch ! i) \<and>
      (\<forall>k < length smp. (\<forall>ch < Suc c. \<forall>i < n. k \<noteq> ?s ch i) \<longrightarrow> s' ! k = smp ! k)"
      by (intro exI [of _ s']) auto
  qed simp_all
qed

lemma unat_used:
  assumes "ring_ok a"
  shows "unat (h_write_pos (header a) - h_read_pos (header a)) = fill_of a"
  using assms by (simp add: ring_ok_def fill_of_def word_nat_simps)

lemma fill_bounds:
  assumes "ring_ok a"
  shows "fill_of a \<le> cap_of a" "fill_of a < 2 ^ 32"
proof -
  show le: "fill_of a \<le> cap_of a" using assms by (simp add: ring_ok_def fill_of_def)
  show "fill_of a < 2 ^ 32" using le_less_trans[OF le unat_u32_bound] by simp
qed

lemma readable_frames_nat: "ring_ok a \<Longrightarrow> unat (shared_audio_readable_frames a) = fill_of a"
  using fill_bounds(2)[of a] unat_used[of a]
  by (simp add: shared_audio_readable_frames_def load_pos_def word_nat_simps)

lemma writable_frames_nat: "ring_ok a \<Longrightarrow> unat (shared_audio_writable_frames a) = cap_of a - fill_of a"
proof -
  assume ok: "ring_ok a"
  have u: "unat (ucast (h_write_pos (header a) - h_read_pos (header a)) :: u32) = fill_of a"
    using fill_bounds(2)[OF ok] unat_used[OF ok] by (simp add: word_nat_simps)
  show ?thesis
    using fill_bounds(1)[OF ok] u
    by (simp add: shared_audio_writable_frames_def load_pos_def unat_sub_pos)
qed

lemma length_ring_frames: "length (ring_frames a) = fill_of a"
  by (simp add: ring_frames_def fill_of_def)

text \<open>Counters and clock fields do not matter for the audio in the ring.\<close>

lemma ring_view_cong:
  assumes "samples a' = samples a" "h_capacity_frames (header a') = h_capacity_frames (header a)"
    "h_channels (header a') = h_channels (header a)" "h_write_pos (header a') = h_write_pos (header a)"
    "h_read_pos (header a') = h_read_pos (header a)"
  shows "ring_ok a' = ring_ok a" "ring_frames a' = ring_frames a" "fill_of a' = fill_of a"
proof -
  have "frame_at a' = frame_at a" using assms by (simp add: frame_at_def fun_eq_iff)
  with assms show "ring_ok a' = ring_ok a" "ring_frames a' = ring_frames a" "fill_of a' = fill_of a"
    by (simp_all add: ring_ok_def ring_frames_def fill_of_def)
qed

lemma length_frames_of [simp]: "length (frames_of C n chans) = n"
  by (simp add: frames_of_def)

lemma unat_slot_index:
  "0 < unat (c :: u32) \<Longrightarrow> unat (ucast ((p :: u64) mod ucast c) :: u32) = unat p mod unat c"
proof -
  assume c: "0 < unat c"
  have "unat p mod unat c < 4294967296"
    using mod_less_divisor[OF c, of "unat p"] unat_u32_bound[of c] by linarith
  then show ?thesis by (simp add: unsigned_ucast_eq take_bit_nat_eq_self unat_mod)
qed

lemma unat_first_chunk:
  fixes n c :: u32
  assumes "x < c"
  shows "unat (if n < c - x then n else c - x) = min (unat n) (unat c - unat x)"
  using assms by (simp add: word_less_nat_alt unat_sub_pos min_def)

text \<open>The sample slot of frame \<open>i\<close> behind position \<open>p\<close>.\<close>

definition slot_of :: "'a shared_ring \<Rightarrow> nat \<Rightarrow> nat \<Rightarrow> nat \<Rightarrow> nat" where
  "slot_of a p ch i = ch * cap_of a + (p + i) mod cap_of a"

lemma slot_bound:
  assumes "ring_ok a" "ch < chans_of a" shows "slot_of a p ch i < length (samples a)"
proof -
  have "slot_of a p ch i < chans_of a * cap_of a"
    using assms block_index_less[of ch "chans_of a" "(p + i) mod cap_of a" "cap_of a"]
    by (simp add: slot_of_def ring_ok_def mult.commute)
  then show ?thesis using assms(1) unfolding ring_ok_def by linarith
qed

lemma live_slot_other:
  assumes ok: "ring_ok a" and j: "j < fill_of a" and i: "fill_of a + i < cap_of a"
  shows "slot_of a (rpos a) ch j \<noteq> slot_of a (wpos a) ch' i"
proof -
  have "rpos a + j < wpos a + i" "wpos a + i - (rpos a + j) < cap_of a" using ok j i by (auto simp: fill_of_def ring_ok_def)
  from mod_slot_inj[OF this] show ?thesis unfolding slot_of_def
    using ok by (subst block_index_inject) (auto simp: ring_ok_def)
qed

text \<open>Publishing a block whose samples are all stored appends its frames.\<close>

lemma publish_block:
  fixes n :: u32
  assumes ok: "ring_ok a" and fits: "fill_of a + unat n \<le> cap_of a" "wpos a + unat n < 2 ^ 64"
    and stored: "\<forall>ch < chans_of a. \<forall>i < unat n. samples a ! slot_of a (wpos a) ch i = chans ! ch ! i"
  defines "a' \<equiv> store_write_pos a (h_write_pos (header a) + ucast n)"
  shows "ring_ok a'" "ring_frames a' = ring_frames a @ frames_of (chans_of a) (unat n) chans" "fill_of a' = fill_of a + unat n"
    "samples a' = samples a" "h_capacity_frames (header a') = h_capacity_frames (header a)"
    "h_channels (header a') = h_channels (header a)" "h_read_pos (header a') = h_read_pos (header a)"
proof -
  show same: "samples a' = samples a" "h_capacity_frames (header a') = h_capacity_frames (header a)"
    "h_channels (header a') = h_channels (header a)" "h_read_pos (header a') = h_read_pos (header a)"
    by (simp_all add: a'_def store_write_pos_def)
  have w: "wpos a' = wpos a + unat n" using fits(2) by (simp add: a'_def store_write_pos_def word_nat_simps)
  show "ring_ok a'" "fill_of a' = fill_of a + unat n" using ok fits(1) w same by (auto simp: ring_ok_def fill_of_def)
  have "window (frame_at a') (cap_of a) (rpos a) (wpos a + length (frames_of (chans_of a) (unat n) chans)) =
      window (frame_at a) (cap_of a) (rpos a) (wpos a) @ frames_of (chans_of a) (unat n) chans"
  proof (rule window_append)
    show "rpos a \<le> wpos a" "wpos a - rpos a + length (frames_of (chans_of a) (unat n) chans) \<le> cap_of a"
      using ok fits(1) by (auto simp: ring_ok_def fill_of_def)
    show "frame_at a' ((wpos a + i) mod cap_of a) = frames_of (chans_of a) (unat n) chans ! i"
      if "i < length (frames_of (chans_of a) (unat n) chans)" for i
      using that stored same by (simp add: frame_at_def frames_of_def slot_of_def)
  qed (simp add: frame_at_def same)
  then show "ring_frames a' = ring_frames a @ frames_of (chans_of a) (unat n) chans"
    using w same by (simp add: ring_frames_def)
qed

lemma store_all_behind:
  assumes ok: "ring_ok a" and room: "fill_of a + n \<le> cap_of a" and len: "length smp = length (samples a)"
    and old: "\<forall>k < length smp. (\<forall>ch < chans_of a. \<forall>i < n. k \<noteq> slot_of a (wpos a) ch i) \<longrightarrow> smp ! k = samples a ! k"
  shows "ring_ok (a\<lparr>samples := smp\<rparr>)" "ring_frames (a\<lparr>samples := smp\<rparr>) = ring_frames a"
proof -
  show "ring_ok (a\<lparr>samples := smp\<rparr>)" using ok len by (simp add: ring_ok_def)
  have "smp ! slot_of a (rpos a) ch j = samples a ! slot_of a (rpos a) ch j" if "j < fill_of a" "ch < chans_of a" for ch j
    using old len slot_bound[OF ok that(2), of "rpos a" j] live_slot_other[OF ok that(1)] room by simp
  then have "frame_at (a\<lparr>samples := smp\<rparr>) ((rpos a + j) mod cap_of a) = frame_at a ((rpos a + j) mod cap_of a)"
    if "j < fill_of a" for j
    using that by (simp add: frame_at_def slot_of_def)
  then show "ring_frames (a\<lparr>samples := smp\<rparr>) = ring_frames a"
    by (intro nth_equalityI) (auto simp: length_ring_frames ring_frames_def nth_window fill_of_def)
qed

text \<open>An accepted write, down to the slots.\<close>

lemma shared_audio_write_samples:
  assumes ok: "ring_ok a" and bufs: "buffers_ok (chans_of a) (unat frames) chans"
    and room: "fill_of a + unat frames \<le> cap_of a"
  obtains smp where "shared_audio_write a chans frames =
      Some (store_write_pos (a\<lparr>samples := smp\<rparr>) (h_write_pos (header a) + ucast frames), 0)"
    "length smp = length (samples a)"
    "\<forall>ch < chans_of a. \<forall>i < unat frames. smp ! slot_of a (wpos a) ch i = chans ! ch ! i"
    "\<forall>k < length (samples a). (\<forall>ch < chans_of a. \<forall>i < unat frames. k \<noteq> slot_of a (wpos a) ch i) \<longrightarrow> smp ! k = samples a ! k"
proof -
  let ?C = "chans_of a" and ?cap = "cap_of a" and ?w = "wpos a" and ?n = "unat frames"
  let ?c = "h_capacity_frames (header a)"
  let ?x = "ucast (h_write_pos (header a) mod ucast ?c) :: u32"
  have cap: "?n \<le> ?cap" "0 < ?cap" "?C * ?cap \<le> length (samples a)"
    using ok room by (auto simp: ring_ok_def)
  have x: "unat ?x = ?w mod ?cap" using cap(2) by (rule unat_slot_index)
  then have "?x < ?c" using cap(2) by (simp add: word_less_nat_alt)
  from unat_first_chunk[OF this, of frames] x
  have first: "unat (if frames < ?c - ?x then frames else ?c - ?x) = min ?n (?cap - ?w mod ?cap)" by simp
  obtain smp where smp:
    "for_each (write_channel ?cap (?w mod ?cap) (min ?n (?cap - ?w mod ?cap)) ?n chans) [0..<?C] (samples a) = Some smp"
    "length smp = length (samples a)"
    "\<forall>ch < ?C. \<forall>i < ?n. smp ! (ch * ?cap + (?w + i) mod ?cap) = chans ! ch ! i"
    "\<forall>k < length (samples a). (\<forall>ch < ?C. \<forall>i < ?n. k \<noteq> ch * ?cap + (?w + i) mod ?cap) \<longrightarrow> smp ! k = samples a ! k"
    using write_channels_spec[OF cap(1,2) refl bufs cap(3)] by blast
  have guard: "\<not> frames > shared_audio_writable_frames a" "?c \<noteq> 0"
    using room writable_frames_nat[OF ok] cap(2) by (auto simp: word_less_nat_alt)
  have "shared_audio_write a chans frames = Some (store_write_pos (a\<lparr>samples := smp\<rparr>) (h_write_pos (header a) + ucast frames), 0)"
    using guard smp(1) by (simp only: shared_audio_write_def Let_def load_pos_def if_False first x) simp
  with smp show ?thesis by (intro that[of smp]) (simp_all add: slot_of_def)
qed

lemma shared_audio_write_accepts:
  assumes ok: "ring_ok a" and bufs: "buffers_ok (chans_of a) (unat frames) chans"
    and pos: "wpos a + unat frames < 2 ^ 64" and room: "fill_of a + unat frames \<le> cap_of a"
  shows "\<exists>smp. shared_audio_write a chans frames =
      Some (a\<lparr>samples := smp, header := (header a)\<lparr>h_write_pos := h_write_pos (header a) + ucast frames\<rparr>\<rparr>, 0) \<and>
    length smp = length (samples a) \<and>
    ring_frames (a\<lparr>samples := smp, header := (header a)\<lparr>h_write_pos := h_write_pos (header a) + ucast frames\<rparr>\<rparr>)
      = ring_frames a @ frames_of (chans_of a) (unat frames) chans"
proof -
  obtain smp where w: "shared_audio_write a chans frames =
      Some (store_write_pos (a\<lparr>samples := smp\<rparr>) (h_write_pos (header a) + ucast frames), 0)"
    and smp: "length smp = length (samples a)"
      "\<forall>ch < chans_of a. \<forall>i < unat frames. smp ! slot_of a (wpos a) ch i = chans ! ch ! i"
      "\<forall>k < length (samples a). (\<forall>ch < chans_of a. \<forall>i < unat frames. k \<noteq> slot_of a (wpos a) ch i) \<longrightarrow> smp ! k = samples a ! k"
    by (rule shared_audio_write_samples[OF ok bufs room])
  let ?b = "a\<lparr>samples := smp\<rparr>"
  have b: "ring_ok ?b" "ring_frames ?b = ring_frames a"
    using store_all_behind[OF ok room smp(1)] smp(1,3) by simp_all
  have "ring_frames (store_write_pos ?b (h_write_pos (header ?b) + ucast frames)) = ring_frames ?b @ frames_of (chans_of ?b) (unat frames) chans"
    using smp(2) room pos by (intro publish_block(2) b(1)) (simp_all add: slot_of_def fill_of_def)
  then show ?thesis using w smp(1) b(2) by (intro exI[of _ smp]) (simp add: store_write_pos_def)
qed

lemma shared_audio_write_rejects:
  assumes "ring_ok a" "cap_of a < fill_of a + unat frames"
  shows "shared_audio_write a chans frames =
    Some (a\<lparr>header := (header a)\<lparr>h_overruns := h_overruns (header a) + 1\<rparr>\<rparr>, - 1)"
proof -
  have "frames > shared_audio_writable_frames a"
    unfolding word_less_nat_alt writable_frames_nat[OF assms(1)]
    using assms(2) fill_bounds(1)[OF assms(1)] by linarith
  then show ?thesis by (simp add: shared_audio_write_def)
qed

section \<open>Reading\<close>

lemma frames_to_read_nat:
  assumes "ring_ok a"
  shows "unat (frames_to_read a frames) = min (unat frames) (fill_of a)"
proof -
  have u: "unat (ucast (h_write_pos (header a) - h_read_pos (header a)) :: u32) = fill_of a"
    using fill_bounds(2)[OF assms] unat_used[OF assms] by (simp add: word_nat_simps)
  have "h_write_pos (header a) - h_read_pos (header a) < ucast frames \<longleftrightarrow> fill_of a < unat frames"
    by (simp add: word_less_nat_alt unat_used[OF assms])
  with u show ?thesis by (simp add: frames_to_read_def load_pos_def min_def)
qed

text \<open>What a read leaves in one output buffer: real samples, silence, the old rest.\<close>

definition read_buffer :: "('a::zero) list \<Rightarrow> nat \<Rightarrow> nat \<Rightarrow> nat \<Rightarrow> nat \<Rightarrow> nat \<Rightarrow> 'a list \<Rightarrow> 'a list" where
  "read_buffer smp cap r t n ch chan =
     map (\<lambda>i. smp ! (ch * cap + (r + i) mod cap)) [0..<t] @ replicate (n - t) 0 @ drop n chan"

lemma read_channel_spec:
  fixes smp :: "('a::zero) list"
  assumes cap: "t \<le> cap" "0 < cap" and t: "t \<le> n" and first: "first = min t (cap - r mod cap)"
    and ch: "ch < length outs" "n \<le> length (outs ! ch)" and smp: "Suc ch * cap \<le> length smp"
  shows "read_channel smp cap (r mod cap) first t n ch outs =
    Some (outs[ch := read_buffer smp cap r t n ch (outs ! ch)])"
proof -
  let ?c = "outs ! ch" and ?P = "map prod.swap (slot_pairs (ch * cap) cap r t)"
  have room: "ch * cap + cap \<le> length smp" using smp by simp
  define c2 where "c2 = copy_elements ?P smp ?c"
  have len: "t \<le> length ?c" "length c2 = length ?c" using t ch(2) by (simp_all add: c2_def)
  have dist: "distinct (map fst ?P)" using distinct_slot_pairs(2)[of "ch * cap" cap r t] by (simp add: comp_def)
  have hit: "c2 ! k = smp ! (ch * cap + (r + k) mod cap)" if "k < t" for k
    unfolding c2_def using that len(1) by (intro copy_elements_hit[OF dist]) (auto simp: set_slot_pairs)
  have miss: "c2 ! k = ?c ! k" if "t \<le> k" "k < length ?c" for k
    unfolding c2_def using that by (intro copy_elements_miss) (auto simp: set_slot_pairs)
  obtain c1 where m: "memcpy ?c 0 smp (ch * cap + r mod cap) first = Some c1"
    "(if first < t then memcpy c1 first smp (ch * cap) (t - first) else Some c1) = Some c2"
    using memcpy_two_chunks(2)[OF cap first room len(1)] unfolding c2_def by (auto split: bind_splits)
  have "read_channel smp cap (r mod cap) first t n ch outs = Some (outs[ch := splice c2 t (replicate (n - t) 0)])"
    unfolding read_channel_def rd_Some[OF ch(1)] bind.bind_lunit m using ch t len(2) by (auto simp: mem_simps)
  moreover have "splice c2 t (replicate (n - t) 0) = read_buffer smp cap r t n ch ?c"
    using hit miss ch(2) t len(2) by (intro nth_equalityI) (auto simp: read_buffer_def nth_append nth_splice)
  ultimately show ?thesis by simp
qed

lemma read_channels_spec:
  fixes smp :: "('a::zero) list"
  assumes cap: "t \<le> cap" "0 < cap" and t: "t \<le> n" and first: "first = min t (cap - r mod cap)"
    and bufs: "buffers_ok C n outs" and smp: "C * cap \<le> length smp"
  shows "for_each (read_channel smp cap (r mod cap) first t n) [0..<C] outs =
    Some (map (\<lambda>ch. if ch < C then read_buffer smp cap r t n ch (outs ! ch) else outs ! ch) [0..<length outs])"
proof -
  let ?st = "\<lambda>c. map (\<lambda>ch. if ch < c then read_buffer smp cap r t n ch (outs ! ch) else outs ! ch) [0..<length outs]"
  have "\<exists>s'. for_each (read_channel smp cap (r mod cap) first t n) [0..<C] outs = Some s' \<and> s' = ?st C"
  proof (rule for_each_range [where I = "\<lambda>c s. s = ?st c"])
    fix c s assume c: "c < C" and s: "s = ?st c"
    have "Suc c * cap \<le> C * cap" using c by (intro mult_le_mono1) simp
    with smp have room: "Suc c * cap \<le> length smp" by linarith
    have len: "c < length outs" "n \<le> length (outs ! c)" using bufs c by (auto simp: buffers_ok_def)
    then have "c < length s" "n \<le> length (s ! c)" by (simp_all add: s)
    note rc = read_channel_spec[OF cap t first this room]
    have "s[c := read_buffer smp cap r t n c (s ! c)] = ?st (Suc c)"
      using len(1) by (intro nth_equalityI) (auto simp: s nth_list_update)
    with rc show "\<exists>s'. read_channel smp cap (r mod cap) first t n c s = Some s' \<and> s' = ?st (Suc c)"
      by simp
  qed (auto intro: nth_equalityI)
  then show ?thesis by simp
qed

text \<open>The state after a read: both read operations consume the same frames.\<close>

definition read_state :: "'a shared_ring \<Rightarrow> u32 \<Rightarrow> 'a shared_ring" where
  "read_state a frames =
     store_read_pos (note_underrun (frames_to_read a frames < frames) a)
       (h_read_pos (header a) + ucast (frames_to_read a frames))"

lemma store_read_pos_sel [simp]:
  "samples (store_read_pos a p) = samples a"
  "header (store_read_pos a p) = (header a)\<lparr>h_read_pos := p\<rparr>"
  by (simp_all add: store_read_pos_def)

lemma note_underrun_sel [simp]:
  "samples (note_underrun b a) = samples a"
  "h_capacity_frames (header (note_underrun b a)) = h_capacity_frames (header a)"
  "h_channels (header (note_underrun b a)) = h_channels (header a)"
  "h_write_pos (header (note_underrun b a)) = h_write_pos (header a)"
  "h_read_pos (header (note_underrun b a)) = h_read_pos (header a)"
  by (simp_all add: note_underrun_def)

lemma read_state_sel [simp]:
  "samples (read_state a n) = samples a"
  "h_capacity_frames (header (read_state a n)) = h_capacity_frames (header a)"
  "h_channels (header (read_state a n)) = h_channels (header a)"
  "h_write_pos (header (read_state a n)) = h_write_pos (header a)"
  by (simp_all add: read_state_def)

lemma advance_read_pos:
  assumes ok: "ring_ok a" and k: "unat (k :: u32) \<le> fill_of a"
    and a': "samples a' = samples a" "h_capacity_frames (header a') = h_capacity_frames (header a)"
      "h_channels (header a') = h_channels (header a)" "h_write_pos (header a') = h_write_pos (header a)"
      "h_read_pos (header a') = h_read_pos (header a) + ucast k"
  shows "ring_ok a'" "ring_frames a' = drop (unat k) (ring_frames a)" "fill_of a' = fill_of a - unat k"
    "rpos a' = rpos a + unat k"
proof -
  have "rpos a + unat k \<le> wpos a" using ok k unfolding ring_ok_def fill_of_def by linarith
  from le_less_trans[OF this unat_u64_bound] have "rpos a + unat k < 2 ^ 64" by simp
  then show r: "rpos a' = rpos a + unat k" by (simp add: a' word_nat_simps)
  show "ring_ok a'" "fill_of a' = fill_of a - unat k"
    using ok k by (auto simp: ring_ok_def fill_of_def r a'(1-4))
  have "frame_at a' = frame_at a" by (simp add: frame_at_def a' fun_eq_iff)
  then show "ring_frames a' = drop (unat k) (ring_frames a)"
    by (simp add: ring_frames_def r a'(1-4) window_drop)
qed

lemma read_state_spec:
  assumes ok: "ring_ok a"
  shows "ring_ok (read_state a n)" "ring_frames (read_state a n) = drop (unat n) (ring_frames a)"
    "fill_of (read_state a n) = fill_of a - unat n"
    "rpos (read_state a n) = rpos a + min (unat n) (fill_of a)"
    "h_underruns (header (read_state a n)) =
       h_underruns (header a) + (if fill_of a < unat n then 1 else 0)"
proof -
  note t = frames_to_read_nat[OF ok, of n]
  have k: "unat (frames_to_read a n) \<le> fill_of a" by (simp add: t)
  note adv = advance_read_pos[OF ok k, of "read_state a n"]
  show "ring_ok (read_state a n)" by (rule adv) (simp_all add: read_state_def)
  have "ring_frames (read_state a n) = drop (unat (frames_to_read a n)) (ring_frames a)"
    by (rule adv) (simp_all add: read_state_def)
  then show "ring_frames (read_state a n) = drop (unat n) (ring_frames a)"
    by (simp add: t min_def length_ring_frames)
  have "fill_of (read_state a n) = fill_of a - unat (frames_to_read a n)"
    by (rule adv) (simp_all add: read_state_def)
  then show "fill_of (read_state a n) = fill_of a - unat n" by (simp add: t min_def)
  have "rpos (read_state a n) = rpos a + unat (frames_to_read a n)"
    by (rule adv) (simp_all add: read_state_def)
  then show "rpos (read_state a n) = rpos a + min (unat n) (fill_of a)" by (simp add: t)
  have "frames_to_read a n < n \<longleftrightarrow> fill_of a < unat n" by (auto simp: word_less_nat_alt t)
  then show "h_underruns (header (read_state a n)) =
       h_underruns (header a) + (if fill_of a < unat n then 1 else 0)"
    by (simp add: read_state_def note_underrun_def)
qed

lemma nth_ring_frames:
  "i < fill_of a \<Longrightarrow> ring_frames a ! i = frame_at a ((rpos a + i) mod cap_of a)"
  by (simp add: ring_frames_def fill_of_def nth_window)

lemma shared_audio_read_spec:
  fixes a :: "('a::zero) shared_ring"
  assumes ok: "ring_ok a" and bufs: "buffers_ok (chans_of a) (unat frames) outs"
  shows "\<exists>outs'. shared_audio_read a outs frames = Some (read_state a frames, outs', frames_to_read a frames) \<and>
    length outs' = length outs \<and>
    (\<forall>ch < chans_of a. outs' ! ch =
       map (\<lambda>f. f ! ch) (take (unat frames) (ring_frames a)) @
       replicate (unat frames - fill_of a) 0 @ drop (unat frames) (outs ! ch))"
proof -
  let ?C = "chans_of a" and ?cap = "cap_of a" and ?r = "rpos a" and ?n = "unat frames"
  let ?t = "frames_to_read a frames" and ?c = "h_capacity_frames (header a)"
  let ?x = "ucast (h_read_pos (header a) mod ucast ?c) :: u32"
  note t = frames_to_read_nat[OF ok, of frames]
  have cap: "unat ?t \<le> ?cap" "0 < ?cap" "?C * ?cap \<le> length (samples a)" "unat ?t \<le> ?n"
    using ok fill_bounds(1)[OF ok] by (auto simp: ring_ok_def t)
  have x: "unat ?x = ?r mod ?cap" using cap(2) by (rule unat_slot_index)
  then have "?x < ?c" using cap(2) by (simp add: word_less_nat_alt)
  from unat_first_chunk[OF this, of ?t] x
  have first: "unat (if ?t < ?c - ?x then ?t else ?c - ?x) = min (unat ?t) (?cap - ?r mod ?cap)" by simp
  let ?outs' = "map (\<lambda>ch. if ch < ?C then read_buffer (samples a) ?cap ?r (unat ?t) ?n ch (outs ! ch) else outs ! ch)
      [0..<length outs]"
  note rc = read_channels_spec[OF cap(1,2,4) refl bufs cap(3), of ?r]
  have c0: "?c \<noteq> 0" using cap(2) by auto
  have res: "shared_audio_read a outs frames = Some (read_state a frames, ?outs', ?t)"
    using c0 rc
    by (simp only: shared_audio_read_def Let_def load_pos_def if_False first x)
      (simp add: read_state_def)
  moreover have "?outs' ! ch = map (\<lambda>f. f ! ch) (take ?n (ring_frames a)) @
       replicate (?n - fill_of a) 0 @ drop ?n (outs ! ch)" if ch: "ch < ?C" for ch
  proof -
    have "map (\<lambda>f. f ! ch) (take ?n (ring_frames a)) =
        map (\<lambda>i. samples a ! (ch * ?cap + (?r + i) mod ?cap)) [0..<unat ?t]"
      using ch by (intro nth_equalityI) (auto simp: length_ring_frames t nth_ring_frames frame_at_def)
    moreover have "?n - unat ?t = ?n - fill_of a" by (simp add: t min_def)
    moreover have "ch < length outs" using bufs ch by (simp add: buffers_ok_def)
    ultimately show ?thesis using ch by (simp add: read_buffer_def)
  qed
  ultimately show ?thesis by (intro exI [of _ ?outs']) auto
qed

section \<open>Interleaved reading\<close>

text \<open>
  A partly filled interleaved buffer: channels below \<open>c\<close> hold all \<open>t\<close> frames, channel \<open>c\<close>
  holds \<open>f\<close> of them.
\<close>

definition interleaving :: "nat \<Rightarrow> (nat \<Rightarrow> nat \<Rightarrow> 'a) \<Rightarrow> nat \<Rightarrow> nat \<Rightarrow> nat \<Rightarrow> 'a list \<Rightarrow> 'a list" where
  "interleaving oc v t c f buf =
     map (\<lambda>k. if k mod oc < c \<and> k div oc < t \<or> k mod oc = c \<and> k div oc < f
              then v (k div oc) (k mod oc) else buf ! k) [0..<length buf]"

lemma interleaving_next_channel: "interleaving oc v t c t buf = interleaving oc v t (Suc c) 0 buf"
  by (auto simp: interleaving_def less_Suc_eq)

lemma interleaving_next_frame:
  assumes "c < oc" "f * oc + c < length buf"
  shows "(interleaving oc v t c f buf)[f * oc + c := v f c] = interleaving oc v t c (Suc f) buf"
proof (rule nth_equalityI)
  fix k assume "k < length ((interleaving oc v t c f buf)[f * oc + c := v f c])"
  then have k: "k < length buf" by (simp add: interleaving_def)
  have "k = f * oc + c \<longleftrightarrow> k mod oc = c \<and> k div oc = f"
    using assms(1) by (metis block_index_inject div_mult_mod_eq mod_less_divisor not_less_zero neq0_conv)
  with k assms show "(interleaving oc v t c f buf)[f * oc + c := v f c] ! k =
      interleaving oc v t c (Suc f) buf ! k"
    by (auto simp: interleaving_def nth_list_update less_Suc_eq)
qed (simp add: interleaving_def)

lemma interleaving_start: "interleaving oc v t 0 0 buf = buf"
  by (rule nth_equalityI) (simp_all add: interleaving_def)

lemma interleave_sample_value:
  fixes a :: "('a::zero) shared_ring"
  assumes ok: "ring_ok a" and f: "f < fill_of a" and c: "c < chans_of a" and len: "f * oc + c < length buf"
  shows "interleave_sample (samples a) (h_capacity_frames (header a)) (h_read_pos (header a)) oc c f buf =
    Some (buf[f * oc + c := ring_frames a ! f ! c])"
proof -
  let ?cap = "cap_of a"
  have pos: "rpos a + f < wpos a" using f by (simp add: fill_of_def)
  from less_trans[OF this unat_u64_bound] have r64: "rpos a + f < 18446744073709551616" .
  then have "unat (h_read_pos (header a) + of_nat f) = rpos a + f"
    by (subst unat_add_nowrap) (simp_all add: word_nat_simps)
  moreover have cap: "0 < ?cap" "chans_of a * ?cap \<le> length (samples a)" using ok by (auto simp: ring_ok_def)
  ultimately have idx: "unat (ucast ((h_read_pos (header a) + of_nat f) mod ucast (h_capacity_frames (header a))) :: u32)
      = (rpos a + f) mod ?cap" by (simp add: unat_slot_index)
  have "c * ?cap + (rpos a + f) mod ?cap < chans_of a * ?cap"
    using c cap(1) block_index_less[of c "chans_of a" "(rpos a + f) mod ?cap" ?cap] by (simp add: mult.commute)
  with cap(2) have bound: "c * ?cap + (rpos a + f) mod ?cap < length (samples a)" by linarith
  have val: "samples a ! (c * ?cap + (rpos a + f) mod ?cap) = ring_frames a ! f ! c"
    using f c by (simp add: nth_ring_frames frame_at_def)
  have "h_capacity_frames (header a) \<noteq> 0" using cap(1) by auto
  then show ?thesis using bound val len by (simp add: interleave_sample_def idx mem_simps)
qed

lemma interleave_sample_spec:
  fixes a :: "('a::zero) shared_ring"
  assumes ok: "ring_ok a" and f: "f < fill_of a" and c: "c < chans_of a" "c < oc"
    and len: "f * oc + c < length buf"
  shows "interleave_sample (samples a) (h_capacity_frames (header a)) (h_read_pos (header a)) oc c f
      (interleaving oc (\<lambda>f ch. ring_frames a ! f ! ch) t c f buf) =
    Some (interleaving oc (\<lambda>f ch. ring_frames a ! f ! ch) t c (Suc f) buf)"
proof -
  have "f * oc + c < length (interleaving oc (\<lambda>f ch. ring_frames a ! f ! ch) t c f buf)" using len by (simp add: interleaving_def)
  from interleave_sample_value[OF ok f c(1) this] show ?thesis
    using interleaving_next_frame[OF c(2) len, of "\<lambda>f ch. ring_frames a ! f ! ch" t] by simp
qed

lemma interleave_loops_spec:
  fixes a :: "('a::zero) shared_ring"
  assumes ok: "ring_ok a" and t: "t \<le> fill_of a" and cc: "cc \<le> chans_of a" "cc \<le> oc"
    and len: "t * oc \<le> length buf"
  shows "for_each (\<lambda>ch. for_each (interleave_sample (samples a) (h_capacity_frames (header a))
        (h_read_pos (header a)) oc ch) [0..<t]) [0..<cc] buf =
    Some (interleaving oc (\<lambda>f ch. ring_frames a ! f ! ch) t cc 0 buf)"
proof -
  let ?v = "\<lambda>f ch. ring_frames a ! f ! ch"
  let ?is = "interleave_sample (samples a) (h_capacity_frames (header a)) (h_read_pos (header a)) oc"
  have inner: "for_each (?is c) [0..<t] (interleaving oc ?v t c 0 buf) =
      Some (interleaving oc ?v t (Suc c) 0 buf)" if c: "c < cc" for c
  proof -
    have "\<exists>s'. for_each (?is c) [0..<t] (interleaving oc ?v t c 0 buf) = Some s' \<and>
        s' = interleaving oc ?v t c t buf"
    proof (rule for_each_range [where I = "\<lambda>f s. s = interleaving oc ?v t c f buf"])
      fix f s assume f: "f < t" and s: "s = interleaving oc ?v t c f buf"
      have "f * oc + c < t * oc"
        using f c cc(2) block_index_less[of f t c oc] by (simp add: mult.commute)
      with len have "f * oc + c < length buf" by linarith
      with ok f t c cc s
      show "\<exists>s'. ?is c f s = Some s' \<and> s' = interleaving oc ?v t c (Suc f) buf"
        by (simp add: interleave_sample_spec)
    qed simp_all
    then show ?thesis by (simp add: interleaving_next_channel)
  qed
  have "\<exists>s'. for_each (\<lambda>ch. for_each (?is ch) [0..<t]) [0..<cc] buf = Some s' \<and>
      s' = interleaving oc ?v t cc 0 buf"
    by (rule for_each_range [where I = "\<lambda>c s. s = interleaving oc ?v t c 0 buf"])
      (simp_all add: inner interleaving_start)
  then show ?thesis by simp
qed

text \<open>
  A frame fitted to the channel count of the device: missing channels are silent, extra ones
  are left out.
\<close>

definition fit_frame :: "nat \<Rightarrow> ('a::zero) list \<Rightarrow> 'a list" where
  "fit_frame oc f = map (\<lambda>ch. if ch < length f then f ! ch else 0) [0..<oc]"

definition interleaved :: "nat \<Rightarrow> ('a::zero) list list \<Rightarrow> 'a list" where
  "interleaved oc fs = concat (map (fit_frame oc) fs)"

lemma length_fit_frame [simp]: "length (fit_frame oc f) = oc"
  by (simp add: fit_frame_def)

lemma interleaved_append: "interleaved oc (xs @ ys) = interleaved oc xs @ interleaved oc ys"
  by (simp add: interleaved_def)

lemma length_interleaved [simp]: "length (interleaved oc fs) = length fs * oc"
  by (induction fs) (auto simp: interleaved_def)

lemma nth_interleaved:
  "k < length fs * oc \<Longrightarrow> interleaved oc fs ! k = fit_frame oc (fs ! (k div oc)) ! (k mod oc)"
proof (induction fs arbitrary: k)
  case (Cons f fs)
  have oc: "0 < oc" using Cons.prems by (cases oc) auto
  show ?case
  proof (cases "k < oc")
    case True
    then show ?thesis by (simp add: interleaved_def nth_append)
  next
    case False
    then have "k div oc = Suc ((k - oc) div oc)" "(k - oc) mod oc = k mod oc"
      using oc by (simp_all add: le_div_geq le_mod_geq)
    with Cons False show ?thesis by (simp add: interleaved_def nth_append)
  qed
qed simp

text \<open>The loops on a silenced block: the frames that were read, and silence behind them.\<close>

lemma interleaving_silence:
  fixes fs :: "('a::zero) list list"
  assumes n: "length fs \<le> n" and rows: "\<And>f. f < length fs \<Longrightarrow> length (fs ! f) = C"
  shows "interleaving oc (\<lambda>f ch. fs ! f ! ch) (length fs) (min C oc) 0 (replicate (n * oc) 0 @ rest) =
    interleaved oc fs @ replicate ((n - length fs) * oc) 0 @ rest" (is "?L = ?R")
proof (rule nth_equalityI)
  let ?t = "length fs"
  have split: "?t * oc + (n - ?t) * oc = n * oc" unfolding add_mult_distrib[symmetric] using n by simp
  then show "length ?L = length ?R" by (simp add: interleaving_def)
  fix k assume "k < length ?L"
  then have k: "k < n * oc + length rest" by (simp add: interleaving_def)
  show "?L ! k = ?R ! k"
  proof (cases "k < ?t * oc")
    case True
    then have oc: "0 < oc" by (cases "oc = 0") auto
    have d: "k div oc < ?t" using True by (simp add: less_mult_imp_div_less)
    moreover have "k mod oc < oc" using oc by simp
    moreover have "k < n * oc" using True split by linarith
    ultimately show ?thesis
      using True k rows[OF d] nth_interleaved[of k fs oc] by (simp add: interleaving_def nth_append fit_frame_def)
  next
    case False
    then have "\<not> k div oc < ?t \<or> oc = 0" by (metis div_less_iff_less_mult neq0_conv)
    then have "?L ! k = (replicate (n * oc) 0 @ rest) ! k" using k by (auto simp: interleaving_def)
    with False k split show ?thesis by (auto simp: nth_append)
  qed
qed

lemma interleaving_cong: "(\<And>f ch. f < t \<Longrightarrow> v f ch = v' f ch) \<Longrightarrow> interleaving oc v t c 0 buf = interleaving oc v' t c 0 buf"
  by (auto simp: interleaving_def)

lemma shared_audio_read_interleaved_spec:
  fixes a :: "('a::zero) shared_ring"
  assumes ok: "ring_ok a" and len: "unat frames * unat out_channels \<le> length out"
  shows "shared_audio_read_interleaved a out out_channels frames =
    Some (read_state a frames,
      interleaved (unat out_channels) (take (unat frames) (ring_frames a)) @
        replicate ((unat frames - fill_of a) * unat out_channels) 0 @ drop (unat frames * unat out_channels) out,
      frames_to_read a frames)"
proof -
  let ?oc = "unat out_channels" and ?n = "unat frames" and ?t = "unat (frames_to_read a frames)" and ?fs = "take (unat frames) (ring_frames a)"
  let ?cc = "if h_channels (header a) < ucast out_channels then h_channels (header a) else ucast out_channels"
  let ?v = "\<lambda>f ch. ring_frames a ! f ! ch" and ?out0 = "replicate (?n * ?oc) 0 @ drop (?n * ?oc) out"
  have t: "?t = length ?fs" by (simp add: frames_to_read_nat[OF ok] length_ring_frames min.commute)
  have cc: "unat ?cc = min (chans_of a) ?oc" by (simp add: word_less_nat_alt min_def)
  have m0: "memset out 0 0 (?n * ?oc) = Some ?out0" using len by (simp add: mem_simps splice_def)
  have l0: "length ?out0 = length out" using len by simp
  have "?t * ?oc \<le> ?n * ?oc" unfolding t by (rule mult_le_mono1) simp
  then have "?t * ?oc \<le> length ?out0" unfolding l0 using len by (rule le_trans)
  from interleave_loops_spec[OF ok _ _ _ this, of "min (chans_of a) ?oc"]
  have "shared_audio_read_interleaved a out out_channels frames =
      Some (read_state a frames, interleaving ?oc ?v ?t (min (chans_of a) ?oc) 0 ?out0, frames_to_read a frames)"
    unfolding shared_audio_read_interleaved_def Let_def load_pos_def m0 cc
    by (simp add: read_state_def t length_ring_frames)
  moreover have "interleaving ?oc ?v ?t (min (chans_of a) ?oc) 0 ?out0 =
      interleaving ?oc (\<lambda>f ch. ?fs ! f ! ch) (length ?fs) (min (chans_of a) ?oc) 0 ?out0"
    unfolding t by (rule interleaving_cong) simp
  moreover have "length (?fs ! f) = chans_of a" if "f < length ?fs" for f
    using that by (simp add: length_ring_frames nth_ring_frames frame_at_def)
  moreover have d: "?n - length ?fs = ?n - fill_of a" by (simp add: length_ring_frames min_def)
  ultimately show ?thesis
    using interleaving_silence[of ?fs ?n "chans_of a" ?oc "drop (?n * ?oc) out", unfolded d] by (simp add: length_ring_frames)
qed

section \<open>The ring is a frame FIFO\<close>

text \<open>
  The write and read operations as operations on frames: a block of frames becomes one buffer
  per channel and back.  One call moves at most \<open>2\<^sup>3\<^sup>2 - 1\<close> frames.
\<close>

definition columns :: "nat \<Rightarrow> 'a list list \<Rightarrow> 'a list list" where
  "columns C fs = map (\<lambda>ch. map (\<lambda>f. f ! ch) fs) [0..<C]"

definition ring_push :: "'a shared_ring \<Rightarrow> 'a list list \<Rightarrow> ('a shared_ring \<times> bool) option" where
  "ring_push a fs =
     do { (a', rc) \<leftarrow> shared_audio_write a (columns (chans_of a) fs) (of_nat (length fs));
          Some (a', rc = 0) }"

definition ring_pop :: "('a::zero) shared_ring \<Rightarrow> nat \<Rightarrow> ('a shared_ring \<times> 'a list list) option" where
  "ring_pop a n =
     (let m = min n (2 ^ 32 - 1)
      in do { (a', outs, got) \<leftarrow> shared_audio_read a (replicate (chans_of a) (replicate m 0)) (of_nat m);
              Some (a', frames_of (chans_of a) (unat got) outs) })"

definition ring_fits :: "'a shared_ring \<Rightarrow> 'a list list \<Rightarrow> bool" where
  "ring_fits a fs \<longleftrightarrow> (\<forall>f \<in> set fs. length f = chans_of a) \<and> length fs < 2 ^ 32"

definition ring_headroom :: "'a shared_ring \<Rightarrow> nat" where
  "ring_headroom a = 2 ^ 64 - wpos a"

lemma buffers_ok_columns: "buffers_ok C (length fs) (columns C fs)"
  by (simp add: buffers_ok_def columns_def)

lemma frames_of_columns:
  "(\<forall>f \<in> set fs. length f = C) \<Longrightarrow> frames_of C (length fs) (columns C fs) = fs"
  by (rule nth_equalityI) (auto simp: frames_of_def columns_def intro!: nth_equalityI)

lemma ring_pop_spec:
  assumes ok: "ring_ok a"
  shows "ring_pop a n = Some (read_state a (of_nat (min n (2 ^ 32 - 1))), take n (ring_frames a))"
proof -
  define m where "m = min n (2 ^ 32 - 1)"
  have m: "unat (of_nat m :: u32) = m" by (rule unat_of_nat_small) (simp add: m_def min_def)
  have bufs: "buffers_ok (chans_of a) (unat (of_nat m :: u32)) (replicate (chans_of a) (replicate m (0 :: 'a)))"
    by (simp add: buffers_ok_def m)
  from shared_audio_read_spec[OF ok bufs] obtain outs where
    r: "shared_audio_read a (replicate (chans_of a) (replicate m 0)) (of_nat m) =
        Some (read_state a (of_nat m), outs, frames_to_read a (of_nat m))" and
    o: "\<forall>ch < chans_of a. outs ! ch = map (\<lambda>f. f ! ch) (take m (ring_frames a)) @
        replicate (m - fill_of a) 0 @ drop m (replicate (chans_of a) (replicate m 0) ! ch)"
    by (auto simp: m)
  have tk: "take m (ring_frames a) = take n (ring_frames a)"
    using fill_bounds(2)[OF ok] by (simp add: m_def min_def length_ring_frames)
  have g: "unat (frames_to_read a (of_nat m)) = length (take m (ring_frames a))"
    by (simp add: frames_to_read_nat[OF ok] m length_ring_frames)
  have "length (ring_frames a ! i) = chans_of a" if "i < fill_of a" for i
    using that by (simp add: nth_ring_frames frame_at_def)
  then have "frames_of (chans_of a) (unat (frames_to_read a (of_nat m))) outs = take m (ring_frames a)"
    unfolding g using o
    by (intro nth_equalityI) (auto simp: frames_of_def nth_append length_ring_frames intro!: nth_equalityI)
  with r tk show ?thesis unfolding ring_pop_def Let_def m_def [symmetric] by simp
qed

interpretation shared_fifo: frame_fifo ring_ok ring_frames cap_of ring_headroom ring_fits ring_push ring_pop
proof
  fix r :: "'a shared_ring" and fs :: "'a list list" and n :: nat
  assume ok: "ring_ok r"
  show "length (ring_frames r) \<le> cap_of r"
    using fill_bounds(1)[OF ok] by (simp add: length_ring_frames)
  show "\<exists>r'. ring_pop r n = Some (r', take n (ring_frames r)) \<and> ring_ok r' \<and>
      ring_frames r' = drop n (ring_frames r) \<and> cap_of r' = cap_of r \<and>
      ring_headroom r' = ring_headroom r \<and> ring_fits r' = ring_fits r"
  proof -
    let ?m = "of_nat (min n (2 ^ 32 - 1)) :: u32"
    have "drop (unat ?m) (ring_frames r) = drop n (ring_frames r)"
      using fill_bounds(2)[OF ok] by (simp add: word_nat_simps min_def length_ring_frames)
    then show ?thesis
      using ring_pop_spec[OF ok, of n] read_state_spec(1,2)[OF ok, of ?m]
      by (simp add: ring_headroom_def ring_fits_def fun_eq_iff)
  qed
  assume fits: "ring_fits r fs" and room: "length fs < ring_headroom r"
  let ?n = "of_nat (length fs) :: u32"
  have n: "unat ?n = length fs" using fits by (intro unat_of_nat_small) (simp add: ring_fits_def)
  have cols: "buffers_ok (chans_of r) (unat ?n) (columns (chans_of r) fs)" "frames_of (chans_of r) (unat ?n) (columns (chans_of r) fs) = fs"
    using fits by (simp_all add: n buffers_ok_columns frames_of_columns ring_fits_def)
  have pos: "wpos r + unat ?n < 2 ^ 64" using room by (simp add: ring_headroom_def n)
  show "\<exists>r'. ring_push r fs = Some (r', True) \<and> ring_ok r' \<and> ring_frames r' = ring_frames r @ fs \<and>
      cap_of r' = cap_of r \<and> ring_headroom r' = ring_headroom r - length fs \<and> ring_fits r' = ring_fits r"
    if "length (ring_frames r) + length fs \<le> cap_of r"
  proof -
    from that have q: "fill_of r + unat ?n \<le> cap_of r" by (simp add: n length_ring_frames)
    from shared_audio_write_accepts[OF ok cols(1) pos q] obtain smp where
      w: "shared_audio_write r (columns (chans_of r) fs) ?n = Some (r\<lparr>samples := smp, header :=
          (header r)\<lparr>h_write_pos := h_write_pos (header r) + ucast ?n\<rparr>\<rparr>, 0)" "length smp = length (samples r)"
      "ring_frames (r\<lparr>samples := smp, header := (header r)\<lparr>h_write_pos := h_write_pos (header r) + ucast ?n\<rparr>\<rparr>) =
        ring_frames r @ fs" by (auto simp: cols(2))
    have "unat (h_write_pos (header r) + ucast ?n) = wpos r + length fs"
      using pos by (simp add: word_nat_simps n)
    with w ok q show ?thesis
      by (auto simp: ring_push_def ring_ok_def ring_headroom_def ring_fits_def fun_eq_iff fill_of_def n)
  qed
  show "\<exists>r'. ring_push r fs = Some (r', False) \<and> ring_ok r' \<and> ring_frames r' = ring_frames r \<and>
      cap_of r' = cap_of r \<and> ring_headroom r' = ring_headroom r \<and> ring_fits r' = ring_fits r"
    if "cap_of r < length (ring_frames r) + length fs"
  proof -
    from that have "cap_of r < fill_of r + unat ?n" by (simp add: n length_ring_frames)
    note w = shared_audio_write_rejects[OF ok this]
    let ?r' = "r\<lparr>header := (header r)\<lparr>h_overruns := h_overruns (header r) + 1\<rparr>\<rparr>"
    have "ring_ok ?r' = ring_ok r" "ring_frames ?r' = ring_frames r" by (rule ring_view_cong; simp)+
    with w ok show ?thesis by (simp add: ring_push_def ring_headroom_def ring_fits_def fun_eq_iff)
  qed
qed

section \<open>Properties\<close>

text \<open>A small two channel ring whose live frames wrap around the end of the sample area.\<close>

definition sample_header :: "u32 \<Rightarrow> u32 \<Rightarrow> u64 \<Rightarrow> u64 \<Rightarrow> SharedAudioHeader" where
  "sample_header C cap r w =
     \<lparr>h_magic = 0x524a5341, h_abi_version = 3, h_header_bytes = 112, h_sample_rate = 48000,
      h_channels = C, h_capacity_frames = cap, h_write_pos = w, h_read_pos = r, h_underruns = 0,
      h_overruns = 0, h_dropped_packets = 0, h_resets = 0, h_inserted_frames = 0, h_dropped_frames = 0,
      h_clock_seq = 0, h_clock_host_time = 0, h_clock_sample_pos = 0\<rparr>"

definition sample_ring :: "int shared_ring" where
  "sample_ring = \<lparr>header = sample_header 2 4 3 5, samples = [10, 11, 12, 13, 20, 21, 22, 23]\<rparr>"

lemma sample_ring_ok: "ring_ok sample_ring"
  by (simp add: ring_ok_def sample_ring_def sample_header_def)

lemma sample_ring_facts: "cap_of sample_ring = 4" "chans_of sample_ring = 2" "fill_of sample_ring = 2"
  "wpos sample_ring = 5"
  by (simp_all add: sample_ring_def sample_header_def fill_of_def)

lemma sample_ring_frames: "ring_frames sample_ring = [[13, 23], [10, 20]]"
  by code_simp

text \<open>A write is all or nothing: if the block fits, its frames are appended to the live frames and
  only the write position of the header moves; if it does not fit, nothing but the overrun
  counter changes and the caller gets -1.  No access leaves the sample area.\<close>

theorem shared_audio_write_all_or_nothing:
  assumes "ring_ok a" "buffers_ok (chans_of a) (unat frames) chans" "wpos a + unat frames < 2 ^ 64"
  shows "if fill_of a + unat frames \<le> cap_of a
    then \<exists>a'. shared_audio_write a chans frames = Some (a', 0) \<and> ring_ok a' \<and>
      ring_frames a' = ring_frames a @ frames_of (chans_of a) (unat frames) chans \<and>
      header a' = (header a)\<lparr>h_write_pos := h_write_pos (header a) + ucast frames\<rparr>
    else shared_audio_write a chans frames =
      Some (a\<lparr>header := (header a)\<lparr>h_overruns := h_overruns (header a) + 1\<rparr>\<rparr>, - 1)"
proof (cases "fill_of a + unat frames \<le> cap_of a")
  case True
  from shared_audio_write_accepts[OF assms True] obtain smp where
    w: "shared_audio_write a chans frames = Some (a\<lparr>samples := smp, header :=
        (header a)\<lparr>h_write_pos := h_write_pos (header a) + ucast frames\<rparr>\<rparr>, 0)"
      "length smp = length (samples a)"
      "ring_frames (a\<lparr>samples := smp, header :=
        (header a)\<lparr>h_write_pos := h_write_pos (header a) + ucast frames\<rparr>\<rparr>) =
        ring_frames a @ frames_of (chans_of a) (unat frames) chans" by blast
  let ?a' = "a\<lparr>samples := smp, header := (header a)\<lparr>h_write_pos := h_write_pos (header a) + ucast frames\<rparr>\<rparr>"
  have "wpos ?a' = wpos a + unat frames" using assms(3) by (simp add: word_nat_simps)
  with assms(1) True w(2) have "ring_ok ?a'" by (auto simp: ring_ok_def fill_of_def)
  with w True show ?thesis by auto
next
  case False
  with shared_audio_write_rejects[OF assms(1)] show ?thesis by simp
qed

theorem shared_audio_write_all_or_nothing_witness:
  "\<exists>a'. shared_audio_write sample_ring [[1, 2], [3, 4]] 2 = Some (a', 0) \<and>
     ring_frames a' = [[13, 23], [10, 20], [1, 3], [2, 4]]"
proof -
  have b: "buffers_ok (chans_of sample_ring) (unat (2 :: u32)) [[1, 2], [3, 4]]"
    by code_simp
  have p: "wpos sample_ring + unat (2 :: u32) < 2 ^ 64" by (simp add: sample_ring_facts)
  have f: "frames_of 2 2 [[1, 2], [3, 4 :: int]] = [[1, 3], [2, 4]]" by code_simp
  from shared_audio_write_all_or_nothing[OF sample_ring_ok b p] show ?thesis
    by (auto simp: sample_ring_facts sample_ring_frames f)
qed

text \<open>A read never fails and never blocks: it hands out the oldest frames, up to the number asked
  for, fills the rest of every channel buffer with silence, returns the number of real frames,
  removes exactly those from the ring, and counts an underrun exactly when frames were
  missing.\<close>

theorem shared_audio_read_delivers:
  fixes a :: "('a::zero) shared_ring"
  assumes "ring_ok a" "buffers_ok (chans_of a) (unat frames) outs"
  shows "\<exists>a' outs' got. shared_audio_read a outs frames = Some (a', outs', got) \<and>
    unat got = min (unat frames) (fill_of a) \<and> ring_ok a' \<and>
    ring_frames a' = drop (unat frames) (ring_frames a) \<and>
    (\<forall>ch < chans_of a. outs' ! ch =
       map (\<lambda>f. f ! ch) (take (unat frames) (ring_frames a)) @
       replicate (unat frames - fill_of a) 0 @ drop (unat frames) (outs ! ch)) \<and>
    h_underruns (header a') = h_underruns (header a) + (if fill_of a < unat frames then 1 else 0)"
proof -
  note st = read_state_spec[OF assms(1), of frames]
  from shared_audio_read_spec[OF assms] obtain outs' where
    "shared_audio_read a outs frames = Some (read_state a frames, outs', frames_to_read a frames)"
    "\<forall>ch < chans_of a. outs' ! ch = map (\<lambda>f. f ! ch) (take (unat frames) (ring_frames a)) @
       replicate (unat frames - fill_of a) 0 @ drop (unat frames) (outs ! ch)" by blast
  with st frames_to_read_nat[OF assms(1)] show ?thesis
    by (intro exI [of _ "read_state a frames"] exI [of _ outs'] exI [of _ "frames_to_read a frames"]) simp
qed

theorem shared_audio_read_delivers_witness:
  "\<exists>a' outs' got. shared_audio_read sample_ring [[9, 9, 9], [9, 9, 9]] 3 = Some (a', outs', got) \<and>
     unat got = 2 \<and> ring_frames a' = [] \<and> outs' ! 0 = [13, 10, 0] \<and> h_underruns (header a') = 1"
proof -
  have b: "buffers_ok (chans_of sample_ring) (unat (3 :: u32)) [[9, 9, 9], [9, 9, 9]]"
    by code_simp
  have "h_underruns (header sample_ring) = 0" by (simp add: sample_ring_def sample_header_def)
  with shared_audio_read_delivers[OF sample_ring_ok b] show ?thesis
    by (auto simp: sample_ring_facts sample_ring_frames)
qed

text \<open>The interleaved read hands out the same frames: the device buffer holds the real frames, one
  after the other and fitted to the device's channel count, then silence for the missing
  frames; bytes behind the requested frames are not touched.\<close>

theorem shared_audio_read_interleaved_delivers:
  fixes a :: "('a::zero) shared_ring"
  assumes "ring_ok a" "unat frames * unat out_channels \<le> length out"
  shows "\<exists>a' got. shared_audio_read_interleaved a out out_channels frames =
      Some (a', interleaved (unat out_channels) (take (unat frames) (ring_frames a)) @
                replicate ((unat frames - fill_of a) * unat out_channels) 0 @
                drop (unat frames * unat out_channels) out, got) \<and>
    unat got = min (unat frames) (fill_of a) \<and> ring_ok a' \<and>
    ring_frames a' = drop (unat frames) (ring_frames a) \<and>
    h_underruns (header a') = h_underruns (header a) + (if fill_of a < unat frames then 1 else 0)"
  using shared_audio_read_interleaved_spec[OF assms] read_state_spec[OF assms(1), of frames]
    frames_to_read_nat[OF assms(1)] by simp

theorem shared_audio_read_interleaved_delivers_witness:
  "\<exists>a' got. shared_audio_read_interleaved sample_ring (replicate 9 7) 3 3 =
      Some (a', [13, 23, 0, 10, 20, 0, 0, 0, 0], got) \<and> unat got = 2"
proof -
  have "unat (3 :: u32) * unat (3 :: u16) \<le> length (replicate 9 (7 :: int))" by simp
  moreover have "interleaved 3 [[13, 23], [10, 20 :: int]] = [13, 23, 0, 10, 20, 0]" by code_simp
  moreover have "replicate 3 (0 :: int) = [0, 0, 0]" by code_simp
  ultimately show ?thesis
    using shared_audio_read_interleaved_delivers[OF sample_ring_ok, of 3 3 "replicate 9 7"]
    by (auto simp: sample_ring_facts sample_ring_frames)
qed

text \<open>C3. For every sequence of writes and reads, until the position counter would wrap: no access
  leaves the memory, the ring stays well formed, and the frames read so far followed by the
  frames still in the ring are the frames in the ring at the start followed by all accepted
  frames, in order and without loss or duplication.\<close>

theorem shared_ring_conservation:
  fixes a :: "('a::zero) shared_ring"
  assumes "ring_ok a" "\<forall>fs \<in> set (pushed ops). ring_fits a fs"
    "sum_list (map length (pushed ops)) < ring_headroom a"
  shows "\<exists>a' ins outs. run_ops ring_push ring_pop a ops = Some (a', ins, outs) \<and> ring_ok a' \<and>
    cap_of a' = cap_of a \<and> ring_frames a @ ins = outs @ ring_frames a'"
  using assms by (rule shared_fifo.run_conservation)

theorem shared_ring_conservation_witness:
  "\<exists>a' ins outs. run_ops ring_push ring_pop sample_ring [Push [[1, 2]], Pop 2, Push [[3, 4], [5, 6]]] =
      Some (a', ins, outs) \<and> [[13, 23], [10, 20]] @ ins = outs @ ring_frames a'"
proof -
  let ?ops = "[Push [[1, 2]], Pop 2, Push [[3, 4], [5, 6]]] :: int list fifo_op list"
  have "\<forall>fs \<in> set (pushed ?ops). ring_fits sample_ring fs"
    "sum_list (map length (pushed ?ops)) < ring_headroom sample_ring"
    by (simp_all add: ring_fits_def sample_ring_facts ring_headroom_def)
  from shared_ring_conservation[OF sample_ring_ok this] show ?thesis
    by (auto simp: sample_ring_frames)
qed

end
