(* ===== verification/SharedRegulation.thy ===== *)
theory SharedRegulation
  imports SharedAudio
begin

text \<open>
  Latency alignment and drift regulation of \<open>src/shared_audio.c\<close>: what
  \<open>shared_audio_seek_to_fill\<close> and \<open>shared_audio_read_interleaved_regulated\<close> do to the frames
  in the ring and to the counters, and that the regulation keeps the fill inside its band for
  every sequence of writer and reader blocks whose sizes differ by at most the largest
  correction.
\<close>

section \<open>One writer block and one reader block\<close>

record 'a drift_step =
  step_channels :: "'a list list"
  step_write :: u32
  step_read :: u32

definition drift_cycle ::
  "u16 \<Rightarrow> u32 \<Rightarrow> u32 \<Rightarrow> ('a::zero) shared_ring \<Rightarrow> 'a drift_step \<Rightarrow> 'a shared_ring option" where
  "drift_cycle out_channels target tolerance a s =
     do { (a1, rc) \<leftarrow> shared_audio_write a (step_channels s) (step_write s);
          (a2, out, got) \<leftarrow> shared_audio_read_interleaved_regulated a1
             (replicate (unat (step_read s) * unat out_channels) 0) out_channels (step_read s) target tolerance;
          Some a2 }"

text \<open>The states after each of a sequence of cycles.\<close>

fun drift_run ::
  "u16 \<Rightarrow> u32 \<Rightarrow> u32 \<Rightarrow> ('a::zero) shared_ring \<Rightarrow> 'a drift_step list \<Rightarrow> 'a shared_ring list option" where
  "drift_run oc target tolerance a [] = Some []"
| "drift_run oc target tolerance a (s # ss) =
     do { a' \<leftarrow> drift_cycle oc target tolerance a s;
          rest \<leftarrow> drift_run oc target tolerance a' ss;
          Some (a' # rest) }"

section \<open>Seeking\<close>

lemma seek_read_pos:
  assumes ok: "ring_ok a" and k: "unat (f :: u32) \<le> fill_of a"
  shows "h_write_pos (header a) - ucast f = h_read_pos (header a) + ucast (of_nat (fill_of a - unat f) :: u32)"
proof -
  have le: "rpos a \<le> wpos a" using ok by (simp add: ring_ok_def)
  have f: "fill_of a - unat f < 2 ^ 32" using fill_bounds(2)[OF ok] by simp
  then have d: "unat (ucast (of_nat (fill_of a - unat f) :: u32) :: u64) = fill_of a - unat f"
    by (simp add: unat_of_nat_small)
  have "rpos a + (fill_of a - unat f) \<le> wpos a" using le by (simp add: fill_of_def)
  from le_less_trans[OF this unat_u64_bound]
  have "unat (h_read_pos (header a) + ucast (of_nat (fill_of a - unat f) :: u32)) = rpos a + (fill_of a - unat f)"
    by (subst unat_add_nowrap) (simp_all only: d, simp)
  moreover have "unat (h_write_pos (header a) - ucast f) = wpos a - unat f"
    using k by (subst unat_sub_pos) (auto simp: fill_of_def)
  ultimately show ?thesis using le k by (simp add: word_unat_eq_iff fill_of_def)
qed

lemma seek_spec:
  fixes target :: u32
  assumes ok: "ring_ok a"
  defines "r \<equiv> shared_audio_seek_to_fill a target"
  shows "unat (snd r) = min (fill_of a) (unat target)" "ring_ok (fst r)"
    "ring_frames (fst r) = drop (fill_of a - unat target) (ring_frames a)"
    "fill_of (fst r) = min (fill_of a) (unat target)"
    "h_resets (header (fst r)) = h_resets (header a) + 1"
    "h_write_pos (header (fst r)) = h_write_pos (header a)"
proof -
  define f where "f = (if h_write_pos (header a) - h_read_pos (header a) < ucast target
     then ucast (h_write_pos (header a) - h_read_pos (header a)) else target)"
  have f: "unat f = min (fill_of a) (unat target)"
    using fill_bounds(2)[OF ok] unat_used[OF ok] by (simp add: f_def word_less_nat_alt word_nat_simps min_def)
  have r: "r = ((store_read_pos a (h_write_pos (header a) - ucast f))
      \<lparr>header := (header a)\<lparr>h_read_pos := h_write_pos (header a) - ucast f, h_resets := h_resets (header a) + 1\<rparr>\<rparr>, f)"
    by (simp add: r_def f_def shared_audio_seek_to_fill_def Let_def load_pos_def store_read_pos_def)
  let ?k = "of_nat (fill_of a - unat f) :: u32"
  have k: "unat ?k = fill_of a - unat f"
    using fill_bounds(2)[OF ok] by (intro unat_of_nat_small) simp
  have "unat ?k \<le> fill_of a" by (simp only: k diff_le_self)
  note adv = advance_read_pos[OF ok this, of "fst r"]
  have le: "unat f \<le> fill_of a" by (simp only: f)
  have pos: "h_read_pos (header (fst r)) = h_read_pos (header a) + ucast ?k"
    using seek_read_pos[OF ok le] by (simp only: r fst_conv) simp
  have sel: "samples (fst r) = samples a" "h_capacity_frames (header (fst r)) = h_capacity_frames (header a)"
    "h_channels (header (fst r)) = h_channels (header a)" "h_write_pos (header (fst r)) = h_write_pos (header a)"
    by (simp_all add: r)
  show "unat (snd r) = min (fill_of a) (unat target)" by (simp only: r snd_conv f)
  show "h_resets (header (fst r)) = h_resets (header a) + 1" by (simp add: r)
  show "h_write_pos (header (fst r)) = h_write_pos (header a)" by (fact sel)
  show "ring_ok (fst r)" by (rule adv(1)[OF sel pos])
  have "fill_of a - unat f = fill_of a - unat target" unfolding f by (simp add: min_def)
  then show "ring_frames (fst r) = drop (fill_of a - unat target) (ring_frames a)"
    unfolding adv(2)[OF sel pos] k by simp
  have "fill_of (fst r) = fill_of a - (fill_of a - unat f)"
    unfolding adv(3)[OF sel pos] k by (rule refl)
  then show "fill_of (fst r) = min (fill_of a) (unat target)" by (simp add: f)
qed

section \<open>Duplicating the last frame\<close>

lemma splice_append:
  assumes "d + length xs + length ys \<le> length buf"
  shows "splice (splice buf d xs) (d + length xs) ys = splice buf d (xs @ ys)"
  using assms by (simp add: splice_def ac_simps)

lemma take_drop_splice:
  assumes "s + n \<le> d" "d \<le> length buf"
  shows "take n (drop s (splice buf d xs)) = take n (drop s buf)"
proof -
  obtain e where "d = s + n + e" using assms(1) le_Suc_ex by blast
  with assms(2) show ?thesis by (simp add: splice_def drop_take)
qed

lemma duplicate_loop:
  assumes src: "s + oc \<le> tail" and room: "tail + k * oc \<le> length buf"
  shows "for_each (\<lambda>i b. memcpy_within b (tail + i * oc) s oc) [0..<k] buf =
    Some (splice buf tail (concat (replicate k (take oc (drop s buf)))))"
proof -
  let ?blk = "take oc (drop s buf)"
  let ?X = "\<lambda>i. concat (replicate i ?blk)"
  have blk: "length ?blk = oc" using src room by simp
  have X: "length (?X i) = i * oc" for i by (induction i) (auto simp: blk simp del: length_take)
  have "\<exists>b. for_each (\<lambda>i b. memcpy_within b (tail + i * oc) s oc) [0..<k] buf = Some b \<and>
      b = splice buf tail (?X k)"
  proof (rule for_each_range [where I = "\<lambda>i b. b = splice buf tail (?X i)"])
    fix i b assume i: "i < k" and b: "b = splice buf tail (?X i)"
    have "tail + i * oc + oc \<le> tail + k * oc"
      using i by (metis Suc_leI add.assoc add_le_cancel_left mult_Suc mult_le_mono1 add.commute)
    with room have r: "tail + i * oc + oc \<le> length buf" by linarith
    then have len: "length b = length buf" unfolding b by (subst length_splice) (simp_all add: X)
    have blk': "take oc (drop s b) = ?blk"
      unfolding b using src room by (intro take_drop_splice) simp_all
    have "memcpy_within b (tail + i * oc) s oc = Some (splice b (tail + i * oc) ?blk)"
      using r len src blk' by (simp add: memcpy_within_def mem_simps)
    also have "splice b (tail + i * oc) ?blk = splice buf tail (?X i @ ?blk)"
      unfolding b using splice_append[of tail "?X i" ?blk buf] r by (simp add: X blk del: length_take)
    also have "?X i @ ?blk = ?X (Suc i)"
      by (metis append_Nil2 concat.simps concat_append replicate_Suc replicate_append_same)
    finally show "\<exists>b'. memcpy_within b (tail + i * oc) s oc = Some b' \<and> b' = splice buf tail (?X (Suc i))"
      by blast
  qed simp_all
  then show ?thesis by simp
qed

section \<open>The regulated read\<close>

text \<open>The state after dropping \<open>d\<close> frames.\<close>

definition drop_state :: "'a shared_ring \<Rightarrow> u32 \<Rightarrow> 'a shared_ring" where
  "drop_state a d =
     a\<lparr>header := (header a)\<lparr>h_read_pos := h_read_pos (header a) + ucast d,
                           h_dropped_frames := h_dropped_frames (header a) + ucast d\<rparr>\<rparr>"

lemma drop_state_spec:
  assumes "ring_ok a" "unat d \<le> fill_of a"
  shows "ring_ok (drop_state a d)" "ring_frames (drop_state a d) = drop (unat d) (ring_frames a)"
    "fill_of (drop_state a d) = fill_of a - unat d" "wpos (drop_state a d) = wpos a"
    "h_underruns (header (drop_state a d)) = h_underruns (header a)"
  using advance_read_pos[OF assms, of "drop_state a d"] by (simp_all add: drop_state_def)

lemma unat_fill_cmp:
  fixes T tol :: u32
  assumes "ring_ok a"
  shows "h_write_pos (header a) - h_read_pos (header a) > ucast T + ucast tol \<longleftrightarrow>
      unat T + unat tol < fill_of a"
    and "h_write_pos (header a) - h_read_pos (header a) + ucast tol < ucast T \<longleftrightarrow>
      fill_of a + unat tol < unat T"
proof -
  have s: "unat (ucast T + ucast tol :: u64) = unat T + unat tol"
    using unat_u32_bound[of T] unat_u32_bound[of tol] by (subst unat_add_nowrap) (simp_all del: unat_u32_bound)
  have s2: "unat (h_write_pos (header a) - h_read_pos (header a) + ucast tol) = fill_of a + unat tol"
    using fill_bounds(2)[OF assms] unat_u32_bound[of tol] unat_used[OF assms]
    by (subst unat_add_nowrap) (simp_all del: unat_u32_bound)
  show "h_write_pos (header a) - h_read_pos (header a) > ucast T + ucast tol \<longleftrightarrow>
      unat T + unat tol < fill_of a"
    by (simp only: word_less_nat_alt s unat_used[OF assms])
  show "h_write_pos (header a) - h_read_pos (header a) + ucast tol < ucast T \<longleftrightarrow>
      fill_of a + unat tol < unat T"
    by (simp only: word_less_nat_alt s2 unat_u64_of_u32)
qed

lemma unat_correction:
  "unat (if (e :: u32) < 8 then e else 8) = min 8 (unat e)"
  by (simp add: word_less_nat_alt min_def)

lemma unat_excess:
  assumes "ring_ok a" "unat T \<le> fill_of a"
  shows "unat (ucast (h_write_pos (header a) - h_read_pos (header a) - ucast (T :: u32)) :: u32) = fill_of a - unat T"
proof -
  have "unat (h_write_pos (header a) - h_read_pos (header a) - ucast T) = fill_of a - unat T"
    using assms(2) unat_used[OF assms(1)] by (simp add: unat_sub_pos)
  then show ?thesis using fill_bounds(2)[OF assms(1)] by (simp add: unat_u32_of_u64)
qed

lemma unat_deficit:
  assumes "ring_ok a" "fill_of a \<le> unat T"
  shows "unat (ucast (ucast (T :: u32) - (h_write_pos (header a) - h_read_pos (header a))) :: u32) = unat T - fill_of a"
proof -
  have "unat (ucast T - (h_write_pos (header a) - h_read_pos (header a)) :: u64) = unat T - fill_of a"
    using assms(2) unat_used[OF assms(1)] by (simp add: unat_sub_pos)
  moreover have "unat T - fill_of a < 2 ^ 32" using unat_u32_bound[of T] by (simp del: unat_u32_bound)
  ultimately show ?thesis by (simp add: unat_u32_of_u64)
qed

lemma regulated_high:
  fixes a :: "('a::zero) shared_ring"
  assumes ok: "ring_ok a" and high: "unat T + unat tol < fill_of a"
    and len: "unat n * unat oc \<le> length out"
  shows "\<exists>d. unat d = min 8 (fill_of a - unat T) \<and>
    shared_audio_read_interleaved_regulated a out oc n T tol =
      shared_audio_read_interleaved (drop_state a d) out oc n"
proof -
  let ?e = "ucast (h_write_pos (header a) - h_read_pos (header a) - ucast T) :: u32"
  let ?d = "if ?e < 8 then ?e else 8"
  have d: "unat ?d = min 8 (fill_of a - unat T)"
    using unat_excess[OF ok, of T] high by (simp only: unat_correction)
  have "shared_audio_read_interleaved_regulated a out oc n T tol =
      shared_audio_read_interleaved (drop_state a ?d) out oc n"
    using high unfolding shared_audio_read_interleaved_regulated_def Let_def load_pos_def
      unat_fill_cmp(1)[OF ok]
    by (simp add: drop_state_def store_read_pos_def)
  with d show ?thesis by blast
qed

lemma regulated_mid:
  fixes a :: "('a::zero) shared_ring"
  assumes ok: "ring_ok a" and "\<not> unat T + unat tol < fill_of a"
    and "\<not> fill_of a + unat tol < unat T \<or> n = 0"
  shows "shared_audio_read_interleaved_regulated a out oc n T tol = shared_audio_read_interleaved a out oc n"
  using assms(2,3) unfolding shared_audio_read_interleaved_regulated_def Let_def load_pos_def unat_fill_cmp[OF ok]
  by auto

text \<open>The frame that is repeated: the last real one, or silence when there was none.\<close>

definition pad_frame :: "nat \<Rightarrow> ('a::zero) list list \<Rightarrow> 'a list" where
  "pad_frame oc fs = (if fs = [] then replicate oc 0 else fit_frame oc (last fs))"

definition insert_state :: "'a shared_ring \<Rightarrow> u32 \<Rightarrow> 'a shared_ring" where
  "insert_state a i =
     a\<lparr>header := (header a)\<lparr>h_inserted_frames := h_inserted_frames (header a) + ucast i\<rparr>\<rparr>"

lemma last_block:
  assumes "fs \<noteq> []"
  shows "take oc (drop ((length fs - 1) * oc) (interleaved oc fs @ rest)) = fit_frame oc (last fs)"
proof -
  obtain gs f where fs: "fs = gs @ [f]" using assms by (metis append_butlast_last_id)
  have "interleaved oc fs = interleaved oc gs @ fit_frame oc f" by (simp add: fs interleaved_append) (simp add: interleaved_def)
  then show ?thesis by (simp add: fs)
qed

text \<open>Filling up a block after a short read: copies of the last frame, or silence when there is none.\<close>

lemma fill_up:
  fixes fs :: "('a::zero) list list" and Z rest :: "'a list" and oc :: nat
  defines "out1 \<equiv> (interleaved oc fs @ Z) @ rest"
  assumes front: "length (interleaved oc fs @ Z) = m * oc" and m: "length fs \<le> m" and room: "k * oc \<le> length rest"
  shows "(if fs \<noteq> [] then for_each (\<lambda>j buf. memcpy_within buf (m * oc + j * oc) ((length fs - 1) * oc) oc) [0..<k] out1
          else memset out1 (m * oc) 0 (k * oc)) =
    Some (interleaved oc fs @ Z @ concat (replicate k (pad_frame oc fs)) @ drop (k * oc) rest)"
proof -
  have room1: "m * oc + k * oc \<le> length out1" using front room by (simp add: out1_def)
  have sp: "splice out1 (m * oc) X = interleaved oc fs @ Z @ X @ drop (k * oc) rest" if "length X = k * oc" for X
    unfolding out1_def splice_behind[OF front] that by simp
  show ?thesis
  proof (cases "fs = []")
    case True
    have "replicate (k * oc) (0 :: 'a) = concat (replicate k (replicate oc 0))" by (induction k) (auto simp: replicate_add)
    then show ?thesis
      using True room1 sp[OF length_replicate, of 0] by (simp add: mem_simps pad_frame_def)
  next
    case False
    then have "(length fs - 1) * oc + oc = length fs * oc" by (cases "length fs") auto
    also have "\<dots> \<le> m * oc" using m by (rule mult_le_mono1)
    finally have src: "(length fs - 1) * oc + oc \<le> m * oc" .
    have blk: "take oc (drop ((length fs - 1) * oc) out1) = fit_frame oc (last fs)"
      using last_block[OF False, of oc "Z @ rest"] by (simp add: out1_def)
    have X: "length (concat (replicate k (fit_frame oc (last fs)))) = k * oc" by (induction k) auto
    from False duplicate_loop[OF src room1] sp[OF X] show ?thesis unfolding blk by (simp add: pad_frame_def)
  qed
qed

lemma regulated_low:
  fixes a :: "('a::zero) shared_ring" and T tol n :: u32
  assumes ok: "ring_ok a" and low: "fill_of a + unat tol < unat T" and n: "0 < unat n"
    and len: "unat n * unat oc \<le> length out"
  defines "ins \<equiv> min (unat n) (min 8 (unat T - fill_of a))"
  shows "\<exists>i m. unat i = ins \<and> unat m = unat n - ins \<and>
    shared_audio_read_interleaved_regulated a out oc n T tol =
      Some (if take (unat m) (ring_frames a) = [] then read_state a m else insert_state (read_state a m) i,
        interleaved (unat oc) (take (unat m) (ring_frames a)) @
          replicate ((unat m - fill_of a) * unat oc) 0 @
          concat (replicate ins (pad_frame (unat oc) (take (unat m) (ring_frames a)))) @
          drop (unat n * unat oc) out,
        frames_to_read a m)"
proof -
  let ?oc = "unat oc" and ?fr = "ring_frames a"
  let ?e = "ucast (ucast T - (h_write_pos (header a) - h_read_pos (header a))) :: u32"
  define i0 where "i0 = (if ?e < 8 then ?e else 8)"
  define i where "i = (if i0 > n then n else i0)"
  define m where "m = n - i"
  have i0: "unat i0 = min 8 (unat T - fill_of a)"
    unfolding i0_def using unat_deficit[OF ok, of T] low by (simp only: unat_correction)
  have i: "unat i = ins" unfolding i_def ins_def i0 [symmetric] by (simp add: word_less_nat_alt min_def)
  have m: "unat m = unat n - ins" unfolding m_def using i by (subst unat_sub_pos) (simp_all add: ins_def)
  have ins: "ins \<le> unat n" by (simp add: ins_def)
  have mn: "unat m * ?oc + ins * ?oc = unat n * ?oc"
    using m ins by (metis add_mult_distrib le_add_diff_inverse2)
  define fs where "fs = take (unat m) ?fr"
  define Z where "Z = replicate ((unat m - fill_of a) * ?oc) (0 :: 'a)"
  define out1 where "out1 = (interleaved ?oc fs @ Z) @ drop (unat m * ?oc) out"
  have rd1: "shared_audio_read_interleaved a out oc m = Some (read_state a m, out1, frames_to_read a m)"
    using shared_audio_read_interleaved_spec[OF ok, of m oc out] len mn by (simp add: out1_def fs_def Z_def)
  have lfs: "unat (frames_to_read a m) = length fs"
    by (simp add: fs_def frames_to_read_nat[OF ok] length_ring_frames)
  then have pos: "frames_to_read a m > 0 \<longleftrightarrow> fs \<noteq> []" by (simp add: word_less_nat_alt)
  have front: "length (interleaved ?oc fs @ Z) = unat m * ?oc"
    by (simp add: fs_def Z_def length_ring_frames min_def flip: add_mult_distrib)
  have guard: "\<not> unat T + unat tol < fill_of a" "n > 0" using low n by (auto simp: word_less_nat_alt)
  have reg: "shared_audio_read_interleaved_regulated a out oc n T tol =
      (if frames_to_read a m > 0 then do {
         out2 \<leftarrow> for_each (\<lambda>k buf. memcpy_within buf (unat m * ?oc + k * ?oc)
                   ((unat (frames_to_read a m) - 1) * ?oc) ?oc) [0..<unat i] out1;
         Some (insert_state (read_state a m) i, out2, frames_to_read a m) }
       else do { out2 \<leftarrow> memset out1 (unat m * ?oc) 0 (unat i * ?oc); Some (read_state a m, out2, frames_to_read a m) })"
    using guard low rd1
    unfolding shared_audio_read_interleaved_regulated_def Let_def load_pos_def unat_fill_cmp[OF ok]
      i0_def [symmetric] i_def [symmetric] m_def [symmetric]
    by (simp add: insert_state_def)
  have "length fs \<le> unat m" by (simp add: fs_def)
  moreover have "ins * ?oc \<le> length (drop (unat m * ?oc) out)" "drop (ins * ?oc) (drop (unat m * ?oc) out) = drop (unat n * ?oc) out"
    using len mn by (simp_all add: add.commute)
  ultimately have "(if fs \<noteq> [] then for_each (\<lambda>k buf. memcpy_within buf (unat m * ?oc + k * ?oc) ((length fs - 1) * ?oc) ?oc) [0..<ins] out1
      else memset out1 (unat m * ?oc) 0 (ins * ?oc)) =
    Some (interleaved ?oc fs @ Z @ concat (replicate ins (pad_frame ?oc fs)) @ drop (unat n * ?oc) out)"
    using fill_up[OF front, of ins "drop (unat m * ?oc) out"] by (simp only: out1_def)
  then have "shared_audio_read_interleaved_regulated a out oc n T tol =
      Some (if fs = [] then read_state a m else insert_state (read_state a m) i,
        interleaved ?oc fs @ Z @ concat (replicate ins (pad_frame ?oc fs)) @ drop (unat n * ?oc) out,
        frames_to_read a m)"
    unfolding reg pos lfs i by (cases "fs = []") simp_all
  with i m show ?thesis unfolding fs_def Z_def by blast
qed

section \<open>One description of all branches\<close>

text \<open>
  How many frames a regulated read drops and how many output frames it makes up: the distance
  to the target, at most eight frames and at most the requested frames, outside the tolerance
  band only.
\<close>

definition regulation :: "nat \<Rightarrow> nat \<Rightarrow> nat \<Rightarrow> nat \<Rightarrow> nat \<times> nat" where
  "regulation fill target tolerance frames =
     (if target + tolerance < fill then (min 8 (fill - target), 0)
      else if fill + tolerance < target then (0, min frames (min 8 (target - fill)))
      else (0, 0))"

lemma insert_state_spec:
  "ring_ok (insert_state a i) = ring_ok a" "ring_frames (insert_state a i) = ring_frames a"
  "fill_of (insert_state a i) = fill_of a"
  by (rule ring_view_cong; simp add: insert_state_def)+

lemma insert_state_sel [simp]:
  "samples (insert_state a i) = samples a"
  "header (insert_state a i) = (header a)\<lparr>h_inserted_frames := h_inserted_frames (header a) + ucast i\<rparr>"
  by (simp_all add: insert_state_def)

lemma drop_state_sel [simp]:
  "samples (drop_state a i) = samples a"
  "header (drop_state a d) = (header a)\<lparr>h_read_pos := h_read_pos (header a) + ucast d,
                           h_dropped_frames := h_dropped_frames (header a) + ucast d\<rparr>"
  by (simp_all add: drop_state_def)

text \<open>What the regulated read leaves behind: the ring and its counters.\<close>

definition regulated_effect ::
  "'a shared_ring \<Rightarrow> nat \<Rightarrow> nat \<Rightarrow> nat \<Rightarrow> 'a shared_ring \<Rightarrow> bool" where
  "regulated_effect a n d i a' \<longleftrightarrow>
     ring_ok a' \<and> ring_frames a' = drop (d + (n - i)) (ring_frames a) \<and>
     h_capacity_frames (header a') = h_capacity_frames (header a) \<and>
     h_channels (header a') = h_channels (header a) \<and>
     h_write_pos (header a') = h_write_pos (header a) \<and>
     h_overruns (header a') = h_overruns (header a) \<and>
     h_underruns (header a') = h_underruns (header a) + (if fill_of a - d < n - i then 1 else 0) \<and>
     h_dropped_frames (header a') = h_dropped_frames (header a) + of_nat d \<and>
     h_inserted_frames (header a') =
       h_inserted_frames (header a) + (if take (n - i) (ring_frames a) = [] then 0 else of_nat i)"

text \<open>What it puts into the output buffer.\<close>

definition regulated_output ::
  "nat \<Rightarrow> ('a::zero) list list \<Rightarrow> nat \<Rightarrow> nat \<Rightarrow> nat \<Rightarrow> 'a list \<Rightarrow> 'a list" where
  "regulated_output oc fr n d i out =
     (let real = take (n - i) (drop d fr)
      in interleaved oc real @ replicate ((n - i - length real) * oc) 0 @
         concat (replicate i (pad_frame oc real)) @ drop (n * oc) out)"

lemma read_state_counters [simp]:
  "h_dropped_frames (header (read_state a n)) = h_dropped_frames (header a)"
  "h_inserted_frames (header (read_state a n)) = h_inserted_frames (header a)"
  "h_overruns (header (read_state a n)) = h_overruns (header a)"
  by (simp_all add: read_state_def note_underrun_def)

lemma ucast_of_nat_unat: "(ucast (d :: u32) :: u64) = of_nat (unat d)"
  by simp

lemma effect_read:
  assumes "ring_ok a" "unat d \<le> fill_of a"
  shows "regulated_effect a (unat n) (unat d) 0 (read_state (drop_state a d) n)"
  unfolding regulated_effect_def
  using read_state_spec[OF drop_state_spec(1)[OF assms], of n] drop_state_spec[OF assms]
  by (simp add: add.commute)

lemma effect_insert:
  assumes "ring_ok a" "unat m = unat n - unat i"
  shows "regulated_effect a (unat n) 0 (unat i)
    (if take (unat m) (ring_frames a) = [] then read_state a m else insert_state (read_state a m) i)"
  unfolding regulated_effect_def assms(2) [symmetric] using read_state_spec[OF assms(1), of m]
  by (simp add: insert_state_spec)

lemma drop_state_0 [simp]: "drop_state a 0 = a"
  by (simp add: drop_state_def)

lemma reference_high:
  fixes a :: "('a::zero) shared_ring" and n T tol :: u32
  assumes ok: "ring_ok a" and len: "unat n * unat oc \<le> length out"
    and high: "unat T + unat tol < fill_of a"
    and reg: "regulation (fill_of a) (unat T) (unat tol) (unat n) = (d, i)"
  shows "\<exists>a' got. shared_audio_read_interleaved_regulated a out oc n T tol =
      Some (a', regulated_output (unat oc) (ring_frames a) (unat n) d i out, got) \<and>
    unat got = min (unat n - i) (fill_of a - d) \<and> regulated_effect a (unat n) d i a'"
proof -
  have di: "d = min 8 (fill_of a - unat T)" "i = 0" using reg high by (simp_all add: regulation_def)
  from regulated_high[OF ok high len] obtain dw where
    dw: "unat dw = d" "shared_audio_read_interleaved_regulated a out oc n T tol =
      shared_audio_read_interleaved (drop_state a dw) out oc n" by (auto simp: di)
  have le: "unat dw \<le> fill_of a" using dw(1) di(1) by simp
  note ds = drop_state_spec[OF ok le]
  have "replicate ((unat n - (fill_of a - d)) * unat oc) 0 =
      replicate ((unat n - length (take (unat n) (drop d (ring_frames a)))) * unat oc) (0 :: 'a)"
    by (simp add: length_ring_frames min_def)
  with shared_audio_read_interleaved_spec[OF ds(1) len] frames_to_read_nat[OF ds(1), of n] ds(2,3)
    effect_read[OF ok le, of n] show ?thesis
    unfolding dw(2) unfolding regulated_output_def Let_def di(2) dw(1) by simp
qed

lemma reference_low:
  fixes a :: "('a::zero) shared_ring" and n T tol :: u32
  assumes ok: "ring_ok a" and len: "unat n * unat oc \<le> length out"
    and low: "fill_of a + unat tol < unat T" "0 < unat n"
    and reg: "regulation (fill_of a) (unat T) (unat tol) (unat n) = (d, i)"
  shows "\<exists>a' got. shared_audio_read_interleaved_regulated a out oc n T tol =
      Some (a', regulated_output (unat oc) (ring_frames a) (unat n) d i out, got) \<and>
    unat got = min (unat n - i) (fill_of a - d) \<and> regulated_effect a (unat n) d i a'"
proof -
  have di: "d = 0" "i = min (unat n) (min 8 (unat T - fill_of a))"
    using reg low by (simp_all add: regulation_def)
  from regulated_low[OF ok low len] obtain iw m where
    iw: "unat iw = i" "unat m = unat n - i" and
    r: "shared_audio_read_interleaved_regulated a out oc n T tol =
      Some (if take (unat m) (ring_frames a) = [] then read_state a m else insert_state (read_state a m) iw,
        interleaved (unat oc) (take (unat m) (ring_frames a)) @
          replicate ((unat m - fill_of a) * unat oc) 0 @
          concat (replicate i (pad_frame (unat oc) (take (unat m) (ring_frames a)))) @
          drop (unat n * unat oc) out, frames_to_read a m)" unfolding di(2) [symmetric] by blast
  have len': "unat m - length (take (unat m) (ring_frames a)) = unat m - fill_of a"
    by (simp add: length_ring_frames)
  have "unat m = unat n - unat iw" by (simp only: iw)
  from effect_insert[OF ok this] have eff: "regulated_effect a (unat n) 0 i
      (if take (unat m) (ring_frames a) = [] then read_state a m else insert_state (read_state a m) iw)"
    unfolding iw(1) .
  then show ?thesis
    using frames_to_read_nat[OF ok, of m]
    unfolding r regulated_output_def Let_def di(1) iw(2) [symmetric] drop_0 len' diff_zero by blast
qed

lemma reference_mid:
  fixes a :: "('a::zero) shared_ring" and n T tol :: u32
  assumes ok: "ring_ok a" and len: "unat n * unat oc \<le> length out"
    and mid: "\<not> unat T + unat tol < fill_of a" "\<not> fill_of a + unat tol < unat T \<or> unat n = 0"
    and reg: "regulation (fill_of a) (unat T) (unat tol) (unat n) = (d, i)"
  shows "\<exists>a' got. shared_audio_read_interleaved_regulated a out oc n T tol =
      Some (a', regulated_output (unat oc) (ring_frames a) (unat n) d i out, got) \<and>
    unat got = min (unat n - i) (fill_of a - d) \<and> regulated_effect a (unat n) d i a'"
proof -
  have di: "d = 0" "i = 0" using reg mid by (auto simp: regulation_def split: if_splits)
  from mid(2) have "\<not> fill_of a + unat tol < unat T \<or> n = 0" by (simp add: word_unat_eq_iff)
  note m = regulated_mid[OF ok mid(1) this, of out oc]
  have len': "unat n - length (take (unat n) (ring_frames a)) = unat n - fill_of a"
    by (simp add: length_ring_frames)
  show ?thesis
    using shared_audio_read_interleaved_spec[OF ok len] frames_to_read_nat[OF ok, of n] effect_read[OF ok, of 0 n]
    unfolding m regulated_output_def Let_def di drop_0 diff_zero len' by simp
qed

lemma regulated_reference:
  fixes a :: "('a::zero) shared_ring" and n T tol :: u32
  assumes ok: "ring_ok a" and len: "unat n * unat oc \<le> length out"
    and reg: "regulation (fill_of a) (unat T) (unat tol) (unat n) = (d, i)"
  shows "\<exists>a' got. shared_audio_read_interleaved_regulated a out oc n T tol =
      Some (a', regulated_output (unat oc) (ring_frames a) (unat n) d i out, got) \<and>
    unat got = min (unat n - i) (fill_of a - d) \<and> regulated_effect a (unat n) d i a'"
proof -
  consider "unat T + unat tol < fill_of a" | "fill_of a + unat tol < unat T" "0 < unat n"
    | "\<not> unat T + unat tol < fill_of a" "\<not> fill_of a + unat tol < unat T \<or> unat n = 0"
    by linarith
  then show ?thesis by cases (rule assms reference_high reference_low reference_mid | assumption)+
qed

section \<open>Drift\<close>

text \<open>
  One period of a device: the writer delivers a block of at most \<open>W\<close> frames, the reader asks for
  at most \<open>N\<close>; clock drift makes the two differ, by at most the largest correction.
\<close>

definition drift_step_ok :: "nat \<Rightarrow> nat \<Rightarrow> nat \<Rightarrow> 'a drift_step \<Rightarrow> bool" where
  "drift_step_ok C N W s \<longleftrightarrow>
     buffers_ok C (unat (step_write s)) (step_channels s) \<and>
     unat (step_write s) \<le> W \<and> unat (step_read s) \<le> N \<and>
     unat (step_write s) \<le> unat (step_read s) + 8 \<and> unat (step_read s) \<le> unat (step_write s) + 8"

definition in_band :: "nat \<Rightarrow> nat \<Rightarrow> nat \<Rightarrow> 'a shared_ring \<Rightarrow> bool" where
  "in_band target tolerance N a \<longleftrightarrow> target - tolerance - N \<le> fill_of a \<and> fill_of a \<le> target + tolerance"

lemma regulation_keeps_band:
  fixes F w n N T tol :: nat
  assumes "T - tol - N \<le> F" "F \<le> T + tol" "7 \<le> tol" "tol + N \<le> T"
    "n \<le> N" "w \<le> n + 8" "n \<le> w + 8" "regulation (F + w) T tol n = (d, i)"
  shows "n - i \<le> F + w - d" "T - tol - N \<le> F + w - (d + (n - i))" "F + w - (d + (n - i)) \<le> T + tol"
proof -
  consider (high) "T + tol < F + w" "d = 8" "i = 0" | (low) "F + w + tol < T" "d = 0" "i = min n 8"
    | (mid) "T - tol \<le> F + w" "F + w \<le> T + tol" "d = 0" "i = 0"
    using assms(3,8) unfolding regulation_def by (fastforce split: if_splits)
  then have "n - i \<le> F + w - d \<and> T - tol - N \<le> F + w - (d + (n - i)) \<and> F + w - (d + (n - i)) \<le> T + tol"
    by cases (use assms(1-7) in linarith)+
  then show "n - i \<le> F + w - d" "T - tol - N \<le> F + w - (d + (n - i))" "F + w - (d + (n - i)) \<le> T + tol"
    by blast+
qed

lemma drift_cycle_stable:
  fixes a :: "('a::zero) shared_ring"
  assumes ok: "ring_ok a" and s: "drift_step_ok (chans_of a) N W s" and band: "in_band (unat T) (unat tol) N a"
    and tol: "7 \<le> unat tol" "unat tol + N \<le> unat T" and cap: "unat T + unat tol + W \<le> cap_of a"
    and pos: "wpos a + unat (step_write s) < 2 ^ 64"
  shows "\<exists>a'. drift_cycle oc T tol a s = Some a' \<and> ring_ok a' \<and> in_band (unat T) (unat tol) N a' \<and>
    cap_of a' = cap_of a \<and> chans_of a' = chans_of a \<and> wpos a' = wpos a + unat (step_write s) \<and>
    h_underruns (header a') = h_underruns (header a) \<and> h_overruns (header a') = h_overruns (header a)"
proof -
  let ?w = "unat (step_write s)" and ?n = "unat (step_read s)"
  have room: "fill_of a + ?w \<le> cap_of a" using band s cap by (simp add: in_band_def drift_step_ok_def)
  have bufs: "buffers_ok (chans_of a) ?w (step_channels s)" using s by (simp add: drift_step_ok_def)
  from shared_audio_write_accepts[OF ok bufs pos room] obtain smp where
    w: "shared_audio_write a (step_channels s) (step_write s) = Some (a\<lparr>samples := smp, header :=
        (header a)\<lparr>h_write_pos := h_write_pos (header a) + ucast (step_write s)\<rparr>\<rparr>, 0)"
      "length smp = length (samples a)" by blast
  define a1 where "a1 = a\<lparr>samples := smp, header :=
        (header a)\<lparr>h_write_pos := h_write_pos (header a) + ucast (step_write s)\<rparr>\<rparr>"
  have wp: "wpos a1 = wpos a + ?w" using pos by (simp add: a1_def word_nat_simps)
  have f1: "fill_of a1 = fill_of a + ?w" using wp ok by (simp add: fill_of_def ring_ok_def a1_def)
  have ok1: "ring_ok a1" using ok w(2) room f1 wp by (simp add: ring_ok_def a1_def fill_of_def)
  obtain d i where reg: "regulation (fill_of a1) (unat T) (unat tol) ?n = (d, i)" by fastforce
  from regulated_reference[OF ok1 _ reg, of oc "replicate (?n * unat oc) 0"] obtain a2 got where
    r: "shared_audio_read_interleaved_regulated a1 (replicate (?n * unat oc) 0) oc (step_read s) T tol =
      Some (a2, regulated_output (unat oc) (ring_frames a1) ?n d i (replicate (?n * unat oc) 0), got)"
    and e: "regulated_effect a1 ?n d i a2" by auto
  have keep: "?n - i \<le> fill_of a1 - d" "in_band (unat T) (unat tol) N a2"
    using regulation_keeps_band[of "unat T" "unat tol" N "fill_of a" ?n ?w d i] band s tol reg
      arg_cong [where f = length, OF e [unfolded regulated_effect_def, THEN conjunct2, THEN conjunct1]]
    by (simp_all add: in_band_def drift_step_ok_def f1 length_ring_frames)
  have "drift_cycle oc T tol a s = Some a2" using w(1) r by (simp add: drift_cycle_def a1_def)
  then show ?thesis using e keep wp by (auto simp: regulated_effect_def) (simp_all add: a1_def)
qed

lemma drift_run_stable:
  fixes a :: "('a::zero) shared_ring"
  assumes "ring_ok a" "\<forall>s \<in> set steps. drift_step_ok (chans_of a) N W s" "in_band (unat T) (unat tol) N a"
    "7 \<le> unat tol" "unat tol + N \<le> unat T" "unat T + unat tol + W \<le> cap_of a"
    "wpos a + sum_list (map (\<lambda>s. unat (step_write s)) steps) < 2 ^ 64"
  shows "\<exists>as. drift_run oc T tol a steps = Some as \<and> length as = length steps \<and>
    (\<forall>a' \<in> set as. ring_ok a' \<and> in_band (unat T) (unat tol) N a' \<and>
       h_underruns (header a') = h_underruns (header a) \<and> h_overruns (header a') = h_overruns (header a))"
  using assms(1-3,6,7)
proof (induction steps arbitrary: a)
  case (Cons s ss)
  obtain a1 where a1: "drift_cycle oc T tol a s = Some a1" "ring_ok a1" "in_band (unat T) (unat tol) N a1"
    "cap_of a1 = cap_of a" "chans_of a1 = chans_of a" "wpos a1 = wpos a + unat (step_write s)"
    "h_underruns (header a1) = h_underruns (header a)" "h_overruns (header a1) = h_overruns (header a)"
    using drift_cycle_stable[OF Cons.prems(1) _ Cons.prems(3) assms(4,5) Cons.prems(4), of s] Cons.prems(2,5)
    by auto
  from Cons.IH[OF a1(2) _ a1(3)] Cons.prems a1(4-6) obtain as where
    "drift_run oc T tol a1 ss = Some as" "length as = length ss"
    "\<forall>a' \<in> set as. ring_ok a' \<and> in_band (unat T) (unat tol) N a' \<and>
       h_underruns (header a') = h_underruns (header a1) \<and> h_overruns (header a') = h_overruns (header a1)"
    by (auto simp: add.assoc)
  with a1 show ?case by auto
qed simp

section \<open>Properties\<close>

text \<open>Seeking to a fill keeps the newest frames, at most as many as asked for, drops all older
  ones, returns the resulting fill, and counts one reset.\<close>

theorem seek_to_fill_keeps_newest:
  fixes target :: u32
  assumes "ring_ok a" "shared_audio_seek_to_fill a target = (a', fill)"
  shows "unat fill = min (fill_of a) (unat target) \<and> ring_ok a' \<and>
    ring_frames a' = drop (fill_of a - unat target) (ring_frames a) \<and> fill_of a' = unat fill \<and>
    h_resets (header a') = h_resets (header a) + 1"
  using seek_spec[OF assms(1), of target] assms(2) by simp

theorem seek_to_fill_keeps_newest_witness:
  "\<exists>a' fill. shared_audio_seek_to_fill sample_ring 1 = (a', fill) \<and> unat fill = 1 \<and>
     ring_frames a' = [[10, 20]]"
proof -
  obtain a' fill where s: "shared_audio_seek_to_fill sample_ring 1 = (a', fill)" by fastforce
  from seek_to_fill_keeps_newest[OF sample_ring_ok this] s show ?thesis
    by (auto simp: sample_ring_facts sample_ring_frames)
qed

text \<open>C20. The regulated read always returns.  Above the tolerance band it first drops frames, below
  it makes up output frames by repeating the last real frame, in both cases at most eight and
  at most the distance to the target; inside the band it is a plain read.  The output buffer
  is filled exactly, the ring loses exactly the dropped and delivered frames, and the drop,
  insertion and underrun counters record what happened.\<close>

theorem regulated_read_contract:
  fixes a :: "('a::zero) shared_ring"
  assumes "ring_ok a" "unat frames * unat out_channels \<le> length out"
    "regulation (fill_of a) (unat target) (unat tolerance) (unat frames) = (d, i)"
  shows "\<exists>a' got. shared_audio_read_interleaved_regulated a out out_channels frames target tolerance =
      Some (a', regulated_output (unat out_channels) (ring_frames a) (unat frames) d i out, got) \<and>
    unat got = min (unat frames - i) (fill_of a - d) \<and> regulated_effect a (unat frames) d i a' \<and>
    d \<le> 8 \<and> i \<le> 8 \<and> i \<le> unat frames"
proof -
  have "d \<le> 8" "i \<le> 8" "i \<le> unat frames"
    using assms(3) unfolding regulation_def by (auto split: if_splits simp: min_le_iff_disj)
  with regulated_reference[OF assms] show ?thesis by blast
qed

theorem regulated_read_contract_witness:
  "\<exists>a' got. shared_audio_read_interleaved_regulated sample_ring (replicate 6 7) 2 3 4 1 =
     Some (a', [13, 23, 13, 23, 13, 23], got) \<and> unat got = 1"
proof -
  have r: "regulation (fill_of sample_ring) (unat (4 :: u32)) (unat (1 :: u32)) (unat (3 :: u32)) = (0, 2)"
    by (simp add: regulation_def sample_ring_facts)
  have "regulated_output 2 [[13, 23], [10, 20]] 3 0 2 (replicate 6 7) = [13, 23, 13, 23, 13, 23 :: int]"
    by code_simp
  then show ?thesis
    using regulated_read_contract[OF sample_ring_ok _ r, of 2 "replicate 6 7"]
    by (auto simp: sample_ring_facts sample_ring_frames)
qed

text \<open>C8. Drift never breaks the stream: for every sequence of device periods whose writer and reader
  blocks differ by at most eight frames, starting inside the band, every cycle returns, the
  fill stays inside the band, no write is rejected and no read runs short.  The tolerance must
  be at least seven frames, the target must leave room for the tolerance and one reader block,
  and the ring must hold the target, the tolerance and one writer block.\<close>

theorem drift_regulation_stable:
  fixes a :: "('a::zero) shared_ring"
  assumes "ring_ok a" "\<forall>s \<in> set steps. drift_step_ok (chans_of a) N W s" "in_band (unat T) (unat tol) N a"
    "7 \<le> unat tol" "unat tol + N \<le> unat T" "unat T + unat tol + W \<le> cap_of a"
    "wpos a + sum_list (map (\<lambda>s. unat (step_write s)) steps) < 2 ^ 64"
  shows "\<exists>as. drift_run oc T tol a steps = Some as \<and> length as = length steps \<and>
    (\<forall>a' \<in> set as. ring_ok a' \<and> in_band (unat T) (unat tol) N a' \<and>
       h_underruns (header a') = h_underruns (header a) \<and> h_overruns (header a') = h_overruns (header a))"
  using assms by (rule drift_run_stable)

definition drift_ring :: "int shared_ring" where
  "drift_ring = \<lparr>header = sample_header 1 17 3 10, samples = map int [0..<17]\<rparr>"

theorem drift_regulation_stable_witness:
  "\<exists>as. drift_run 2 9 7 drift_ring
      [\<lparr>step_channels = [[100]], step_write = 1, step_read = 2\<rparr>,
       \<lparr>step_channels = [[]], step_write = 0, step_read = 2\<rparr>] = Some as \<and> length as = 2 \<and>
    (\<forall>a' \<in> set as. h_underruns (header a') = 0)"
proof -
  let ?steps = "[\<lparr>step_channels = [[100]], step_write = 1, step_read = 2\<rparr>,
       \<lparr>step_channels = [[]], step_write = 0, step_read = 2\<rparr>] :: int drift_step list"
  have "ring_ok drift_ring" "in_band (unat (9 :: u32)) (unat (7 :: u32)) 2 drift_ring"
    "unat (9 :: u32) + unat (7 :: u32) + 1 \<le> cap_of drift_ring"
    "wpos drift_ring + sum_list (map (\<lambda>s. unat (step_write s)) ?steps) < 2 ^ 64"
    "h_underruns (header drift_ring) = 0"
    by (simp_all add: ring_ok_def drift_ring_def sample_header_def in_band_def fill_of_def)
  moreover have "\<forall>s \<in> set ?steps. drift_step_ok (chans_of drift_ring) 2 1 s"
    by (simp add: drift_step_ok_def buffers_ok_def drift_ring_def sample_header_def)
  ultimately show ?thesis
    using drift_regulation_stable[of drift_ring ?steps 2 1 9 7 2] by (simp del: drift_run.simps) force
qed

end
