(* ===== verification/RingInterleaving.thy ===== *)
theory RingInterleaving
  imports RingSpec
begin

text \<open>
  A ring between one writer and one reader that run at the same time: the accesses of the two sides
  in any interleaving, as a step relation over a record of what the two sides do, and what a ring
  has to promise of a single access, as a locale.  The shared memory ring and the ring of the
  PipeWire client are instances.
\<close>

section \<open>The system\<close>

text \<open>
  A ring program: how an operation of a side may begin, which control states are at rest between
  operations and which have a result, what an access does, and which frames an access publishes or
  passes over.  The number given to an access chooses among the samples that are left to copy.
\<close>

record ('s, 'w, 'r, 'f, 'g) ring_program =
  idle_writer :: 'w
  idle_reader :: 'r
  write_begins :: "'s \<Rightarrow> 'w \<Rightarrow> bool"
  read_begins :: "'s \<Rightarrow> 'r \<Rightarrow> bool"
  write_over :: "'w \<Rightarrow> bool"
  read_over :: "'r \<Rightarrow> bool"
  access_write :: "nat \<Rightarrow> 's \<Rightarrow> 'w \<Rightarrow> ('s \<times> 'w) option"
  access_read :: "nat \<Rightarrow> 's \<Rightarrow> 'r \<Rightarrow> ('s \<times> 'r) option"
  frames_in :: "'s \<Rightarrow> 'w \<Rightarrow> 'f list"
  frames_out :: "'s \<Rightarrow> 'r \<Rightarrow> 'g option list"

text \<open>
  \<open>published_frames\<close> collects the frames whose write has been published, \<open>consumed\<close> what has become of
  the frames behind the read position: the samples the reader has copied, or nothing for a
  frame that it has dropped.
\<close>

record ('s, 'w, 'r, 'f, 'g) ring_system =
  ring :: 's
  wpc :: 'w
  rpc :: 'r
  published_frames :: "'f list"
  consumed :: "'g option list"

datatype ('w, 'r) ring_move =
    BeginWrite 'w
  | WriterAccess nat
  | EndWrite
  | BeginRead 'r
  | ReaderAccess nat
  | EndRead

text \<open>The steps, and the same as a function of what happens next.\<close>

inductive ring_step ::
  "('s, 'w, 'r, 'f, 'g) ring_program \<Rightarrow> ('s, 'w, 'r, 'f, 'g) ring_system \<Rightarrow> ('s, 'w, 'r, 'f, 'g) ring_system \<Rightarrow> bool" for P where
  begin_write: "wpc s = idle_writer P \<Longrightarrow> write_begins P (ring s) pc \<Longrightarrow> ring_step P s (s\<lparr>wpc := pc\<rparr>)"
| writer_access: "access_write P k (ring s) (wpc s) = Some (a, pc) \<Longrightarrow>
    ring_step P s (s\<lparr>ring := a, wpc := pc, published_frames := published_frames s @ frames_in P (ring s) (wpc s)\<rparr>)"
| end_write: "write_over P (wpc s) \<Longrightarrow> ring_step P s (s\<lparr>wpc := idle_writer P\<rparr>)"
| begin_read: "rpc s = idle_reader P \<Longrightarrow> read_begins P (ring s) pc \<Longrightarrow> ring_step P s (s\<lparr>rpc := pc\<rparr>)"
| reader_access: "access_read P k (ring s) (rpc s) = Some (a, pc) \<Longrightarrow>
    ring_step P s (s\<lparr>ring := a, rpc := pc, consumed := consumed s @ frames_out P (ring s) (rpc s)\<rparr>)"
| end_read: "read_over P (rpc s) \<Longrightarrow> ring_step P s (s\<lparr>rpc := idle_reader P\<rparr>)"

fun move_ring ::
  "('s, 'w, 'r, 'f, 'g) ring_program \<Rightarrow> ('w, 'r) ring_move \<Rightarrow> ('s, 'w, 'r, 'f, 'g) ring_system \<Rightarrow>
   ('s, 'w, 'r, 'f, 'g) ring_system option" where
  "move_ring P (BeginWrite pc) s =
     (if wpc s = idle_writer P \<and> write_begins P (ring s) pc then Some (s\<lparr>wpc := pc\<rparr>) else None)"
| "move_ring P (WriterAccess k) s =
     do { (a, pc) \<leftarrow> access_write P k (ring s) (wpc s);
          Some (s\<lparr>ring := a, wpc := pc, published_frames := published_frames s @ frames_in P (ring s) (wpc s)\<rparr>) }"
| "move_ring P EndWrite s = (if write_over P (wpc s) then Some (s\<lparr>wpc := idle_writer P\<rparr>) else None)"
| "move_ring P (BeginRead pc) s =
     (if rpc s = idle_reader P \<and> read_begins P (ring s) pc then Some (s\<lparr>rpc := pc\<rparr>) else None)"
| "move_ring P (ReaderAccess k) s =
     do { (a, pc) \<leftarrow> access_read P k (ring s) (rpc s);
          Some (s\<lparr>ring := a, rpc := pc, consumed := consumed s @ frames_out P (ring s) (rpc s)\<rparr>) }"
| "move_ring P EndRead s = (if read_over P (rpc s) then Some (s\<lparr>rpc := idle_reader P\<rparr>) else None)"

fun ring_run ::
  "('s, 'w, 'r, 'f, 'g) ring_program \<Rightarrow> ('w, 'r) ring_move list \<Rightarrow> ('s, 'w, 'r, 'f, 'g) ring_system \<Rightarrow>
   ('s, 'w, 'r, 'f, 'g) ring_system option" where
  "ring_run P [] s = Some s"
| "ring_run P (m # ms) s = move_ring P m s \<bind> ring_run P ms"

text \<open>The frames in the ring at the start count as published.\<close>

definition ring_start :: "('s, 'w, 'r, 'f, 'g) ring_program \<Rightarrow> 's \<Rightarrow> 'f list \<Rightarrow> ('s, 'w, 'r, 'f, 'g) ring_system" where
  "ring_start P a fs = \<lparr>ring = a, wpc = idle_writer P, rpc = idle_reader P, published_frames = fs, consumed = []\<rparr>"

inductive ring_reachable ::
  "('s, 'w, 'r, 'f, 'g) ring_program \<Rightarrow> ('s, 'w, 'r, 'f, 'g) ring_system \<Rightarrow> ('s, 'w, 'r, 'f, 'g) ring_system \<Rightarrow> bool" for P s0 where
  start: "ring_reachable P s0 s0"
| step: "ring_reachable P s0 s \<Longrightarrow> ring_step P s s' \<Longrightarrow> ring_reachable P s0 s'"

lemma move_ring_step: "move_ring P m s = Some s' \<Longrightarrow> ring_step P s s'"
  by (cases m) (auto intro: ring_step.intros split: if_splits bind_splits)

lemma ring_step_move:
  assumes "ring_step P s s'"
  shows "\<exists>m. move_ring P m s = Some s'"
  using assms
proof (cases rule: ring_step.cases)
  case (begin_write pc)
  then show ?thesis by (intro exI[of _ "BeginWrite pc"]) simp
next
  case (writer_access k a pc)
  then show ?thesis by (intro exI[of _ "WriterAccess k"]) simp
next
  case end_write
  then show ?thesis by (intro exI[of _ EndWrite]) simp
next
  case (begin_read pc)
  then show ?thesis by (intro exI[of _ "BeginRead pc"]) simp
next
  case (reader_access k a pc)
  then show ?thesis by (intro exI[of _ "ReaderAccess k"]) simp
next
  case end_read
  then show ?thesis by (intro exI[of _ EndRead]) simp
qed

lemma ring_run_reachable:
  "ring_reachable P s0 s \<Longrightarrow> ring_run P ms s = Some s' \<Longrightarrow> ring_reachable P s0 s'"
  by (induction ms arbitrary: s) (auto split: bind_splits dest: move_ring_step intro: ring_reachable.step)

text \<open>The accesses of the two sides in a run.\<close>

fun writer_turns :: "('w, 'r) ring_move list \<Rightarrow> nat" where
  "writer_turns [] = 0"
| "writer_turns (WriterAccess k # ms) = Suc (writer_turns ms)"
| "writer_turns (m # ms) = writer_turns ms"

fun reader_turns :: "('w, 'r) ring_move list \<Rightarrow> nat" where
  "reader_turns [] = 0"
| "reader_turns (ReaderAccess k # ms) = Suc (reader_turns ms)"
| "reader_turns (m # ms) = reader_turns ms"

lemma turns_Cons:
  "writer_turns (m # ms) = writer_turns [m] + writer_turns ms" "reader_turns (m # ms) = reader_turns [m] + reader_turns ms"
  by (cases m; simp)+

text \<open>The accesses of one side while the other side rests.\<close>

fun alone :: "(nat \<Rightarrow> 's \<Rightarrow> 'p \<Rightarrow> ('s \<times> 'p) option) \<Rightarrow> nat list \<Rightarrow> 's \<Rightarrow> 'p \<Rightarrow> ('s \<times> 'p) option" where
  "alone acc [] a pc = Some (a, pc)"
| "alone acc (k # ks) a pc = do { (a', pc') \<leftarrow> acc k a pc; alone acc ks a' pc' }"

lemma alone_rest: "(\<And>k. acc k a pc = Some (a, pc)) \<Longrightarrow> alone acc ks a pc = Some (a, pc)"
  by (induction ks) simp_all

text \<open>An access takes one of the elements that are left.\<close>

lemma chosen_in: "(x # xs) ! (k mod length (x # xs)) \<in> set (x # xs)"
  by (rule nth_mem) simp

lemma length_remove_chosen:
  assumes "(x # xs) ! (k mod length (x # xs)) = p"
  shows "length (remove1 p (x # xs)) = length xs"
proof -
  have "p \<in> set (x # xs)" unfolding assms [symmetric] by (rule nth_mem) simp
  then show ?thesis by (simp add: length_remove1 del: remove1.simps)
qed

section \<open>What a ring promises of one access\<close>

text \<open>Every frame behind the read position was delivered as it was published, or dropped.\<close>

definition account_ok :: "('s \<Rightarrow> 'f list) \<Rightarrow> ('f \<Rightarrow> 'g) \<Rightarrow> ('s, 'w, 'r, 'f, 'g) ring_system \<Rightarrow> bool" where
  "account_ok content view s \<longleftrightarrow>
     content (ring s) = drop (length (consumed s)) (published_frames s) \<and>
     length (consumed s) \<le> length (published_frames s) \<and>
     (\<forall>i < length (consumed s). consumed s ! i = None \<or> consumed s ! i = Some (view (published_frames s ! i)))"

definition passed_ok :: "('f \<Rightarrow> 'g) \<Rightarrow> 'f list \<Rightarrow> 'g option list \<Rightarrow> bool" where
  "passed_ok view fs gone \<longleftrightarrow>
     length gone \<le> length fs \<and> (\<forall>i < length gone. gone ! i = None \<or> gone ! i = Some (view (fs ! i)))"

lemma account_write:
  assumes "account_ok content view s" "content a = content (ring s) @ new"
  shows "account_ok content view (s\<lparr>ring := a, wpc := pc, published_frames := published_frames s @ new\<rparr>)"
  using assms by (auto simp: account_ok_def nth_append)

lemma account_read:
  assumes s: "account_ok content view s" and g: "passed_ok view (content (ring s)) gone"
    and a: "content a = drop (length gone) (content (ring s))"
  shows "account_ok content view (s\<lparr>ring := a, rpc := pc, consumed := consumed s @ gone\<rparr>)"
proof -
  have fill: "length (content (ring s)) = length (published_frames s) - length (consumed s)"
    using s by (simp add: account_ok_def)
  have "(consumed s @ gone) ! i = None \<or> (consumed s @ gone) ! i = Some (view (published_frames s ! i))"
    if "i < length (consumed s @ gone)" for i
  proof (cases "i < length (consumed s)")
    case False
    then obtain j where j: "i = length (consumed s) + j" "j < length gone"
      using \<open>i < length (consumed s @ gone)\<close> by (metis add_diff_inverse_nat length_append nat_add_left_cancel_less)
    then have "content (ring s) ! j = published_frames s ! i" using s g fill by (simp add: account_ok_def passed_ok_def)
    with g j show ?thesis by (auto simp: passed_ok_def nth_append)
  qed (use s in \<open>auto simp: account_ok_def nth_append\<close>)
  then show ?thesis
    using s a g fill by (auto simp: account_ok_def passed_ok_def add.commute)
qed

text \<open>A reader that drops nothing has got everything that was published and is no longer in the ring.\<close>

lemma nothing_dropped:
  assumes "None \<notin> set gone" "fs = drop (length gone) ps" "length gone \<le> length ps"
    "\<forall>i < length gone. gone ! i = None \<or> gone ! i = Some (ps ! i)"
  shows "gone @ map Some fs = map Some ps"
proof -
  have "gone ! i = Some (ps ! i)" if "i < length gone" for i using assms(1,4) nth_mem[OF that] that by fastforce
  then have "gone = map Some (take (length gone) ps)" using assms(3) by (intro nth_equalityI) auto
  then show ?thesis using assms(2) by (metis append_take_drop_id map_append)
qed

text \<open>
  \<open>wok\<close> and \<open>rok\<close> say what a side has achieved so far; every access keeps what the other side relies
  on.  \<open>wleft\<close> and \<open>rleft\<close> bound the accesses that an operation has left.
\<close>

locale interleaved_ring =
  fixes P :: "('s, 'w, 'r, 'f, 'g) ring_program"
    and ok :: "'s \<Rightarrow> bool" and content :: "'s \<Rightarrow> 'f list" and view :: "'f \<Rightarrow> 'g"
    and wok :: "'s \<Rightarrow> 'w \<Rightarrow> bool" and rok :: "'s \<Rightarrow> 'r \<Rightarrow> bool"
    and wleft :: "'s \<Rightarrow> 'w \<Rightarrow> nat" and rleft :: "'s \<Rightarrow> 'r \<Rightarrow> nat"
  assumes idle: "ok a \<Longrightarrow> wok a (idle_writer P)" "ok a \<Longrightarrow> rok a (idle_reader P)"
    and begins: "ok a \<Longrightarrow> write_begins P a pc \<Longrightarrow> wok a pc" "ok a \<Longrightarrow> read_begins P a rp \<Longrightarrow> rok a rp"
    and write_law: "ok a \<Longrightarrow> wok a pc \<Longrightarrow> rok a rp \<Longrightarrow>
      \<exists>a' pc'. access_write P k a pc = Some (a', pc') \<and> ok a' \<and> wok a' pc' \<and> rok a' rp \<and>
        content a' = content a @ frames_in P a pc \<and> wleft a' pc' \<le> wleft a pc - 1 \<and> rleft a' = rleft a \<and>
        (pc \<noteq> idle_writer P \<longrightarrow> pc' \<noteq> idle_writer P)"
    and read_law: "ok a \<Longrightarrow> wok a pc \<Longrightarrow> rok a rp \<Longrightarrow>
      \<exists>a' rp'. access_read P k a rp = Some (a', rp') \<and> ok a' \<and> wok a' pc \<and> rok a' rp' \<and>
        passed_ok view (content a) (frames_out P a rp) \<and> content a' = drop (length (frames_out P a rp)) (content a) \<and>
        rleft a' rp' \<le> rleft a rp - 1 \<and> wleft a' = wleft a \<and> (rp \<noteq> idle_reader P \<longrightarrow> rp' \<noteq> idle_reader P)"
    and rest: "ok a \<Longrightarrow> wok a pc \<Longrightarrow> pc \<noteq> idle_writer P \<Longrightarrow> wleft a pc = 0 \<Longrightarrow> write_over P pc"
      "ok a \<Longrightarrow> rok a rp \<Longrightarrow> rp \<noteq> idle_reader P \<Longrightarrow> rleft a rp = 0 \<Longrightarrow> read_over P rp"
begin

lemma move_keeps:
  assumes "ok (ring s)" "wok (ring s) (wpc s)" "rok (ring s) (rpc s)" "account_ok content view s" "move_ring P m s = Some s'"
  shows "ok (ring s') \<and> wok (ring s') (wpc s') \<and> rok (ring s') (rpc s') \<and> account_ok content view s'"
proof (cases m)
  case (WriterAccess k)
  with assms write_law[OF assms(1-3), of k] show ?thesis by (auto intro: account_write)
next
  case (ReaderAccess k)
  with assms read_law[OF assms(1-3), of k] show ?thesis by (auto intro: account_read)
qed (use assms idle begins in \<open>auto simp: account_ok_def split: if_splits\<close>)

lemma reachable_ok:
  assumes "ring_reachable P (ring_start P a (content a)) s" "ok a"
  shows "ok (ring s) \<and> wok (ring s) (wpc s) \<and> rok (ring s) (rpc s) \<and> account_ok content view s"
  using assms
proof (induction rule: ring_reachable.induct)
  case start
  then show ?case using idle by (simp add: ring_start_def account_ok_def)
next
  case (step s s')
  then show ?case using ring_step_move[of P s s'] move_keeps by blast
qed

lemma conservation:
  assumes "ring_reachable P (ring_start P a (content a)) s" "ok a"
  shows "ok (ring s) \<and> length (consumed s) + length (content (ring s)) = length (published_frames s) \<and>
    content (ring s) = drop (length (consumed s)) (published_frames s) \<and>
    (\<forall>i < length (consumed s). consumed s ! i = None \<or> consumed s ! i = Some (view (published_frames s ! i)))"
  using reachable_ok[OF assms] by (auto simp: account_ok_def)

lemma never_stuck:
  assumes "ring_reachable P (ring_start P a (content a)) s" "ok a"
  shows "access_write P k (ring s) (wpc s) \<noteq> None" "access_read P k (ring s) (rpc s) \<noteq> None"
  using reachable_ok[OF assms] write_law[of "ring s" "wpc s" "rpc s" k] read_law[of "ring s" "wpc s" "rpc s" k] by auto

lemma move_write_left:
  assumes "ok (ring s)" "wok (ring s) (wpc s)" "rok (ring s) (rpc s)" "move_ring P m s = Some s'" "m \<noteq> EndWrite" "wpc s \<noteq> idle_writer P"
  shows "wpc s' \<noteq> idle_writer P \<and> wleft (ring s') (wpc s') \<le> wleft (ring s) (wpc s) - writer_turns [m]"
proof (cases m)
  case (WriterAccess k)
  with assms write_law[OF assms(1-3), of k] show ?thesis by auto
next
  case (ReaderAccess k)
  with assms read_law[OF assms(1-3), of k] show ?thesis by auto
qed (use assms in \<open>auto split: if_splits\<close>)

lemma move_read_left:
  assumes "ok (ring s)" "wok (ring s) (wpc s)" "rok (ring s) (rpc s)" "move_ring P m s = Some s'" "m \<noteq> EndRead" "rpc s \<noteq> idle_reader P"
  shows "rpc s' \<noteq> idle_reader P \<and> rleft (ring s') (rpc s') \<le> rleft (ring s) (rpc s) - reader_turns [m]"
proof (cases m)
  case (WriterAccess k)
  with assms write_law[OF assms(1-3), of k] show ?thesis by auto
next
  case (ReaderAccess k)
  with assms read_law[OF assms(1-3), of k] show ?thesis by auto
qed (use assms in \<open>auto split: if_splits\<close>)

lemma run_left:
  assumes "ring_reachable P (ring_start P a (content a)) s" "ok a" "ring_run P ms s = Some s'"
  shows "wpc s \<noteq> idle_writer P \<Longrightarrow> EndWrite \<notin> set ms \<Longrightarrow>
      wpc s' \<noteq> idle_writer P \<and> wleft (ring s') (wpc s') \<le> wleft (ring s) (wpc s) - writer_turns ms"
    "rpc s \<noteq> idle_reader P \<Longrightarrow> EndRead \<notin> set ms \<Longrightarrow>
      rpc s' \<noteq> idle_reader P \<and> rleft (ring s') (rpc s') \<le> rleft (ring s) (rpc s) - reader_turns ms"
proof -
  have "(wpc s \<noteq> idle_writer P \<longrightarrow> EndWrite \<notin> set ms \<longrightarrow>
      wpc s' \<noteq> idle_writer P \<and> wleft (ring s') (wpc s') \<le> wleft (ring s) (wpc s) - writer_turns ms) \<and>
    (rpc s \<noteq> idle_reader P \<longrightarrow> EndRead \<notin> set ms \<longrightarrow>
      rpc s' \<noteq> idle_reader P \<and> rleft (ring s') (rpc s') \<le> rleft (ring s) (rpc s) - reader_turns ms)"
    using assms(1,3)
  proof (induction ms arbitrary: s)
    case (Cons m ms)
    then obtain s1 where s1: "move_ring P m s = Some s1" "ring_run P ms s1 = Some s'" by (auto split: bind_splits)
    have r1: "ring_reachable P (ring_start P a (content a)) s1"
      using Cons.prems(1) move_ring_step[OF s1(1)] by (rule ring_reachable.step)
    from reachable_ok[OF Cons.prems(1) assms(2)] have o: "ok (ring s)" "wok (ring s) (wpc s)" "rok (ring s) (rpc s)" by simp_all
    show ?case
      using Cons.IH[OF r1 s1(2)] move_write_left[OF o s1(1)] move_read_left[OF o s1(1)] turns_Cons[of m ms] by fastforce
  qed simp
  then show "wpc s \<noteq> idle_writer P \<Longrightarrow> EndWrite \<notin> set ms \<Longrightarrow>
      wpc s' \<noteq> idle_writer P \<and> wleft (ring s') (wpc s') \<le> wleft (ring s) (wpc s) - writer_turns ms"
    "rpc s \<noteq> idle_reader P \<Longrightarrow> EndRead \<notin> set ms \<Longrightarrow>
      rpc s' \<noteq> idle_reader P \<and> rleft (ring s') (rpc s') \<le> rleft (ring s) (rpc s) - reader_turns ms" by simp_all
qed

lemma wait_free:
  assumes "ring_reachable P (ring_start P a (content a)) s" "ok a" "ring_run P ms s = Some s'"
  shows "wpc s \<noteq> idle_writer P \<Longrightarrow> EndWrite \<notin> set ms \<Longrightarrow> wleft (ring s) (wpc s) \<le> writer_turns ms \<Longrightarrow> write_over P (wpc s')"
    "rpc s \<noteq> idle_reader P \<Longrightarrow> EndRead \<notin> set ms \<Longrightarrow> rleft (ring s) (rpc s) \<le> reader_turns ms \<Longrightarrow> read_over P (rpc s')"
proof -
  have "ring_reachable P (ring_start P a (content a)) s'" using assms(1,3) by (rule ring_run_reachable)
  from reachable_ok[OF this assms(2)] have o: "ok (ring s')" "wok (ring s') (wpc s')" "rok (ring s') (rpc s')" by simp_all
  show "wpc s \<noteq> idle_writer P \<Longrightarrow> EndWrite \<notin> set ms \<Longrightarrow> wleft (ring s) (wpc s) \<le> writer_turns ms \<Longrightarrow> write_over P (wpc s')"
    using run_left(1)[OF assms] rest(1)[OF o(1,2)] by simp
  show "rpc s \<noteq> idle_reader P \<Longrightarrow> EndRead \<notin> set ms \<Longrightarrow> rleft (ring s) (rpc s) \<le> reader_turns ms \<Longrightarrow> read_over P (rpc s')"
    using run_left(2)[OF assms] rest(2)[OF o(1,3)] by simp
qed

end

end
