(* ===== verification/SharedConcurrent.thy ===== *)
theory SharedConcurrent
  imports SharedRegulation RingInterleaving
begin

text \<open>
  The shared ring as two processes use it: the daemon in \<open>shared_audio_write\<close> and the device in
  \<open>shared_audio_read_interleaved_regulated\<close>, \<open>shared_audio_read_interleaved\<close> or
  \<open>shared_audio_seek_to_fill\<close>, in any interleaving of their memory accesses.  The positions are
  loaded with acquire and stored with release order, the samples between them in any order, as the
  memory functions and the processor please.  A position is stored by one side only, so that its
  owner's loads of it are not steps of their own; the statistics in the header have one owner each.
\<close>

section \<open>Accesses\<close>

text \<open>The writer between two accesses, with the samples it has still to store.\<close>

datatype 'a write_pc =
    WriteIdle
  | WriteCheck "'a list list" u32
  | WriteCopy "'a list list" u32 "(nat \<times> nat) list"
  | WriteDone int

text \<open>
  The reader between two accesses: after the load for a seek, before and after the decision of a
  regulated read, before the load and during the copy of a read, and before it makes up frames.  The
  second number of a read is the number of frames to make up behind the frames read.
\<close>

datatype 'a read_pc =
    ReadIdle
  | ReadSeek u32
  | ReadSeekStore u64 u32
  | ReadRegulate "'a list" u32 u32 u32
  | ReadDrop "'a list" u32 u32
  | ReadStart "'a list" u32 u32
  | ReadCopy "'a list" u32 u32 u32 "(nat \<times> nat) list"
  | ReadTail "'a list" u32 u32 u32
  | ReadDone "'a list" u32

text \<open>The samples of a block, and the slot the two \<open>memcpy\<close> calls of a channel give a frame.\<close>

definition sample_list :: "nat \<Rightarrow> nat \<Rightarrow> (nat \<times> nat) list" where
  "sample_list channels frames = List.product [0..<channels] [0..<frames]"

definition write_slot :: "'a shared_ring \<Rightarrow> u32 \<Rightarrow> nat \<Rightarrow> nat" where
  "write_slot a frames i =
     (let capacity = h_capacity_frames (header a);
          index = ucast (load_pos (h_write_pos (header a)) mod ucast capacity) :: u32;
          first = (if frames < capacity - index then frames else capacity - index)
      in if i < unat first then unat index + i else i - unat first)"

text \<open>One access of the writer; \<open>k\<close> chooses the next of the samples that are left.\<close>

fun write_access :: "nat \<Rightarrow> 'a shared_ring \<Rightarrow> 'a write_pc \<Rightarrow> ('a shared_ring \<times> 'a write_pc) option" where
  "write_access k a WriteIdle = Some (a, WriteIdle)"
| "write_access k a (WriteCheck chans n) =
     (if n > shared_audio_writable_frames a
      then Some (a\<lparr>header := (header a)\<lparr>h_overruns := h_overruns (header a) + 1\<rparr>\<rparr>, WriteDone (- 1))
      else if h_capacity_frames (header a) = 0 then None
      else Some (a, WriteCopy chans n (sample_list (unat (h_channels (header a))) (unat n))))"
| "write_access k a (WriteCopy chans n []) =
     Some (store_write_pos a (load_pos (h_write_pos (header a)) + ucast n), WriteDone 0)"
| "write_access k a (WriteCopy chans n (x # xs)) =
     (let (ch, i) = (x # xs) ! (k mod length (x # xs))
      in do { chan \<leftarrow> rd chans ch;
              v \<leftarrow> rd chan i;
              smp \<leftarrow> wr (samples a) (ch * unat (h_capacity_frames (header a)) + write_slot a n i) v;
              Some (a\<lparr>samples := smp\<rparr>, WriteCopy chans n (remove1 (ch, i) (x # xs))) })"
| "write_access k a (WriteDone rc) = Some (a, WriteDone rc)"

text \<open>One access of the reader; \<open>oc\<close> is the number of channels of its buffer.\<close>

fun read_access ::
  "u16 \<Rightarrow> nat \<Rightarrow> ('a::zero) shared_ring \<Rightarrow> 'a read_pc \<Rightarrow> ('a shared_ring \<times> 'a read_pc) option" where
  "read_access oc k a ReadIdle = Some (a, ReadIdle)"
| "read_access oc k a (ReadSeek target) =
     (let write_pos = load_pos (h_write_pos (header a));
          fill = write_pos - load_pos (h_read_pos (header a));
          new_fill = (if fill < ucast target then ucast fill else target)
      in Some (a, ReadSeekStore (write_pos - ucast new_fill) new_fill))"
| "read_access oc k a (ReadSeekStore pos new_fill) =
     (let a1 = store_read_pos a pos
      in Some (a1\<lparr>header := (header a1)\<lparr>h_resets := h_resets (header a1) + 1\<rparr>\<rparr>, ReadDone [] new_fill))"
| "read_access oc k a (ReadRegulate out frames target_fill tolerance) =
     (let fill = load_pos (h_write_pos (header a)) - load_pos (h_read_pos (header a))
      in if fill > ucast target_fill + ucast tolerance then
           let excess = ucast (fill - ucast target_fill) :: u32
           in Some (a, ReadDrop out frames (if excess < SHARED_AUDIO_MAX_CORRECTION then excess else SHARED_AUDIO_MAX_CORRECTION))
         else if fill + ucast tolerance < ucast target_fill \<and> frames > 0 then
           let deficit = ucast (ucast target_fill - fill) :: u32;
               insert0 = (if deficit < SHARED_AUDIO_MAX_CORRECTION then deficit else SHARED_AUDIO_MAX_CORRECTION);
               insert = (if insert0 > frames then frames else insert0)
           in Some (a, ReadStart out (frames - insert) insert)
         else Some (a, ReadStart out frames 0))"
| "read_access oc k a (ReadDrop out frames d) =
     (let a1 = store_read_pos a (load_pos (h_read_pos (header a)) + ucast d)
      in Some (a1\<lparr>header := (header a1)\<lparr>h_dropped_frames := h_dropped_frames (header a1) + ucast d\<rparr>\<rparr>,
               ReadStart out frames 0))"
| "read_access oc k a (ReadStart out frames ins) =
     (let to_read = frames_to_read a frames;
          copy_channels = (if h_channels (header a) < ucast oc then h_channels (header a) else ucast oc)
      in do { out0 \<leftarrow> memset out 0 0 (unat frames * unat oc);
              Some (a, ReadCopy out0 frames ins to_read (sample_list (unat copy_channels) (unat to_read))) })"
| "read_access oc k a (ReadCopy out frames ins to_read []) =
     Some (store_read_pos (note_underrun (to_read < frames) a) (load_pos (h_read_pos (header a)) + ucast to_read),
           ReadTail out frames ins to_read)"
| "read_access oc k a (ReadCopy out frames ins to_read (x # xs)) =
     (let (ch, f) = (x # xs) ! (k mod length (x # xs))
      in do { out' \<leftarrow> interleave_sample (samples a) (h_capacity_frames (header a)) (load_pos (h_read_pos (header a)))
                 (unat oc) ch f out;
              Some (a, ReadCopy out' frames ins to_read (remove1 (ch, f) (x # xs))) })"
| "read_access oc k a (ReadTail out frames ins real) =
     (let c = unat oc; tail = unat frames * c
      in if ins = 0 then Some (a, ReadDone out real)
         else if real > 0 then do {
           out' \<leftarrow> for_each (\<lambda>i buf. memcpy_within buf (tail + i * c) ((unat real - 1) * c) c) [0..<unat ins] out;
           Some (a\<lparr>header := (header a)\<lparr>h_inserted_frames := h_inserted_frames (header a) + ucast ins\<rparr>\<rparr>, ReadDone out' real) }
         else do { out' \<leftarrow> memset out tail 0 (unat ins * c); Some (a, ReadDone out' real) })"
| "read_access oc k a (ReadDone out real) = Some (a, ReadDone out real)"

section \<open>The ring program\<close>

text \<open>The samples of frame \<open>f\<close> in a buffer of \<open>oc\<close> channels, of which the ring has \<open>C\<close>.\<close>

definition buffer_row :: "nat \<Rightarrow> nat \<Rightarrow> 'a list \<Rightarrow> nat \<Rightarrow> 'a list" where
  "buffer_row oc C out f = map (\<lambda>ch. out ! (f * oc + ch)) [0..<min C oc]"

definition frames_stored :: "'a shared_ring \<Rightarrow> 'a write_pc \<Rightarrow> 'a list list" where
  "frames_stored a pc = (case pc of WriteCopy chans n [] \<Rightarrow> frames_of (chans_of a) (unat n) chans | _ \<Rightarrow> [])"

definition frames_passed :: "u16 \<Rightarrow> 'a shared_ring \<Rightarrow> 'a read_pc \<Rightarrow> 'a list option list" where
  "frames_passed oc a pc =
     (case pc of
        ReadSeekStore pos _ \<Rightarrow> replicate (unat (pos - h_read_pos (header a))) None
      | ReadDrop _ _ d \<Rightarrow> replicate (unat d) None
      | ReadCopy out _ _ to_read [] \<Rightarrow> map (\<lambda>f. Some (buffer_row (unat oc) (chans_of a) out f)) [0..<unat to_read]
      | _ \<Rightarrow> [])"

text \<open>
  Either side begins an operation with any arguments whose buffers are as long as the functions
  require; a write position does not wrap.
\<close>

definition write_starts :: "'a shared_ring \<Rightarrow> 'a write_pc \<Rightarrow> bool" where
  "write_starts a pc =
     (case pc of
        WriteCheck chans n \<Rightarrow>
          buffers_ok (chans_of a) (unat n) chans \<and> h_write_pos (header a) \<le> h_write_pos (header a) + ucast n
      | _ \<Rightarrow> False)"

definition read_starts :: "u16 \<Rightarrow> 'a shared_ring \<Rightarrow> 'a read_pc \<Rightarrow> bool" where
  "read_starts oc a pc =
     (case pc of
        ReadRegulate out n target tolerance \<Rightarrow> unat n * unat oc \<le> length out
      | ReadStart out n ins \<Rightarrow> ins = 0 \<and> unat n * unat oc \<le> length out
      | ReadSeek target \<Rightarrow> True
      | _ \<Rightarrow> False)"

definition write_done :: "'a write_pc \<Rightarrow> bool" where
  "write_done pc = (case pc of WriteDone rc \<Rightarrow> True | _ \<Rightarrow> False)"

definition read_done :: "'a read_pc \<Rightarrow> bool" where
  "read_done pc = (case pc of ReadDone out real \<Rightarrow> True | _ \<Rightarrow> False)"

definition shared_ring_program ::
  "u16 \<Rightarrow> (('a::zero) shared_ring, 'a write_pc, 'a read_pc, 'a list, 'a list) ring_program" where
  "shared_ring_program oc =
     \<lparr>idle_writer = WriteIdle, idle_reader = ReadIdle, write_begins = write_starts, read_begins = read_starts oc,
      write_over = write_done, read_over = read_done, access_write = write_access, access_read = read_access oc,
      frames_in = frames_stored, frames_out = frames_passed oc\<rparr>"

text \<open>The states that daemon and device can reach from a ring.\<close>

definition shared_reachable ::
  "u16 \<Rightarrow> ('a::zero) shared_ring \<Rightarrow> ('a shared_ring, 'a write_pc, 'a read_pc, 'a list, 'a list) ring_system \<Rightarrow> bool" where
  "shared_reachable oc a s \<longleftrightarrow> ring_reachable (shared_ring_program oc) (ring_start (shared_ring_program oc) a (ring_frames a)) s"

section \<open>Invariant\<close>

lemma sample_list_set: "distinct (sample_list C n)" "set (sample_list C n) = {..<C} \<times> {..<n}"
  by (auto simp: sample_list_def distinct_product)

definition write_ok :: "'a shared_ring \<Rightarrow> 'a write_pc \<Rightarrow> bool" where
  "write_ok a pc =
     (case pc of
        WriteCheck chans n \<Rightarrow> buffers_ok (chans_of a) (unat n) chans \<and> wpos a + unat n < 2 ^ 64
      | WriteCopy chans n todo \<Rightarrow>
          buffers_ok (chans_of a) (unat n) chans \<and> wpos a + unat n < 2 ^ 64 \<and> fill_of a + unat n \<le> cap_of a \<and>
          distinct todo \<and> set todo \<subseteq> {..<chans_of a} \<times> {..<unat n} \<and>
          (\<forall>ch < chans_of a. \<forall>i < unat n. (ch, i) \<notin> set todo \<longrightarrow> samples a ! slot_of a (wpos a) ch i = chans ! ch ! i)
      | WriteDone rc \<Rightarrow> rc = 0 \<or> rc = - 1
      | WriteIdle \<Rightarrow> True)"

definition read_ok :: "u16 \<Rightarrow> ('a::zero) shared_ring \<Rightarrow> 'a read_pc \<Rightarrow> bool" where
  "read_ok oc a pc =
     (case pc of
        ReadSeekStore pos new_fill \<Rightarrow> rpos a \<le> unat pos \<and> unat pos \<le> wpos a
      | ReadRegulate out n T tol \<Rightarrow> unat n * unat oc \<le> length out
      | ReadDrop out n d \<Rightarrow> unat n * unat oc \<le> length out \<and> unat d \<le> fill_of a
      | ReadStart out n ins \<Rightarrow> (unat n + unat ins) * unat oc \<le> length out
      | ReadCopy out n ins t todo \<Rightarrow>
          (unat n + unat ins) * unat oc \<le> length out \<and> unat t \<le> unat n \<and> unat t \<le> fill_of a \<and>
          distinct todo \<and> set todo \<subseteq> {..<min (chans_of a) (unat oc)} \<times> {..<unat t} \<and>
          (\<forall>ch < min (chans_of a) (unat oc). \<forall>f < unat t. (ch, f) \<notin> set todo \<longrightarrow>
             out ! (f * unat oc + ch) = ring_frames a ! f ! ch) \<and>
          (\<forall>f < unat n. \<forall>ch < unat oc. chans_of a \<le> ch \<or> unat t \<le> f \<longrightarrow> out ! (f * unat oc + ch) = 0)
      | ReadTail out n ins t \<Rightarrow> (unat n + unat ins) * unat oc \<le> length out \<and> unat t \<le> unat n
      | _ \<Rightarrow> True)"

section \<open>The writer\<close>

lemma write_slot_nat:
  assumes ok: "ring_ok a" and n: "unat n \<le> cap_of a" "i < unat n"
  shows "ch * cap_of a + write_slot a n i = slot_of a (wpos a) ch i"
proof -
  let ?c = "h_capacity_frames (header a)" and ?x = "ucast (h_write_pos (header a) mod ucast (h_capacity_frames (header a))) :: u32"
  have cap: "0 < cap_of a" using ok by (simp add: ring_ok_def)
  have x: "unat ?x = wpos a mod cap_of a" using cap by (rule unat_slot_index)
  then have "?x < ?c" using cap by (simp add: word_less_nat_alt)
  from unat_first_chunk[OF this, of n] x
  have first: "unat (if n < ?c - ?x then n else ?c - ?x) = min (unat n) (cap_of a - wpos a mod cap_of a)" by simp
  have "write_slot a n i = (if i < cap_of a - wpos a mod cap_of a then wpos a mod cap_of a + i
      else i - (cap_of a - wpos a mod cap_of a))"
    unfolding write_slot_def Let_def load_pos_def first x using n(2) by auto
  moreover have "wpos a mod cap_of a < cap_of a" using cap by simp
  ultimately show ?thesis unfolding slot_of_def using mod_slot[of i "cap_of a" "wpos a"] n cap by auto
qed

text \<open>A sample stored behind the live frames changes none of them.\<close>

lemma store_behind_live:
  assumes ok: "ring_ok a" and i: "fill_of a + i < cap_of a" and ch: "ch < chans_of a"
  shows "ring_ok (a\<lparr>samples := (samples a)[slot_of a (wpos a) ch i := v]\<rparr>)"
    "ring_frames (a\<lparr>samples := (samples a)[slot_of a (wpos a) ch i := v]\<rparr>) = ring_frames a"
proof -
  let ?s = "(samples a)[slot_of a (wpos a) ch i := v]"
  have "\<forall>k < length ?s. (\<forall>c < chans_of a. \<forall>j < Suc i. k \<noteq> slot_of a (wpos a) c j) \<longrightarrow> ?s ! k = samples a ! k"
    using ch by (metis lessI nth_list_update_neq)
  with store_all_behind[OF ok, of "Suc i" ?s] i show "ring_ok (a\<lparr>samples := ?s\<rparr>)" "ring_frames (a\<lparr>samples := ?s\<rparr>) = ring_frames a"
    by simp_all
qed

text \<open>The reader keeps its view while the writer goes on.\<close>

lemma read_ok_write:
  assumes "read_ok oc a pc" "h_channels (header a') = h_channels (header a)" "h_read_pos (header a') = h_read_pos (header a)"
    "wpos a \<le> wpos a'" "take (fill_of a) (ring_frames a') = ring_frames a"
  shows "read_ok oc a' pc"
proof -
  have fill: "fill_of a \<le> fill_of a'" using assms(3,4) by (simp add: fill_of_def)
  have nth: "f < fill_of a \<Longrightarrow> ring_frames a' ! f = ring_frames a ! f" for f
    using assms(5) by (metis nth_take)
  show ?thesis
  proof (cases pc)
    case (ReadCopy out n ins t todo)
    then have "unat t \<le> fill_of a" using assms(1) by (simp add: read_ok_def)
    with ReadCopy assms(1,2) fill nth show ?thesis by (auto simp: read_ok_def)
  qed (use assms fill in \<open>auto simp: read_ok_def\<close>)
qed

lemma write_slot_inj:
  assumes ok: "ring_ok a" and n: "n \<le> cap_of a" "i < n" "j < n"
  shows "slot_of a p c j = slot_of a p ch i \<longleftrightarrow> (c, j) = (ch, i)"
proof -
  have "j - i < cap_of a" "i - j < cap_of a" using n by linarith+
  then have "(p + j) mod cap_of a = (p + i) mod cap_of a \<longleftrightarrow> j = i"
    using mod_slot_inj[of "p + i" "p + j" "cap_of a"] mod_slot_inj[of "p + j" "p + i" "cap_of a"]
    by (cases i j rule: linorder_cases) auto
  then show ?thesis unfolding slot_of_def using ok by (subst block_index_inject) (auto simp: ring_ok_def)
qed

lemma store_sample:
  assumes ok: "ring_ok a" and w: "write_ok a (WriteCopy chans n (x # xs))"
  obtains ch i where "(ch, i) \<in> set (x # xs)" "ch < chans_of a" "i < unat n" "fill_of a + i < cap_of a"
    "write_access k a (WriteCopy chans n (x # xs)) =
       Some (a\<lparr>samples := (samples a)[slot_of a (wpos a) ch i := chans ! ch ! i]\<rparr>, WriteCopy chans n (remove1 (ch, i) (x # xs)))"
proof -
  note w' = w [unfolded write_ok_def, simplified]
  obtain ch i where x: "(x # xs) ! (k mod length (x # xs)) = (ch, i)" by fastforce
  have m: "(ch, i) \<in> set (x # xs)" unfolding x [symmetric] by (rule nth_mem) simp
  then have ci: "ch < chans_of a" "i < unat n" using w' by auto
  have n: "unat n \<le> cap_of a" "fill_of a + i < cap_of a" using w' ci(2) by auto
  have bufs: "ch < length chans" "i < length (chans ! ch)" using w' ci by (auto simp: buffers_ok_def)
  show ?thesis
    using x bufs slot_bound[OF ok ci(1)] write_slot_nat[OF ok n(1) ci(2), of ch] by (intro that[OF m ci n(2)]) (simp add: mem_simps)
qed

lemma store_sample_ok:
  assumes ok: "ring_ok a" and w: "write_ok a (WriteCopy chans n todo)" and ci: "(ch, i) \<in> set todo"
  defines "a' \<equiv> a\<lparr>samples := (samples a)[slot_of a (wpos a) ch i := chans ! ch ! i]\<rparr>"
  shows "ring_ok a'" "ring_frames a' = ring_frames a" "write_ok a' (WriteCopy chans n (remove1 (ch, i) todo))"
proof -
  let ?s = "slot_of a (wpos a)"
  note w' = w [unfolded write_ok_def, simplified]
  have b: "ch < chans_of a" "i < unat n" "unat n \<le> cap_of a" "fill_of a + i < cap_of a" using w' ci by auto
  show "ring_ok a'" "ring_frames a' = ring_frames a"
    unfolding a'_def using store_behind_live[OF ok b(4,1)] by simp_all
  have "samples a' ! ?s c j = chans ! c ! j" if "c < chans_of a" "j < unat n" "(c, j) \<notin> set (remove1 (ch, i) todo)" for c j
  proof (cases "(c, j) = (ch, i)")
    case True
    then show ?thesis using slot_bound[OF ok b(1)] by (simp add: a'_def)
  next
    case False
    then have "(c, j) \<notin> set todo" "?s ch i \<noteq> ?s c j"
      using that write_slot_inj[OF ok b(3) b(2) that(2), of "wpos a" c ch] by auto
    then show ?thesis using w' that by (simp add: a'_def)
  qed
  moreover have "slot_of a' (wpos a') = ?s" "fill_of a' = fill_of a" by (simp_all add: a'_def slot_of_def fill_of_def fun_eq_iff)
  moreover have "set (remove1 (ch, i) todo) \<subseteq> {..<chans_of a} \<times> {..<unat n}" using w' set_remove1_subset by fast
  ultimately show "write_ok a' (WriteCopy chans n (remove1 (ch, i) todo))"
    unfolding write_ok_def write_pc.case using w' by (simp add: distinct_remove1 a'_def)
qed

lemma write_check:
  assumes ok: "ring_ok a" and w: "write_ok a (WriteCheck chans n)"
  shows "cap_of a < fill_of a + unat n \<Longrightarrow> write_access k a (WriteCheck chans n) =
      Some (a\<lparr>header := (header a)\<lparr>h_overruns := h_overruns (header a) + 1\<rparr>\<rparr>, WriteDone (- 1))"
    "fill_of a + unat n \<le> cap_of a \<Longrightarrow> write_access k a (WriteCheck chans n) =
      Some (a, WriteCopy chans n (sample_list (chans_of a) (unat n)))"
    "fill_of a + unat n \<le> cap_of a \<Longrightarrow> write_ok a (WriteCopy chans n (sample_list (chans_of a) (unat n)))"
proof -
  have cap: "h_capacity_frames (header a) \<noteq> 0" using ok by (auto simp: ring_ok_def)
  have g: "n > shared_audio_writable_frames a \<longleftrightarrow> cap_of a < fill_of a + unat n"
    using writable_frames_nat[OF ok] fill_bounds(1)[OF ok] by (simp add: word_less_nat_alt less_diff_conv2 add.commute)
  show "cap_of a < fill_of a + unat n \<Longrightarrow> write_access k a (WriteCheck chans n) =
      Some (a\<lparr>header := (header a)\<lparr>h_overruns := h_overruns (header a) + 1\<rparr>\<rparr>, WriteDone (- 1))"
    "fill_of a + unat n \<le> cap_of a \<Longrightarrow> write_access k a (WriteCheck chans n) =
      Some (a, WriteCopy chans n (sample_list (chans_of a) (unat n)))"
    using cap by (simp_all add: g)
  show "fill_of a + unat n \<le> cap_of a \<Longrightarrow> write_ok a (WriteCopy chans n (sample_list (chans_of a) (unat n)))"
    using w by (simp add: write_ok_def sample_list_set)
qed

lemma write_access_ok:
  assumes ok: "ring_ok a" and w: "write_ok a pc" and r: "read_ok oc a rp"
  shows "\<exists>a' pc'. write_access k a pc = Some (a', pc') \<and> ring_ok a' \<and> write_ok a' pc' \<and> read_ok oc a' rp \<and>
    ring_frames a' = ring_frames a @ frames_stored a pc \<and> h_read_pos (header a') = h_read_pos (header a) \<and>
    h_channels (header a') = h_channels (header a) \<and> h_capacity_frames (header a') = h_capacity_frames (header a)"
proof (cases pc)
  case (WriteCheck chans n)
  show ?thesis
  proof (cases "cap_of a < fill_of a + unat n")
    case True
    let ?a = "a\<lparr>header := (header a)\<lparr>h_overruns := h_overruns (header a) + 1\<rparr>\<rparr>"
    have v: "ring_ok ?a" "ring_frames ?a = ring_frames a"
      using ok by (simp_all add: ring_view_cong[of ?a a])
    have "read_ok oc ?a rp" using v by (intro read_ok_write[OF r]) (simp_all add: length_ring_frames)
    with write_check(1)[OF ok _ True] w v WriteCheck show ?thesis by (simp add: write_ok_def frames_stored_def)
  next
    case False
    then have "fill_of a + unat n \<le> cap_of a" by simp
    with write_check(2,3)[OF ok, of chans n] ok w r WriteCheck show ?thesis by (simp add: frames_stored_def del: write_access.simps)
  qed
next
  case (WriteCopy chans n todo)
  show ?thesis
  proof (cases todo)
    case Nil
    have w': "\<forall>ch < chans_of a. \<forall>i < unat n. samples a ! slot_of a (wpos a) ch i = chans ! ch ! i"
      and fits: "fill_of a + unat n \<le> cap_of a" "wpos a + unat n < 2 ^ 64"
      using w Nil WriteCopy by (simp_all add: write_ok_def)
    note p = publish_block[OF ok fits w']
    have "read_ok oc (store_write_pos a (h_write_pos (header a) + ucast n)) rp"
      using p fits(2) by (intro read_ok_write[OF r]) (simp_all add: length_ring_frames store_write_pos_def word_nat_simps)
    with p WriteCopy Nil show ?thesis by (simp add: write_ok_def frames_stored_def load_pos_def)
  next
    case (Cons x xs)
    from w WriteCopy Cons have w': "write_ok a (WriteCopy chans n (x # xs))" by simp
    obtain ch i where ci: "(ch, i) \<in> set (x # xs)" and acc: "write_access k a (WriteCopy chans n (x # xs)) =
        Some (a\<lparr>samples := (samples a)[slot_of a (wpos a) ch i := chans ! ch ! i]\<rparr>, WriteCopy chans n (remove1 (ch, i) (x # xs)))"
      by (rule store_sample[OF ok w'])
    note st = store_sample_ok[OF ok w' ci]
    have "read_ok oc (a\<lparr>samples := (samples a)[slot_of a (wpos a) ch i := chans ! ch ! i]\<rparr>) rp"
      using st(2) by (intro read_ok_write[OF r]) (simp_all add: length_ring_frames)
    with acc st WriteCopy Cons show ?thesis by (simp add: frames_stored_def del: write_access.simps)
  qed
qed (use ok w r in \<open>simp_all add: write_ok_def frames_stored_def\<close>)

section \<open>The reader\<close>

lemma move_read_pos:
  assumes ok: "ring_ok a" and pos: "rpos a \<le> rpos a'" "rpos a' \<le> wpos a"
    and same: "samples a' = samples a" "h_capacity_frames (header a') = h_capacity_frames (header a)"
      "h_channels (header a') = h_channels (header a)" "h_write_pos (header a') = h_write_pos (header a)"
  shows "ring_ok a'" "ring_frames a' = drop (rpos a' - rpos a) (ring_frames a)" "fill_of a' \<le> fill_of a"
proof -
  show "ring_ok a'" "fill_of a' \<le> fill_of a" using ok pos same by (auto simp: ring_ok_def fill_of_def)
  have "frame_at a' = frame_at a" using same by (simp add: frame_at_def fun_eq_iff)
  then show "ring_frames a' = drop (rpos a' - rpos a) (ring_frames a)"
    using pos same window_drop[of "frame_at a" "cap_of a" "rpos a" "rpos a' - rpos a" "wpos a"] by (simp add: ring_frames_def)
qed

text \<open>The writer keeps its room while the reader goes on.\<close>

lemma write_ok_read:
  assumes "write_ok a pc" "fill_of a' \<le> fill_of a" "samples a' = samples a"
    "h_capacity_frames (header a') = h_capacity_frames (header a)"
    "h_channels (header a') = h_channels (header a)" "h_write_pos (header a') = h_write_pos (header a)"
  shows "write_ok a' pc"
proof -
  have "slot_of a' = slot_of a" using assms(4) by (simp add: slot_of_def fun_eq_iff)
  then show ?thesis using assms by (auto simp: write_ok_def split: write_pc.splits)
qed

definition read_moves :: "'a shared_ring \<Rightarrow> 'a list option list \<Rightarrow> u16 \<Rightarrow> 'a shared_ring \<Rightarrow> bool" where
  "read_moves a gone oc a' \<longleftrightarrow>
     samples a' = samples a \<and> h_capacity_frames (header a') = h_capacity_frames (header a) \<and>
     h_channels (header a') = h_channels (header a) \<and> h_write_pos (header a') = h_write_pos (header a) \<and>
     rpos a' = rpos a + length gone \<and> length gone \<le> fill_of a \<and>
     (\<forall>i < length gone. gone ! i = None \<or> gone ! i = Some (take (unat oc) (ring_frames a ! i)))"

lemma read_moves_stay: "read_moves a [] oc a"
  by (simp add: read_moves_def)

lemma read_moves_ok:
  assumes "ring_ok a" "read_moves a gone oc a'"
  shows "ring_ok a'" "ring_frames a' = drop (length gone) (ring_frames a)" "fill_of a' \<le> fill_of a"
    "write_ok a pc \<Longrightarrow> write_ok a' pc"
proof -
  have "rpos a \<le> rpos a'" "rpos a' \<le> wpos a" using assms by (auto simp: read_moves_def fill_of_def ring_ok_def)
  note m = move_read_pos[OF assms(1) this]
  show "ring_ok a'" "ring_frames a' = drop (length gone) (ring_frames a)" and fill: "fill_of a' \<le> fill_of a"
    using m assms(2) by (simp_all add: read_moves_def)
  show "write_ok a pc \<Longrightarrow> write_ok a' pc"
    using assms(2) fill by (intro write_ok_read[of a pc a']) (simp_all add: read_moves_def)
qed

lemma take_frame:
  assumes "f < fill_of a" shows "take (unat oc) (ring_frames a ! f) = map (\<lambda>ch. ring_frames a ! f ! ch) [0..<min (chans_of a) (unat oc)]"
  using assms by (simp add: nth_ring_frames frame_at_def take_map min.commute) (simp add: min_def)

lemma correction_bounds:
  fixes a :: "'a shared_ring" and T tol n :: u32
  assumes ok: "ring_ok a"
  defines "e \<equiv> ucast (h_write_pos (header a) - h_read_pos (header a) - ucast T) :: u32"
  shows "unat T + unat tol < fill_of a \<Longrightarrow> unat (if e < 8 then e else 8) \<le> fill_of a"
    "unat n = unat (n - (if i > n then n else i)) + unat (if i > n then n else (i :: u32))"
  using unat_excess[OF ok, of T] by (auto simp: e_def unat_correction word_less_nat_alt unat_sub_pos)

lemma start_read_ok:
  assumes ok: "ring_ok a" and len: "(unat n + unat ins) * unat oc \<le> length out"
  shows "\<exists>pc. read_access oc k a (ReadStart out n ins) = Some (a, pc) \<and> read_ok oc a pc"
proof -
  define out0 where "out0 = splice out 0 (replicate (unat n * unat oc) 0)"
  have l: "unat n * unat oc \<le> length out" using len by (simp add: add_mult_distrib)
  have "length out0 = length out" unfolding out0_def using l by (subst length_splice) simp_all
  moreover have "out0 ! (f * unat oc + ch) = 0" if "f < unat n" "ch < unat oc" for f ch
  proof -
    have "f * unat oc + ch < unat n * unat oc" using that block_index_less[of f "unat n" ch "unat oc"] by (simp add: mult.commute)
    with l show ?thesis unfolding out0_def by (subst nth_splice) simp_all
  qed
  moreover have "unat (if h_channels (header a) < ucast oc then h_channels (header a) else ucast oc) = min (chans_of a) (unat oc)"
    by (simp add: word_less_nat_alt min_def)
  ultimately show ?thesis
    using len l frames_to_read_nat[OF ok, of n] by (simp add: mem_simps read_ok_def sample_list_set flip: out0_def)
qed

lemma buffer_index_bound:
  assumes "(n + ins) * oc \<le> length out" "f < n" "c < oc"
  shows "f * oc + c < length out"
proof -
  have "f * oc + c < n * oc" using assms block_index_less[of f n c oc] by (simp add: mult.commute)
  also have "\<dots> \<le> length out" using assms(1) by (simp add: add_mult_distrib)
  finally show ?thesis .
qed

lemma load_sample_ok:
  assumes ok: "ring_ok a" and r: "read_ok oc a (ReadCopy out n ins t (x # xs))"
  shows "\<exists>pc. read_access oc k a (ReadCopy out n ins t (x # xs)) = Some (a, pc) \<and> read_ok oc a pc"
proof -
  let ?todo = "x # xs" and ?o = "unat oc" and ?m = "min (chans_of a) (unat oc)"
  have r': "(unat n + unat ins) * ?o \<le> length out" "unat t \<le> unat n" "unat t \<le> fill_of a" "distinct ?todo"
    "set ?todo \<subseteq> {..<?m} \<times> {..<unat t}"
    "\<And>c f. c < ?m \<Longrightarrow> f < unat t \<Longrightarrow> (c, f) \<notin> set ?todo \<Longrightarrow> out ! (f * ?o + c) = ring_frames a ! f ! c"
    "\<And>f c. f < unat n \<Longrightarrow> c < ?o \<Longrightarrow> chans_of a \<le> c \<or> unat t \<le> f \<Longrightarrow> out ! (f * ?o + c) = 0"
    using r unfolding read_ok_def read_pc.case by blast+
  obtain ch f where x: "?todo ! (k mod length ?todo) = (ch, f)" by fastforce
  have "(ch, f) \<in> set ?todo" unfolding x [symmetric] by (rule nth_mem) simp
  with r'(5) have cf: "ch < ?m" "f < unat t" by blast+
  note bound = buffer_index_bound[OF r'(1)]
  let ?out = "out[f * ?o + ch := ring_frames a ! f ! ch]"
  have fn: "f < fill_of a" "f < unat n" using cf(2) r'(2,3) by simp_all
  have "interleave_sample (samples a) (h_capacity_frames (header a)) (h_read_pos (header a)) ?o ch f out = Some ?out"
    using cf(1) bound[of f ch] fn by (intro interleave_sample_value[OF ok]) simp_all
  then have acc: "read_access oc k a (ReadCopy out n ins t ?todo) = Some (a, ReadCopy ?out n ins t (remove1 (ch, f) ?todo))"
    using x by (simp add: load_pos_def)
  have inj: "f' * ?o + c = f * ?o + ch \<longleftrightarrow> (c, f') = (ch, f)" if "c < ?o" for c f'
    using that cf(1) by (subst block_index_inject) auto
  have "?out ! (f' * ?o + c) = ring_frames a ! f' ! c" if "c < ?m" "f' < unat t" "(c, f') \<notin> set (remove1 (ch, f) ?todo)" for c f'
  proof (cases "(c, f') = (ch, f)")
    case True
    then show ?thesis using bound[of f ch] cf(1) fn by simp
  next
    case False
    then have "(c, f') \<notin> set ?todo" using that(3) by (metis in_set_remove1)
    moreover have "f * ?o + ch \<noteq> f' * ?o + c" using inj[of c f'] False that(1) by auto
    ultimately show ?thesis using r'(6)[OF that(1,2)] by simp
  qed
  moreover have "?out ! (f' * ?o + c) = 0" if "f' < unat n" "c < ?o" "chans_of a \<le> c \<or> unat t \<le> f'" for c f'
  proof -
    have "(c, f') \<noteq> (ch, f)" using that cf by auto
    then have "f * ?o + ch \<noteq> f' * ?o + c" using inj[OF that(2), of f'] by auto
    then show ?thesis using r'(7)[OF that] by simp
  qed
  moreover have "set (remove1 (ch, f) ?todo) \<subseteq> {..<?m} \<times> {..<unat t}"
    using r'(5) set_remove1_subset by fast
  moreover have "distinct (remove1 (ch, f) ?todo)" using r'(4) by (rule distinct_remove1)
  ultimately have "read_ok oc a (ReadCopy ?out n ins t (remove1 (ch, f) ?todo))"
    using r'(1-3) unfolding read_ok_def read_pc.case by simp
  with acc show ?thesis by blast
qed

lemma finish_copy_ok:
  assumes ok: "ring_ok a" and r: "read_ok oc a (ReadCopy out n ins t [])"
  defines "gone \<equiv> frames_passed oc a (ReadCopy out n ins t [])"
  shows "\<exists>a' pc. read_access oc k a (ReadCopy out n ins t []) = Some (a', pc) \<and> read_ok oc a' pc \<and> read_moves a gone oc a'"
proof -
  note r' = r [unfolded read_ok_def, simplified]
  let ?a = "store_read_pos (note_underrun (t < n) a) (h_read_pos (header a) + ucast t)"
  have t: "unat t \<le> fill_of a" using r' by simp
  have "rpos a + unat t \<le> wpos a" using ok t unfolding ring_ok_def fill_of_def by linarith
  from le_less_trans[OF this unat_u64_bound] have "rpos ?a = rpos a + unat t" by (simp add: word_nat_simps)
  moreover have "buffer_row (unat oc) (chans_of a) out f = take (unat oc) (ring_frames a ! f)" if "f < unat t" for f
    using r' that t by (simp add: take_frame buffer_row_def)
  ultimately have "read_moves a gone oc ?a"
    using t by (simp add: read_moves_def gone_def frames_passed_def)
  moreover have "read_access oc k a (ReadCopy out n ins t []) = Some (?a, ReadTail out n ins t)" by (simp add: load_pos_def)
  moreover have "read_ok oc ?a (ReadTail out n ins t)" using r' by (simp add: read_ok_def)
  ultimately show ?thesis by blast
qed

lemma fill_tail_ok:
  assumes r: "read_ok oc a (ReadTail out n ins t)"
  shows "\<exists>a' out'. read_access oc k a (ReadTail out n ins t) = Some (a', ReadDone out' t) \<and> read_moves a [] oc a'"
proof -
  let ?o = "unat oc"
  note r' = r [unfolded read_ok_def, simplified]
  have room: "unat n * ?o + unat ins * ?o \<le> length out" using r' by (simp add: add_mult_distrib)
  show ?thesis
  proof (cases "ins = 0 \<or> t = 0")
    case True
    then show ?thesis using room by (cases "ins = 0") (simp_all add: Let_def mem_simps read_moves_stay)
  next
    case False
    then have t: "0 < unat t" by (simp add: unat_gt_0)
    have "(unat t - 1) * ?o + ?o = unat t * ?o" using t by (cases "unat t") simp_all
    also have "\<dots> \<le> unat n * ?o" using r' by simp
    finally have src: "(unat t - 1) * ?o + ?o \<le> unat n * ?o" .
    from duplicate_loop[OF src room] False show ?thesis
      by (simp add: Let_def read_moves_def word_gt_0)
  qed
qed

lemma store_pos_moves:
  assumes ok: "ring_ok a" and p: "rpos a \<le> unat p" "unat p \<le> wpos a"
    and a': "samples a' = samples a" "h_capacity_frames (header a') = h_capacity_frames (header a)"
      "h_channels (header a') = h_channels (header a)" "h_write_pos (header a') = h_write_pos (header a)" "h_read_pos (header a') = p"
  shows "read_moves a (replicate (unat (p - h_read_pos (header a))) None) oc a'"
  using assms by (simp add: read_moves_def unat_sub_pos fill_of_def)

lemma compute_seek_ok:
  assumes ok: "ring_ok a"
  shows "\<exists>pc. read_access oc k a (ReadSeek T) = Some (a, pc) \<and> read_ok oc a pc"
proof -
  let ?f = "h_write_pos (header a) - h_read_pos (header a)"
  have f: "unat ?f = fill_of a" "fill_of a < 2 ^ 32" "fill_of a = wpos a - rpos a" "rpos a \<le> wpos a"
    using unat_used[OF ok] fill_bounds[OF ok] ok by (simp_all add: fill_of_def ring_ok_def)
  have "unat (if ?f < ucast T then ucast ?f else T) = min (fill_of a) (unat T)"
    using f(1,2) by (simp add: word_less_nat_alt unat_u32_of_u64 min_def)
  then have "unat (h_write_pos (header a) - ucast (if ?f < ucast T then ucast ?f else T)) = wpos a - min (fill_of a) (unat T)"
    using f(3,4) by (subst unat_sub_pos) (simp_all add: min_def split: if_splits)
  with f(3,4) show ?thesis by (auto simp: read_ok_def load_pos_def Let_def min_def)
qed

lemma drop_frames_ok:
  assumes ok: "ring_ok a" and r: "read_ok oc a (ReadDrop out n d)"
  shows "\<exists>a' pc. read_access oc k a (ReadDrop out n d) = Some (a', pc) \<and> read_ok oc a' pc \<and>
    read_moves a (replicate (unat d) None) oc a'"
proof -
  have d: "unat d \<le> fill_of a" using r by (simp add: read_ok_def)
  let ?p = "h_read_pos (header a) + ucast d"
  have "rpos a + unat d \<le> wpos a" using ok d unfolding ring_ok_def fill_of_def by linarith
  from this le_less_trans[OF this unat_u64_bound] have p: "unat ?p = rpos a + unat d" "rpos a + unat d \<le> wpos a"
    by (simp_all add: word_nat_simps)
  let ?a = "(store_read_pos a ?p)\<lparr>header := (header (store_read_pos a ?p))\<lparr>h_dropped_frames := h_dropped_frames (header a) + ucast d\<rparr>\<rparr>"
  have "read_moves a (replicate (unat d) None) oc ?a" using d p by (simp add: read_moves_def)
  with r show ?thesis by (simp add: read_ok_def load_pos_def)
qed

lemma read_access_ok:
  assumes ok: "ring_ok a" and r: "read_ok oc a pc"
  shows "\<exists>a' pc'. read_access oc k a pc = Some (a', pc') \<and> read_ok oc a' pc' \<and> read_moves a (frames_passed oc a pc) oc a'"
proof (cases pc)
  case (ReadSeek T)
  with compute_seek_ok[OF ok] read_moves_stay show ?thesis
    by (simp add: frames_passed_def del: read_access.simps) blast
next
  case (ReadSeekStore p nf)
  let ?a = "(store_read_pos a p)\<lparr>header := (header (store_read_pos a p))\<lparr>h_resets := h_resets (header a) + 1\<rparr>\<rparr>"
  have "read_moves a (replicate (unat (p - h_read_pos (header a))) None) oc ?a"
    using r ReadSeekStore by (intro store_pos_moves[OF ok]) (simp_all add: read_ok_def)
  with ReadSeekStore show ?thesis by (simp add: frames_passed_def read_ok_def)
next
  case (ReadRegulate out n T tol)
  have fp: "frames_passed oc a pc = []" "read_moves a [] oc a" using ReadRegulate by (simp_all add: frames_passed_def read_moves_def)
  note cmp = unat_fill_cmp[OF ok, of T tol]
  show ?thesis using r ReadRegulate correction_bounds(1)[OF ok, of T tol] correction_bounds(2)[OF ok, of n] fp
    by (auto simp: read_ok_def load_pos_def cmp Let_def)
next
  case (ReadDrop out n d)
  with drop_frames_ok[OF ok] r show ?thesis by (simp add: frames_passed_def del: read_access.simps)
next
  case (ReadStart out n ins)
  have "(unat n + unat ins) * unat oc \<le> length out" using r ReadStart by (simp add: read_ok_def)
  from start_read_ok[OF ok this] ReadStart read_moves_stay show ?thesis
    by (simp add: frames_passed_def del: read_access.simps) blast
next
  case (ReadCopy out n ins t todo)
  show ?thesis
  proof (cases todo)
    case Nil
    with finish_copy_ok[OF ok] r ReadCopy show ?thesis by blast
  next
    case (Cons x xs)
    with load_sample_ok[OF ok, of oc out n ins t x xs k] r ReadCopy read_moves_stay show ?thesis
      by (simp add: frames_passed_def del: read_access.simps) blast
  qed
next
  case (ReadTail out n ins t)
  with fill_tail_ok[of oc a out n ins t k] r obtain a' out' where
    "read_access oc k a pc = Some (a', ReadDone out' t)" "read_moves a [] oc a'" by blast
  with ReadTail show ?thesis by (simp add: frames_passed_def read_ok_def)
qed (simp_all add: read_ok_def frames_passed_def read_moves_def)

section \<open>Progress\<close>

text \<open>The number of accesses of a write, and of a read of at most \<open>n\<close> frames.\<close>

definition write_accesses :: "'a shared_ring \<Rightarrow> u32 \<Rightarrow> nat" where
  "write_accesses a n = chans_of a * unat n + 2"

definition read_accesses :: "'a shared_ring \<Rightarrow> u16 \<Rightarrow> u32 \<Rightarrow> nat" where
  "read_accesses a oc n = min (chans_of a) (unat oc) * unat n + 5"

lemma length_sample_list: "length (sample_list C n) = C * n"
  by (simp add: sample_list_def)

text \<open>The accesses that an operation has left, at most.\<close>

definition write_left :: "'a shared_ring \<Rightarrow> 'a write_pc \<Rightarrow> nat" where
  "write_left a pc =
     (case pc of WriteIdle \<Rightarrow> 0 | WriteCheck chans n \<Rightarrow> write_accesses a n | WriteCopy chans n todo \<Rightarrow> length todo + 1 | WriteDone rc \<Rightarrow> 0)"

definition read_left :: "'a shared_ring \<Rightarrow> u16 \<Rightarrow> 'a read_pc \<Rightarrow> nat" where
  "read_left a oc pc =
     (case pc of
        ReadIdle \<Rightarrow> 0 | ReadSeek T \<Rightarrow> 2 | ReadSeekStore p f \<Rightarrow> 1
      | ReadRegulate out n T tol \<Rightarrow> read_accesses a oc n
      | ReadDrop out n d \<Rightarrow> read_accesses a oc n - 1
      | ReadStart out n ins \<Rightarrow> read_accesses a oc n - 2
      | ReadCopy out n ins t todo \<Rightarrow> length todo + 2
      | ReadTail out n ins t \<Rightarrow> 1 | ReadDone out real \<Rightarrow> 0)"

lemma write_access_left:
  assumes "write_access k a pc = Some (a', pc')"
  shows "write_left a' pc' \<le> write_left a pc - 1 \<and> (pc \<noteq> WriteIdle \<longrightarrow> pc' \<noteq> WriteIdle) \<and> h_channels (header a') = h_channels (header a)"
  using assms
proof (induction k a pc rule: write_access.induct)
  case (4 k a chans n x xs)
  obtain ch i where x: "(x # xs) ! (k mod length (x # xs)) = (ch, i)" by fastforce
  from 4 length_remove_chosen[OF x] show ?case unfolding write_access.simps Let_def x prod.case
    by (auto simp: write_left_def simp del: remove1.simps split: bind_splits)
qed (auto simp: write_left_def write_accesses_def length_sample_list store_write_pos_def split: if_splits)

lemma read_access_left:
  assumes ok: "ring_ok a" and acc: "read_access oc k a pc = Some (a', pc')"
  shows "read_left a' oc pc' \<le> read_left a oc pc - 1 \<and> (pc \<noteq> ReadIdle \<longrightarrow> pc' \<noteq> ReadIdle) \<and>
    h_channels (header a') = h_channels (header a)"
proof (cases pc)
  case (ReadStart out n ins)
  have "unat (frames_to_read a n) \<le> unat n" by (simp add: frames_to_read_nat[OF ok])
  then have "min (chans_of a) (unat oc) * unat (frames_to_read a n) \<le> min (chans_of a) (unat oc) * unat n" by (rule mult_le_mono2)
  moreover have "unat (if h_channels (header a) < ucast oc then h_channels (header a) else ucast oc) = min (chans_of a) (unat oc)"
    by (simp add: word_less_nat_alt min_def)
  ultimately show ?thesis using acc ReadStart
    by (auto simp: read_left_def read_accesses_def length_sample_list Let_def split: bind_splits)
next
  case (ReadRegulate out n T tol)
  have "\<not> n < i \<Longrightarrow> unat (n - i) \<le> unat n" for i by (simp add: not_less unat_sub_pos word_le_nat_alt)
  then have "a' = a \<and> ((\<exists>d. pc' = ReadDrop out n d) \<or> (\<exists>m ins. pc' = ReadStart out m ins \<and> unat m \<le> unat n))"
    using acc ReadRegulate by (auto simp: Let_def split: if_splits)
  then consider d where "a' = a" "pc' = ReadDrop out n d"
    | m ins where "a' = a" "pc' = ReadStart out m ins" "unat m \<le> unat n" by blast
  then show ?thesis
  proof cases
    case 2
    have "read_accesses a oc m \<le> read_accesses a oc n" using 2(3) unfolding read_accesses_def by (intro add_le_mono1 mult_le_mono2)
    then show ?thesis using 2(1,2) ReadRegulate by (simp add: read_left_def)
  qed (use ReadRegulate in \<open>simp add: read_left_def\<close>)
next
  case (ReadCopy out n ins t todo)
  show ?thesis
  proof (cases todo)
    case (Cons x xs)
    obtain ch f where x: "(x # xs) ! (k mod length (x # xs)) = (ch, f)" by fastforce
    from acc ReadCopy Cons length_remove_chosen[OF x] show ?thesis
      unfolding ReadCopy Cons read_access.simps Let_def x prod.case
      by (auto simp: read_left_def simp del: remove1.simps split: bind_splits)
  qed (use acc ReadCopy in \<open>auto simp: read_left_def\<close>)
qed (use acc in \<open>auto simp: read_left_def read_accesses_def Let_def split: if_splits bind_splits\<close>)

lemma write_left_cong: "h_channels (header a') = h_channels (header a) \<Longrightarrow> write_left a' = write_left a"
  by (simp add: write_left_def write_accesses_def fun_eq_iff split: write_pc.split)

lemma read_left_cong: "h_channels (header a') = h_channels (header a) \<Longrightarrow> read_left a' = read_left a"
  by (simp add: read_left_def read_accesses_def fun_eq_iff split: read_pc.split)

section \<open>Every interleaving\<close>

lemma write_starts_ok: "write_starts a pc \<Longrightarrow> write_ok a pc"
  by (auto simp: write_starts_def write_ok_def no_olen_add_nat unat_u64_of_u32 split: write_pc.splits)

lemma read_starts_ok: "read_starts oc a pc \<Longrightarrow> read_ok oc a pc"
  by (auto simp: read_starts_def read_ok_def split: read_pc.splits)

lemma write_left_0: "pc \<noteq> WriteIdle \<Longrightarrow> write_left a pc = 0 \<Longrightarrow> write_done pc"
  by (auto simp: write_done_def write_left_def write_accesses_def split: write_pc.splits)

lemma read_left_0: "pc \<noteq> ReadIdle \<Longrightarrow> read_left a oc pc = 0 \<Longrightarrow> read_done pc"
  by (auto simp: read_done_def read_left_def read_accesses_def split: read_pc.splits)

lemma read_moves_passed:
  assumes "read_moves a gone oc a'" shows "passed_ok (take (unat oc)) (ring_frames a) gone"
  using assms by (auto simp: read_moves_def passed_ok_def length_ring_frames)

lemma shared_ring_program_sel [simp]:
  "idle_writer (shared_ring_program oc) = WriteIdle" "idle_reader (shared_ring_program oc) = ReadIdle"
  "write_begins (shared_ring_program oc) = write_starts" "read_begins (shared_ring_program oc) = read_starts oc"
  "write_over (shared_ring_program oc) = write_done" "read_over (shared_ring_program oc) = read_done"
  "access_write (shared_ring_program oc) = write_access" "access_read (shared_ring_program oc) = read_access oc"
  "frames_in (shared_ring_program oc) = frames_stored" "frames_out (shared_ring_program oc) = frames_passed oc"
  by (simp_all add: shared_ring_program_def)

interpretation shared_interleaved: interleaved_ring "shared_ring_program oc" ring_ok ring_frames "take (unat oc)"
  write_ok "read_ok oc" write_left "\<lambda>a. read_left a oc" for oc
proof (unfold_locales, unfold shared_ring_program_sel)
  fix a :: "('a::zero) shared_ring" and pc rp k
  show "write_ok a WriteIdle" "read_ok oc a ReadIdle" by (simp_all add: write_ok_def read_ok_def)
  show "write_starts a pc \<Longrightarrow> write_ok a pc" "read_starts oc a rp \<Longrightarrow> read_ok oc a rp"
    by (fact write_starts_ok, fact read_starts_ok)
  show "pc \<noteq> WriteIdle \<Longrightarrow> write_left a pc = 0 \<Longrightarrow> write_done pc" "rp \<noteq> ReadIdle \<Longrightarrow> read_left a oc rp = 0 \<Longrightarrow> read_done rp"
    by (fact write_left_0, fact read_left_0)
  assume ok: "ring_ok a" "write_ok a pc" "read_ok oc a rp"
  show "\<exists>a' pc'. write_access k a pc = Some (a', pc') \<and> ring_ok a' \<and> write_ok a' pc' \<and> read_ok oc a' rp \<and>
      ring_frames a' = ring_frames a @ frames_stored a pc \<and> write_left a' pc' \<le> write_left a pc - 1 \<and>
      read_left a' oc = read_left a oc \<and> (pc \<noteq> WriteIdle \<longrightarrow> pc' \<noteq> WriteIdle)"
    using write_access_ok[OF ok, of k] write_access_left[of k a pc] read_left_cong[of _ a] by metis
  obtain a' rp' where r: "read_access oc k a rp = Some (a', rp')" "read_ok oc a' rp'" "read_moves a (frames_passed oc a rp) oc a'"
    using read_access_ok[OF ok(1,3), of k] by blast
  have "h_channels (header a') = h_channels (header a)" using r(3) by (simp add: read_moves_def)
  with r show "\<exists>a' rp'. read_access oc k a rp = Some (a', rp') \<and> ring_ok a' \<and> write_ok a' pc \<and> read_ok oc a' rp' \<and>
      passed_ok (take (unat oc)) (ring_frames a) (frames_passed oc a rp) \<and>
      ring_frames a' = drop (length (frames_passed oc a rp)) (ring_frames a) \<and>
      read_left a' oc rp' \<le> read_left a oc rp - 1 \<and> write_left a' = write_left a \<and> (rp \<noteq> ReadIdle \<longrightarrow> rp' \<noteq> ReadIdle)"
    using read_moves_ok[OF ok(1) r(3)] ok(2) read_moves_passed[OF r(3)] read_access_left[OF ok(1) r(1)] write_left_cong[of a' a]
    by (intro exI[of _ a'] exI[of _ rp'] conjI) simp_all
qed

text \<open>Where the two sides are about to store and to load.\<close>

definition store_slots :: "'a shared_ring \<Rightarrow> 'a write_pc \<Rightarrow> nat set" where
  "store_slots a pc =
     (case pc of WriteCopy chans n todo \<Rightarrow> (\<lambda>(ch, i). ch * cap_of a + write_slot a n i) ` set todo | _ \<Rightarrow> {})"

definition load_slots :: "'a shared_ring \<Rightarrow> 'a read_pc \<Rightarrow> nat set" where
  "load_slots a pc =
     (case pc of
        ReadCopy out n ins t todo \<Rightarrow>
          (\<lambda>(ch, f). ch * cap_of a + unat (ucast ((h_read_pos (header a) + of_nat f) mod ucast (h_capacity_frames (header a))) :: u32)) ` set todo
      | _ \<Rightarrow> {})"

lemma store_slots_behind:
  assumes "ring_ok a" "write_ok a pc" "x \<in> store_slots a pc"
  obtains ch i where "x = slot_of a (wpos a) ch i" "fill_of a + i < cap_of a"
proof -
  from assms(3) obtain chans n todo ch i where pc: "pc = WriteCopy chans n todo" "(ch, i) \<in> set todo"
    "x = ch * cap_of a + write_slot a n i" by (auto simp: store_slots_def split: write_pc.splits)
  with assms(2) have "i < unat n" "unat n \<le> cap_of a" "fill_of a + unat n \<le> cap_of a" by (auto simp: write_ok_def)
  with pc(3) write_slot_nat[OF assms(1), of n i ch] show ?thesis by (intro that[of ch i]) simp_all
qed

lemma load_slots_live:
  assumes ok: "ring_ok a" "read_ok oc a pc" and x: "x \<in> load_slots a pc"
  obtains ch f where "x = slot_of a (rpos a) ch f" "f < fill_of a"
proof -
  from x obtain out n ins t todo ch f where pc: "pc = ReadCopy out n ins t todo" "(ch, f) \<in> set todo"
    "x = ch * cap_of a + unat (ucast ((h_read_pos (header a) + of_nat f) mod ucast (h_capacity_frames (header a))) :: u32)"
    by (auto simp: load_slots_def split: read_pc.splits)
  with ok(2) have f: "f < fill_of a" by (auto simp: read_ok_def)
  then have "rpos a + f < wpos a" by (simp add: fill_of_def)
  from less_trans[OF this unat_u64_bound] have "unat (h_read_pos (header a) + of_nat f) = rpos a + f"
    by (subst unat_add_nowrap) (simp_all add: word_nat_simps)
  then have "x = slot_of a (rpos a) ch f" using pc(3) ok(1) by (simp add: slot_of_def ring_ok_def unat_slot_index)
  then show ?thesis using f by (rule that)
qed

section \<open>Properties\<close>

text \<open>No data race on the samples, and no access outside the ring: whatever the daemon and the device
  do and however their accesses interleave, neither side is ever about to store a sample in a
  slot that the other is about to load, and every access of both finds its slot and its buffers.\<close>

theorem shared_ring_race_free:
  assumes "shared_reachable oc a s" "ring_ok a"
  shows "store_slots (ring s) (wpc s) \<inter> load_slots (ring s) (rpc s) = {} \<and>
    write_access k (ring s) (wpc s) \<noteq> None \<and> read_access oc k (ring s) (rpc s) \<noteq> None"
proof -
  have ok: "ring_ok (ring s)" "write_ok (ring s) (wpc s)" "read_ok oc (ring s) (rpc s)"
    using shared_interleaved.reachable_ok[OF assms(1)[unfolded shared_reachable_def] assms(2)] by simp_all
  have "x \<notin> load_slots (ring s) (rpc s)" if "x \<in> store_slots (ring s) (wpc s)" for x
    using store_slots_behind[OF ok(1,2) that] load_slots_live[OF ok(1,3), of x] live_slot_other[OF ok(1)] by metis
  then show ?thesis using write_access_ok[OF ok, of k] read_access_ok[OF ok(1,3), of k] by auto
qed

text \<open>Audio is conserved under concurrency: in every state that the two sides can reach, the frames
  behind the read position and those in the ring are together the frames that have been
  published, in order; each frame behind the read position was dropped by a drift correction
  or a seek, or the samples that the reader has copied are those that the writer stored.  So
  no frame is delivered torn, twice or out of order.\<close>

theorem concurrent_ring_conservation:
  assumes "shared_reachable oc a s" "ring_ok a"
  shows "ring_ok (ring s) \<and> length (consumed s) + fill_of (ring s) = length (published_frames s) \<and>
    ring_frames (ring s) = drop (length (consumed s)) (published_frames s) \<and>
    (\<forall>i < length (consumed s). consumed s ! i = None \<or> consumed s ! i = Some (take (unat oc) (published_frames s ! i)))"
  using shared_interleaved.conservation[OF assms(1)[unfolded shared_reachable_def] assms(2)] by (simp add: length_ring_frames)

section \<open>An interleaving\<close>

text \<open>
  A reader takes the two frames of the sample ring while a writer stores two more, one sample at
  a time in turn; the writer publishes before the reader does.
\<close>

definition interleaved_moves :: "(int write_pc, int read_pc) ring_move list" where
  "interleaved_moves =
     [BeginRead (ReadRegulate [7, 7, 7, 7] 2 2 2), BeginWrite (WriteCheck [[31, 32], [41, 42]] 2),
      ReaderAccess 0, WriterAccess 0, ReaderAccess 0, WriterAccess 3, ReaderAccess 2, WriterAccess 0, ReaderAccess 0,
      WriterAccess 1, ReaderAccess 0, WriterAccess 0, WriterAccess 0, ReaderAccess 0, ReaderAccess 0]"

definition sample_system :: "(int shared_ring, int write_pc, int read_pc, int list, int list) ring_system" where
  "sample_system = ring_start (shared_ring_program 2) sample_ring (ring_frames sample_ring)"

definition midway :: "(int shared_ring, int write_pc, int read_pc, int list, int list) ring_system option" where
  "midway = ring_run (shared_ring_program 2) (take 8 interleaved_moves) sample_system"

lemma sample_reachable:
  assumes "ring_run (shared_ring_program 2) ms sample_system = Some s" shows "shared_reachable 2 sample_ring s"
  using assms unfolding shared_reachable_def sample_system_def by (rule ring_run_reachable[OF ring_reachable.start])

lemma interleaved_run:
  "map_option (\<lambda>s. (consumed s, ring_frames (ring s), published_frames s))
     (ring_run (shared_ring_program 2) interleaved_moves sample_system) =
   Some ([Some [13, 23], Some [10, 20]], [[31, 41], [32, 42]], [[13, 23], [10, 20], [31, 41], [32, 42]])"
  by code_simp

lemma midway_slots:
  "map_option (\<lambda>s. (store_slots (ring s) (wpc s), load_slots (ring s) (rpc s))) midway = Some ({2, 5}, {3, 0, 4})"
  by code_simp

lemma shared_ring_race_free_witness:
  "\<exists>s. midway = Some s \<and> store_slots (ring s) (wpc s) = {2, 5} \<and> load_slots (ring s) (rpc s) = {3, 0, 4} \<and>
     store_slots (ring s) (wpc s) \<inter> load_slots (ring s) (rpc s) = {} \<and> write_access 1 (ring s) (wpc s) \<noteq> None"
proof -
  obtain s where s: "midway = Some s" "store_slots (ring s) (wpc s) = {2, 5}" "load_slots (ring s) (rpc s) = {3, 0, 4}"
    using midway_slots by (cases midway) auto
  have "shared_reachable 2 sample_ring s" using s(1) unfolding midway_def by (rule sample_reachable)
  from shared_ring_race_free[OF this sample_ring_ok, of 1] s show ?thesis by blast
qed

lemma concurrent_ring_conservation_witness:
  "\<exists>s. ring_run (shared_ring_program 2) interleaved_moves sample_system = Some s \<and> length (consumed s) = 2 \<and> fill_of (ring s) = 2 \<and>
     (\<forall>i < 2. consumed s ! i = Some (take 2 (published_frames s ! i)))"
proof -
  obtain s where s: "ring_run (shared_ring_program 2) interleaved_moves sample_system = Some s"
    "consumed s = [Some [13, 23], Some [10, 20]]" "published_frames s = [[13, 23], [10, 20], [31, 41], [32, 42]]"
    using interleaved_run by (cases "ring_run (shared_ring_program 2) interleaved_moves sample_system") auto
  have "shared_reachable 2 sample_ring s" using s(1) by (rule sample_reachable)
  from concurrent_ring_conservation[OF this sample_ring_ok] s show ?thesis by (auto simp: less_2_cases_iff)
qed

end
