(* ===== verification/SharedAccessRun.thy ===== *)
theory SharedAccessRun
  imports SharedConcurrent
begin

text \<open>
  What the accesses of \<open>SharedConcurrent\<close> have to do with the functions of \<open>shared_audio.c\<close>: a side
  that is left alone does, access by access and whatever order it copies the samples in, what the
  function does in one step; and the number of its accesses is bounded whatever the other side does
  in between.
\<close>

section \<open>A write on its own\<close>

lemma write_alone_done: "alone write_access ks a (WriteDone rc) = Some (a, WriteDone rc)"
  by (induction ks) simp_all

lemma write_alone_copy:
  assumes "ring_ok a" "write_ok a (WriteCopy chans n todo)" "length todo < length ks"
  shows "\<exists>smp. alone write_access ks a (WriteCopy chans n todo) =
      Some (store_write_pos (a\<lparr>samples := smp\<rparr>) (h_write_pos (header a) + ucast n), WriteDone 0) \<and>
    length smp = length (samples a) \<and>
    (\<forall>ch < chans_of a. \<forall>i < unat n. smp ! slot_of a (wpos a) ch i = chans ! ch ! i) \<and>
    (\<forall>k. (\<forall>ch < chans_of a. \<forall>i < unat n. k \<noteq> slot_of a (wpos a) ch i) \<longrightarrow> smp ! k = samples a ! k)"
  using assms
proof (induction "length todo" arbitrary: a todo ks)
  case 0
  then obtain k ks' where "ks = k # ks'" "todo = []" by (cases ks) auto
  with 0(3) show ?case
    by (intro exI[of _ "samples a"]) (simp add: write_ok_def load_pos_def write_alone_done)
next
  case (Suc m)
  then obtain x xs k ks' where ks: "todo = x # xs" "ks = k # ks'" by (cases todo; cases ks) auto
  note w = Suc(4) [unfolded ks(1)]
  obtain ch i where ci: "(ch, i) \<in> set (x # xs)" "ch < chans_of a" "i < unat n"
    and acc: "write_access k a (WriteCopy chans n (x # xs)) =
      Some (a\<lparr>samples := (samples a)[slot_of a (wpos a) ch i := chans ! ch ! i]\<rparr>, WriteCopy chans n (remove1 (ch, i) (x # xs)))"
    by (rule store_sample[OF Suc(3) w])
  define b where "b = a\<lparr>samples := (samples a)[slot_of a (wpos a) ch i := chans ! ch ! i]\<rparr>"
  have b: "header b = header a" "slot_of b = slot_of a" "length (samples b) = length (samples a)"
    "b\<lparr>samples := smp\<rparr> = a\<lparr>samples := smp\<rparr>" for smp
    by (simp_all add: b_def slot_of_def fun_eq_iff)
  have "m = length (remove1 (ch, i) (x # xs))" "length (remove1 (ch, i) (x # xs)) < length ks'"
    using Suc(2,5) ci(1) unfolding ks by (simp_all only: length_remove1 if_True) simp_all
  from Suc(1)[OF this(1) store_sample_ok(1,3)[OF Suc(3) w ci(1)] this(2), folded b_def, unfolded b] obtain smp where
    r: "alone write_access ks' b (WriteCopy chans n (remove1 (ch, i) (x # xs))) =
        Some (store_write_pos (a\<lparr>samples := smp\<rparr>) (h_write_pos (header a) + ucast n), WriteDone 0)"
      "length smp = length (samples a)"
      "\<forall>ch < chans_of a. \<forall>i < unat n. smp ! slot_of a (wpos a) ch i = chans ! ch ! i"
      "\<forall>k. (\<forall>ch < chans_of a. \<forall>i < unat n. k \<noteq> slot_of a (wpos a) ch i) \<longrightarrow> smp ! k = samples b ! k"
    by blast
  have "smp ! k = samples a ! k" if "\<forall>ch < chans_of a. \<forall>i < unat n. k \<noteq> slot_of a (wpos a) ch i" for k
  proof -
    have "slot_of a (wpos a) ch i \<noteq> k" using that ci(2,3) by blast
    then show ?thesis using r(4) that by (simp add: b_def)
  qed
  moreover have "alone write_access ks a (WriteCopy chans n todo) = alone write_access ks' b (WriteCopy chans n (remove1 (ch, i) (x # xs)))"
    unfolding ks b_def by (simp only: alone.simps acc bind.bind_lunit prod.case)
  ultimately show ?case using r(1-3) by (intro exI[of _ smp]) simp
qed

lemma write_alone_write:
  assumes ok: "ring_ok a" and w: "write_ok a (WriteCheck chans n)" and ks: "write_accesses a n \<le> length ks"
  shows "\<exists>a' rc. shared_audio_write a chans n = Some (a', rc) \<and> alone write_access ks a (WriteCheck chans n) = Some (a', WriteDone rc)"
proof -
  obtain k ks' where k: "ks = k # ks'" using ks by (cases ks) (auto simp: write_accesses_def)
  show ?thesis
  proof (cases "cap_of a < fill_of a + unat n")
    case True
    from write_check(1)[OF ok w True, of k] shared_audio_write_rejects[OF ok True] k show ?thesis
      by (simp add: write_alone_done del: write_access.simps)
  next
    case False
    then have room: "fill_of a + unat n \<le> cap_of a" by simp
    note c = write_check(2,3)[OF ok w room]
    have "length (sample_list (chans_of a) (unat n)) < length ks'"
      using ks k by (simp add: write_accesses_def length_sample_list)
    from write_alone_copy[OF ok c(2) this] obtain smp where
      s: "alone write_access ks' a (WriteCopy chans n (sample_list (chans_of a) (unat n))) =
          Some (store_write_pos (a\<lparr>samples := smp\<rparr>) (h_write_pos (header a) + ucast n), WriteDone 0)"
        "length smp = length (samples a)"
        "\<forall>ch < chans_of a. \<forall>i < unat n. smp ! slot_of a (wpos a) ch i = chans ! ch ! i"
        "\<forall>k. (\<forall>ch < chans_of a. \<forall>i < unat n. k \<noteq> slot_of a (wpos a) ch i) \<longrightarrow> smp ! k = samples a ! k"
      by blast
    have bufs: "buffers_ok (chans_of a) (unat n) chans" using w by (simp add: write_ok_def)
    obtain smp' where
      t: "shared_audio_write a chans n = Some (store_write_pos (a\<lparr>samples := smp'\<rparr>) (h_write_pos (header a) + ucast n), 0)"
        "length smp' = length (samples a)"
        "\<forall>ch < chans_of a. \<forall>i < unat n. smp' ! slot_of a (wpos a) ch i = chans ! ch ! i"
        "\<forall>k < length (samples a). (\<forall>ch < chans_of a. \<forall>i < unat n. k \<noteq> slot_of a (wpos a) ch i) \<longrightarrow> smp' ! k = samples a ! k"
      by (rule shared_audio_write_samples[OF ok bufs room])
    have "smp = smp'" using s(2-4) t(2-4) by (intro nth_equalityI) (simp, metis)
    with s(1) t(1) c(1)[of k] k show ?thesis by (simp del: write_access.simps)
  qed
qed

section \<open>A read on its own\<close>

lemma read_alone_done: "alone (read_access oc) ks a (ReadDone out real) = Some (a, ReadDone out real)"
  by (induction ks) simp_all

text \<open>The output buffer while samples are left to copy.\<close>

definition copied :: "nat \<Rightarrow> (nat \<Rightarrow> nat \<Rightarrow> 'a) \<Rightarrow> nat \<Rightarrow> nat \<Rightarrow> (nat \<times> nat) list \<Rightarrow> 'a list \<Rightarrow> 'a list" where
  "copied oc v t m todo buf =
     map (\<lambda>k. if k mod oc < m \<and> k div oc < t \<and> (k mod oc, k div oc) \<notin> set todo
              then v (k div oc) (k mod oc) else buf ! k) [0..<length buf]"

lemma copied_all: "copied oc v t m (sample_list m t) buf = buf"
  by (rule nth_equalityI) (auto simp: copied_def sample_list_set)

lemma copied_none: "copied oc v t m [] buf = interleaving oc v t m 0 buf"
  by (simp add: copied_def interleaving_def)

lemma copied_next:
  assumes "distinct todo" "(ch, f) \<in> set todo" "ch < oc" "ch < m" "f < t" "f * oc + ch < length buf"
  shows "(copied oc v t m todo buf)[f * oc + ch := v f ch] = copied oc v t m (remove1 (ch, f) todo) buf"
proof (rule nth_equalityI)
  fix k assume "k < length ((copied oc v t m todo buf)[f * oc + ch := v f ch])"
  then have k: "k < length buf" by (simp add: copied_def)
  have "f * oc + ch = k \<longleftrightarrow> (k mod oc, k div oc) = (ch, f)"
    using assms(3) by (metis block_index_inject div_mult_mod_eq mod_less_divisor not_less_zero neq0_conv prod.inject)
  with k assms show "(copied oc v t m todo buf)[f * oc + ch := v f ch] ! k = copied oc v t m (remove1 (ch, f) todo) buf ! k"
    by (auto simp: copied_def nth_list_update set_remove1_eq)
qed (simp add: copied_def)

lemma read_alone_copy:
  fixes a :: "('a::zero) shared_ring" and oc :: u16
  defines "v \<equiv> \<lambda>f ch. ring_frames a ! f ! ch" and "m \<equiv> min (chans_of a) (unat oc)"
  assumes ok: "ring_ok a" and t: "unat t \<le> fill_of a" and len: "unat t * unat oc \<le> length buf"
  shows "length ks = length todo \<Longrightarrow> distinct todo \<Longrightarrow> set todo \<subseteq> {..<m} \<times> {..<unat t} \<Longrightarrow>
    alone (read_access oc) (ks @ ls) a (ReadCopy (copied (unat oc) v (unat t) m todo buf) n ins t todo) =
    alone (read_access oc) ls a (ReadCopy (interleaving (unat oc) v (unat t) m 0 buf) n ins t [])"
proof (induction ks arbitrary: todo)
  case Nil
  then show ?case by (simp add: copied_none)
next
  case (Cons k ks)
  then obtain x xs where todo: "todo = x # xs" by (cases todo) auto
  obtain ch f where x: "(x # xs) ! (k mod length (x # xs)) = (ch, f)" by fastforce
  have mem: "(ch, f) \<in> set (x # xs)" unfolding x [symmetric] by (rule nth_mem) simp
  with Cons.prems todo have cf: "ch < m" "f < unat t" by blast+
  then have c: "ch < unat oc" "ch < chans_of a" "f < fill_of a" using t by (simp_all add: m_def)
  have "f * unat oc + ch < unat t * unat oc"
    using c(1) cf(2) block_index_less[of f "unat t" ch "unat oc"] by (simp add: mult.commute)
  with len have b: "f * unat oc + ch < length buf" by linarith
  have "interleave_sample (samples a) (h_capacity_frames (header a)) (h_read_pos (header a)) (unat oc) ch f
      (copied (unat oc) v (unat t) m todo buf) = Some (copied (unat oc) v (unat t) m (remove1 (ch, f) todo) buf)"
    using interleave_sample_value[OF ok c(3,2), of "unat oc" "copied (unat oc) v (unat t) m todo buf"]
      copied_next[OF Cons.prems(2), of ch f "unat oc" m "unat t" buf v] mem todo c(1) cf b
    by (simp add: copied_def v_def)
  then have "read_access oc k a (ReadCopy (copied (unat oc) v (unat t) m todo buf) n ins t todo) =
      Some (a, ReadCopy (copied (unat oc) v (unat t) m (remove1 (ch, f) todo) buf) n ins t (remove1 (ch, f) todo))"
    using x todo by (simp add: load_pos_def)
  moreover have "set (remove1 (ch, f) todo) \<subseteq> {..<m} \<times> {..<unat t}" "distinct (remove1 (ch, f) todo)"
    "length ks = length (remove1 (ch, f) todo)"
    using Cons.prems mem set_remove1_subset[of "(ch, f)" todo] unfolding todo
    by (fastforce, simp_all add: length_remove1 del: remove1.simps)
  ultimately show ?case using Cons.IH by (simp del: read_access.simps)
qed

text \<open>From the load of a plain read to its publication of the read position.\<close>

lemma read_alone_read:
  fixes a :: "('a::zero) shared_ring"
  assumes ok: "ring_ok a" and len: "(unat n + unat ins) * unat oc \<le> length out"
    and ks: "min (chans_of a) (unat oc) * unat n + 2 \<le> length ks"
  obtains out' ls where
    "shared_audio_read_interleaved a out oc n = Some (read_state a n, out', frames_to_read a n)"
    "length out' = length out"
    "alone (read_access oc) ks a (ReadStart out n ins) = alone (read_access oc) ls (read_state a n) (ReadTail out' n ins (frames_to_read a n))"
    "length ks \<le> length ls + min (chans_of a) (unat oc) * unat n + 2"
proof -
  let ?t = "frames_to_read a n" and ?m = "min (chans_of a) (unat oc)" and ?v = "\<lambda>f ch. ring_frames a ! f ! ch"
  define out0 where "out0 = splice out 0 (replicate (unat n * unat oc) 0)"
  define out' where "out' = interleaving (unat oc) ?v (unat ?t) ?m 0 out0"
  have room: "unat n * unat oc \<le> length out" using len by (simp add: add_mult_distrib)
  then have l0: "length out0 = length out" unfolding out0_def by (subst length_splice) simp_all
  have t: "unat ?t \<le> unat n" "unat ?t \<le> fill_of a" by (simp_all add: frames_to_read_nat[OF ok])
  have "unat ?t * unat oc \<le> unat n * unat oc" using t(1) by (rule mult_le_mono1)
  with room l0 have l1: "unat ?t * unat oc \<le> length out0" by linarith
  have m0: "memset out 0 0 (unat n * unat oc) = Some out0" using room by (simp add: mem_simps out0_def)
  have cc: "unat (if h_channels (header a) < ucast oc then h_channels (header a) else ucast oc) = ?m"
    by (simp add: word_less_nat_alt min_def)
  have res: "shared_audio_read_interleaved a out oc n = Some (read_state a n, out', ?t)"
    using interleave_loops_spec[OF ok t(2) _ _ l1, of ?m]
    unfolding shared_audio_read_interleaved_def Let_def load_pos_def m0 cc by (simp add: read_state_def out'_def)
  obtain k ks' where k: "ks = k # ks'" using ks by (cases ks) auto
  define d where "d = ?m * unat ?t"
  have "d \<le> ?m * unat n" unfolding d_def using t(1) by (rule mult_le_mono2)
  moreover have "?m * unat n + 2 \<le> Suc (length ks')" using ks k by simp
  ultimately have d: "d < length ks'" "length ks \<le> Suc (Suc (length ks' - Suc d)) + ?m * unat n" unfolding k list.size by linarith+
  have split: "ks' = take d ks' @ ks' ! d # drop (Suc d) ks'" using d(1) by (simp add: Cons_nth_drop_Suc)
  have start: "read_access oc k a (ReadStart out n ins) = Some (a, ReadCopy out0 n ins ?t (sample_list ?m (unat ?t)))"
    by (simp only: read_access.simps Let_def cc m0 bind.bind_lunit)
  have copy: "alone (read_access oc) ks' a (ReadCopy out0 n ins ?t (sample_list ?m (unat ?t))) =
      alone (read_access oc) (ks' ! d # drop (Suc d) ks') a (ReadCopy out' n ins ?t [])"
    using read_alone_copy[OF ok t(2) l1, of "take d ks'" "sample_list ?m (unat ?t)" "ks' ! d # drop (Suc d) ks'" n ins] d(1) split
    by (simp add: out'_def copied_all sample_list_set length_sample_list d_def del: alone.simps)
  have "alone (read_access oc) ks a (ReadStart out n ins) = alone (read_access oc) (drop (Suc d) ks') (read_state a n) (ReadTail out' n ins ?t)"
    using copy unfolding k by (simp add: start load_pos_def read_state_def del: read_access.simps(6))
  moreover have "length out' = length out" by (simp add: out'_def interleaving_def l0)
  ultimately show ?thesis using res d(2) by (intro that[of out' "drop (Suc d) ks'"]) simp_all
qed

text \<open>The frames made up behind those read: nothing to do is nothing done.\<close>

lemma read_tail:
  assumes "(unat n + unat ins) * unat oc \<le> length out"
  shows "read_access oc k a (ReadTail out n ins real) =
    (let c = unat oc; tail = unat n * c
     in if real > 0 then do {
          out' \<leftarrow> for_each (\<lambda>i buf. memcpy_within buf (tail + i * c) ((unat real - 1) * c) c) [0..<unat ins] out;
          Some (a\<lparr>header := (header a)\<lparr>h_inserted_frames := h_inserted_frames (header a) + ucast ins\<rparr>\<rparr>, ReadDone out' real) }
        else do { out' \<leftarrow> memset out tail 0 (unat ins * c); Some (a, ReadDone out' real) })"
  using assms by (cases "ins = 0") (simp_all add: Let_def mem_simps add_mult_distrib)

lemma read_alone_tail:
  assumes r: "read_ok oc a (ReadTail out n ins real)" and ls: "ls \<noteq> []"
  obtains a' out' where "read_access oc 0 a (ReadTail out n ins real) = Some (a', ReadDone out' real)"
    "alone (read_access oc) ls a (ReadTail out n ins real) = Some (a', ReadDone out' real)"
proof -
  obtain k ls' where k: "ls = k # ls'" using ls by (cases ls) auto
  obtain a' out' where "read_access oc 0 a (ReadTail out n ins real) = Some (a', ReadDone out' real)"
    using fill_tail_ok[OF r, of 0] by blast
  then show ?thesis using k by (intro that[of a' out']) (simp_all add: read_alone_done)
qed

text \<open>A read with \<open>ins\<close> frames to make up, and one with none.\<close>

lemma read_alone_fill:
  fixes a :: "('a::zero) shared_ring"
  assumes ok: "ring_ok a" and len: "(unat n + unat ins) * unat oc \<le> length out"
    and ks: "min (chans_of a) (unat oc) * unat n + 3 \<le> length ks"
  obtains a1 out1 real a' out' where "shared_audio_read_interleaved a out oc n = Some (a1, out1, real)"
    "(unat n + unat ins) * unat oc \<le> length out1"
    "read_access oc 0 a1 (ReadTail out1 n ins real) = Some (a', ReadDone out' real)"
    "alone (read_access oc) ks a (ReadStart out n ins) = Some (a', ReadDone out' real)"
proof -
  have "min (chans_of a) (unat oc) * unat n + 2 \<le> length ks" using ks by simp
  from read_alone_read[OF ok len this] obtain out1 ls where
    r: "shared_audio_read_interleaved a out oc n = Some (read_state a n, out1, frames_to_read a n)"
      "length out1 = length out"
      "alone (read_access oc) ks a (ReadStart out n ins) = alone (read_access oc) ls (read_state a n) (ReadTail out1 n ins (frames_to_read a n))"
      "length ks \<le> length ls + min (chans_of a) (unat oc) * unat n + 2" by blast
  have "read_ok oc (read_state a n) (ReadTail out1 n ins (frames_to_read a n))"
    using len r(2) by (simp add: read_ok_def frames_to_read_nat[OF ok])
  moreover have "ls \<noteq> []" using r(4) ks by auto
  ultimately obtain a' out' where "read_access oc 0 (read_state a n) (ReadTail out1 n ins (frames_to_read a n)) =
      Some (a', ReadDone out' (frames_to_read a n))"
    "alone (read_access oc) ls (read_state a n) (ReadTail out1 n ins (frames_to_read a n)) = Some (a', ReadDone out' (frames_to_read a n))"
    by (rule read_alone_tail)
  with r len show ?thesis by (intro that) simp_all
qed

lemma read_alone_plain:
  fixes a :: "('a::zero) shared_ring"
  assumes ok: "ring_ok a" and len: "unat n * unat oc \<le> length out"
    and ks: "min (chans_of a) (unat oc) * unat n + 3 \<le> length ks"
  shows "\<exists>a' out' real. shared_audio_read_interleaved a out oc n = Some (a', out', real) \<and>
    alone (read_access oc) ks a (ReadStart out n 0) = Some (a', ReadDone out' real)"
proof -
  have "(unat n + unat (0 :: u32)) * unat oc \<le> length out" using len by simp
  then obtain a1 out1 real a' out' where
    "shared_audio_read_interleaved a out oc n = Some (a1, out1, real)"
    "read_access oc 0 a1 (ReadTail out1 n 0 real) = Some (a', ReadDone out' real)"
    "alone (read_access oc) ks a (ReadStart out n 0) = Some (a', ReadDone out' real)"
    by (rule read_alone_fill[OF ok _ ks])
  moreover have "read_access oc 0 a1 (ReadTail out1 n 0 real) = Some (a1, ReadDone out1 real)" by (simp add: Let_def)
  ultimately show ?thesis by (simp del: read_access.simps)
qed

lemma read_alone_high:
  fixes a :: "('a::zero) shared_ring" and T tol n :: u32
  assumes ok: "ring_ok a" and len: "unat n * unat oc \<le> length out"
    and ks: "min (chans_of a) (unat oc) * unat n + 3 \<le> length ks"
    and high: "h_write_pos (header a) - h_read_pos (header a) > ucast T + ucast tol"
  shows "\<exists>a' out' real. shared_audio_read_interleaved_regulated a out oc n T tol = Some (a', out', real) \<and>
    alone (read_access oc) (k # l # ks) a (ReadRegulate out n T tol) = Some (a', ReadDone out' real)"
proof -
  let ?f = "h_write_pos (header a) - h_read_pos (header a)"
  let ?e = "ucast (?f - ucast T) :: u32"
  define d where "d = (if ?e < SHARED_AUDIO_MAX_CORRECTION then ?e else SHARED_AUDIO_MAX_CORRECTION)"
  have "unat d \<le> fill_of a"
    using correction_bounds(1)[OF ok, of T tol] high unat_fill_cmp(1)[OF ok, of T tol] by (simp add: d_def)
  note a2 = drop_state_spec[OF ok this]
  have "read_access oc k a (ReadRegulate out n T tol) = Some (a, ReadDrop out n d)"
    using high by (simp add: load_pos_def Let_def d_def)
  moreover have "read_access oc l a (ReadDrop out n d) = Some (drop_state a d, ReadStart out n 0)"
    by (simp add: load_pos_def drop_state_def store_read_pos_def)
  moreover have "shared_audio_read_interleaved_regulated a out oc n T tol = shared_audio_read_interleaved (drop_state a d) out oc n"
    using high unfolding shared_audio_read_interleaved_regulated_def Let_def load_pos_def d_def
    by (simp add: drop_state_def store_read_pos_def)
  ultimately show ?thesis using read_alone_plain[OF a2(1) len, of ks] ks by (simp del: read_access.simps)
qed

lemma read_alone_mid:
  fixes a :: "('a::zero) shared_ring" and T tol n :: u32
  assumes ok: "ring_ok a" and len: "unat n * unat oc \<le> length out"
    and ks: "min (chans_of a) (unat oc) * unat n + 3 \<le> length ks"
    and h1: "\<not> h_write_pos (header a) - h_read_pos (header a) > ucast T + ucast tol"
    and h2: "\<not> (h_write_pos (header a) - h_read_pos (header a) + ucast tol < ucast T \<and> n > 0)"
  shows "\<exists>a' out' real. shared_audio_read_interleaved_regulated a out oc n T tol = Some (a', out', real) \<and>
    alone (read_access oc) (k # l # ks) a (ReadRegulate out n T tol) = Some (a', ReadDone out' real)"
proof -
  let ?f = "h_write_pos (header a) - h_read_pos (header a)"
  have "read_access oc k a (ReadRegulate out n T tol) = Some (a, ReadStart out n 0)"
    unfolding read_access.simps Let_def load_pos_def if_not_P[OF h1] if_not_P[OF h2] ..
  moreover have "shared_audio_read_interleaved_regulated a out oc n T tol = shared_audio_read_interleaved a out oc n"
    unfolding shared_audio_read_interleaved_regulated_def Let_def load_pos_def if_not_P[OF h1] if_not_P[OF h2] ..
  ultimately show ?thesis using read_alone_plain[OF ok len, of "l # ks"] ks by (simp del: read_access.simps)
qed

lemma read_alone_low:
  fixes a :: "('a::zero) shared_ring" and T tol n :: u32
  assumes ok: "ring_ok a" and len: "unat n * unat oc \<le> length out"
    and ks: "min (chans_of a) (unat oc) * unat n + 3 \<le> length ks"
    and h1: "\<not> h_write_pos (header a) - h_read_pos (header a) > ucast T + ucast tol"
    and h2: "h_write_pos (header a) - h_read_pos (header a) + ucast tol < ucast T" "n > 0"
  shows "\<exists>a' out' real. shared_audio_read_interleaved_regulated a out oc n T tol = Some (a', out', real) \<and>
    alone (read_access oc) (k # l # ks) a (ReadRegulate out n T tol) = Some (a', ReadDone out' real)"
proof -
  let ?f = "h_write_pos (header a) - h_read_pos (header a)"
  let ?m = "min (chans_of a) (unat oc)"
  let ?e = "ucast (ucast T - ?f) :: u32"
  define i0 where "i0 = (if ?e < SHARED_AUDIO_MAX_CORRECTION then ?e else SHARED_AUDIO_MAX_CORRECTION)"
  define i where "i = (if i0 > n then n else i0)"
  have n: "unat n = unat (n - i) + unat i" using correction_bounds(2)[OF ok, of n i0] by (simp add: i_def)
  have g: "?f + ucast tol < ucast T \<and> n > 0" using h2 by simp
  have acc: "read_access oc k a (ReadRegulate out n T tol) = Some (a, ReadStart out (n - i) i)"
    unfolding read_access.simps Let_def load_pos_def if_not_P[OF h1] if_P[OF g] i_def i0_def ..
  have "(unat (n - i) + unat i) * unat oc \<le> length out" using len n by simp
  moreover have "?m * unat (n - i) \<le> ?m * unat n" unfolding n by (rule mult_le_mono2) simp
  then have "?m * unat (n - i) + 3 \<le> length (l # ks)" using ks unfolding list.size by linarith
  ultimately obtain a1 out1 real a' out' where
    r: "shared_audio_read_interleaved a out oc (n - i) = Some (a1, out1, real)"
      "(unat (n - i) + unat i) * unat oc \<le> length out1"
      "read_access oc 0 a1 (ReadTail out1 (n - i) i real) = Some (a', ReadDone out' real)"
      "alone (read_access oc) (l # ks) a (ReadStart out (n - i) i) = Some (a', ReadDone out' real)"
    by (rule read_alone_fill[OF ok])
  have "shared_audio_read_interleaved_regulated a out oc n T tol = Some (a', out', real)"
    using r(1,3) unfolding read_tail[OF r(2)] shared_audio_read_interleaved_regulated_def Let_def load_pos_def
      if_not_P[OF h1] if_P[OF g] i0_def [symmetric] i_def [symmetric]
    by (auto split: bind_splits if_splits)
  then show ?thesis using r(4) acc by (simp del: read_access.simps)
qed

lemma read_alone_regulated:
  fixes a :: "('a::zero) shared_ring" and T tol n :: u32
  assumes ok: "ring_ok a" and len: "unat n * unat oc \<le> length out" and ks: "read_accesses a oc n \<le> length ks"
  shows "\<exists>a' out' real. shared_audio_read_interleaved_regulated a out oc n T tol = Some (a', out', real) \<and>
    alone (read_access oc) ks a (ReadRegulate out n T tol) = Some (a', ReadDone out' real)"
proof -
  obtain k l ks' where k: "ks = k # l # ks'" using ks by (cases ks rule: remdups_adj.cases) (auto simp: read_accesses_def)
  then have ks': "min (chans_of a) (unat oc) * unat n + 3 \<le> length ks'" using ks by (simp add: read_accesses_def)
  show ?thesis
    unfolding k using read_alone_high[OF ok len ks'] read_alone_mid[OF ok len ks'] read_alone_low[OF ok len ks'] by blast
qed

section \<open>Properties\<close>

text \<open>C7. The access-level model agrees with the functions: a write that is left alone comes, for every order in
  which its samples are stored, to the ring and the result of \<open>shared_audio_write\<close>, and a
  regulated read or a seek to the ring, the buffer and the result of its function.\<close>

theorem undisturbed_accesses_are_the_functions:
  assumes "ring_ok a" "buffers_ok (chans_of a) (unat n) chans" "wpos a + unat n < 2 ^ 64"
    "unat m * unat oc \<le> length out" "write_accesses a n \<le> length ks" "read_accesses a oc m \<le> length ls"
  shows "(\<exists>a' rc. shared_audio_write a chans n = Some (a', rc) \<and>
      alone write_access ks a (WriteCheck chans n) = Some (a', WriteDone rc)) \<and>
    (\<exists>a' out' real. shared_audio_read_interleaved_regulated a out oc m target tolerance = Some (a', out', real) \<and>
      alone (read_access oc) ls a (ReadRegulate out m target tolerance) = Some (a', ReadDone out' real)) \<and>
    alone (read_access oc) ls a (ReadSeek target) =
      (case shared_audio_seek_to_fill a target of (a', new_fill) \<Rightarrow> Some (a', ReadDone [] new_fill))"
proof -
  obtain k l ls' where "ls = k # l # ls'" using assms(6) by (cases ls rule: remdups_adj.cases) (auto simp: read_accesses_def)
  then have "alone (read_access oc) ls a (ReadSeek target) =
      (case shared_audio_seek_to_fill a target of (a', new_fill) \<Rightarrow> Some (a', ReadDone [] new_fill))"
    by (simp add: shared_audio_seek_to_fill_def Let_def read_alone_done)
  moreover have "write_ok a (WriteCheck chans n)" using assms(2,3) by (simp add: write_ok_def)
  ultimately show ?thesis
    using write_alone_write[OF assms(1) _ assms(5)] read_alone_regulated[OF assms(1,4,6)] by blast
qed

theorem undisturbed_accesses_are_the_functions_witness:
  "(\<exists>a' rc. shared_audio_write sample_ring [[31, 32], [41, 42]] 2 = Some (a', rc) \<and>
     alone write_access [0, 3, 1, 1, 0, 0] sample_ring (WriteCheck [[31, 32], [41, 42]] 2) = Some (a', WriteDone rc)) \<and>
   (\<exists>a' out' real. shared_audio_read_interleaved_regulated sample_ring [7, 7, 7, 7] 2 2 2 2 = Some (a', out', real) \<and>
     alone (read_access 2) [0, 0, 2, 1, 1, 0, 0, 0, 0] sample_ring (ReadRegulate [7, 7, 7, 7] 2 2 2) = Some (a', ReadDone out' real))"
proof -
  have h: "buffers_ok (chans_of sample_ring) (unat (2 :: u32)) [[31, 32], [41, 42]]" "wpos sample_ring + unat (2 :: u32) < 2 ^ 64"
    "unat (2 :: u32) * unat (2 :: u16) \<le> length [7 :: int, 7, 7, 7]"
    "write_accesses sample_ring 2 \<le> length [0, 3, 1, 1, 0, 0 :: nat]"
    "read_accesses sample_ring 2 2 \<le> length [0, 0, 2, 1, 1, 0, 0, 0, 0 :: nat]"
    by (simp_all add: sample_ring_facts buffers_ok_def write_accesses_def read_accesses_def less_2_cases_iff)
  from undisturbed_accesses_are_the_functions[OF sample_ring_ok h, of 2 2] show ?thesis by blast
qed

text \<open>C6. Neither side waits for the other: whatever happens in between, a write of \<open>n\<close> frames has
  returned 0 or -1 once the daemon has made as many accesses as the ring has channels times \<open>n\<close>, and
  two more, and a regulated read of \<open>n\<close> frames has returned after five more than it has samples
  to copy at most.\<close>

theorem shared_ring_wait_free:
  assumes "shared_reachable oc a s" "ring_ok a" "ring_run (shared_ring_program oc) ms s = Some s'"
  shows "(wpc s = WriteCheck chans n \<and> EndWrite \<notin> set ms \<and> write_accesses (ring s) n \<le> writer_turns ms \<longrightarrow>
      wpc s' = WriteDone 0 \<or> wpc s' = WriteDone (- 1)) \<and>
    (rpc s = ReadRegulate out m target tolerance \<and> EndRead \<notin> set ms \<and> read_accesses (ring s) oc m \<le> reader_turns ms \<longrightarrow>
      (\<exists>out' real. rpc s' = ReadDone out' real))"
proof -
  note r = assms(1) [unfolded shared_reachable_def]
  have "write_ok (ring s') (wpc s')"
    using shared_interleaved.reachable_ok[OF ring_run_reachable[OF r assms(3)] assms(2)] by simp
  with shared_interleaved.wait_free[OF r assms(2,3)] show ?thesis
    by (auto simp: shared_ring_program_def write_left_def read_left_def write_done_def read_done_def write_ok_def
      split: write_pc.splits read_pc.splits)
qed

lemma begun_together:
  "map_option (\<lambda>s. (wpc s, rpc s, chans_of (ring s))) (ring_run (shared_ring_program 2) (take 2 interleaved_moves) sample_system) =
   Some (WriteCheck [[31, 32], [41, 42]] 2, ReadRegulate [7, 7, 7, 7] 2 2 2, 2)"
  by code_simp

lemma run_together:
  "map_option (\<lambda>s. ()) (ring_run (shared_ring_program 2) (take 2 interleaved_moves) sample_system
     \<bind> ring_run (shared_ring_program 2) (drop 2 interleaved_moves @ [ReaderAccess 0, ReaderAccess 0])) = Some ()"
  "writer_turns (drop 2 interleaved_moves @ [ReaderAccess 0, ReaderAccess 0]) = 6"
  "reader_turns (drop 2 interleaved_moves @ [ReaderAccess 0, ReaderAccess 0]) = 9"
  by code_simp+

theorem shared_ring_wait_free_witness:
  "\<exists>s s'. ring_run (shared_ring_program 2) (take 2 interleaved_moves) sample_system = Some s \<and>
     ring_run (shared_ring_program 2) (drop 2 interleaved_moves @ [ReaderAccess 0, ReaderAccess 0]) s = Some s' \<and>
     (wpc s' = WriteDone 0 \<or> wpc s' = WriteDone (- 1)) \<and> (\<exists>out' real. rpc s' = ReadDone out' real)"
proof -
  let ?ms = "drop 2 interleaved_moves @ [ReaderAccess 0, ReaderAccess 0]"
  obtain s where s: "ring_run (shared_ring_program 2) (take 2 interleaved_moves) sample_system = Some s"
    "wpc s = WriteCheck [[31, 32], [41, 42]] 2" "rpc s = ReadRegulate [7, 7, 7, 7] 2 2 2" "chans_of (ring s) = 2"
    using begun_together by (cases "ring_run (shared_ring_program 2) (take 2 interleaved_moves) sample_system") auto
  obtain s' where s': "ring_run (shared_ring_program 2) ?ms s = Some s'" using run_together(1) s(1) by (cases "ring_run (shared_ring_program 2) ?ms s") auto
  have turns: "write_accesses (ring s) 2 \<le> writer_turns ?ms" "read_accesses (ring s) 2 2 \<le> reader_turns ?ms"
    unfolding run_together(2,3) by (simp_all add: write_accesses_def read_accesses_def s(4))
  have no_end: "EndWrite \<notin> set ?ms" "EndRead \<notin> set ?ms" by (simp_all add: interleaved_moves_def)
  have "shared_reachable 2 sample_ring s" using s(1) by (rule sample_reachable)
  from shared_ring_wait_free[OF this sample_ring_ok s'] s turns no_end s' show ?thesis by blast
qed

end
