(* ===== verification/ReleaseAcquire.thy ===== *)
theory ReleaseAcquire
  imports ReacPrelude
begin

text \<open>
  The memory that the atomic builtins of the compiler promise, which is weaker than one memory with
  interleaved accesses: \<open>__atomic_store_n\<close> with release order and \<open>__atomic_load_n\<close> with acquire
  order, and plain accesses, which must not race.  A location that one thread stores to has the
  history of its stores.  A view says of every location how much of its history, and how many
  of its plain loads, happen before what a thread does next.  A release store leaves the view of
  its thread with the value; a load may take any store that is not older than one the thread
  knows of, and an acquire load adds the view found there to that of its thread.  A plain access is
  a data race, that is undefined behaviour, when a conflicting access does not happen before it.
\<close>

section \<open>Views\<close>

datatype 'l event =
    StoreTo 'l
  | LoadOf 'l

type_synonym 'l view = "'l event \<Rightarrow> nat"

type_synonym ('l, 'v) history = "('v \<times> 'l view) list"

text \<open>\<open>StoreTo l\<close> in a view is the number of the newest store to \<open>l\<close> that is known, the initial value being number 0.\<close>

definition no_events :: "'l view" where
  "no_events = (\<lambda>_. 0)"

definition join :: "'l view \<Rightarrow> 'l view \<Rightarrow> 'l view" where
  "join V W = (\<lambda>e. max (V e) (W e))"

lemma join_ge: "V e \<le> join V W e" "W e \<le> join V W e"
  by (simp_all add: join_def)

lemma join_bound: "join V W e \<le> n \<longleftrightarrow> V e \<le> n \<and> W e \<le> n" "join V W e < n \<longleftrightarrow> V e < n \<and> W e < n"
  by (simp_all add: join_def)

section \<open>Atomic accesses\<close>

text \<open>A load takes the store with number \<open>n\<close>.\<close>

definition relaxed_load :: "('l, 'v) history \<Rightarrow> 'l \<Rightarrow> nat \<Rightarrow> 'l view \<Rightarrow> ('v \<times> 'l view) option" where
  "relaxed_load h l n V =
     (if V (StoreTo l) \<le> n \<and> n < length h then Some (fst (h ! n), V(StoreTo l := n)) else None)"

definition acquire_load :: "('l, 'v) history \<Rightarrow> 'l \<Rightarrow> nat \<Rightarrow> 'l view \<Rightarrow> ('v \<times> 'l view) option" where
  "acquire_load h l n V =
     (if V (StoreTo l) \<le> n \<and> n < length h then Some (fst (h ! n), join V (snd (h ! n))) else None)"

definition release_store :: "('l, 'v) history \<Rightarrow> 'l \<Rightarrow> 'v \<Rightarrow> 'l view \<Rightarrow> ('l, 'v) history \<times> 'l view" where
  "release_store h l v V = (let V' = V(StoreTo l := length h) in (h @ [(v, V')], V'))"

definition first_store :: "'v \<Rightarrow> ('l, 'v) history" where
  "first_store v = [(v, no_events)]"

lemma acquire_load_Some:
  "acquire_load h l n V = Some (v, V') \<longleftrightarrow>
     V (StoreTo l) \<le> n \<and> n < length h \<and> v = fst (h ! n) \<and> V' = join V (snd (h ! n))"
  by (auto simp: acquire_load_def)

section \<open>Plain accesses\<close>

text \<open>\<open>C\<close> counts the plain stores and loads so far.\<close>

definition plain_store :: "'l \<Rightarrow> 'l view \<Rightarrow> 'l view \<Rightarrow> ('l view \<times> 'l view) option" where
  "plain_store l C V =
     (if V (StoreTo l) = C (StoreTo l) \<and> V (LoadOf l) = C (LoadOf l)
      then Some (C(StoreTo l := C (StoreTo l) + 1), V(StoreTo l := V (StoreTo l) + 1))
      else None)"

definition plain_load :: "'l \<Rightarrow> 'l view \<Rightarrow> 'l view \<Rightarrow> ('l view \<times> 'l view) option" where
  "plain_load l C V =
     (if V (StoreTo l) = C (StoreTo l)
      then Some (C(LoadOf l := C (LoadOf l) + 1), V(LoadOf l := V (LoadOf l) + 1))
      else None)"

end
