(* ===== verification/WeakRing.thy ===== *)
theory WeakRing
  imports RingInterleaving ReleaseAcquire
begin

text \<open>
  A ring between one writer and one reader on the memory of \<open>ReleaseAcquire\<close>: the accesses are those
  of a ring program, but a side that loads the position of the other may find one that has been
  overwritten, and a plain access to a cell of the ring is undefined when a conflicting access does not
  happen before it.  The locale says what a ring program has to promise so that it is as good
  on this memory as on a sequentially consistent one.
\<close>

lemma map_bind: "map_option g (m \<bind> f) = m \<bind> (\<lambda>x. map_option g (f x))"
  by (cases m) simp_all

section \<open>The system\<close>

text \<open>
  What an access does to the shared words: whether it loads the position of the other side, whether it
  stores the own position, and the cell that it stores to or loads from.
\<close>

record ('s, 'w, 'r) ring_footprint =
  write_word :: "'s \<Rightarrow> u64"
  read_word :: "'s \<Rightarrow> u64"
  set_write_word :: "u64 \<Rightarrow> 's \<Rightarrow> 's"
  set_read_word :: "u64 \<Rightarrow> 's \<Rightarrow> 's"
  writer_looks :: "'w \<Rightarrow> bool"
  reader_looks :: "'r \<Rightarrow> bool"
  writer_publishes :: "'w \<Rightarrow> bool"
  reader_publishes :: "'r \<Rightarrow> bool"
  stored_cell :: "nat \<Rightarrow> 's \<Rightarrow> 'w \<Rightarrow> nat option"
  loaded_cell :: "nat \<Rightarrow> 's \<Rightarrow> 'r \<Rightarrow> nat option"

datatype ring_place = WritePosition | ReadPosition | Cell nat

text \<open>
  \<open>core\<close> has the value stored last in every word; the positions also have their histories.  \<open>plain\<close>
  counts the plain accesses to the cells.
\<close>

record ('s, 'w, 'r, 'f, 'g) weak_system =
  core :: "('s, 'w, 'r, 'f, 'g) ring_system"
  write_history :: "(ring_place, u64) history"
  read_history :: "(ring_place, u64) history"
  plain :: "ring_place view"
  wview :: "ring_place view"
  rview :: "ring_place view"

definition look :: "bool \<Rightarrow> (ring_place, u64) history \<Rightarrow> ring_place \<Rightarrow> nat \<Rightarrow> ring_place view \<Rightarrow> (u64 \<times> ring_place view) option" where
  "look loads h l n V = (if loads then acquire_load h l n V else Some (fst (h ! V (StoreTo l)), V))"

definition touch ::
  "(ring_place \<Rightarrow> ring_place view \<Rightarrow> ring_place view \<Rightarrow> (ring_place view \<times> ring_place view) option) \<Rightarrow>
   nat option \<Rightarrow> ring_place view \<Rightarrow> ring_place view \<Rightarrow> (ring_place view \<times> ring_place view) option" where
  "touch acc cell C V = (case cell of None \<Rightarrow> Some (C, V) | Some i \<Rightarrow> acc (Cell i) C V)"

definition announce ::
  "bool \<Rightarrow> (ring_place, u64) history \<Rightarrow> ring_place \<Rightarrow> u64 \<Rightarrow> ring_place view \<Rightarrow> (ring_place, u64) history \<times> ring_place view" where
  "announce stores h l v V = (if stores then release_store h l v V else (h, V))"

text \<open>The ring as a side sees it: its own stores, and the position of the other side that it loaded last.\<close>

definition seen_by_writer ::
  "('s, 'w, 'r) ring_footprint \<Rightarrow> ('s, 'w, 'r, 'f, 'g) weak_system \<Rightarrow> 's" where
  "seen_by_writer Q s = set_read_word Q (fst (read_history s ! wview s (StoreTo ReadPosition))) (ring (core s))"

definition seen_by_reader ::
  "('s, 'w, 'r) ring_footprint \<Rightarrow> ('s, 'w, 'r, 'f, 'g) weak_system \<Rightarrow> 's" where
  "seen_by_reader Q s = set_write_word Q (fst (write_history s ! rview s (StoreTo WritePosition))) (ring (core s))"

text \<open>One access of a side; a load of a position takes its store number \<open>n\<close>.\<close>

definition weak_write ::
  "('s, 'w, 'r, 'f, 'g) ring_program \<Rightarrow> ('s, 'w, 'r) ring_footprint \<Rightarrow> nat \<Rightarrow> nat \<Rightarrow>
   ('s, 'w, 'r, 'f, 'g) weak_system \<Rightarrow> ('s, 'w, 'r, 'f, 'g) weak_system option" where
  "weak_write P Q k n s =
     (let c = core s; pc = wpc c
      in do { (p, V) \<leftarrow> look (writer_looks Q pc) (read_history s) ReadPosition n (wview s);
              let a = set_read_word Q p (ring c);
              (C, V) \<leftarrow> touch plain_store (stored_cell Q k a pc) (plain s) V;
              (a', pc') \<leftarrow> access_write P k a pc;
              let (h, V) = announce (writer_publishes Q pc) (write_history s) WritePosition (write_word Q a') V;
              Some (s\<lparr>plain := C,
                      core := c\<lparr>ring := set_read_word Q (read_word Q (ring c)) a', wpc := pc',
                                published_frames := published_frames c @ frames_in P a pc\<rparr>,
                      write_history := h, wview := V\<rparr>) })"

definition weak_read ::
  "('s, 'w, 'r, 'f, 'g) ring_program \<Rightarrow> ('s, 'w, 'r) ring_footprint \<Rightarrow> nat \<Rightarrow> nat \<Rightarrow>
   ('s, 'w, 'r, 'f, 'g) weak_system \<Rightarrow> ('s, 'w, 'r, 'f, 'g) weak_system option" where
  "weak_read P Q k n s =
     (let c = core s; pc = rpc c
      in do { (p, V) \<leftarrow> look (reader_looks Q pc) (write_history s) WritePosition n (rview s);
              let a = set_write_word Q p (ring c);
              (C, V) \<leftarrow> touch plain_load (loaded_cell Q k a pc) (plain s) V;
              (a', pc') \<leftarrow> access_read P k a pc;
              let (h, V) = announce (reader_publishes Q pc) (read_history s) ReadPosition (read_word Q a') V;
              Some (s\<lparr>plain := C,
                      core := c\<lparr>ring := set_write_word Q (write_word Q (ring c)) a', rpc := pc',
                                consumed := consumed c @ frames_out P a pc\<rparr>,
                      read_history := h, rview := V\<rparr>) })"

text \<open>A move of the system, with the number of the store that an access of a position takes.\<close>

fun weak_move ::
  "('s, 'w, 'r, 'f, 'g) ring_program \<Rightarrow> ('s, 'w, 'r) ring_footprint \<Rightarrow> ('w, 'r) ring_move \<times> nat \<Rightarrow>
   ('s, 'w, 'r, 'f, 'g) weak_system \<Rightarrow> ('s, 'w, 'r, 'f, 'g) weak_system option" where
  "weak_move P Q (WriterAccess k, n) s = weak_write P Q k n s"
| "weak_move P Q (ReaderAccess k, n) s = weak_read P Q k n s"
| "weak_move P Q (BeginWrite pc, n) s =
     (if wpc (core s) = idle_writer P \<and> write_begins P (seen_by_writer Q s) pc
      then Some (s\<lparr>core := (core s)\<lparr>wpc := pc\<rparr>\<rparr>) else None)"
| "weak_move P Q (BeginRead pc, n) s =
     (if rpc (core s) = idle_reader P \<and> read_begins P (seen_by_reader Q s) pc
      then Some (s\<lparr>core := (core s)\<lparr>rpc := pc\<rparr>\<rparr>) else None)"
| "weak_move P Q (EndWrite, n) s =
     (if write_over P (wpc (core s)) then Some (s\<lparr>core := (core s)\<lparr>wpc := idle_writer P\<rparr>\<rparr>) else None)"
| "weak_move P Q (EndRead, n) s =
     (if read_over P (rpc (core s)) then Some (s\<lparr>core := (core s)\<lparr>rpc := idle_reader P\<rparr>\<rparr>) else None)"

fun weak_run ::
  "('s, 'w, 'r, 'f, 'g) ring_program \<Rightarrow> ('s, 'w, 'r) ring_footprint \<Rightarrow> (('w, 'r) ring_move \<times> nat) list \<Rightarrow>
   ('s, 'w, 'r, 'f, 'g) weak_system \<Rightarrow> ('s, 'w, 'r, 'f, 'g) weak_system option" where
  "weak_run P Q [] s = Some s"
| "weak_run P Q (m # ms) s = weak_move P Q m s \<bind> weak_run P Q ms"

text \<open>Both sides start with everything that has happened to the ring before them.\<close>

definition weak_start ::
  "('s, 'w, 'r, 'f, 'g) ring_program \<Rightarrow> ('s, 'w, 'r) ring_footprint \<Rightarrow> 's \<Rightarrow> 'f list \<Rightarrow>
   ('s, 'w, 'r, 'f, 'g) weak_system" where
  "weak_start P Q a fs =
     \<lparr>core = ring_start P a fs, write_history = first_store (write_word Q a), read_history = first_store (read_word Q a),
      plain = no_events, wview = no_events, rview = no_events\<rparr>"

text \<open>The store numbers that the next access of a side may take.\<close>

definition writer_may_take :: "('s, 'w, 'r, 'f, 'g) weak_system \<Rightarrow> nat \<Rightarrow> bool" where
  "writer_may_take s n \<longleftrightarrow> wview s (StoreTo ReadPosition) \<le> n \<and> n < length (read_history s)"

definition reader_may_take :: "('s, 'w, 'r, 'f, 'g) weak_system \<Rightarrow> nat \<Rightarrow> bool" where
  "reader_may_take s n \<longleftrightarrow> rview s (StoreTo WritePosition) \<le> n \<and> n < length (write_history s)"

lemma weak_run_consumed:
  assumes "weak_run P Q ms s = Some s'" "\<And>a pc. None \<notin> set (frames_out P a pc)" "None \<notin> set (consumed (core s))"
  shows "None \<notin> set (consumed (core s'))"
  using assms(1,3)
proof (induction ms arbitrary: s)
  case (Cons m ms)
  then obtain s1 where s1: "weak_move P Q m s = Some s1" "weak_run P Q ms s1 = Some s'" by (auto split: bind_splits)
  obtain mv n where "m = (mv, n)" by fastforce
  then have "None \<notin> set (consumed (core s1))" using s1(1) Cons.prems(2) assms(2)
    by (cases mv) (auto simp: weak_write_def weak_read_def Let_def split: if_splits bind_splits prod.splits)
  with Cons.IH[OF s1(2)] show ?case .
qed simp

section \<open>Invariant\<close>

definition history_ok :: "(ring_place, u64) history \<Rightarrow> ring_place \<Rightarrow> u64 \<Rightarrow> bool" where
  "history_ok h l v \<longleftrightarrow> h \<noteq> [] \<and> sorted (map fst h) \<and> fst (last h) = v \<and> (\<forall>n < length h. snd (h ! n) (StoreTo l) = n)"

text \<open>A view knows of nothing that has not happened.\<close>

definition view_ok :: "('s, 'w, 'r, 'f, 'g) weak_system \<Rightarrow> ring_place view \<Rightarrow> bool" where
  "view_ok s V \<longleftrightarrow>
     V (StoreTo WritePosition) < length (write_history s) \<and> V (StoreTo ReadPosition) < length (read_history s) \<and>
     (\<forall>i. V (StoreTo (Cell i)) \<le> plain s (StoreTo (Cell i)) \<and> V (LoadOf (Cell i)) \<le> plain s (LoadOf (Cell i)))"

definition views_ok :: "('s, 'w, 'r, 'f, 'g) weak_system \<Rightarrow> bool" where
  "views_ok s \<longleftrightarrow>
     (\<forall>m \<in> set (write_history s) \<union> set (read_history s). view_ok s (snd m)) \<and> view_ok s (wview s) \<and> view_ok s (rview s) \<and>
     wview s (StoreTo WritePosition) + 1 = length (write_history s) \<and> rview s (StoreTo ReadPosition) + 1 = length (read_history s) \<and>
     (\<forall>i. wview s (StoreTo (Cell i)) = plain s (StoreTo (Cell i)) \<and> rview s (LoadOf (Cell i)) = plain s (LoadOf (Cell i))) \<and>
     (\<forall>e. snd (read_history s ! wview s (StoreTo ReadPosition)) e \<le> wview s e) \<and>
     (\<forall>e. snd (write_history s ! rview s (StoreTo WritePosition)) e \<le> rview s e)"

text \<open>
  The loads that a store of the read position does not bring with it are of frames from that position
  up to the newest that the reader has seen; the stores that a store of the write position does not bring
  with it are of frames from that position up to the last for which the writer has seen room.
\<close>

definition loads_since_ok :: "(nat \<Rightarrow> nat set) \<Rightarrow> nat \<Rightarrow> ('s, 'w, 'r, 'f, 'g) weak_system \<Rightarrow> bool" where
  "loads_since_ok cells bound s \<longleftrightarrow>
     (\<forall>m \<in> set (read_history s). \<forall>i. snd m (LoadOf (Cell i)) < plain s (LoadOf (Cell i)) \<longrightarrow>
        (\<exists>f. unat (fst m) \<le> f \<and> f < bound \<and> i \<in> cells f))"

definition stores_since_ok :: "(nat \<Rightarrow> nat set) \<Rightarrow> nat \<Rightarrow> ('s, 'w, 'r, 'f, 'g) weak_system \<Rightarrow> bool" where
  "stores_since_ok cells bound s \<longleftrightarrow>
     (\<forall>m \<in> set (write_history s). \<forall>i. snd m (StoreTo (Cell i)) < plain s (StoreTo (Cell i)) \<longrightarrow>
        (\<exists>f. unat (fst m) \<le> f \<and> f < bound \<and> i \<in> cells f))"

lemma history_nth: "history_ok h l v \<Longrightarrow> m \<le> n \<Longrightarrow> n < length h \<Longrightarrow> fst (h ! m) \<le> fst (h ! n)"
  unfolding history_ok_def using sorted_nth_mono[of "map fst h" m n] by simp

lemma history_last: "history_ok h l v \<Longrightarrow> n < length h \<Longrightarrow> fst (h ! n) \<le> v"
  using history_nth[of h l v n "length h - 1"] by (auto simp: history_ok_def last_conv_nth)

lemma history_member: "history_ok h l v \<Longrightarrow> m \<in> set h \<Longrightarrow> unat (fst m) \<le> unat v"
  using history_last by (auto simp: in_set_conv_nth word_le_nat_alt)

lemma history_append:
  assumes "history_ok h l v" "v \<le> w" shows "history_ok (h @ [(w, V(StoreTo l := length h))]) l w"
proof -
  have "\<forall>x \<in> set h. fst x \<le> w"
  proof
    fix x assume "x \<in> set h"
    then obtain n where "n < length h" "x = h ! n" by (auto simp: in_set_conv_nth)
    then show "fst x \<le> w" using history_last[OF assms(1)] assms(2) by (simp add: order_trans[of _ v])
  qed
  then have "sorted (map fst (h @ [(w, V(StoreTo l := length h))]))" using assms(1) by (auto simp: history_ok_def sorted_append)
  with assms(1) show ?thesis by (simp add: history_ok_def nth_append)
qed

text \<open>A look at the position of the other side.\<close>

lemma look_defined: "V (StoreTo l) \<le> n \<Longrightarrow> n < length h \<Longrightarrow> look loads h l n V \<noteq> None"
  by (simp add: look_def acquire_load_def)

lemma look_Some:
  assumes "look loads h l n V = Some (p, V')" "history_ok h l v" "V (StoreTo l) < length h" "\<forall>e. snd (h ! V (StoreTo l)) e \<le> V e"
  shows "p = fst (h ! V' (StoreTo l))" "V (StoreTo l) \<le> V' (StoreTo l)" "V' (StoreTo l) < length h"
    "\<forall>e. snd (h ! V' (StoreTo l)) e \<le> V' e" "V' = V \<or> V' = join V (snd (h ! V' (StoreTo l)))"
  using assms by (auto simp: look_def acquire_load_def join_def history_ok_def split: if_splits)

lemma joined_view:
  assumes "view_ok s V" "view_ok s W" "V' = V \<or> V' = join V W"
  shows "view_ok s V'" "V e \<le> V' e"
  using assms by (auto simp: view_ok_def join_bound join_ge)

text \<open>What is known already stays known, and no more can be.\<close>

lemma joined_known:
  assumes "view_ok s V'" "\<And>e. V e \<le> V' e"
  shows "V (StoreTo WritePosition) + 1 = length (write_history s) \<Longrightarrow> V' (StoreTo WritePosition) = V (StoreTo WritePosition)"
    "V (StoreTo ReadPosition) + 1 = length (read_history s) \<Longrightarrow> V' (StoreTo ReadPosition) = V (StoreTo ReadPosition)"
    "V (StoreTo (Cell i)) = plain s (StoreTo (Cell i)) \<Longrightarrow> V' (StoreTo (Cell i)) = plain s (StoreTo (Cell i))"
    "V (LoadOf (Cell i)) = plain s (LoadOf (Cell i)) \<Longrightarrow> V' (LoadOf (Cell i)) = plain s (LoadOf (Cell i))"
  using assms(1) assms(2)[of "StoreTo WritePosition"] assms(2)[of "StoreTo ReadPosition"] assms(2)[of "StoreTo (Cell i)"]
    assms(2)[of "LoadOf (Cell i)"] by (auto simp: view_ok_def intro: antisym)

text \<open>A store of the own position brings the view of its side with it.\<close>

lemma writer_announced:
  assumes v: "views_ok s" and a: "announce b (write_history s) WritePosition p (wview s) = (h, V)"
  shows "views_ok (s\<lparr>core := c, write_history := h, wview := V\<rparr>)" "V (StoreTo ReadPosition) = wview s (StoreTo ReadPosition)"
    "n < length (write_history s) \<Longrightarrow> n < length h \<and> h ! n = write_history s ! n"
    "m \<in> set h \<Longrightarrow> m \<in> set (write_history s) \<or> snd m (StoreTo (Cell i)) = plain s (StoreTo (Cell i))"
proof -
  let ?H = "write_history s" and ?s = "s\<lparr>core := c, write_history := h, wview := V\<rparr>"
  have "views_ok ?s \<and> V (StoreTo ReadPosition) = wview s (StoreTo ReadPosition) \<and>
    (\<forall>n < length ?H. n < length h \<and> h ! n = ?H ! n) \<and>
    (\<forall>m \<in> set h. m \<in> set ?H \<or> snd m (StoreTo (Cell i)) = plain s (StoreTo (Cell i)))"
  proof (cases b)
    case True
    then have h: "h = ?H @ [(p, V)]" "V = (wview s)(StoreTo WritePosition := length ?H)"
      using a by (auto simp: announce_def release_store_def Let_def)
    have grow: "view_ok s W \<Longrightarrow> view_ok ?s W" for W by (simp add: view_ok_def h(1))
    have "view_ok s (wview s)" using v by (simp add: views_ok_def)
    then have "view_ok ?s V" by (simp add: view_ok_def h)
    moreover have "view_ok ?s (rview s)" "\<forall>m \<in> set ?H \<union> set (read_history s). view_ok ?s (snd m)"
      using v grow unfolding views_ok_def by blast+
    moreover have "rview s (StoreTo WritePosition) < length ?H" using v by (simp add: views_ok_def view_ok_def)
    moreover have "snd (read_history s ! wview s (StoreTo ReadPosition)) e \<le> V e" for e
    proof (cases "e = StoreTo WritePosition")
      case True
      have "view_ok s (snd (read_history s ! wview s (StoreTo ReadPosition)))"
        using v nth_mem unfolding views_ok_def view_ok_def by blast
      then show ?thesis by (simp add: True h(2) view_ok_def)
    qed (use v in \<open>simp add: h(2) views_ok_def\<close>)
    ultimately show ?thesis using v by (auto simp: views_ok_def h nth_append)
  qed (use a v in \<open>simp add: announce_def views_ok_def view_ok_def\<close>)
  then show "views_ok ?s" "V (StoreTo ReadPosition) = wview s (StoreTo ReadPosition)"
    "n < length ?H \<Longrightarrow> n < length h \<and> h ! n = ?H ! n"
    "m \<in> set h \<Longrightarrow> m \<in> set ?H \<or> snd m (StoreTo (Cell i)) = plain s (StoreTo (Cell i))" by blast+
qed

lemma reader_announced:
  assumes v: "views_ok s" and a: "announce b (read_history s) ReadPosition p (rview s) = (h, V)"
  shows "views_ok (s\<lparr>core := c, read_history := h, rview := V\<rparr>)" "V (StoreTo WritePosition) = rview s (StoreTo WritePosition)"
    "n < length (read_history s) \<Longrightarrow> n < length h \<and> h ! n = read_history s ! n"
    "m \<in> set h \<Longrightarrow> m \<in> set (read_history s) \<or> snd m (LoadOf (Cell i)) = plain s (LoadOf (Cell i))"
proof -
  let ?H = "read_history s" and ?s = "s\<lparr>core := c, read_history := h, rview := V\<rparr>"
  have "views_ok ?s \<and> V (StoreTo WritePosition) = rview s (StoreTo WritePosition) \<and>
    (\<forall>n < length ?H. n < length h \<and> h ! n = ?H ! n) \<and>
    (\<forall>m \<in> set h. m \<in> set ?H \<or> snd m (LoadOf (Cell i)) = plain s (LoadOf (Cell i)))"
  proof (cases b)
    case True
    then have h: "h = ?H @ [(p, V)]" "V = (rview s)(StoreTo ReadPosition := length ?H)"
      using a by (auto simp: announce_def release_store_def Let_def)
    have grow: "view_ok s W \<Longrightarrow> view_ok ?s W" for W by (simp add: view_ok_def h(1))
    have "view_ok s (rview s)" using v by (simp add: views_ok_def)
    then have "view_ok ?s V" by (simp add: view_ok_def h)
    moreover have "view_ok ?s (wview s)" "\<forall>m \<in> set ?H \<union> set (write_history s). view_ok ?s (snd m)"
      using v grow unfolding views_ok_def by blast+
    moreover have "wview s (StoreTo ReadPosition) < length ?H" using v by (simp add: views_ok_def view_ok_def)
    moreover have "snd (write_history s ! rview s (StoreTo WritePosition)) e \<le> V e" for e
    proof (cases "e = StoreTo ReadPosition")
      case True
      have "view_ok s (snd (write_history s ! rview s (StoreTo WritePosition)))"
        using v nth_mem unfolding views_ok_def view_ok_def by blast
      then show ?thesis by (simp add: True h(2) view_ok_def)
    qed (use v in \<open>simp add: h(2) views_ok_def\<close>)
    ultimately show ?thesis using v by (auto simp: views_ok_def h nth_append)
  qed (use a v in \<open>simp add: announce_def views_ok_def view_ok_def\<close>)
  then show "views_ok ?s" "V (StoreTo WritePosition) = rview s (StoreTo WritePosition)"
    "n < length ?H \<Longrightarrow> n < length h \<and> h ! n = ?H ! n"
    "m \<in> set h \<Longrightarrow> m \<in> set ?H \<or> snd m (LoadOf (Cell i)) = plain s (LoadOf (Cell i))" by blast+
qed

lemma announced_history:
  assumes "announce b h l w V = (h', V')" "history_ok h l v" "v \<le> w" "\<not> b \<Longrightarrow> w = v"
  shows "history_ok h' l w"
  using assms history_append[OF assms(2,3), of V] by (auto simp: announce_def release_store_def Let_def split: if_splits)

text \<open>A plain access of a side that knows of all conflicting ones.\<close>

lemma view_ok_more: "view_ok s W \<Longrightarrow> (\<And>e. plain s e \<le> C e) \<Longrightarrow> view_ok (s\<lparr>plain := C, wview := V\<rparr>) W \<and> view_ok (s\<lparr>plain := C, rview := V\<rparr>) W"
  unfolding view_ok_def by (auto intro: le_trans)

lemma writer_plain_views:
  assumes v: "views_ok s" and C: "\<And>e. plain s e \<le> C e" "\<And>i. C (LoadOf (Cell i)) = plain s (LoadOf (Cell i))"
    and V: "\<And>e. wview s e \<le> V e" "V (StoreTo WritePosition) = wview s (StoreTo WritePosition)" "V (StoreTo ReadPosition) = wview s (StoreTo ReadPosition)"
      "\<And>i. V (StoreTo (Cell i)) = C (StoreTo (Cell i)) \<and> V (LoadOf (Cell i)) = wview s (LoadOf (Cell i))"
  shows "views_ok (s\<lparr>plain := C, wview := V\<rparr>)"
proof -
  let ?s = "s\<lparr>plain := C, wview := V\<rparr>"
  have "view_ok ?s V" using v C(2) V(2-4) by (simp add: views_ok_def view_ok_def)
  moreover have "view_ok ?s (rview s)" "\<forall>m \<in> set (write_history s) \<union> set (read_history s). view_ok ?s (snd m)"
    using v view_ok_more[OF _ C(1)] unfolding views_ok_def by blast+
  moreover have "\<forall>e. snd (read_history s ! V (StoreTo ReadPosition)) e \<le> V e"
    using v V(1) unfolding V(3) views_ok_def by (meson le_trans)
  ultimately show ?thesis using v V C(2) by (simp add: views_ok_def)
qed

lemma reader_plain_views:
  assumes v: "views_ok s" and C: "\<And>e. plain s e \<le> C e" "\<And>i. C (StoreTo (Cell i)) = plain s (StoreTo (Cell i))"
    and V: "\<And>e. rview s e \<le> V e" "V (StoreTo WritePosition) = rview s (StoreTo WritePosition)" "V (StoreTo ReadPosition) = rview s (StoreTo ReadPosition)"
      "\<And>i. V (LoadOf (Cell i)) = C (LoadOf (Cell i)) \<and> V (StoreTo (Cell i)) = rview s (StoreTo (Cell i))"
  shows "views_ok (s\<lparr>plain := C, rview := V\<rparr>)"
proof -
  let ?s = "s\<lparr>plain := C, rview := V\<rparr>"
  have "view_ok ?s V" using v C(2) V(2-4) by (simp add: views_ok_def view_ok_def)
  moreover have "view_ok ?s (wview s)" "\<forall>m \<in> set (write_history s) \<union> set (read_history s). view_ok ?s (snd m)"
    using v view_ok_more[OF _ C(1)] unfolding views_ok_def by blast+
  moreover have "\<forall>e. snd (write_history s ! V (StoreTo WritePosition)) e \<le> V e"
    using v V(1) unfolding V(2) views_ok_def by (meson le_trans)
  ultimately show ?thesis using v V C(2) by (simp add: views_ok_def)
qed

section \<open>What a ring program has to promise\<close>

text \<open>
  Each position is stored by one side; a ring in which a side sees an older position of the other is a
  ring with more frames in front of those that the writer counts, or fewer at the end of those that the
  reader counts; and the cells that the sides touch belong to frames that are free for the
  one and live for the other.  \<open>shape\<close> stands for what never changes.
\<close>

locale weak_ring = interleaved_ring P ok content view wok rok wleft rleft
  for P :: "('s, 'w, 'r, 'f, 'g) ring_program"
    and ok :: "'s \<Rightarrow> bool" and content :: "'s \<Rightarrow> 'f list" and view :: "'f \<Rightarrow> 'g"
    and wok :: "'s \<Rightarrow> 'w \<Rightarrow> bool" and rok :: "'s \<Rightarrow> 'r \<Rightarrow> bool"
    and wleft :: "'s \<Rightarrow> 'w \<Rightarrow> nat" and rleft :: "'s \<Rightarrow> 'r \<Rightarrow> nat" +
  fixes Q :: "('s, 'w, 'r) ring_footprint" and shape :: "'s \<Rightarrow> 'x" and room :: "'x \<Rightarrow> nat" and cells :: "'x \<Rightarrow> nat \<Rightarrow> nat set"
  assumes words [simp]:
      "write_word Q (set_write_word Q p a) = p" "read_word Q (set_write_word Q p a) = read_word Q a"
      "read_word Q (set_read_word Q p a) = p" "write_word Q (set_read_word Q p a) = write_word Q a"
      "set_read_word Q (read_word Q a) a = a" "set_write_word Q (write_word Q a) a = a"
      "set_read_word Q p (set_read_word Q q a) = set_read_word Q p a"
      "set_write_word Q p (set_write_word Q q a) = set_write_word Q p a"
      "shape (set_read_word Q p a) = shape a" "shape (set_write_word Q p a) = shape a"
    and swap: "set_write_word Q p (set_read_word Q q a) = set_read_word Q q (set_write_word Q p a)"
    and size: "ok a \<Longrightarrow> read_word Q a \<le> write_word Q a \<and>
      length (content a) = unat (write_word Q a) - unat (read_word Q a) \<and> length (content a) \<le> room (shape a)"
    and forward: "ok a \<Longrightarrow> read_word Q a \<le> p \<Longrightarrow> p \<le> write_word Q a \<Longrightarrow>
      ok (set_read_word Q p a) \<and> content (set_read_word Q p a) = drop (unat p - unat (read_word Q a)) (content a) \<and>
      (wok a pc \<longrightarrow> wok (set_read_word Q p a) pc)"
    and backward: "ok a \<Longrightarrow> read_word Q a \<le> p \<Longrightarrow> p \<le> write_word Q a \<Longrightarrow>
      ok (set_write_word Q p a) \<and> content (set_write_word Q p a) = take (unat p - unat (read_word Q a)) (content a)"
    and later: "ok a \<Longrightarrow> rok a rp \<Longrightarrow> ok a' \<Longrightarrow> shape a' = shape a \<Longrightarrow> read_word Q a' = read_word Q a \<Longrightarrow>
      write_word Q a \<le> write_word Q a' \<Longrightarrow> take (length (content a)) (content a') = content a \<Longrightarrow> rok a' rp"
    and writes: "ok a \<Longrightarrow> wok a pc \<Longrightarrow> access_write P k a pc = Some (a', pc') \<Longrightarrow>
      read_word Q a' = read_word Q a \<and> shape a' = shape a \<and> write_word Q a \<le> write_word Q a' \<and>
      (\<not> writer_publishes Q pc \<longrightarrow> write_word Q a' = write_word Q a)"
    and reads: "ok a \<Longrightarrow> rok a rp \<Longrightarrow> access_read P k a rp = Some (a', rp') \<Longrightarrow>
      write_word Q a' = write_word Q a \<and> shape a' = shape a \<and> read_word Q a \<le> read_word Q a' \<and> read_word Q a' \<le> write_word Q a \<and>
      (\<not> reader_publishes Q rp \<longrightarrow> read_word Q a' = read_word Q a)"
    and unseen: "access_read P k a rp = Some (a', rp') \<Longrightarrow> ok (set_read_word Q p (set_write_word Q q a)) \<Longrightarrow>
      ok (set_read_word Q p (set_write_word Q q a')) \<and>
      content (set_read_word Q p (set_write_word Q q a')) = content (set_read_word Q p (set_write_word Q q a)) \<and>
      (wok (set_read_word Q p (set_write_word Q q a)) pc \<longrightarrow> wok (set_read_word Q p (set_write_word Q q a')) pc)"
    and stored: "ok a \<Longrightarrow> wok a pc \<Longrightarrow> stored_cell Q k a pc = Some i \<Longrightarrow>
      \<exists>f. unat (write_word Q a) \<le> f \<and> f < unat (read_word Q a) + room (shape a) \<and> i \<in> cells (shape a) f"
    and loaded: "ok a \<Longrightarrow> rok a rp \<Longrightarrow> loaded_cell Q k a rp = Some i \<Longrightarrow>
      \<exists>f. unat (read_word Q a) \<le> f \<and> f < unat (write_word Q a) \<and> i \<in> cells (shape a) f"
    and apart: "f < g \<Longrightarrow> g < f + room x \<Longrightarrow> i \<in> cells x f \<Longrightarrow> i \<notin> cells x g"
begin

definition weak_ok :: "('s, 'w, 'r, 'f, 'g) weak_system \<Rightarrow> bool" where
  "weak_ok s \<longleftrightarrow>
     (let a = ring (core s); w = seen_by_writer Q s; r = seen_by_reader Q s in
      history_ok (write_history s) WritePosition (write_word Q a) \<and> history_ok (read_history s) ReadPosition (read_word Q a) \<and>
      views_ok s \<and> ok w \<and> wok w (wpc (core s)) \<and> rok r (rpc (core s)) \<and> read_word Q a \<le> write_word Q r \<and>
      loads_since_ok (cells (shape a)) (unat (write_word Q r)) s \<and>
      stores_since_ok (cells (shape a)) (unat (read_word Q w) + room (shape a)) s \<and>
      account_ok content view (core s))"

lemma seen_words [simp]:
  "write_word Q (seen_by_writer Q s) = write_word Q (ring (core s))" "read_word Q (seen_by_reader Q s) = read_word Q (ring (core s))"
  "read_word Q (seen_by_writer Q s) = fst (read_history s ! wview s (StoreTo ReadPosition))"
  "write_word Q (seen_by_reader Q s) = fst (write_history s ! rview s (StoreTo WritePosition))"
  "shape (seen_by_writer Q s) = shape (ring (core s))" "shape (seen_by_reader Q s) = shape (ring (core s))"
  by (simp_all add: seen_by_writer_def seen_by_reader_def)

lemma weak_okD:
  assumes "weak_ok s"
  shows "history_ok (write_history s) WritePosition (write_word Q (ring (core s)))"
    "history_ok (read_history s) ReadPosition (read_word Q (ring (core s)))" "views_ok s"
    "ok (seen_by_writer Q s)" "wok (seen_by_writer Q s) (wpc (core s))" "rok (seen_by_reader Q s) (rpc (core s))"
    "read_word Q (ring (core s)) \<le> write_word Q (seen_by_reader Q s)"
    "loads_since_ok (cells (shape (ring (core s)))) (unat (write_word Q (seen_by_reader Q s))) s"
    "stores_since_ok (cells (shape (ring (core s)))) (unat (read_word Q (seen_by_writer Q s)) + room (shape (ring (core s)))) s"
    "account_ok content view (core s)"
  using assms unfolding weak_ok_def Let_def by blast+

lemma seen_bounds:
  assumes "weak_ok s"
  shows "read_word Q (seen_by_writer Q s) \<le> read_word Q (ring (core s))" "read_word Q (ring (core s)) \<le> write_word Q (ring (core s))"
    "write_word Q (seen_by_reader Q s) \<le> write_word Q (ring (core s))"
proof -
  note d = weak_okD[OF assms]
  show "read_word Q (seen_by_writer Q s) \<le> read_word Q (ring (core s))"
    using history_last[OF d(2)] d(3) by (simp add: views_ok_def view_ok_def)
  show w: "write_word Q (seen_by_reader Q s) \<le> write_word Q (ring (core s))"
    using history_last[OF d(1)] d(3) by (simp add: views_ok_def view_ok_def)
  show "read_word Q (ring (core s)) \<le> write_word Q (ring (core s))" using d(7) w by (rule order_trans)
qed

text \<open>The newest ring, and what the sides see of it.\<close>

lemma newest_ok:
  assumes "weak_ok s"
  shows "ok (ring (core s))" "content (ring (core s)) =
      drop (unat (read_word Q (ring (core s))) - unat (read_word Q (seen_by_writer Q s))) (content (seen_by_writer Q s))"
    "ok (seen_by_reader Q s)" "content (seen_by_reader Q s) =
      take (unat (write_word Q (seen_by_reader Q s)) - unat (read_word Q (ring (core s)))) (content (ring (core s)))"
proof -
  let ?a = "ring (core s)"
  note d = weak_okD[OF assms] and b = seen_bounds[OF assms]
  have "set_read_word Q (read_word Q ?a) (seen_by_writer Q s) = ?a" by (simp add: seen_by_writer_def)
  with forward[OF d(4) b(1), of "wpc (core s)"] b(2) show a: "ok ?a"
    "content ?a = drop (unat (read_word Q ?a) - unat (read_word Q (seen_by_writer Q s))) (content (seen_by_writer Q s))" by simp_all
  from backward[OF a(1) d(7) b(3)] show "ok (seen_by_reader Q s)"
    "content (seen_by_reader Q s) = take (unat (write_word Q (seen_by_reader Q s)) - unat (read_word Q ?a)) (content ?a)"
    by (simp_all add: seen_by_reader_def)
qed

text \<open>A load of the position of the other side.\<close>

lemma writer_looked:
  assumes ok: "weak_ok s" and l: "look loads (read_history s) ReadPosition n (wview s) = Some (p, V)"
  shows "weak_ok (s\<lparr>wview := V\<rparr>)" "seen_by_writer Q (s\<lparr>wview := V\<rparr>) = set_read_word Q p (ring (core s))"
proof -
  let ?s = "s\<lparr>wview := V\<rparr>"
  note d = weak_okD[OF ok]
  have v: "wview s (StoreTo ReadPosition) < length (read_history s)" "\<forall>e. snd (read_history s ! wview s (StoreTo ReadPosition)) e \<le> wview s e"
    using d(3) by (simp_all add: views_ok_def view_ok_def)
  note p = look_Some[OF l d(2) v]
  show seen: "seen_by_writer Q ?s = set_read_word Q p (ring (core s))" by (simp add: seen_by_writer_def p(1))
  have "view_ok s (wview s)" "view_ok s (snd (read_history s ! V (StoreTo ReadPosition)))"
    using d(3) p(3) nth_mem by (auto simp: views_ok_def)
  note V = joined_view[OF this p(5)]
  have "views_ok ?s" using d(3) p(4) V(1) joined_known[OF V] by (simp add: views_ok_def view_ok_def)
  moreover have b: "read_word Q (seen_by_writer Q s) \<le> p" "p \<le> read_word Q (ring (core s))"
    using history_nth[OF d(2) p(2,3)] history_last[OF d(2) p(3)] p(1) by simp_all
  moreover have "p \<le> write_word Q (ring (core s))" using b(2) seen_bounds(2)[OF ok] by (rule order_trans)
  with forward[OF d(4) b(1), of "wpc (core s)"] d(5) have "ok (seen_by_writer Q ?s)" "wok (seen_by_writer Q ?s) (wpc (core s))"
    unfolding seen by (simp_all add: seen_by_writer_def)
  moreover have "stores_since_ok (cells (shape (ring (core s)))) (unat p + room (shape (ring (core s)))) ?s"
    using d(9) b(1) unfolding stores_since_ok_def word_le_nat_alt by (fastforce intro: less_le_trans)
  ultimately show "weak_ok ?s"
    using d(1,2,6-8,10) unfolding weak_ok_def Let_def seen_words by (simp add: p(1) seen_by_reader_def loads_since_ok_def)
qed

lemma reader_looked:
  assumes ok: "weak_ok s" and l: "look loads (write_history s) WritePosition n (rview s) = Some (p, V)"
  shows "weak_ok (s\<lparr>rview := V\<rparr>)" "seen_by_reader Q (s\<lparr>rview := V\<rparr>) = set_write_word Q p (ring (core s))"
proof -
  let ?s = "s\<lparr>rview := V\<rparr>" and ?a = "ring (core s)" and ?r = "seen_by_reader Q s"
  note d = weak_okD[OF ok]
  have v: "rview s (StoreTo WritePosition) < length (write_history s)" "\<forall>e. snd (write_history s ! rview s (StoreTo WritePosition)) e \<le> rview s e"
    using d(3) by (simp_all add: views_ok_def view_ok_def)
  note p = look_Some[OF l d(1) v]
  show seen: "seen_by_reader Q ?s = set_write_word Q p ?a" by (simp add: seen_by_reader_def p(1))
  have "view_ok s (rview s)" "view_ok s (snd (write_history s ! V (StoreTo WritePosition)))"
    using d(3) p(3) nth_mem by (auto simp: views_ok_def)
  note V = joined_view[OF this p(5)]
  have "views_ok ?s" using d(3) p(4) V(1) joined_known[OF V] by (simp add: views_ok_def view_ok_def)
  moreover have b: "write_word Q ?r \<le> p" "p \<le> write_word Q ?a"
    using history_nth[OF d(1) p(2,3)] history_last[OF d(1) p(3)] p(1) by simp_all
  moreover have rp: "read_word Q ?a \<le> p" using d(7) b(1) by (rule order_trans)
  moreover have "rok (seen_by_reader Q ?s) (rpc (core s))"
  proof (rule later[OF newest_ok(3)[OF ok] d(6)])
    show "ok (seen_by_reader Q ?s)" "take (length (content ?r)) (content (seen_by_reader Q ?s)) = content ?r"
      using backward[OF newest_ok(1)[OF ok] rp b(2)] newest_ok(4)[OF ok] b(1) unfolding seen word_le_nat_alt
      by (auto simp: min_def)
  qed (use b(1) in \<open>simp_all add: p(1)\<close>)
  moreover have "loads_since_ok (cells (shape ?a)) (unat p) ?s"
    using d(8) b(1) unfolding loads_since_ok_def word_le_nat_alt by (fastforce intro: less_le_trans)
  ultimately show "weak_ok ?s"
    using d(1,2,4,5,9,10) unfolding weak_ok_def Let_def seen_words by (simp add: p(1) seen_by_writer_def stores_since_ok_def)
qed

text \<open>A plain access: the other side's conflicting accesses happen before it.\<close>

lemma store_not_racing:
  assumes ok: "weak_ok s" and c: "stored_cell Q k (seen_by_writer Q s) (wpc (core s)) = Some i"
  shows "wview s (LoadOf (Cell i)) = plain s (LoadOf (Cell i))"
proof (rule ccontr)
  let ?a = "ring (core s)" and ?m = "read_history s ! wview s (StoreTo ReadPosition)"
  note d = weak_okD[OF ok]
  assume "\<not> ?thesis"
  moreover have v: "wview s (LoadOf (Cell i)) \<le> plain s (LoadOf (Cell i))" "snd ?m (LoadOf (Cell i)) \<le> wview s (LoadOf (Cell i))"
    "?m \<in> set (read_history s)" using d(3) by (auto simp: views_ok_def view_ok_def)
  ultimately have "snd ?m (LoadOf (Cell i)) < plain s (LoadOf (Cell i))" by linarith
  then obtain f where f: "unat (fst ?m) \<le> f" "f < unat (write_word Q (seen_by_reader Q s))" "i \<in> cells (shape ?a) f"
    using d(8) v(3) unfolding loads_since_ok_def by blast
  obtain g where g: "unat (write_word Q ?a) \<le> g" "g < unat (fst ?m) + room (shape ?a)" "i \<in> cells (shape ?a) g"
    using stored[OF d(4,5) c] by auto
  have "f < g" "g < f + room (shape ?a)" using f(1,2) g(1,2) seen_bounds(3)[OF ok] unfolding word_le_nat_alt by linarith+
  from apart[OF this f(3)] g(3) show False by blast
qed

lemma load_not_racing:
  assumes ok: "weak_ok s" and c: "loaded_cell Q k (seen_by_reader Q s) (rpc (core s)) = Some i"
  shows "rview s (StoreTo (Cell i)) = plain s (StoreTo (Cell i))"
proof (rule ccontr)
  let ?a = "ring (core s)" and ?m = "write_history s ! rview s (StoreTo WritePosition)"
  note d = weak_okD[OF ok]
  assume "\<not> ?thesis"
  moreover have v: "rview s (StoreTo (Cell i)) \<le> plain s (StoreTo (Cell i))" "snd ?m (StoreTo (Cell i)) \<le> rview s (StoreTo (Cell i))"
    "?m \<in> set (write_history s)" using d(3) by (auto simp: views_ok_def view_ok_def)
  ultimately have "snd ?m (StoreTo (Cell i)) < plain s (StoreTo (Cell i))" by linarith
  then obtain g where g: "unat (fst ?m) \<le> g" "g < unat (read_word Q (seen_by_writer Q s)) + room (shape ?a)" "i \<in> cells (shape ?a) g"
    using d(9) v(3) unfolding stores_since_ok_def by blast
  obtain f where f: "unat (read_word Q ?a) \<le> f" "f < unat (fst ?m)" "i \<in> cells (shape ?a) f"
    using loaded[OF newest_ok(3)[OF ok] d(6) c] by auto
  have "f < g" "g < f + room (shape ?a)" using f(1,2) g(1,2) seen_bounds(1)[OF ok] unfolding word_le_nat_alt by linarith+
  from apart[OF this f(3)] g(3) show False by blast
qed

lemma writer_touched:
  assumes ok: "weak_ok s" and c: "cell = stored_cell Q k (seen_by_writer Q s) (wpc (core s))"
  obtains C V where "touch plain_store cell (plain s) (wview s) = Some (C, V)" "weak_ok (s\<lparr>plain := C, wview := V\<rparr>)"
    "seen_by_writer Q (s\<lparr>plain := C, wview := V\<rparr>) = seen_by_writer Q s"
proof (cases cell)
  case None
  with ok show ?thesis by (intro that[of "plain s" "wview s"]) (simp_all add: touch_def)
next
  case (Some i)
  let ?C = "(plain s)(StoreTo (Cell i) := plain s (StoreTo (Cell i)) + 1)"
  let ?V = "(wview s)(StoreTo (Cell i) := wview s (StoreTo (Cell i)) + 1)"
  let ?s = "s\<lparr>plain := ?C, wview := ?V\<rparr>" and ?a = "ring (core s)"
  note d = weak_okD[OF ok]
  have v: "wview s (StoreTo (Cell i)) = plain s (StoreTo (Cell i))" using d(3) by (simp add: views_ok_def)
  have "wview s (LoadOf (Cell i)) = plain s (LoadOf (Cell i))" using store_not_racing[OF ok, of k i] c Some by simp
  with v have t: "touch plain_store cell (plain s) (wview s) = Some (?C, ?V)" by (simp add: Some touch_def plain_store_def)
  have seen: "seen_by_writer Q ?s = seen_by_writer Q s" "seen_by_reader Q ?s = seen_by_reader Q s"
    by (simp_all add: seen_by_writer_def seen_by_reader_def)
  obtain g where g: "unat (write_word Q ?a) \<le> g" "g < unat (read_word Q (seen_by_writer Q s)) + room (shape ?a)" "i \<in> cells (shape ?a) g"
    using stored[OF d(4,5), of k i] c Some by auto
  have "unat (fst m) \<le> g" if "m \<in> set (write_history s)" for m
    using history_member[OF d(1) that] g(1) by (rule le_trans)
  then have "stores_since_ok (cells (shape ?a)) (unat (read_word Q (seen_by_writer Q s)) + room (shape ?a)) ?s"
    using d(9) g(2,3) unfolding stores_since_ok_def by auto
  moreover have "views_ok ?s" by (rule writer_plain_views[OF d(3)]) (use d(3) in \<open>simp_all add: views_ok_def\<close>)
  ultimately have "weak_ok ?s"
    using d(1,2,4-8,10) unfolding weak_ok_def Let_def seen by (simp add: loads_since_ok_def)
  from that[OF t this seen(1)] show ?thesis .
qed

lemma reader_touched:
  assumes ok: "weak_ok s" and c: "cell = loaded_cell Q k (seen_by_reader Q s) (rpc (core s))"
  obtains C V where "touch plain_load cell (plain s) (rview s) = Some (C, V)" "weak_ok (s\<lparr>plain := C, rview := V\<rparr>)"
    "seen_by_reader Q (s\<lparr>plain := C, rview := V\<rparr>) = seen_by_reader Q s"
proof (cases cell)
  case None
  with ok show ?thesis by (intro that[of "plain s" "rview s"]) (simp_all add: touch_def)
next
  case (Some i)
  let ?C = "(plain s)(LoadOf (Cell i) := plain s (LoadOf (Cell i)) + 1)"
  let ?V = "(rview s)(LoadOf (Cell i) := rview s (LoadOf (Cell i)) + 1)"
  let ?s = "s\<lparr>plain := ?C, rview := ?V\<rparr>" and ?a = "ring (core s)"
  note d = weak_okD[OF ok]
  have v: "rview s (LoadOf (Cell i)) = plain s (LoadOf (Cell i))" using d(3) by (simp add: views_ok_def)
  have "rview s (StoreTo (Cell i)) = plain s (StoreTo (Cell i))" using load_not_racing[OF ok, of k i] c Some by simp
  then have t: "touch plain_load cell (plain s) (rview s) = Some (?C, ?V)" by (simp add: Some touch_def plain_load_def)
  have seen: "seen_by_writer Q ?s = seen_by_writer Q s" "seen_by_reader Q ?s = seen_by_reader Q s"
    by (simp_all add: seen_by_writer_def seen_by_reader_def)
  obtain f where f: "unat (read_word Q ?a) \<le> f" "f < unat (write_word Q (seen_by_reader Q s))" "i \<in> cells (shape ?a) f"
    using loaded[OF newest_ok(3)[OF ok] d(6), of k i] c Some by auto
  have "unat (fst m) \<le> f" if "m \<in> set (read_history s)" for m
    using history_member[OF d(2) that] f(1) by (rule le_trans)
  then have "loads_since_ok (cells (shape ?a)) (unat (write_word Q (seen_by_reader Q s))) ?s"
    using d(8) f(2,3) unfolding loads_since_ok_def by auto
  moreover have "views_ok ?s" by (rule reader_plain_views[OF d(3)]) (use d(3) in \<open>simp_all add: views_ok_def\<close>)
  ultimately have "weak_ok ?s"
    using d(1,2,4-7,9,10) unfolding weak_ok_def Let_def seen by (simp add: stores_since_ok_def)
  from that[OF t this seen(2)] show ?thesis .
qed

text \<open>The access itself, and the store of the own position.\<close>

lemma writer_accessed:
  assumes ok: "weak_ok s"
  obtains a pc' h V where "access_write P k (seen_by_writer Q s) (wpc (core s)) = Some (a, pc')"
    "announce (writer_publishes Q (wpc (core s))) (write_history s) WritePosition (write_word Q a) (wview s) = (h, V)"
    "weak_ok (s\<lparr>core := (core s)\<lparr>ring := set_read_word Q (read_word Q (ring (core s))) a, wpc := pc',
        published_frames := published_frames (core s) @ frames_in P (seen_by_writer Q s) (wpc (core s))\<rparr>,
      write_history := h, wview := V\<rparr>)"
proof -
  let ?w = "seen_by_writer Q s" and ?r = "seen_by_reader Q s" and ?a = "ring (core s)" and ?pc = "wpc (core s)"
  note d = weak_okD[OF ok] and n = newest_ok[OF ok] and b = seen_bounds[OF ok]
  obtain a pc' where acc: "access_write P k ?w ?pc = Some (a, pc')" "ok a" "wok a pc'" "content a = content ?w @ frames_in P ?w ?pc"
    using write_law[OF d(4,5) idle(2)[OF d(4)], of k] by blast
  have wr: "read_word Q a = read_word Q ?w" "shape a = shape ?a" "write_word Q ?a \<le> write_word Q a"
    "\<not> writer_publishes Q ?pc \<Longrightarrow> write_word Q a = write_word Q ?a"
    using writes[OF d(4,5) acc(1)] by simp_all
  obtain h V where ann: "announce (writer_publishes Q ?pc) (write_history s) WritePosition (write_word Q a) (wview s) = (h, V)"
    by fastforce
  let ?n = "set_read_word Q (read_word Q ?a) a"
  let ?s = "s\<lparr>core := (core s)\<lparr>ring := ?n, wpc := pc', published_frames := published_frames (core s) @ frames_in P ?w ?pc\<rparr>,
    write_history := h, wview := V\<rparr>"
  have ra: "read_word Q a \<le> read_word Q ?a" "read_word Q ?a \<le> write_word Q a"
    using b(1) wr(1) order_trans[OF b(2) wr(3)] by simp_all
  have new: "ok ?n" "content ?n = content ?a @ frames_in P ?w ?pc"
  proof -
    have "unat (read_word Q ?a) - unat (read_word Q ?w) \<le> length (content ?w)"
      using size[OF d(4)] b(2) unfolding word_le_nat_alt by simp
    with forward[OF acc(2) ra, of pc'] show "ok ?n" "content ?n = content ?a @ frames_in P ?w ?pc"
      unfolding n(2) by (simp_all add: acc(4) wr(1))
  qed
  note an = writer_announced[OF d(3) ann]
  have hist: "history_ok h WritePosition (write_word Q ?n)" using announced_history[OF ann d(1) wr(3)] wr(4) by simp
  have "rview s (StoreTo WritePosition) < length (write_history s)" using d(3) by (simp add: views_ok_def view_ok_def)
  note old = an(3)[OF this]
  have seen: "seen_by_writer Q ?s = a" "seen_by_reader Q ?s = set_write_word Q (write_word Q ?r) ?n"
    using an(2) old wr(1) words(5)[of a] by (simp_all add: seen_by_writer_def seen_by_reader_def)
  have "rok (seen_by_reader Q ?s) (rpc (core s))"
  proof (rule later[OF n(3) d(6)])
    have "write_word Q ?r \<le> write_word Q ?n" using order_trans[OF b(3) wr(3)] by simp
    from backward[OF new(1) _ this] d(7) show "ok (seen_by_reader Q ?s)" "take (length (content ?r)) (content (seen_by_reader Q ?s)) = content ?r"
      using size[OF n(1)] b(3) unfolding seen(2) n(4) new(2) word_le_nat_alt by (simp_all add: min_def)
  qed (simp_all add: seen(2) wr(2))
  moreover have "loads_since_ok (cells (shape ?a)) (unat (write_word Q ?r)) ?s" using d(8) by (simp add: loads_since_ok_def)
  moreover have "stores_since_ok (cells (shape ?a)) (unat (read_word Q ?w) + room (shape ?a)) ?s"
    using d(9) an(4) unfolding stores_since_ok_def by fastforce
  moreover have "account_ok content view (core ?s)" using account_write[OF d(10) new(2)] by simp
  ultimately have "weak_ok ?s"
    using d(2,7) hist an(1) acc(2,3) unfolding weak_ok_def Let_def seen by (simp add: wr(1,2))
  with acc(1) ann show ?thesis by (rule that)
qed

lemma reader_accessed:
  assumes ok: "weak_ok s"
  obtains a pc' h V where "access_read P k (seen_by_reader Q s) (rpc (core s)) = Some (a, pc')"
    "announce (reader_publishes Q (rpc (core s))) (read_history s) ReadPosition (read_word Q a) (rview s) = (h, V)"
    "weak_ok (s\<lparr>core := (core s)\<lparr>ring := set_write_word Q (write_word Q (ring (core s))) a, rpc := pc',
        consumed := consumed (core s) @ frames_out P (seen_by_reader Q s) (rpc (core s))\<rparr>,
      read_history := h, rview := V\<rparr>)"
proof -
  let ?w = "seen_by_writer Q s" and ?r = "seen_by_reader Q s" and ?a = "ring (core s)" and ?pc = "rpc (core s)"
  let ?gone = "frames_out P ?r ?pc"
  note d = weak_okD[OF ok] and n = newest_ok[OF ok] and b = seen_bounds[OF ok]
  obtain a pc' where acc: "access_read P k ?r ?pc = Some (a, pc')" "ok a" "rok a pc'"
    "passed_ok view (content ?r) ?gone" "content a = drop (length ?gone) (content ?r)"
    using read_law[OF n(3) idle(1)[OF n(3)] d(6), of k] by blast
  have rd: "write_word Q a = write_word Q ?r" "shape a = shape ?a" "read_word Q ?a \<le> read_word Q a" "read_word Q a \<le> write_word Q ?r"
    "\<not> reader_publishes Q ?pc \<Longrightarrow> read_word Q a = read_word Q ?a"
    using reads[OF n(3) d(6) acc(1)] by simp_all
  obtain h V where ann: "announce (reader_publishes Q ?pc) (read_history s) ReadPosition (read_word Q a) (rview s) = (h, V)" by fastforce
  let ?n = "set_write_word Q (write_word Q ?a) a"
  let ?s = "s\<lparr>core := (core s)\<lparr>ring := ?n, rpc := pc', consumed := consumed (core s) @ ?gone\<rparr>, read_history := h, rview := V\<rparr>"
  note an = reader_announced[OF d(3) ann]
  have hist: "history_ok h ReadPosition (read_word Q ?n)" using announced_history[OF ann d(2) rd(3)] rd(5) by simp
  have "wview s (StoreTo ReadPosition) < length (read_history s)" using d(3) by (simp add: views_ok_def view_ok_def)
  note old = an(3)[OF this]
  have seen: "seen_by_reader Q ?s = a" "seen_by_writer Q ?s = set_read_word Q (read_word Q ?w) ?n"
    using an(2) old rd(1) words(6)[of a] by (simp_all add: seen_by_writer_def seen_by_reader_def)
  have w: "set_read_word Q (read_word Q ?w) (set_write_word Q (write_word Q ?a) ?r) = ?w"
    by (simp add: seen_by_writer_def seen_by_reader_def)
  from unseen[OF acc(1), of "read_word Q ?w" "write_word Q ?a" "wpc (core s)", unfolded w] d(4,5)
  have writer: "ok (seen_by_writer Q ?s)" "wok (seen_by_writer Q ?s) (wpc (core s))" "content (seen_by_writer Q ?s) = content ?w"
    unfolding seen(2) by simp_all
  have ra: "read_word Q ?w \<le> read_word Q a" "read_word Q a \<le> write_word Q ?a"
    using order_trans[OF b(1) rd(3)] order_trans[OF rd(4) b(3)] by simp_all
  have gone: "length ?gone = unat (read_word Q a) - unat (read_word Q ?a)"
  proof -
    have "length (content ?r) - length ?gone = unat (write_word Q ?r) - unat (read_word Q a)"
      using size[OF acc(2)] unfolding acc(5) rd(1) by simp
    moreover have "length (content ?r) = unat (write_word Q ?r) - unat (read_word Q ?a)" using size[OF n(3)] by simp
    moreover have "length ?gone \<le> length (content ?r)" using acc(4) by (simp add: passed_ok_def)
    ultimately show ?thesis using rd(3,4) unfolding word_le_nat_alt by linarith
  qed
  have "content ?n = drop (unat (read_word Q a) - unat (read_word Q ?w)) (content ?w)"
    using forward[OF writer(1), of "read_word Q a"] ra writer(3) words(5)[of ?n] unfolding seen(2) by simp
  then have new: "content ?n = drop (length ?gone) (content ?a)"
    using b(1) rd(3) unfolding n(2) gone word_le_nat_alt by simp
  have "passed_ok view (content ?a) ?gone" using acc(4) unfolding n(4) passed_ok_def by auto
  from account_read[OF d(10) this new] have "account_ok content view (core ?s)" by simp
  moreover have "loads_since_ok (cells (shape ?a)) (unat (write_word Q ?r)) ?s"
    using d(8) an(4) unfolding loads_since_ok_def by fastforce
  moreover have "stores_since_ok (cells (shape ?a)) (unat (read_word Q ?w) + room (shape ?a)) ?s" using d(9) by (simp add: stores_since_ok_def)
  moreover have "read_word Q (seen_by_writer Q ?s) = read_word Q ?w" by (simp only: seen(2) words)
  ultimately have "weak_ok ?s"
    using d(1) hist an(1) acc(2,3) writer(1,2) rd(1,2,4) unfolding weak_ok_def Let_def seen(1) by simp
  with acc(1) ann show ?thesis by (rule that)
qed

section \<open>Every run\<close>

lemma weak_write_ok:
  assumes "weak_ok s"
  shows "writer_may_take s n \<Longrightarrow> weak_write P Q k n s \<noteq> None" "weak_write P Q k n s = Some s' \<Longrightarrow> weak_ok s'"
proof -
  let ?pc = "wpc (core s)"
  have step: "\<exists>s'. weak_write P Q k n s = Some s' \<and> weak_ok s'"
    if l: "look (writer_looks Q ?pc) (read_history s) ReadPosition n (wview s) = Some (p, V)" for p V
  proof -
    note lo = writer_looked[OF assms l]
    obtain C V1 where t: "touch plain_store (stored_cell Q k (set_read_word Q p (ring (core s))) ?pc) (plain s) V = Some (C, V1)"
      "weak_ok (s\<lparr>plain := C, wview := V1\<rparr>)" "seen_by_writer Q (s\<lparr>plain := C, wview := V1\<rparr>) = set_read_word Q p (ring (core s))"
      using writer_touched[OF lo(1) refl, of k] lo(2) by auto
    show ?thesis
      by (rule writer_accessed[OF t(2), of k, unfolded t(3)]) (use l t(1) in \<open>simp add: weak_write_def Let_def\<close>)
  qed
  show "writer_may_take s n \<Longrightarrow> weak_write P Q k n s \<noteq> None"
    using look_defined[of "wview s" ReadPosition n "read_history s"] step unfolding writer_may_take_def by fastforce
  show "weak_write P Q k n s = Some s' \<Longrightarrow> weak_ok s'"
    using step by (cases "look (writer_looks Q ?pc) (read_history s) ReadPosition n (wview s)") (auto simp: weak_write_def Let_def)
qed

lemma weak_read_ok:
  assumes "weak_ok s"
  shows "reader_may_take s n \<Longrightarrow> weak_read P Q k n s \<noteq> None" "weak_read P Q k n s = Some s' \<Longrightarrow> weak_ok s'"
proof -
  let ?pc = "rpc (core s)"
  have step: "\<exists>s'. weak_read P Q k n s = Some s' \<and> weak_ok s'"
    if l: "look (reader_looks Q ?pc) (write_history s) WritePosition n (rview s) = Some (p, V)" for p V
  proof -
    note lo = reader_looked[OF assms l]
    obtain C V1 where t: "touch plain_load (loaded_cell Q k (set_write_word Q p (ring (core s))) ?pc) (plain s) V = Some (C, V1)"
      "weak_ok (s\<lparr>plain := C, rview := V1\<rparr>)" "seen_by_reader Q (s\<lparr>plain := C, rview := V1\<rparr>) = set_write_word Q p (ring (core s))"
      using reader_touched[OF lo(1) refl, of k] lo(2) by auto
    show ?thesis
      by (rule reader_accessed[OF t(2), of k, unfolded t(3)]) (use l t(1) in \<open>simp add: weak_read_def Let_def\<close>)
  qed
  show "reader_may_take s n \<Longrightarrow> weak_read P Q k n s \<noteq> None"
    using look_defined[of "rview s" WritePosition n "write_history s"] step unfolding reader_may_take_def by fastforce
  show "weak_read P Q k n s = Some s' \<Longrightarrow> weak_ok s'"
    using step by (cases "look (reader_looks Q ?pc) (write_history s) WritePosition n (rview s)") (auto simp: weak_read_def Let_def)
qed

lemma weak_start_ok:
  assumes "ok a" shows "weak_ok (weak_start P Q a (content a))"
proof -
  let ?s = "weak_start P Q a (content a)"
  have sel [simp]: "core ?s = ring_start P a (content a)" "write_history ?s = first_store (write_word Q a)"
    "read_history ?s = first_store (read_word Q a)" "plain ?s = no_events" "wview ?s = no_events" "rview ?s = no_events"
    by (simp_all add: weak_start_def)
  have "views_ok ?s" by (simp add: views_ok_def view_ok_def first_store_def no_events_def)
  moreover have "seen_by_writer Q ?s = a" "seen_by_reader Q ?s = a"
    by (simp_all add: seen_by_writer_def seen_by_reader_def first_store_def no_events_def ring_start_def)
  ultimately show ?thesis
    using idle[OF assms] size[OF assms] assms unfolding weak_ok_def Let_def
    by (simp add: history_ok_def first_store_def no_events_def loads_since_ok_def stores_since_ok_def ring_start_def account_ok_def)
qed

lemma weak_begin:
  assumes ok: "weak_ok s" and c: "ring c = ring (core s)" "published_frames c = published_frames (core s)" "consumed c = consumed (core s)"
    and pc: "wok (seen_by_writer Q s) (wpc c)" "rok (seen_by_reader Q s) (rpc c)"
  shows "weak_ok (s\<lparr>core := c\<rparr>)"
proof -
  have "seen_by_writer Q (s\<lparr>core := c\<rparr>) = seen_by_writer Q s" "seen_by_reader Q (s\<lparr>core := c\<rparr>) = seen_by_reader Q s"
    by (simp_all add: seen_by_writer_def seen_by_reader_def c(1))
  moreover have "views_ok (s\<lparr>core := c\<rparr>) = views_ok s" by (simp add: views_ok_def view_ok_def)
  ultimately show ?thesis
    using weak_okD[OF ok] c pc unfolding weak_ok_def Let_def
    by (simp add: loads_since_ok_def stores_since_ok_def account_ok_def)
qed

lemma weak_move_ok:
  assumes ok: "weak_ok s" and m: "weak_move P Q m s = Some s'"
  shows "weak_ok s'"
proof -
  note d = weak_okD[OF ok] and n = newest_ok[OF ok]
  obtain mv k where mk: "m = (mv, k)" by fastforce
  show ?thesis
  proof (cases mv)
    case (BeginWrite pc)
    with m mk have s': "write_begins P (seen_by_writer Q s) pc" "s' = s\<lparr>core := (core s)\<lparr>wpc := pc\<rparr>\<rparr>" by (auto split: if_splits)
    show ?thesis unfolding s'(2) by (rule weak_begin[OF ok]) (use begins(1)[OF d(4) s'(1)] d(6) in simp_all)
  next
    case (WriterAccess j)
    with m mk weak_write_ok(2)[OF ok] show ?thesis by simp
  next
    case EndWrite
    with m mk have s': "s' = s\<lparr>core := (core s)\<lparr>wpc := idle_writer P\<rparr>\<rparr>" by (auto split: if_splits)
    show ?thesis unfolding s' by (rule weak_begin[OF ok]) (use idle(1)[OF d(4)] d(6) in simp_all)
  next
    case (BeginRead pc)
    with m mk have s': "read_begins P (seen_by_reader Q s) pc" "s' = s\<lparr>core := (core s)\<lparr>rpc := pc\<rparr>\<rparr>" by (auto split: if_splits)
    show ?thesis unfolding s'(2) by (rule weak_begin[OF ok]) (use begins(2)[OF n(3) s'(1)] d(5) in simp_all)
  next
    case (ReaderAccess j)
    with m mk weak_read_ok(2)[OF ok] show ?thesis by simp
  next
    case EndRead
    with m mk have s': "s' = s\<lparr>core := (core s)\<lparr>rpc := idle_reader P\<rparr>\<rparr>" by (auto split: if_splits)
    show ?thesis unfolding s' by (rule weak_begin[OF ok]) (use idle(2)[OF n(3)] d(5) in simp_all)
  qed
qed

lemma weak_run_ok: "weak_run P Q ms s = Some s' \<Longrightarrow> weak_ok s \<Longrightarrow> weak_ok s'"
  by (induction ms arbitrary: s) (auto split: bind_splits dest: weak_move_ok)

text \<open>No access is undefined, whatever it finds; and nothing is lost, torn, repeated or reordered.\<close>

lemma weak_never_undefined:
  assumes "weak_run P Q ms (weak_start P Q a (content a)) = Some s" "ok a"
  shows "writer_may_take s n \<Longrightarrow> weak_write P Q k n s \<noteq> None" "reader_may_take s n \<Longrightarrow> weak_read P Q k n s \<noteq> None"
  using weak_run_ok[OF assms(1) weak_start_ok[OF assms(2)]] weak_write_ok(1) weak_read_ok(1) by blast+

lemma weak_conservation:
  assumes "weak_run P Q ms (weak_start P Q a (content a)) = Some s" "ok a"
  defines "c \<equiv> core s"
  shows "ok (ring c) \<and> length (consumed c) + length (content (ring c)) = length (published_frames c) \<and>
    content (ring c) = drop (length (consumed c)) (published_frames c) \<and>
    (\<forall>i < length (consumed c). consumed c ! i = None \<or> consumed c ! i = Some (view (published_frames c ! i)))"
proof -
  have ok: "weak_ok s" using weak_run_ok[OF assms(1) weak_start_ok[OF assms(2)]] .
  show ?thesis using weak_okD(10)[OF ok] newest_ok(1)[OF ok] by (auto simp: account_ok_def c_def)
qed

lemma weak_may_take:
  assumes "weak_run P Q ms (weak_start P Q a (content a)) = Some s" "ok a"
  shows "\<exists>n. writer_may_take s n" "\<exists>n. reader_may_take s n"
  using weak_okD(3)[OF weak_run_ok[OF assms(1) weak_start_ok[OF assms(2)]]]
  by (auto simp: writer_may_take_def reader_may_take_def views_ok_def view_ok_def)

end

end
