(* ===== verification/SharedWeak.thy ===== *)
theory SharedWeak
  imports SharedConcurrent WeakRing
begin

text \<open>
  The shared ring on the memory that its accesses ask for: the positions are loaded with acquire and
  stored with release order (\<open>load_pos\<close> and \<open>store_pos\<close> of \<open>src/shared_audio.c\<close>), the samples
  are plain memory that \<open>memcpy\<close> and a loop copy.  The accesses are those of \<open>SharedConcurrent\<close>.
\<close>

section \<open>What an access touches\<close>

text \<open>The position of the other side is loaded once in a write, a seek and a read, and once more in a regulated read.\<close>

fun write_looks :: "'a write_pc \<Rightarrow> bool" where
  "write_looks (WriteCheck chans n) = True"
| "write_looks pc = False"

fun read_looks :: "'a read_pc \<Rightarrow> bool" where
  "read_looks (ReadSeek target) = True"
| "read_looks (ReadRegulate out n target tolerance) = True"
| "read_looks (ReadStart out n ins) = True"
| "read_looks pc = False"

text \<open>A write stores its position when all samples have been copied; a reader also when it seeks or drops frames.\<close>

fun write_publishes :: "'a write_pc \<Rightarrow> bool" where
  "write_publishes (WriteCopy chans n []) = True"
| "write_publishes pc = False"

fun read_publishes :: "'a read_pc \<Rightarrow> bool" where
  "read_publishes (ReadSeekStore pos new_fill) = True"
| "read_publishes (ReadDrop out n d) = True"
| "read_publishes (ReadCopy out n ins to_read []) = True"
| "read_publishes pc = False"

fun write_cell :: "nat \<Rightarrow> 'a shared_ring \<Rightarrow> 'a write_pc \<Rightarrow> nat option" where
  "write_cell k a (WriteCopy chans n (x # xs)) =
     (case (x # xs) ! (k mod length (x # xs)) of (ch, i) \<Rightarrow>
        Some (ch * unat (h_capacity_frames (header a)) + write_slot a n i))"
| "write_cell k a pc = None"

fun read_cell :: "nat \<Rightarrow> 'a shared_ring \<Rightarrow> 'a read_pc \<Rightarrow> nat option" where
  "read_cell k a (ReadCopy out n ins to_read (x # xs)) =
     (case (x # xs) ! (k mod length (x # xs)) of (ch, f) \<Rightarrow>
        Some (ch * unat (h_capacity_frames (header a)) +
          unat (ucast ((load_pos (h_read_pos (header a)) + of_nat f) mod ucast (h_capacity_frames (header a))) :: u32)))"
| "read_cell k a pc = None"

definition shared_footprint :: "(('a::zero) shared_ring, 'a write_pc, 'a read_pc) ring_footprint" where
  "shared_footprint =
     \<lparr>write_word = \<lambda>a. load_pos (h_write_pos (header a)), read_word = \<lambda>a. load_pos (h_read_pos (header a)),
      set_write_word = \<lambda>p a. store_write_pos a p, set_read_word = \<lambda>p a. store_read_pos a p,
      writer_looks = write_looks, reader_looks = read_looks, writer_publishes = write_publishes, reader_publishes = read_publishes,
      stored_cell = write_cell, loaded_cell = read_cell\<rparr>"

lemma shared_footprint_sel [simp]:
  "write_word shared_footprint a = h_write_pos (header a)" "read_word shared_footprint a = h_read_pos (header a)"
  "set_write_word shared_footprint p a = store_write_pos a p" "set_read_word shared_footprint p a = store_read_pos a p"
  "writer_looks shared_footprint = write_looks" "reader_looks shared_footprint = read_looks"
  "writer_publishes shared_footprint = write_publishes" "reader_publishes shared_footprint = read_publishes"
  "stored_cell shared_footprint = write_cell" "loaded_cell shared_footprint = read_cell"
  by (simp_all add: shared_footprint_def load_pos_def)

section \<open>The footprints are those of the accesses\<close>

text \<open>An access that does not load the position of the other side does not depend on it.\<close>

lemma write_access_blind:
  assumes "\<not> write_looks pc"
  shows "write_access k (store_read_pos a p) pc = map_option (\<lambda>(a', pc'). (store_read_pos a' p, pc')) (write_access k a pc)"
  using assms
  by (cases "(k, a, pc)" rule: write_access.cases)
    (auto simp: store_read_pos_def store_write_pos_def load_pos_def write_slot_def Let_def split: prod.splits bind_splits)

lemma read_access_blind:
  assumes "\<not> read_looks pc"
  shows "read_access oc k (store_write_pos a p) pc = map_option (\<lambda>(a', pc'). (store_write_pos a' p, pc')) (read_access oc k a pc)"
proof (cases pc)
  case (ReadCopy out n ins t todo)
  then show ?thesis
    by (cases todo) (simp_all add: store_read_pos_def store_write_pos_def load_pos_def note_underrun_def Let_def map_bind case_prod_unfold)
next
  case (ReadTail out n ins t)
  then show ?thesis
    by (simp add: store_write_pos_def Let_def map_bind) (intro impI Option.bind_cong refl, simp)
qed (use assms in \<open>simp_all add: store_read_pos_def store_write_pos_def load_pos_def Let_def\<close>)

text \<open>An access changes no sample but that of its cell, and no position but its own, and this only when it publishes.\<close>

lemma write_access_frame:
  assumes "write_access k a pc = Some (a', pc')"
  shows "h_read_pos (header a') = h_read_pos (header a)" "h_channels (header a') = h_channels (header a)"
    "h_capacity_frames (header a') = h_capacity_frames (header a)"
    "\<not> write_publishes pc \<Longrightarrow> h_write_pos (header a') = h_write_pos (header a)"
    "write_cell k a pc \<noteq> Some i \<Longrightarrow> samples a' ! i = samples a ! i"
proof -
  have "h_read_pos (header a') = h_read_pos (header a) \<and> h_channels (header a') = h_channels (header a) \<and>
    h_capacity_frames (header a') = h_capacity_frames (header a) \<and>
    (\<not> write_publishes pc \<longrightarrow> h_write_pos (header a') = h_write_pos (header a)) \<and>
    (write_cell k a pc \<noteq> Some i \<longrightarrow> samples a' ! i = samples a ! i)"
  proof (cases pc)
    case (WriteCopy chans n todo)
    show ?thesis
    proof (cases todo)
      case (Cons x xs)
      obtain ch f where x: "(x # xs) ! (k mod length (x # xs)) = (ch, f)" by fastforce
      from assms show ?thesis
        unfolding WriteCopy Cons write_access.simps write_cell.simps Let_def x prod.case by (auto simp: wr_def split: bind_splits if_splits)
    qed (use assms WriteCopy in \<open>auto simp: store_write_pos_def\<close>)
  qed (use assms in \<open>auto split: if_splits\<close>)
  then show "h_read_pos (header a') = h_read_pos (header a)" "h_channels (header a') = h_channels (header a)"
    "h_capacity_frames (header a') = h_capacity_frames (header a)"
    "\<not> write_publishes pc \<Longrightarrow> h_write_pos (header a') = h_write_pos (header a)"
    "write_cell k a pc \<noteq> Some i \<Longrightarrow> samples a' ! i = samples a ! i" by blast+
qed

lemma read_access_frame:
  assumes "read_access oc k a pc = Some (a', pc')"
  shows "h_write_pos (header a') = h_write_pos (header a)" "h_channels (header a') = h_channels (header a)"
    "h_capacity_frames (header a') = h_capacity_frames (header a)" "samples a' = samples a"
    "\<not> read_publishes pc \<Longrightarrow> h_read_pos (header a') = h_read_pos (header a)"
proof -
  have "h_write_pos (header a') = h_write_pos (header a) \<and> h_channels (header a') = h_channels (header a) \<and>
    h_capacity_frames (header a') = h_capacity_frames (header a) \<and> samples a' = samples a \<and>
    (\<not> read_publishes pc \<longrightarrow> h_read_pos (header a') = h_read_pos (header a))"
  proof (cases pc)
    case (ReadCopy out n ins t todo)
    show ?thesis
    proof (cases todo)
      case (Cons x xs)
      obtain ch f where x: "(x # xs) ! (k mod length (x # xs)) = (ch, f)" by fastforce
      from assms show ?thesis unfolding ReadCopy Cons read_access.simps Let_def x prod.case by (auto split: bind_splits)
    qed (use assms ReadCopy in \<open>auto simp: store_read_pos_def note_underrun_def\<close>)
  qed (use assms in \<open>auto simp: store_read_pos_def Let_def split: if_splits bind_splits\<close>)
  then show "h_write_pos (header a') = h_write_pos (header a)" "h_channels (header a') = h_channels (header a)"
    "h_capacity_frames (header a') = h_capacity_frames (header a)" "samples a' = samples a"
    "\<not> read_publishes pc \<Longrightarrow> h_read_pos (header a') = h_read_pos (header a)" by blast+
qed

section \<open>The laws\<close>

definition shared_shape :: "'a shared_ring \<Rightarrow> u32 \<times> u32" where
  "shared_shape a = (h_channels (header a), h_capacity_frames (header a))"

definition shared_room :: "u32 \<times> u32 \<Rightarrow> nat" where
  "shared_room x = unat (snd x)"

text \<open>The cells of a frame, among them all samples in its slot.\<close>

definition frame_cells :: "nat \<Rightarrow> nat \<Rightarrow> nat set" where
  "frame_cells cap f = {i. i mod cap = f mod cap}"

lemma frame_cells_apart: "f < g \<Longrightarrow> g < f + cap \<Longrightarrow> i \<in> frame_cells cap f \<Longrightarrow> i \<notin> frame_cells cap g"
  using mod_slot_inj[of f g cap] by (auto simp: frame_cells_def)

lemma slot_in_frame_cells: "slot_of a p ch i \<in> frame_cells (cap_of a) (p + i)"
  by (simp add: slot_of_def frame_cells_def)

lemma ring_ok_words:
  assumes ok: "ring_ok a" and p: "h_read_pos (header a) \<le> p" "p \<le> h_write_pos (header a)"
  shows "ring_ok (store_read_pos a p)" "ring_frames (store_read_pos a p) = drop (unat p - rpos a) (ring_frames a)"
    "write_ok a pc \<Longrightarrow> write_ok (store_read_pos a p) pc"
    "ring_ok (store_write_pos a p)" "ring_frames (store_write_pos a p) = take (unat p - rpos a) (ring_frames a)"
proof -
  have n: "rpos a \<le> unat p" "unat p \<le> wpos a" using p by (simp_all add: word_le_nat_alt)
  note m = move_read_pos[OF ok, of "store_read_pos a p"]
  show "ring_ok (store_read_pos a p)" "ring_frames (store_read_pos a p) = drop (unat p - rpos a) (ring_frames a)"
    using m n by (simp_all add: store_read_pos_def)
  show "write_ok a pc \<Longrightarrow> write_ok (store_read_pos a p) pc"
    using m(3) n by (intro write_ok_read[of a pc "store_read_pos a p"]) (simp_all add: store_read_pos_def)
  show "ring_ok (store_write_pos a p)" using ok n by (auto simp: ring_ok_def store_write_pos_def)
  have "frame_at (store_write_pos a p) = frame_at a" by (simp add: frame_at_def store_write_pos_def fun_eq_iff)
  then show "ring_frames (store_write_pos a p) = take (unat p - rpos a) (ring_frames a)"
    using window_take[of "rpos a" "unat p - rpos a" "wpos a" "frame_at a" "cap_of a"] n
    by (simp add: ring_frames_def) (simp add: store_write_pos_def)
qed

lemma write_access_forward:
  assumes ok: "ring_ok a" and w: "write_ok a pc" and acc: "write_access k a pc = Some (a', pc')"
  shows "h_write_pos (header a) \<le> h_write_pos (header a')"
proof (cases "write_publishes pc")
  case True
  then obtain chans n where pc: "pc = WriteCopy chans n []" by (cases pc rule: write_publishes.cases) simp_all
  then have "wpos a + unat n < 2 ^ 64" using w by (simp add: write_ok_def)
  with acc pc show ?thesis by (auto simp: store_write_pos_def load_pos_def word_le_nat_alt word_nat_simps)
qed (use write_access_frame(4)[OF acc] in simp)

lemma read_access_forward:
  assumes ok: "ring_ok a" and r: "read_ok oc a pc" and acc: "read_access oc k a pc = Some (a', pc')"
  shows "h_read_pos (header a) \<le> h_read_pos (header a')" "h_read_pos (header a') \<le> h_write_pos (header a)"
proof -
  have m: "read_moves a (frames_passed oc a pc) oc a'" using read_access_ok[OF ok r, of k] acc by auto
  then show "h_read_pos (header a) \<le> h_read_pos (header a')" "h_read_pos (header a') \<le> h_write_pos (header a)"
    using ok by (auto simp: read_moves_def ring_ok_def fill_of_def word_le_nat_alt)
qed

text \<open>The writer does not see what the reader does to its statistics.\<close>

lemma write_ok_cong:
  assumes "samples a' = samples a" "h_capacity_frames (header a') = h_capacity_frames (header a)"
    "h_channels (header a') = h_channels (header a)" "h_write_pos (header a') = h_write_pos (header a)" "h_read_pos (header a') = h_read_pos (header a)"
  shows "ring_ok a' = ring_ok a" "ring_frames a' = ring_frames a" "write_ok a pc \<Longrightarrow> write_ok a' pc"
proof -
  show "ring_ok a' = ring_ok a" using assms by (simp add: ring_ok_def)
  have "frame_at a' = frame_at a" using assms by (simp add: frame_at_def fun_eq_iff)
  then show "ring_frames a' = ring_frames a" using assms by (simp add: ring_frames_def)
  show "write_ok a pc \<Longrightarrow> write_ok a' pc" using assms by (intro write_ok_read[of a pc a']) (simp_all add: fill_of_def)
qed

lemma write_cell_free:
  assumes ok: "ring_ok a" and w: "write_ok a pc" and c: "write_cell k a pc = Some i"
  shows "\<exists>f. wpos a \<le> f \<and> f < rpos a + cap_of a \<and> i \<in> frame_cells (cap_of a) f"
proof -
  obtain chans n x xs where pc: "pc = WriteCopy chans n (x # xs)" using c by (cases "(k, a, pc)" rule: write_cell.cases) simp_all
  then have "i \<in> store_slots a pc" using c chosen_in[of x xs k] by (force simp: store_slots_def split: prod.splits)
  from store_slots_behind[OF ok w this] obtain ch j where j: "i = slot_of a (wpos a) ch j" "fill_of a + j < cap_of a" .
  then show ?thesis using slot_in_frame_cells[of a "wpos a" ch j] ok
    by (intro exI[of _ "wpos a + j"]) (auto simp: fill_of_def ring_ok_def)
qed

lemma read_cell_live:
  assumes ok: "ring_ok a" and r: "read_ok oc a pc" and c: "read_cell k a pc = Some i"
  shows "\<exists>f. rpos a \<le> f \<and> f < wpos a \<and> i \<in> frame_cells (cap_of a) f"
proof -
  obtain out n ins t x xs where pc: "pc = ReadCopy out n ins t (x # xs)" using c by (cases "(k, a, pc)" rule: read_cell.cases) simp_all
  then have "i \<in> load_slots a pc" using c chosen_in[of x xs k] by (force simp: load_slots_def load_pos_def split: prod.splits)
  from load_slots_live[OF ok r this] obtain ch j where j: "i = slot_of a (rpos a) ch j" "j < fill_of a" .
  then show ?thesis using slot_in_frame_cells[of a "rpos a" ch j]
    by (intro exI[of _ "rpos a + j"]) (auto simp: fill_of_def)
qed

lemma shared_words:
  "h_write_pos (header (store_write_pos a p)) = p" "h_read_pos (header (store_write_pos a p)) = h_read_pos (header a)"
  "h_read_pos (header (store_read_pos a p)) = p" "h_write_pos (header (store_read_pos a p)) = h_write_pos (header a)"
  "store_read_pos a (h_read_pos (header a)) = a" "store_write_pos a (h_write_pos (header a)) = a"
  "store_read_pos (store_read_pos a q) p = store_read_pos a p" "store_write_pos (store_write_pos a q) p = store_write_pos a p"
  "shared_shape (store_read_pos a p) = shared_shape a" "shared_shape (store_write_pos a p) = shared_shape a"
  "store_write_pos (store_read_pos a q) p = store_read_pos (store_write_pos a p) q"
  by (simp_all add: store_read_pos_def store_write_pos_def shared_shape_def)

lemma read_access_unseen:
  assumes "read_access oc k a rp = Some (a', rp')" "ring_ok (store_read_pos (store_write_pos a q) p)"
  shows "ring_ok (store_read_pos (store_write_pos a' q) p) \<and>
    ring_frames (store_read_pos (store_write_pos a' q) p) = ring_frames (store_read_pos (store_write_pos a q) p) \<and>
    (write_ok (store_read_pos (store_write_pos a q) p) pc \<longrightarrow> write_ok (store_read_pos (store_write_pos a' q) p) pc)"
proof -
  note f = read_access_frame[OF assms(1)]
  note c = write_ok_cong[of "store_read_pos (store_write_pos a' q) p" "store_read_pos (store_write_pos a q) p"]
  show ?thesis using c(1,2) c(3)[of pc] assms(2) f by (simp add: store_read_pos_def store_write_pos_def)
qed

lemma shared_laws:
  fixes a :: "('a::zero) shared_ring"
  shows "ring_ok a \<Longrightarrow> h_read_pos (header a) \<le> h_write_pos (header a) \<and> length (ring_frames a) = wpos a - rpos a \<and>
      length (ring_frames a) \<le> shared_room (shared_shape a)"
    "ring_ok a \<Longrightarrow> read_ok oc a rp \<Longrightarrow> ring_ok a' \<Longrightarrow> shared_shape a' = shared_shape a \<Longrightarrow>
      h_read_pos (header a') = h_read_pos (header a) \<Longrightarrow> h_write_pos (header a) \<le> h_write_pos (header a') \<Longrightarrow>
      take (length (ring_frames a)) (ring_frames a') = ring_frames a \<Longrightarrow> read_ok oc a' rp"
    "ring_ok a \<Longrightarrow> write_ok a pc \<Longrightarrow> write_access k a pc = Some (a', pc') \<Longrightarrow>
      h_read_pos (header a') = h_read_pos (header a) \<and> shared_shape a' = shared_shape a \<and>
      h_write_pos (header a) \<le> h_write_pos (header a') \<and> (\<not> write_publishes pc \<longrightarrow> h_write_pos (header a') = h_write_pos (header a))"
    "ring_ok a \<Longrightarrow> read_ok oc a rp \<Longrightarrow> read_access oc k a rp = Some (a', rp') \<Longrightarrow>
      h_write_pos (header a') = h_write_pos (header a) \<and> shared_shape a' = shared_shape a \<and>
      h_read_pos (header a) \<le> h_read_pos (header a') \<and> h_read_pos (header a') \<le> h_write_pos (header a) \<and>
      (\<not> read_publishes rp \<longrightarrow> h_read_pos (header a') = h_read_pos (header a))"
proof -
  show "ring_ok a \<Longrightarrow> h_read_pos (header a) \<le> h_write_pos (header a) \<and> length (ring_frames a) = wpos a - rpos a \<and>
      length (ring_frames a) \<le> shared_room (shared_shape a)"
    by (simp add: ring_ok_def length_ring_frames fill_of_def word_le_nat_alt shared_room_def shared_shape_def)
  show "ring_ok a \<Longrightarrow> read_ok oc a rp \<Longrightarrow> ring_ok a' \<Longrightarrow> shared_shape a' = shared_shape a \<Longrightarrow>
      h_read_pos (header a') = h_read_pos (header a) \<Longrightarrow> h_write_pos (header a) \<le> h_write_pos (header a') \<Longrightarrow>
      take (length (ring_frames a)) (ring_frames a') = ring_frames a \<Longrightarrow> read_ok oc a' rp"
    by (rule read_ok_write[of oc a]) (simp_all add: length_ring_frames word_le_nat_alt shared_shape_def)
  show "h_read_pos (header a') = h_read_pos (header a) \<and> shared_shape a' = shared_shape a \<and>
      h_write_pos (header a) \<le> h_write_pos (header a') \<and> (\<not> write_publishes pc \<longrightarrow> h_write_pos (header a') = h_write_pos (header a))"
    if "ring_ok a" "write_ok a pc" "write_access k a pc = Some (a', pc')"
    using write_access_frame[OF that(3)] write_access_forward[OF that] by (simp add: shared_shape_def)
  show "h_write_pos (header a') = h_write_pos (header a) \<and> shared_shape a' = shared_shape a \<and>
      h_read_pos (header a) \<le> h_read_pos (header a') \<and> h_read_pos (header a') \<le> h_write_pos (header a) \<and>
      (\<not> read_publishes rp \<longrightarrow> h_read_pos (header a') = h_read_pos (header a))"
    if "ring_ok a" "read_ok oc a rp" "read_access oc k a rp = Some (a', rp')"
    using read_access_frame[OF that(3)] read_access_forward[OF that] by (simp add: shared_shape_def)
qed

lemma shared_cells:
  fixes a :: "('a::zero) shared_ring"
  shows "ring_ok a \<Longrightarrow> write_ok a pc \<Longrightarrow> write_cell k a pc = Some i \<Longrightarrow>
      \<exists>f. wpos a \<le> f \<and> f < rpos a + shared_room (shared_shape a) \<and> i \<in> frame_cells (shared_room (shared_shape a)) f"
    "ring_ok a \<Longrightarrow> read_ok oc a rp \<Longrightarrow> read_cell k a rp = Some i \<Longrightarrow>
      \<exists>f. rpos a \<le> f \<and> f < wpos a \<and> i \<in> frame_cells (shared_room (shared_shape a)) f"
  unfolding shared_room_def shared_shape_def snd_conv by (rule write_cell_free, assumption+) (rule read_cell_live, assumption+)

interpretation shared_weak: weak_ring "shared_ring_program oc" ring_ok ring_frames "take (unat oc)"
  write_ok "read_ok oc" write_left "\<lambda>a. read_left a oc" shared_footprint shared_shape shared_room "\<lambda>x. frame_cells (shared_room x)" for oc
proof (unfold_locales, unfold shared_footprint_sel shared_ring_program_sel)
  fix a :: "('a::zero) shared_ring" and p pc
  assume "ring_ok a" "h_read_pos (header a) \<le> p" "p \<le> h_write_pos (header a)"
  note w = ring_ok_words[OF this]
  show "ring_ok (store_read_pos a p) \<and> ring_frames (store_read_pos a p) = drop (unat p - rpos a) (ring_frames a) \<and>
      (write_ok a pc \<longrightarrow> write_ok (store_read_pos a p) pc)"
    "ring_ok (store_write_pos a p) \<and> ring_frames (store_write_pos a p) = take (unat p - rpos a) (ring_frames a)"
    using w by simp_all
next
  fix a a' :: "('a::zero) shared_ring" and pc pc' k i
  assume w: "ring_ok a" "write_ok a pc"
  show "write_access k a pc = Some (a', pc') \<Longrightarrow> h_read_pos (header a') = h_read_pos (header a) \<and> shared_shape a' = shared_shape a \<and>
      h_write_pos (header a) \<le> h_write_pos (header a') \<and> (\<not> write_publishes pc \<longrightarrow> h_write_pos (header a') = h_write_pos (header a))"
    by (rule shared_laws(3)[OF w])
  show "write_cell k a pc = Some i \<Longrightarrow>
      \<exists>f. wpos a \<le> f \<and> f < rpos a + shared_room (shared_shape a) \<and> i \<in> frame_cells (shared_room (shared_shape a)) f"
    by (rule shared_cells(1)[OF w])
next
  fix a a' :: "('a::zero) shared_ring" and rp rp' k i
  assume r: "ring_ok a" "read_ok oc a rp"
  show "read_access oc k a rp = Some (a', rp') \<Longrightarrow> h_write_pos (header a') = h_write_pos (header a) \<and> shared_shape a' = shared_shape a \<and>
      h_read_pos (header a) \<le> h_read_pos (header a') \<and> h_read_pos (header a') \<le> h_write_pos (header a) \<and>
      (\<not> read_publishes rp \<longrightarrow> h_read_pos (header a') = h_read_pos (header a))"
    by (rule shared_laws(4)[OF r])
  show "read_cell k a rp = Some i \<Longrightarrow> \<exists>f. rpos a \<le> f \<and> f < wpos a \<and> i \<in> frame_cells (shared_room (shared_shape a)) f"
    by (rule shared_cells(2)[OF r])
qed (rule shared_words shared_laws(1) read_access_unseen | assumption | rule shared_laws(2), assumption+ | erule (2) frame_cells_apart)+

section \<open>Properties\<close>

text \<open>The states that daemon and device reach from a ring, with the stores that their loads of the positions take.\<close>

definition shared_weak_run ::
  "u16 \<Rightarrow> (('a write_pc, 'a read_pc) ring_move \<times> nat) list \<Rightarrow> ('a::zero) shared_ring \<Rightarrow>
   ('a shared_ring, 'a write_pc, 'a read_pc, 'a list, 'a list) weak_system option" where
  "shared_weak_run oc ms a =
     weak_run (shared_ring_program oc) shared_footprint ms (weak_start (shared_ring_program oc) shared_footprint a (ring_frames a))"

text \<open>C5. No undefined behaviour on the memory of the atomic accesses: whatever the daemon and the device
  do, however their accesses interleave and whichever old position of the other side their loads
  find, the next access of each is defined: it has no data race on a sample, since every conflicting
  access happens before it, and it stays inside the ring and the buffers; and a load always
  finds a store.\<close>

theorem weak_shared_ring_defined:
  assumes "shared_weak_run oc ms a = Some s" "ring_ok a"
  shows "(writer_may_take s n \<longrightarrow> weak_write (shared_ring_program oc) shared_footprint k n s \<noteq> None) \<and>
    (reader_may_take s n \<longrightarrow> weak_read (shared_ring_program oc) shared_footprint k n s \<noteq> None) \<and>
    (\<exists>n. writer_may_take s n) \<and> (\<exists>n. reader_may_take s n)"
  using shared_weak.weak_never_undefined[OF assms(1)[unfolded shared_weak_run_def] assms(2)]
    shared_weak.weak_may_take[OF assms(1)[unfolded shared_weak_run_def] assms(2)] by blast

text \<open>C4. Audio is conserved on that memory too: in every reachable state the frames that the reader has
  passed and those in the ring are together the frames that were published, in order; a
  passed frame was dropped by a drift correction or a seek, or the samples that the reader
  copied are those that the writer stored.\<close>

theorem weak_shared_ring_conservation:
  assumes "shared_weak_run oc ms a = Some s" "ring_ok a"
  shows "ring_ok (ring (core s)) \<and>
    length (consumed (core s)) + fill_of (ring (core s)) = length (published_frames (core s)) \<and>
    ring_frames (ring (core s)) = drop (length (consumed (core s))) (published_frames (core s)) \<and>
    (\<forall>i < length (consumed (core s)). consumed (core s) ! i = None \<or>
       consumed (core s) ! i = Some (take (unat oc) (published_frames (core s) ! i)))"
  using shared_weak.weak_conservation[OF assms(1)[unfolded shared_weak_run_def] assms(2)] by (simp add: length_ring_frames)

section \<open>A run\<close>

text \<open>
  The writer publishes two frames, but the reader still finds the old write position and takes the two
  frames in front of them; then the writer finds the old read position and rejects a block, and
  the next time the new one.
\<close>

definition old_position_moves :: "((int write_pc, int read_pc) ring_move \<times> nat) list" where
  "old_position_moves =
     (BeginWrite (WriteCheck [[31, 32], [41, 42]] 2), 0) # replicate 6 (WriterAccess 0, 0) @ [(EndWrite, 0)] @
     (BeginRead (ReadRegulate [7, 7, 7, 7] 2 2 2), 0) # replicate 8 (ReaderAccess 0, 0) @
     [(EndRead, 0), (BeginWrite (WriteCheck [[51, 52], [61, 62]] 2), 0), (WriterAccess 0, 0), (EndWrite, 0),
      (BeginWrite (WriteCheck [[51, 52], [61, 62]] 2), 0), (WriterAccess 0, 1), (WriterAccess 1, 0)]"

lemma old_position_run:
  "map_option (\<lambda>s. (map fst (write_history s), map fst (read_history s), published_frames (core s), consumed (core s),
       h_overruns (header (ring (core s))), samples (ring (core s))))
     (shared_weak_run 2 old_position_moves sample_ring) =
   Some ([5, 7], [3, 5], [[13, 23], [10, 20], [31, 41], [32, 42]], [Some [13, 23], Some [10, 20]], 1,
     [52, 31, 32, 13, 20, 41, 42, 23])"
  by code_simp

lemma weak_shared_ring_defined_witness:
  "\<exists>s. shared_weak_run 2 old_position_moves sample_ring = Some s \<and> reader_may_take s 1 \<and>
     weak_read (shared_ring_program 2) shared_footprint 0 1 s \<noteq> None \<and> (\<exists>n. writer_may_take s n)"
proof -
  let ?run = "shared_weak_run 2 old_position_moves sample_ring"
  have "map_option (\<lambda>s. reader_may_take s 1) ?run = Some True" by code_simp
  then obtain s where s: "?run = Some s" "reader_may_take s 1" by (cases ?run) auto
  from weak_shared_ring_defined[OF s(1) sample_ring_ok, of 1 0] s show ?thesis by blast
qed

lemma weak_shared_ring_conservation_witness:
  "\<exists>s. shared_weak_run 2 old_position_moves sample_ring = Some s \<and> length (consumed (core s)) = 2 \<and> fill_of (ring (core s)) = 2 \<and>
     ring_frames (ring (core s)) = [[31, 41], [32, 42]]"
proof -
  obtain s where s: "shared_weak_run 2 old_position_moves sample_ring = Some s"
    "consumed (core s) = [Some [13, 23], Some [10, 20]]" "published_frames (core s) = [[13, 23], [10, 20], [31, 41], [32, 42]]"
    using old_position_run by (cases "shared_weak_run 2 old_position_moves sample_ring") auto
  from weak_shared_ring_conservation[OF s(1) sample_ring_ok] s show ?thesis by auto
qed

end
