(* ===== verification/SharedClock.thy ===== *)
theory SharedClock
  imports SharedAudio
begin

text \<open>
  The writer clock of \<open>src/shared_audio.c\<close>: a sequence lock in the ring header through which the
  daemon publishes pairs of host time and sample position.  First the two functions as the
  program text has them, run alone; then the same accesses as steps of a system in which writer
  and reader interleave in any order, related to the functions, with the invariant that makes
  every pair a reader obtains one that was published.  All accesses of the lock are acquire loads
  and release stores of one word each, so each thread's accesses happen in program order.
\<close>

section \<open>The functions\<close>

definition shared_audio_host_time :: "u64 \<Rightarrow> u64 \<Rightarrow> u64" where
  "shared_audio_host_time tv_sec tv_nsec = tv_sec * 1000000000 + tv_nsec"

definition shared_audio_publish_clock :: "'a shared_ring \<Rightarrow> u64 \<Rightarrow> u64 \<Rightarrow> 'a shared_ring" where
  "shared_audio_publish_clock a host_time sample_pos =
     (let seq = h_clock_seq (header a);
          a1 = a\<lparr>header := (header a)\<lparr>h_clock_seq := seq + 1\<rparr>\<rparr>;
          a2 = a1\<lparr>header := (header a1)\<lparr>h_clock_host_time := host_time\<rparr>\<rparr>;
          a3 = a2\<lparr>header := (header a2)\<lparr>h_clock_sample_pos := sample_pos\<rparr>\<rparr>
      in a3\<lparr>header := (header a3)\<lparr>h_clock_seq := seq + 2\<rparr>\<rparr>)"

text \<open>
  \<open>get_clock_attempts k\<close> is the loop with \<open>k\<close> attempts left; the result is the pair stored
  through the two pointers, or \<^term>\<open>None\<close> for the return value -1.
\<close>

fun get_clock_attempts :: "nat \<Rightarrow> 'a shared_ring \<Rightarrow> (u64 \<times> u64) option" where
  "get_clock_attempts 0 a = None"
| "get_clock_attempts (Suc k) a =
     (let seq = h_clock_seq (header a)
      in if seq = 0 then None
         else if seq AND 1 \<noteq> 0 then get_clock_attempts k a
         else (let observed_time = h_clock_host_time (header a);
                   observed_pos = h_clock_sample_pos (header a)
               in if h_clock_seq (header a) = seq then Some (observed_time, observed_pos)
                  else get_clock_attempts k a))"

definition shared_audio_get_clock :: "'a shared_ring \<Rightarrow> (u64 \<times> u64) option" where
  "shared_audio_get_clock a = get_clock_attempts 16 a"

section \<open>The interleaved system\<close>

text \<open>
  The writer between two of its accesses: idle, or inside a publication of a pair with the
  sequence number it loaded.
\<close>

datatype writer_pc =
    WIdle
  | WStart u64 u64
  | WOdd u64 u64 u64
  | WTime u64 u64 u64
  | WPos u64 u64 u64

text \<open>The reader between two of its accesses, with the number of the attempt it is in.\<close>

datatype reader_pc =
    RIdle
  | RSeq nat
  | RTime nat u64
  | RPos nat u64 u64
  | RCheck nat u64 u64 u64
  | RDone "(u64 \<times> u64) option"

text \<open>One access of the writer.\<close>

fun writer_access :: "SharedAudioHeader \<Rightarrow> writer_pc \<Rightarrow> SharedAudioHeader \<times> writer_pc" where
  "writer_access h WIdle = (h, WIdle)"
| "writer_access h (WStart t p) = (h\<lparr>h_clock_seq := h_clock_seq h + 1\<rparr>, WOdd t p (h_clock_seq h))"
| "writer_access h (WOdd t p seq) = (h\<lparr>h_clock_host_time := t\<rparr>, WTime t p seq)"
| "writer_access h (WTime t p seq) = (h\<lparr>h_clock_sample_pos := p\<rparr>, WPos t p seq)"
| "writer_access h (WPos t p seq) = (h\<lparr>h_clock_seq := seq + 2\<rparr>, WIdle)"

text \<open>One access of the reader; the loop condition is checked before each attempt.\<close>

definition next_attempt :: "nat \<Rightarrow> reader_pc" where
  "next_attempt k = (if k + 1 < 16 then RSeq (k + 1) else RDone None)"

fun reader_access :: "SharedAudioHeader \<Rightarrow> reader_pc \<Rightarrow> reader_pc" where
  "reader_access h RIdle = RSeq 0"
| "reader_access h (RSeq k) =
     (let seq = h_clock_seq h
      in if seq = 0 then RDone None
         else if seq AND 1 \<noteq> 0 then next_attempt k
         else RTime k seq)"
| "reader_access h (RTime k seq) = RPos k seq (h_clock_host_time h)"
| "reader_access h (RPos k seq t) = RCheck k seq t (h_clock_sample_pos h)"
| "reader_access h (RCheck k seq t p) =
     (if h_clock_seq h = seq then RDone (Some (t, p)) else next_attempt k)"
| "reader_access h (RDone res) = RDone res"

text \<open>\<open>published\<close> collects the pairs whose publication has completed.\<close>

record clock_system =
  cmem :: SharedAudioHeader
  writer :: writer_pc
  reader :: reader_pc
  published :: "(u64 \<times> u64) list"

definition completed :: "writer_pc \<Rightarrow> (u64 \<times> u64) list" where
  "completed w = (case w of WPos t p seq \<Rightarrow> [(t, p)] | _ \<Rightarrow> [])"

inductive clock_step :: "clock_system \<Rightarrow> clock_system \<Rightarrow> bool" where
  publish: "writer s = WIdle \<Longrightarrow> clock_step s (s\<lparr>writer := WStart t p\<rparr>)"
| store: "writer s \<noteq> WIdle \<Longrightarrow> writer_access (cmem s) (writer s) = (h, w) \<Longrightarrow>
    clock_step s (s\<lparr>cmem := h, writer := w, published := published s @ completed (writer s)\<rparr>)"
| load: "\<forall>res. reader s \<noteq> RDone res \<Longrightarrow>
    clock_step s (s\<lparr>reader := reader_access (cmem s) (reader s)\<rparr>)"
| finish: "reader s = RDone res \<Longrightarrow> clock_step s (s\<lparr>reader := RIdle\<rparr>)"

inductive_cases clock_stepE: "clock_step s s'"

definition clock_init :: "SharedAudioHeader \<Rightarrow> clock_system" where
  "clock_init h = \<lparr>cmem = h, writer = WIdle, reader = RIdle, published = []\<rparr>"

inductive clock_reachable :: "SharedAudioHeader \<Rightarrow> clock_system \<Rightarrow> bool" for h where
  init: "clock_reachable h (clock_init h)"
| step: "clock_reachable h s \<Longrightarrow> clock_step s s' \<Longrightarrow> clock_reachable h s'"

section \<open>The functions are runs of the accesses\<close>

fun writer_run :: "nat \<Rightarrow> SharedAudioHeader \<times> writer_pc \<Rightarrow> SharedAudioHeader \<times> writer_pc" where
  "writer_run 0 s = s"
| "writer_run (Suc n) (h, w) = writer_run n (writer_access h w)"

fun reader_run :: "nat \<Rightarrow> SharedAudioHeader \<Rightarrow> reader_pc \<Rightarrow> reader_pc" where
  "reader_run 0 h r = r"
| "reader_run (Suc n) h r = reader_run n h (reader_access h r)"

lemma publish_clock_header:
  "header (shared_audio_publish_clock a t p) =
     (header a)\<lparr>h_clock_seq := h_clock_seq (header a) + 2, h_clock_host_time := t, h_clock_sample_pos := p\<rparr>"
  by (simp add: shared_audio_publish_clock_def Let_def)

lemma writer_run_publish:
  "writer_run 4 (header a, WStart t p) = (header (shared_audio_publish_clock a t p), WIdle)"
  by (simp add: numeral_eq_Suc publish_clock_header)

lemma reader_run_done: "reader_run n h (RDone res) = RDone res"
  by (induction n) auto

lemma reader_run_attempts:
  "k \<le> 16 \<Longrightarrow> 4 * (16 - k) \<le> n \<Longrightarrow>
   reader_run n (header a) (if k < 16 then RSeq k else RDone None) = RDone (get_clock_attempts (16 - k) a)"
proof (induction "16 - k" arbitrary: k n)
  case 0
  then show ?case by (simp add: reader_run_done)
next
  case (Suc j)
  then have k: "k < 16" "16 - k = Suc j" by simp_all
  have "n = Suc (Suc (Suc (Suc (n - 4))))" using Suc.prems(2) k(2) by linarith
  then obtain m where n: "n = Suc (Suc (Suc (Suc m)))" ..
  have j: "15 - k = j" using k by simp
  have ih: "reader_run m (header a) (next_attempt k) = RDone (get_clock_attempts j a)" if "4 * j \<le> m" for m
    using Suc.hyps(1)[of "Suc k" m] k that by (simp add: next_attempt_def j split: if_splits)
  consider (none) "h_clock_seq (header a) = 0" | (odd) "h_clock_seq (header a) \<noteq> 0" "h_clock_seq (header a) AND 1 \<noteq> 0"
    | (even) "h_clock_seq (header a) \<noteq> 0" "h_clock_seq (header a) AND 1 = 0" by blast
  then show ?case
  proof cases
    case odd
    then show ?thesis using ih[of "n - 1"] Suc.prems k by (cases n) (auto simp: Let_def)
  qed (use k n in \<open>auto simp: Let_def reader_run_done\<close>)
qed

section \<open>The invariant\<close>

text \<open>
  The sequence number is twice the number of completed publications, plus one while a publication
  is under way; while it is even the two fields hold the last completed pair.
\<close>

definition stable_pair :: "clock_system \<Rightarrow> bool" where
  "stable_pair s \<longleftrightarrow> published s \<noteq> [] \<longrightarrow>
     (h_clock_host_time (cmem s), h_clock_sample_pos (cmem s)) = last (published s)"

definition seq_is :: "clock_system \<Rightarrow> nat \<Rightarrow> bool" where
  "seq_is s n \<longleftrightarrow> unat (h_clock_seq (cmem s)) = n"

definition writer_ok :: "clock_system \<Rightarrow> bool" where
  "writer_ok s \<longleftrightarrow> (let k = length (published s) in
     case writer s of
       WIdle \<Rightarrow> seq_is s (2 * k) \<and> stable_pair s
     | WStart t p \<Rightarrow> seq_is s (2 * k) \<and> stable_pair s
     | WOdd t p seq \<Rightarrow> seq_is s (2 * k + 1) \<and> unat seq = 2 * k
     | WTime t p seq \<Rightarrow> seq_is s (2 * k + 1) \<and> unat seq = 2 * k \<and> h_clock_host_time (cmem s) = t
     | WPos t p seq \<Rightarrow> seq_is s (2 * k + 1) \<and> unat seq = 2 * k \<and>
         h_clock_host_time (cmem s) = t \<and> h_clock_sample_pos (cmem s) = p)"

text \<open>
  What the reader has observed is current as long as the sequence number has not moved since its
  first load.
\<close>

definition observed :: "clock_system \<Rightarrow> u64 \<Rightarrow> bool \<Rightarrow> bool" where
  "observed s seq current \<longleftrightarrow> seq \<noteq> 0 \<and> even (unat seq) \<and> unat seq \<le> unat (h_clock_seq (cmem s)) \<and>
     (h_clock_seq (cmem s) = seq \<longrightarrow> current)"

definition reader_ok :: "clock_system \<Rightarrow> bool" where
  "reader_ok s \<longleftrightarrow>
     (case reader s of
       RIdle \<Rightarrow> True
     | RSeq k \<Rightarrow> k < 16
     | RTime k seq \<Rightarrow> k < 16 \<and> observed s seq True
     | RPos k seq t \<Rightarrow> k < 16 \<and> observed s seq (t = h_clock_host_time (cmem s))
     | RCheck k seq t p \<Rightarrow> k < 16 \<and>
         observed s seq (t = h_clock_host_time (cmem s) \<and> p = h_clock_sample_pos (cmem s))
     | RDone res \<Rightarrow> set_option res \<subseteq> set (published s))"

definition clock_inv :: "clock_system \<Rightarrow> bool" where
  "clock_inv s \<longleftrightarrow> writer_ok s \<and> reader_ok s"

lemma and_one_even: "(x :: u64) AND 1 = 0 \<longleftrightarrow> even (unat x)"
  by (simp add: and_one_eq even_iff_mod_2_eq_zero word_unat_eq_iff unat_mod)

lemma unat_seq_step:
  assumes "unat (x :: u64) = n" "n + 2 < 2 ^ 64"
  shows "unat (x + 1) = n + 1" "unat (x + 2) = n + 2"
  using assms by (simp_all add: unat_add_nowrap)

lemmas clock_defs = clock_inv_def writer_ok_def reader_ok_def seq_is_def stable_pair_def observed_def
  completed_def next_attempt_def Let_def

lemma writer_step_inv:
  assumes inv: "clock_inv s" and w: "writer_access (cmem s) (writer s) = (h, w)"
    and few: "length (published s) < 2 ^ 63 - 1"
  shows "clock_inv (s\<lparr>cmem := h, writer := w, published := published s @ completed (writer s)\<rparr>)"
proof -
  let ?k = "length (published s)" and ?x = "h_clock_seq (cmem s)"
  have b: "2 * ?k + 2 < 2 ^ 64" using few by simp
  show ?thesis
  proof (cases "writer s")
    case (WStart t p)
    with inv have x: "unat ?x = 2 * ?k" by (simp add: clock_defs)
    from unat_seq_step(1)[OF x b] WStart inv w x show ?thesis
      by (auto simp: clock_defs word_unat_eq_iff split: reader_pc.splits)
  next
    case (WPos t p seq)
    with inv have x: "unat ?x = 2 * ?k + 1" "unat seq = 2 * ?k" by (simp_all add: clock_defs)
    from unat_seq_step(2)[OF x(2) b] WPos inv w x show ?thesis
      by (auto simp: clock_defs word_unat_eq_iff split: reader_pc.splits)
  qed (use inv w in \<open>auto simp: clock_defs split: reader_pc.splits\<close>)
qed

lemma writer_ok_reader [simp]: "writer_ok (s\<lparr>reader := r\<rparr>) = writer_ok s"
  by (simp add: writer_ok_def seq_is_def stable_pair_def Let_def cong: writer_pc.case_cong)

lemma reader_step_inv:
  assumes inv: "clock_inv s" and few: "length (published s) < 2 ^ 63"
  shows "clock_inv (s\<lparr>reader := reader_access (cmem s) (reader s)\<rparr>)"
    and "reader s = RCheck k seq t p \<Longrightarrow> h_clock_seq (cmem s) = seq \<Longrightarrow>
      published s \<noteq> [] \<and> last (published s) = (t, p)"
proof -
  let ?x = "h_clock_seq (cmem s)"
  have even_stable: "even (unat ?x) \<Longrightarrow> unat ?x = 2 * length (published s) \<and> stable_pair s"
    using inv by (auto simp: clock_inv_def writer_ok_def seq_is_def Let_def split: writer_pc.splits)
  show check: "published s \<noteq> [] \<and> last (published s) = (t, p)"
    if "reader s = RCheck k seq t p" "?x = seq" for k seq t p
  proof -
    from that inv have o: "seq \<noteq> 0" "even (unat seq)" "t = h_clock_host_time (cmem s)" "p = h_clock_sample_pos (cmem s)"
      by (auto simp: clock_inv_def reader_ok_def observed_def)
    from o(1) have "unat seq \<noteq> 0" by (simp add: word_unat_eq_iff)
    with o(2-) even_stable that(2) show ?thesis by (auto simp: stable_pair_def)
  qed
  have "reader_ok (s\<lparr>reader := reader_access (cmem s) (reader s)\<rparr>)"
  proof (cases "reader s")
    case (RCheck k seq t p)
    have "(t, p) \<in> set (published s)" if "?x = seq" using check[OF RCheck that] by (metis last_in_set)
    with inv RCheck show ?thesis
      by (auto simp: clock_inv_def reader_ok_def next_attempt_def)
  qed (use inv in \<open>auto simp: clock_inv_def reader_ok_def observed_def next_attempt_def Let_def and_one_even\<close>)
  with inv show "clock_inv (s\<lparr>reader := reader_access (cmem s) (reader s)\<rparr>)" by (simp add: clock_inv_def)
qed

lemma clock_step_published: "clock_step s s' \<Longrightarrow> length (published s) \<le> length (published s')"
  by (auto elim: clock_stepE)

lemma clock_step_inv:
  assumes "clock_step s s'" "clock_inv s" "length (published s') < 2 ^ 63 - 1"
  shows "clock_inv s'"
  using assms(1)
proof (cases rule: clock_step.cases)
  case (store h w)
  have "length (published s) < 2 ^ 63 - 1" using clock_step_published[OF assms(1)] assms(3) by simp
  from writer_step_inv[OF assms(2) store(3) this] store(1) show ?thesis by simp
next
  case load
  then show ?thesis using reader_step_inv(1)[OF assms(2)] assms(3) by simp
next
  case (finish res)
  then show ?thesis using assms(2) by (simp add: clock_inv_def reader_ok_def)
qed (use assms(2) in \<open>auto simp: clock_defs split: reader_pc.splits\<close>)

lemma clock_reachable_inv:
  assumes "clock_reachable h s" "h_clock_seq h = 0" "length (published s) < 2 ^ 63 - 1"
  shows "clock_inv s"
  using assms(1,3)
proof (induction rule: clock_reachable.induct)
  case init
  then show ?case using assms(2) by (simp add: clock_defs clock_init_def)
next
  case (step s s')
  from clock_step_published[OF step.hyps(2)] step.prems step.IH have "clock_inv s" by simp
  from clock_step_inv[OF step.hyps(2) this step.prems] show ?case .
qed

section \<open>The reader finishes\<close>

text \<open>Every access of the reader brings it closer to its result, whatever the header holds.\<close>

fun accesses_left :: "reader_pc \<Rightarrow> nat" where
  "accesses_left RIdle = 65"
| "accesses_left (RSeq k) = 4 * (16 - k)"
| "accesses_left (RTime k seq) = 4 * (16 - k) - 1"
| "accesses_left (RPos k seq t) = 4 * (16 - k) - 2"
| "accesses_left (RCheck k seq t p) = 4 * (16 - k) - 3"
| "accesses_left (RDone res) = 0"

lemma accesses_left_0: "accesses_left r = 0 \<Longrightarrow> (\<exists>res. r = RDone res) \<or> (\<exists>k. r = RSeq k \<and> 16 \<le> k)
    \<or> (\<exists>k seq. r = RTime k seq \<and> 16 \<le> k) \<or> (\<exists>k seq t. r = RPos k seq t \<and> 16 \<le> k)
    \<or> (\<exists>k seq t p. r = RCheck k seq t p \<and> 16 \<le> k)"
  by (cases r) auto

fun attempt_bounded :: "reader_pc \<Rightarrow> bool" where
  "attempt_bounded (RSeq k) = (k < 16)"
| "attempt_bounded (RTime k seq) = (k < 16)"
| "attempt_bounded (RPos k seq t) = (k < 16)"
| "attempt_bounded (RCheck k seq t p) = (k < 16)"
| "attempt_bounded r = True"

lemma reader_access_progress:
  "attempt_bounded r \<Longrightarrow> attempt_bounded (reader_access h r) \<and>
   accesses_left (reader_access h r) \<le> accesses_left r - 1"
  by (cases r) (auto simp: Let_def next_attempt_def)

lemma reader_finishes:
  "attempt_bounded r \<Longrightarrow> accesses_left r \<le> length hs \<Longrightarrow> \<exists>res. fold reader_access hs r = RDone res"
proof (induction hs arbitrary: r)
  case Nil
  then show ?case by (cases r) auto
next
  case (Cons h hs)
  with reader_access_progress[OF Cons.prems(1), of h] show ?case by (auto intro!: Cons.IH)
qed

section \<open>Properties\<close>

text \<open>No reader obtains a torn or stale pair: in every interleaving of the accesses of writer and
  reader, when the reader's last load lets it return a pair, that pair is the one of the latest
  completed publication.  The ring starts with sequence number 0 and the number of publications
  stays below the point where the sequence number would wrap.\<close>

theorem clock_reader_gets_latest:
  assumes "clock_reachable h s" "h_clock_seq h = 0" "length (published s) < 2 ^ 63 - 1"
    "reader_access (cmem s) (reader s) = RDone (Some x)" "reader s \<noteq> RDone (Some x)"
  shows "published s \<noteq> [] \<and> last (published s) = x"
proof (cases "reader s")
  case (RCheck k seq t p)
  with assms(4) have eq: "h_clock_seq (cmem s) = seq" "x = (t, p)"
    by (auto simp: next_attempt_def split: if_splits)
  from clock_reachable_inv[OF assms(1-3)] have "clock_inv s" .
  from reader_step_inv(2)[OF this _ RCheck eq(1)] assms(3) eq(2) show ?thesis by simp
qed (use assms(4,5) in \<open>auto simp: next_attempt_def Let_def split: if_splits\<close>)

definition clock_example :: clock_system where
  "clock_example =
     \<lparr>cmem = (sample_header 2 4 3 5)\<lparr>h_clock_seq := 2, h_clock_host_time := 70, h_clock_sample_pos := 9\<rparr>,
      writer = WIdle, reader = RCheck 0 2 70 9, published = [(70, 9)]\<rparr>"

lemma clock_example_reachable: "clock_reachable (sample_header 2 4 3 5) clock_example"
proof -
  let ?h = "sample_header 2 4 3 5"
  let ?st = "\<lambda>h w r l. \<lparr>cmem = h, writer = w, reader = r, published = l\<rparr>"
  let ?h1 = "?h\<lparr>h_clock_seq := 1\<rparr>" and ?h2 = "?h\<lparr>h_clock_seq := 1, h_clock_host_time := 70\<rparr>"
  let ?h3 = "?h\<lparr>h_clock_seq := 1, h_clock_host_time := 70, h_clock_sample_pos := 9\<rparr>"
  let ?h4 = "?h\<lparr>h_clock_seq := 2, h_clock_host_time := 70, h_clock_sample_pos := 9\<rparr>"
  have "clock_reachable ?h (?st ?h WIdle RIdle [])" using clock_reachable.init by (simp add: clock_init_def)
  then have "clock_reachable ?h (?st ?h (WStart 70 9) RIdle [])"
    by (rule clock_reachable.step) (use clock_step.publish[of "?st ?h WIdle RIdle []" 70 9] in simp)
  then have "clock_reachable ?h (?st ?h1 (WOdd 70 9 0) RIdle [])"
    by (rule clock_reachable.step)
      (use clock_step.store[of "?st ?h (WStart 70 9) RIdle []"] in \<open>simp add: completed_def sample_header_def\<close>)
  then have "clock_reachable ?h (?st ?h2 (WTime 70 9 0) RIdle [])"
    by (rule clock_reachable.step)
      (use clock_step.store[of "?st ?h1 (WOdd 70 9 0) RIdle []"] in \<open>simp add: completed_def\<close>)
  then have "clock_reachable ?h (?st ?h3 (WPos 70 9 0) RIdle [])"
    by (rule clock_reachable.step)
      (use clock_step.store[of "?st ?h2 (WTime 70 9 0) RIdle []"] in \<open>simp add: completed_def\<close>)
  then have "clock_reachable ?h (?st ?h4 WIdle RIdle [(70, 9)])"
    by (rule clock_reachable.step)
      (use clock_step.store[of "?st ?h3 (WPos 70 9 0) RIdle []"] in \<open>simp add: completed_def sample_header_def\<close>)
  then have "clock_reachable ?h (?st ?h4 WIdle (RSeq 0) [(70, 9)])"
    by (rule clock_reachable.step)
      (use clock_step.load[of "?st ?h4 WIdle RIdle [(70, 9)]"] in simp)
  then have "clock_reachable ?h (?st ?h4 WIdle (RTime 0 2) [(70, 9)])"
    by (rule clock_reachable.step)
      (use clock_step.load[of "?st ?h4 WIdle (RSeq 0) [(70, 9)]"] in simp)
  then have "clock_reachable ?h (?st ?h4 WIdle (RPos 0 2 70) [(70, 9)])"
    by (rule clock_reachable.step)
      (use clock_step.load[of "?st ?h4 WIdle (RTime 0 2) [(70, 9)]"] in simp)
  then have "clock_reachable ?h (?st ?h4 WIdle (RCheck 0 2 70 9) [(70, 9)])"
    by (rule clock_reachable.step)
      (use clock_step.load[of "?st ?h4 WIdle (RPos 0 2 70) [(70, 9)]"] in simp)
  then show ?thesis by (simp add: clock_example_def)
qed

theorem clock_reader_gets_latest_witness:
  "published clock_example \<noteq> [] \<and> last (published clock_example) = (70, 9)"
  by (rule clock_reader_gets_latest[OF clock_example_reachable])
    (simp_all add: clock_example_def sample_header_def)

text \<open>C36. The steps of the interleaved system are the functions: four accesses of an undisturbed writer
  are one publication, and the accesses of an undisturbed reader give the result of the
  function.  The reader never blocks: after 65 of its own accesses it has returned, whatever the
  writer stores between them.\<close>

theorem clock_accesses_implement_functions:
  "writer_run 4 (header a, WStart t p) = (header (shared_audio_publish_clock a t p), WIdle) \<and>
   reader_run 65 (header a) RIdle = RDone (shared_audio_get_clock a) \<and>
   (length hs = 65 \<longrightarrow> (\<exists>res. fold reader_access hs RIdle = RDone res))"
proof (intro conjI impI)
  have "reader_run (Suc 64) (header a) RIdle = RDone (shared_audio_get_clock a)"
    using reader_run_attempts[of 0 64 a] by (simp only: reader_run.simps) (simp add: shared_audio_get_clock_def)
  then show "reader_run 65 (header a) RIdle = RDone (shared_audio_get_clock a)" by simp
qed (use writer_run_publish reader_finishes[of RIdle hs] in auto)

theorem clock_accesses_implement_functions_witness:
  "\<exists>res. fold reader_access (replicate 65 (cmem clock_example)) RIdle = RDone res"
  using clock_accesses_implement_functions[of sample_ring 0 0 "replicate 65 (cmem clock_example)"]
  by (simp only: length_replicate)

text \<open>Round trip: what was published is what a later reader gets, until the next publication; a
  ring whose writer never published gives no clock, and neither does one whose writer died in
  the middle of a publication.\<close>

theorem clock_roundtrip:
  assumes "even (unat (h_clock_seq (header a)))" "h_clock_seq (header a) \<noteq> - 2"
  shows "shared_audio_get_clock (shared_audio_publish_clock a t p) = Some (t, p) \<and>
    shared_audio_get_clock (a\<lparr>header := (header a)\<lparr>h_clock_seq := h_clock_seq (header a) + 1\<rparr>\<rparr>) = None \<and>
    (h_clock_seq (header a) = 0 \<longrightarrow> shared_audio_get_clock a = None)"
proof -
  let ?x = "h_clock_seq (header a)"
  have 16: "(16 :: nat) = Suc 15" by simp
  have "even ?x" using assms(1) and_one_even[of ?x] by (simp add: and_one_eq even_iff_mod_2_eq_zero)
  then have ev: "(?x + 2) AND 1 = 0" "(?x + 1) AND 1 \<noteq> 0"
    by (simp_all add: and_one_eq even_iff_mod_2_eq_zero [symmetric])
  have nz: "?x + 2 \<noteq> 0" using assms(2) by (simp add: eq_neg_iff_add_eq_0)
  have odd: "get_clock_attempts k (a\<lparr>header := (header a)\<lparr>h_clock_seq := ?x + 1\<rparr>\<rparr>) = None" for k
    using ev(2) by (induction k) (auto simp: Let_def)
  show ?thesis
    unfolding shared_audio_get_clock_def odd unfolding 16 get_clock_attempts.simps publish_clock_header Let_def
    using ev nz by simp
qed

theorem clock_roundtrip_witness:
  "shared_audio_get_clock (shared_audio_publish_clock sample_ring 1234 5678) = Some (1234, 5678)"
proof -
  have "even (unat (h_clock_seq (header sample_ring)))" "h_clock_seq (header sample_ring) \<noteq> - 2"
    by (simp_all add: sample_ring_def sample_header_def)
  from clock_roundtrip[OF this, of 1234 5678] show ?thesis by blast
qed

end
