(* ===== verification/ClockReleaseAcquire.thy ===== *)
theory ClockReleaseAcquire
  imports SharedClock ReleaseAcquire
begin

text \<open>
  The writer clock of \<open>src/shared_audio.c\<close> on the memory that its atomic accesses are written for.
  The accesses and control states are those of \<open>SharedClock\<close>; each is now an acquire load
  or a release store on the history of its word, so that a reader may find values that have been
  overwritten, and the words in different states of progress.
\<close>

section \<open>Accesses\<close>

datatype clock_word = Seq | HostTime | SamplePos

type_synonym clock_history = "clock_word \<Rightarrow> (clock_word, u64) history"

definition store_word :: "clock_word \<Rightarrow> u64 \<Rightarrow> clock_history \<times> clock_word view \<Rightarrow> clock_history \<times> clock_word view" where
  "store_word x v MV = (case MV of (M, V) \<Rightarrow> case release_store (M x) x v V of (h, V') \<Rightarrow> (M(x := h), V'))"

text \<open>One access of the writer; only its load of the sequence number takes an old store, the one with number \<open>n\<close>.\<close>

fun weak_writer_access ::
  "nat \<Rightarrow> clock_history \<times> clock_word view \<Rightarrow> writer_pc \<Rightarrow> ((clock_history \<times> clock_word view) \<times> writer_pc) option" where
  "weak_writer_access n MV WIdle = Some (MV, WIdle)"
| "weak_writer_access n (M, V) (WStart t p) =
     do { (seq, V') \<leftarrow> relaxed_load (M Seq) Seq n V;
          Some (store_word Seq (seq + 1) (M, V'), WOdd t p seq) }"
| "weak_writer_access n MV (WOdd t p seq) = Some (store_word HostTime t MV, WTime t p seq)"
| "weak_writer_access n MV (WTime t p seq) = Some (store_word SamplePos p MV, WPos t p seq)"
| "weak_writer_access n MV (WPos t p seq) = Some (store_word Seq (seq + 2) MV, WIdle)"

text \<open>One access of the reader, whose load takes the store with number \<open>n\<close>.\<close>

fun weak_reader_access ::
  "nat \<Rightarrow> clock_history \<Rightarrow> clock_word view \<Rightarrow> reader_pc \<Rightarrow> (clock_word view \<times> reader_pc) option" where
  "weak_reader_access n M V RIdle = Some (V, RSeq 0)"
| "weak_reader_access n M V (RSeq k) =
     do { (seq, V') \<leftarrow> acquire_load (M Seq) Seq n V;
          Some (V', if seq = 0 then RDone None
                    else if seq AND 1 \<noteq> 0 then next_attempt k
                    else RTime k seq) }"
| "weak_reader_access n M V (RTime k seq) =
     do { (t, V') \<leftarrow> acquire_load (M HostTime) HostTime n V; Some (V', RPos k seq t) }"
| "weak_reader_access n M V (RPos k seq t) =
     do { (p, V') \<leftarrow> acquire_load (M SamplePos) SamplePos n V; Some (V', RCheck k seq t p) }"
| "weak_reader_access n M V (RCheck k seq t p) =
     do { (seq', V') \<leftarrow> acquire_load (M Seq) Seq n V;
          Some (V', if seq' = seq then RDone (Some (t, p)) else next_attempt k) }"
| "weak_reader_access n M V (RDone res) = Some (V, RDone res)"

section \<open>The system\<close>

text \<open>\<open>publications\<close> collects the completed publications, \<open>obtained\<close> the pairs that calls of the reader returned.\<close>

record weak_clock =
  words :: clock_history
  writer_view :: "clock_word view"
  reader_view :: "clock_word view"
  clock_writer :: writer_pc
  clock_reader :: reader_pc
  publications :: "(u64 \<times> u64) list"
  obtained :: "(u64 \<times> u64) list"

datatype clock_move =
    Publish u64 u64
  | WriterMove nat
  | ReaderMove nat
  | ReaderReturns

fun advance_clock :: "clock_move \<Rightarrow> weak_clock \<Rightarrow> weak_clock option" where
  "advance_clock (Publish t p) s = (if clock_writer s = WIdle then Some (s\<lparr>clock_writer := WStart t p\<rparr>) else None)"
| "advance_clock (WriterMove n) s =
     do { ((M, V), w) \<leftarrow> weak_writer_access n (words s, writer_view s) (clock_writer s);
          Some (s\<lparr>words := M, writer_view := V, clock_writer := w,
                  publications := publications s @ completed (clock_writer s)\<rparr>) }"
| "advance_clock (ReaderMove n) s =
     do { (V, r) \<leftarrow> weak_reader_access n (words s) (reader_view s) (clock_reader s);
          Some (s\<lparr>reader_view := V, clock_reader := r\<rparr>) }"
| "advance_clock ReaderReturns s =
     (case clock_reader s of
        RDone res \<Rightarrow> Some (s\<lparr>clock_reader := RIdle, obtained := obtained s @ (case res of None \<Rightarrow> [] | Some x \<Rightarrow> [x])\<rparr>)
      | _ \<Rightarrow> None)"

fun run_clock :: "clock_move list \<Rightarrow> weak_clock \<Rightarrow> weak_clock option" where
  "run_clock [] s = Some s"
| "run_clock (m # ms) s = advance_clock m s \<bind> run_clock ms"

text \<open>The header of a new ring: no publication, and any two values in the other words.\<close>

definition clock_start :: "u64 \<Rightarrow> u64 \<Rightarrow> weak_clock" where
  "clock_start t p =
     \<lparr>words = (\<lambda>x. first_store (case x of Seq \<Rightarrow> 0 | HostTime \<Rightarrow> t | SamplePos \<Rightarrow> p)),
      writer_view = no_events, reader_view = no_events, clock_writer = WIdle, clock_reader = RIdle,
      publications = [], obtained = []\<rparr>"

section \<open>Invariant\<close>

text \<open>The pair of a publication under way, and the number of its stores to a word.\<close>

definition under_way :: "writer_pc \<Rightarrow> (u64 \<times> u64) list" where
  "under_way w = (case w of WOdd t p seq \<Rightarrow> [(t, p)] | WTime t p seq \<Rightarrow> [(t, p)] | WPos t p seq \<Rightarrow> [(t, p)] | _ \<Rightarrow> [])"

definition stores_made :: "writer_pc \<Rightarrow> clock_word \<Rightarrow> nat" where
  "stores_made w x =
     (case w of
        WOdd t p seq \<Rightarrow> (if x = Seq then 1 else 0)
      | WTime t p seq \<Rightarrow> (if x = SamplePos then 0 else 1)
      | WPos t p seq \<Rightarrow> 1
      | _ \<Rightarrow> 0)"

text \<open>
  Store number \<open>n\<close> of the sequence number has the value \<open>n\<close>; an even one, \<open>2 * j\<close>, brings with it
  the first \<open>j\<close> stores of the two other words, and store \<open>j\<close> of these brings with it the odd
  sequence number \<open>2 * j - 1\<close>.
\<close>

definition seq_history_ok :: "clock_history \<Rightarrow> bool" where
  "seq_history_ok M \<longleftrightarrow>
     (\<forall>n < length (M Seq). fst (M Seq ! n) = of_nat n \<and> snd (M Seq ! n) (StoreTo Seq) = n) \<and>
     (\<forall>j. 2 * j < length (M Seq) \<longrightarrow>
        j \<le> snd (M Seq ! (2 * j)) (StoreTo HostTime) \<and> j \<le> snd (M Seq ! (2 * j)) (StoreTo SamplePos))"

definition word_history_ok :: "clock_word \<Rightarrow> u64 list \<Rightarrow> clock_history \<Rightarrow> bool" where
  "word_history_ok x vs M \<longleftrightarrow>
     (\<forall>j < length (M x). 0 < j \<longrightarrow> fst (M x ! j) = vs ! (j - 1) \<and> 2 * j - 1 \<le> snd (M x ! j) (StoreTo Seq))"

definition known_stores :: "clock_history \<Rightarrow> clock_word view \<Rightarrow> bool" where
  "known_stores M V \<longleftrightarrow> (\<forall>x. V (StoreTo x) < length (M x))"

definition weak_writer_ok :: "weak_clock \<Rightarrow> bool" where
  "weak_writer_ok s \<longleftrightarrow>
     (let M = words s; w = clock_writer s; k = length (publications s); ps = publications s @ under_way w in
      length (M Seq) = 2 * k + 1 + stores_made w Seq \<and>
      length (M HostTime) = k + 1 + stores_made w HostTime \<and> length (M SamplePos) = k + 1 + stores_made w SamplePos \<and>
      seq_history_ok M \<and> word_history_ok HostTime (map fst ps) M \<and> word_history_ok SamplePos (map snd ps) M \<and>
      (\<forall>x. \<forall>m \<in> set (M x). known_stores M (snd m)) \<and> (\<forall>x. writer_view s (StoreTo x) + 1 = length (M x)) \<and>
      (case w of WOdd t p seq \<Rightarrow> seq = of_nat (2 * k) | WTime t p seq \<Rightarrow> seq = of_nat (2 * k)
       | WPos t p seq \<Rightarrow> seq = of_nat (2 * k) | _ \<Rightarrow> True))"

text \<open>
  A reader that has loaded the sequence number \<open>2 * j\<close> either has the values of publication \<open>j\<close> or
  knows that the sequence number has moved on.
\<close>

definition attempt_ok :: "clock_history \<Rightarrow> clock_word view \<Rightarrow> u64 \<Rightarrow> (nat \<Rightarrow> bool) \<Rightarrow> bool" where
  "attempt_ok M V seq got \<longleftrightarrow>
     (\<exists>j. 0 < j \<and> 2 * j < length (M Seq) \<and> seq = of_nat (2 * j) \<and> 2 * j \<le> V (StoreTo Seq) \<and>
        j \<le> V (StoreTo HostTime) \<and> j \<le> V (StoreTo SamplePos) \<and> (got j \<or> 2 * j < V (StoreTo Seq)))"

text \<open>The publications that the reader got, with their numbers, never go back.\<close>

definition gets_in_order :: "(u64 \<times> u64) list \<Rightarrow> (u64 \<times> u64) list \<Rightarrow> nat \<Rightarrow> bool" where
  "gets_in_order ps got n \<longleftrightarrow>
     (\<exists>js. sorted js \<and> got = map ((!) ps) js \<and> (\<forall>j \<in> set js. j < length ps \<and> 2 * (j + 1) \<le> n))"

definition weak_reader_ok :: "weak_clock \<Rightarrow> bool" where
  "weak_reader_ok s \<longleftrightarrow>
     (let M = words s; V = reader_view s in
      known_stores M V \<and>
      gets_in_order (publications s)
        (obtained s @ (case clock_reader s of RDone (Some x) \<Rightarrow> [x] | _ \<Rightarrow> [])) (V (StoreTo Seq)) \<and>
      (case clock_reader s of
         RTime k seq \<Rightarrow> attempt_ok M V seq (\<lambda>j. True)
       | RPos k seq t \<Rightarrow> attempt_ok M V seq (\<lambda>j. t = fst (M HostTime ! j))
       | RCheck k seq t p \<Rightarrow> attempt_ok M V seq (\<lambda>j. t = fst (M HostTime ! j) \<and> p = fst (M SamplePos ! j))
       | _ \<Rightarrow> True))"

definition weak_clock_ok :: "weak_clock \<Rightarrow> bool" where
  "weak_clock_ok s \<longleftrightarrow> weak_writer_ok s \<and> weak_reader_ok s"

section \<open>The reader\<close>

lemma gets_in_order_mono: "gets_in_order ps got n \<Longrightarrow> n \<le> m \<Longrightarrow> gets_in_order ps got m"
  unfolding gets_in_order_def by (fastforce intro: le_trans)

lemma gets_in_order_more:
  assumes "gets_in_order ps got n" shows "gets_in_order (ps @ qs) got n"
proof -
  obtain js where js: "sorted js" "got = map ((!) ps) js" "\<forall>j \<in> set js. j < length ps \<and> 2 * (j + 1) \<le> n"
    using assms unfolding gets_in_order_def by blast
  then have "got = map ((!) (ps @ qs)) js" by (auto simp: nth_append)
  with js show ?thesis unfolding gets_in_order_def by (intro exI[of _ js]) auto
qed

lemma gets_in_order_snoc:
  assumes "gets_in_order ps got n" "n \<le> 2 * j" "0 < j" "j \<le> length ps" "2 * j \<le> m"
  shows "gets_in_order ps (got @ [ps ! (j - 1)]) m"
proof -
  obtain js where js: "sorted js" "got = map ((!) ps) js" "\<forall>i \<in> set js. i < length ps \<and> 2 * (i + 1) \<le> n"
    using assms(1) unfolding gets_in_order_def by blast
  have "sorted (js @ [j - 1])" using js(1,3) assms(2) by (fastforce simp: sorted_append)
  moreover have "\<forall>i \<in> set (js @ [j - 1]). i < length ps \<and> 2 * (i + 1) \<le> m"
    using js(3) assms(2-5) by fastforce
  ultimately show ?thesis unfolding gets_in_order_def using js(2) by (intro exI[of _ "js @ [j - 1]"]) simp
qed

lemma acquire_known:
  assumes "acquire_load (M x) x n V = Some (v, V')" "known_stores M V" "\<forall>x. \<forall>m \<in> set (M x). known_stores M (snd m)"
  shows "known_stores M V'" "V e \<le> V' e" "snd (M x ! n) e \<le> V' e" "n < length (M x)" "V (StoreTo x) \<le> n" "v = fst (M x ! n)"
proof -
  from assms(1) have l: "n < length (M x)" "V (StoreTo x) \<le> n" "v = fst (M x ! n)" "V' = join V (snd (M x ! n))"
    by (simp_all add: acquire_load_Some)
  have "known_stores M (snd (M x ! n))" using assms(3) nth_mem[OF l(1)] by blast
  with assms(2) show "known_stores M V'" by (simp add: known_stores_def l(4) join_bound)
  show "V e \<le> V' e" "snd (M x ! n) e \<le> V' e" unfolding l(4) by (rule join_ge)+
  show "n < length (M x)" "V (StoreTo x) \<le> n" "v = fst (M x ! n)" by (fact l)+
qed

lemma clock_counts:
  assumes "weak_writer_ok s" "length (publications s) < 2 ^ 63 - 1"
  shows "length (words s Seq) < 2 ^ 64" "2 * j < length (words s Seq) \<Longrightarrow> j \<le> length (publications s)"
    "n < length (words s Seq) \<Longrightarrow> unat (of_nat n :: u64) = n"
proof -
  have l: "length (words s Seq) \<le> 2 * length (publications s) + 2"
    using assms(1) by (auto simp: weak_writer_ok_def Let_def stores_made_def split: writer_pc.splits)
  then show b: "length (words s Seq) < 2 ^ 64" using assms(2) by simp
  show "2 * j < length (words s Seq) \<Longrightarrow> j \<le> length (publications s)" using l by linarith
  show "n < length (words s Seq) \<Longrightarrow> unat (of_nat n :: u64) = n" using b by (intro unat_of_nat_small) simp
qed

lemma seq_even_store:
  assumes "weak_writer_ok s" "length (publications s) < 2 ^ 63 - 1" "n < length (words s Seq)"
    "(of_nat n :: u64) \<noteq> 0" "(of_nat n :: u64) AND 1 = 0"
  obtains j where "n = 2 * j" "0 < j"
proof -
  have "even n" using assms(5) clock_counts(3)[OF assms(1-3)] by (simp add: and_one_even)
  moreover have "n \<noteq> 0" using assms(4) by (cases "n = 0") simp_all
  ultimately show ?thesis using that by (metis dvd_def gr0I mult_0_right)
qed

lemma start_attempt:
  assumes "seq_history_ok M" "acquire_load (M Seq) Seq (2 * j) V = Some (v, V')" "0 < j"
  shows "attempt_ok M V' v (\<lambda>j. True)"
proof -
  from assms(2) have l: "2 * j < length (M Seq)" "v = fst (M Seq ! (2 * j))" "V' = join V (snd (M Seq ! (2 * j)))"
    by (simp_all add: acquire_load_Some)
  with assms(1) have "v = of_nat (2 * j)" "snd (M Seq ! (2 * j)) (StoreTo Seq) = 2 * j"
    "j \<le> snd (M Seq ! (2 * j)) (StoreTo HostTime)" "j \<le> snd (M Seq ! (2 * j)) (StoreTo SamplePos)"
    by (simp_all add: seq_history_ok_def)
  moreover have "snd (M Seq ! (2 * j)) e \<le> V' e" for e unfolding l(3) by (rule join_ge)
  ultimately show ?thesis
    unfolding attempt_ok_def using l(1) assms(3) by (intro exI[of _ j]) (metis le_trans)
qed

text \<open>A later load either takes the store of the same publication, or shows that the sequence number has moved.\<close>

lemma continue_attempt:
  assumes "word_history_ok x vs M" "attempt_ok M V seq got" "acquire_load (M x) x n V = Some (v, V')" "x \<noteq> Seq"
  shows "attempt_ok M V' seq (\<lambda>j. got j \<and> v = fst (M x ! j))"
proof -
  obtain j where j: "0 < j" "2 * j < length (M Seq)" "seq = of_nat (2 * j)" "2 * j \<le> V (StoreTo Seq)"
    "j \<le> V (StoreTo HostTime)" "j \<le> V (StoreTo SamplePos)" "got j \<or> 2 * j < V (StoreTo Seq)"
    using assms(2) unfolding attempt_ok_def by blast
  from assms(3) have l: "V (StoreTo x) \<le> n" "n < length (M x)" "v = fst (M x ! n)" "V' = join V (snd (M x ! n))"
    by (simp_all add: acquire_load_Some)
  have "j \<le> n" using l(1) j(5,6) assms(4) by (cases x) auto
  then have "v = fst (M x ! j) \<or> 2 * j < snd (M x ! n) (StoreTo Seq)"
    using assms(1) l(2,3) j(1) unfolding word_history_ok_def by (cases "j = n") fastforce+
  moreover have "V e \<le> V' e" "snd (M x ! n) e \<le> V' e" for e unfolding l(4) by (rule join_ge)+
  ultimately show ?thesis
    unfolding attempt_ok_def using j by (intro exI[of _ j]) (meson le_trans less_le_trans)
qed

text \<open>When the last load of an attempt takes the same number, both values belong to that publication.\<close>

lemma finish_attempt:
  assumes w: "weak_writer_ok s" and few: "length (publications s) < 2 ^ 63 - 1"
    and a: "attempt_ok (words s) V seq (\<lambda>j. t = fst (words s HostTime ! j) \<and> p = fst (words s SamplePos ! j))"
    and l: "acquire_load (words s Seq) Seq n V = Some (seq, V')"
    and got: "gets_in_order (publications s) got (V (StoreTo Seq))"
  shows "gets_in_order (publications s) (got @ [(t, p)]) (V' (StoreTo Seq))"
proof -
  let ?M = "words s" and ?ps = "publications s"
  have inv: "seq_history_ok ?M" "word_history_ok HostTime (map fst (?ps @ under_way (clock_writer s))) ?M"
    "word_history_ok SamplePos (map snd (?ps @ under_way (clock_writer s))) ?M"
    "length ?ps < length (?M HostTime)" "length ?ps < length (?M SamplePos)"
    using w by (auto simp: weak_writer_ok_def Let_def)
  obtain j where j: "0 < j" "2 * j < length (?M Seq)" "seq = of_nat (2 * j)" "2 * j \<le> V (StoreTo Seq)"
    "(t = fst (?M HostTime ! j) \<and> p = fst (?M SamplePos ! j)) \<or> 2 * j < V (StoreTo Seq)"
    using a unfolding attempt_ok_def by blast
  from l have n: "V (StoreTo Seq) \<le> n" "n < length (?M Seq)" "seq = fst (?M Seq ! n)" "V' = join V (snd (?M Seq ! n))"
    by (simp_all add: acquire_load_Some)
  have "seq = of_nat n" using inv(1) n(2,3) by (simp add: seq_history_ok_def)
  then have "n = 2 * j" using j(2,3) n(2) clock_counts(3)[OF w few] by metis
  then have tp: "t = fst (?M HostTime ! j)" "p = fst (?M SamplePos ! j)" and m: "V (StoreTo Seq) \<le> 2 * j"
    using j(5) n(1) by auto
  have k: "j \<le> length ?ps" using clock_counts(2)[OF w few j(2)] .
  then have "fst (?M HostTime ! j) = fst (?ps ! (j - 1))" "fst (?M SamplePos ! j) = snd (?ps ! (j - 1))"
    using inv(2-5) j(1) unfolding word_history_ok_def by (auto simp: nth_append)
  then have "(t, p) = ?ps ! (j - 1)" using tp by simp
  moreover have "2 * j \<le> V' (StoreTo Seq)" using j(4) join_ge(1)[of V "StoreTo Seq"] unfolding n(4) by (meson le_trans)
  ultimately show ?thesis using gets_in_order_snoc[OF got m j(1) k] by simp
qed

lemma begin_attempt:
  assumes w: "weak_writer_ok s" and few: "length (publications s) < 2 ^ 63 - 1"
    and l: "acquire_load (words s Seq) Seq n V = Some (v, V')" and K: "known_stores (words s) V"
    and v: "v \<noteq> 0" "v AND 1 = 0"
  shows "attempt_ok (words s) V' v (\<lambda>j. True)"
proof -
  have M: "\<forall>x. \<forall>m \<in> set (words s x). known_stores (words s) (snd m)" "seq_history_ok (words s)"
    using w by (auto simp: weak_writer_ok_def Let_def)
  note a = acquire_known[OF l K M(1)]
  have "v = of_nat n" using a(4,6) M(2) by (simp add: seq_history_ok_def)
  with seq_even_store[OF w few a(4)] v obtain j where j: "n = 2 * j" "0 < j" by metis
  show ?thesis using start_attempt[OF M(2) _ j(2)] l j(1) by simp
qed

lemma weak_reader_step:
  assumes w: "weak_writer_ok s" and few: "length (publications s) < 2 ^ 63 - 1" and r: "weak_reader_ok s"
    and acc: "weak_reader_access n (words s) (reader_view s) (clock_reader s) = Some (V, pc)"
  shows "weak_reader_ok (s\<lparr>reader_view := V, clock_reader := pc\<rparr>)"
proof -
  let ?M = "words s" and ?V = "reader_view s" and ?ps = "publications s"
  have M: "\<forall>x. \<forall>m \<in> set (?M x). known_stores ?M (snd m)"
    "\<exists>vs. word_history_ok HostTime vs ?M" "\<exists>vs. word_history_ok SamplePos vs ?M"
    using w by (auto simp: weak_writer_ok_def Let_def)
  have K: "known_stores ?M ?V" and
    G: "gets_in_order ?ps (obtained s @ (case clock_reader s of RDone (Some x) \<Rightarrow> [x] | _ \<Rightarrow> [])) (?V (StoreTo Seq))"
    using r by (auto simp: weak_reader_ok_def Let_def)
  show ?thesis
  proof (cases "clock_reader s")
    case (RSeq k)
    then obtain v where l: "acquire_load (?M Seq) Seq n ?V = Some (v, V)" and
      pc: "pc = (if v = 0 then RDone None else if v AND 1 \<noteq> 0 then next_attempt k else RTime k v)"
      using acc by (auto split: bind_splits)
    from begin_attempt[OF w few l K] acquire_known(1,2)[OF l K M(1)] gets_in_order_mono[OF G] RSeq pc
    show ?thesis
      by (auto simp: weak_reader_ok_def Let_def next_attempt_def)
  next
    case (RTime k seq)
    then obtain v where l: "acquire_load (?M HostTime) HostTime n ?V = Some (v, V)" and pc: "pc = RPos k seq v"
      using acc by (auto split: bind_splits)
    have "attempt_ok ?M ?V seq (\<lambda>j. True)" using r RTime by (simp add: weak_reader_ok_def Let_def)
    with M(2) l have "attempt_ok ?M V seq (\<lambda>j. v = fst (?M HostTime ! j))" using continue_attempt by fastforce
    then show ?thesis using acquire_known(1,2)[OF l K M(1)] gets_in_order_mono[OF G] RTime pc
      by (simp add: weak_reader_ok_def Let_def)
  next
    case (RPos k seq t)
    then obtain v where l: "acquire_load (?M SamplePos) SamplePos n ?V = Some (v, V)" and pc: "pc = RCheck k seq t v"
      using acc by (auto split: bind_splits)
    have "attempt_ok ?M ?V seq (\<lambda>j. t = fst (?M HostTime ! j))" using r RPos by (simp add: weak_reader_ok_def Let_def)
    with M(3) l have "attempt_ok ?M V seq (\<lambda>j. t = fst (?M HostTime ! j) \<and> v = fst (?M SamplePos ! j))"
      using continue_attempt by fastforce
    then show ?thesis using acquire_known(1,2)[OF l K M(1)] gets_in_order_mono[OF G] RPos pc
      by (simp add: weak_reader_ok_def Let_def)
  next
    case (RCheck k seq t p)
    then obtain v where l: "acquire_load (?M Seq) Seq n ?V = Some (v, V)" and
      pc: "pc = (if v = seq then RDone (Some (t, p)) else next_attempt k)"
      using acc by (auto split: bind_splits)
    have a: "attempt_ok ?M ?V seq (\<lambda>j. t = fst (?M HostTime ! j) \<and> p = fst (?M SamplePos ! j))"
      using r RCheck by (simp add: weak_reader_ok_def Let_def)
    have G': "gets_in_order ?ps (obtained s) (?V (StoreTo Seq))" using G RCheck by simp
    then have "gets_in_order ?ps (obtained s @ [(t, p)]) (V (StoreTo Seq))" if "v = seq"
      using finish_attempt[OF w few a _ G'] l that by simp
    then show ?thesis using acquire_known(1,2)[OF l K M(1)] gets_in_order_mono[OF G'] RCheck pc
      by (auto simp: weak_reader_ok_def Let_def next_attempt_def)
  qed (use acc r in \<open>auto simp: weak_reader_ok_def Let_def split: option.splits\<close>)
qed

section \<open>The writer\<close>

lemma attempt_keeps:
  assumes "attempt_ok M V seq got" "length (M Seq) \<le> length (M' Seq)"
    "\<And>j. j \<le> V (StoreTo HostTime) \<Longrightarrow> j \<le> V (StoreTo SamplePos) \<Longrightarrow> got j \<Longrightarrow> got' j"
  shows "attempt_ok M' V seq got'"
proof -
  obtain j where "0 < j" "2 * j < length (M Seq)" "seq = of_nat (2 * j)" "2 * j \<le> V (StoreTo Seq)"
    "j \<le> V (StoreTo HostTime)" "j \<le> V (StoreTo SamplePos)" "got j \<or> 2 * j < V (StoreTo Seq)"
    using assms(1) unfolding attempt_ok_def by blast
  with assms(2,3) show ?thesis unfolding attempt_ok_def by (intro exI[of _ j]) auto
qed

lemma reader_keeps:
  assumes r: "weak_reader_ok s" and more: "\<And>x. \<exists>new. M x = words s x @ new"
  shows "weak_reader_ok (s\<lparr>words := M, writer_view := V, clock_writer := pc, publications := publications s @ qs\<rparr>)"
proof -
  let ?R = "reader_view s"
  have len: "length (words s x) \<le> length (M x)" and nth: "j < length (words s x) \<Longrightarrow> M x ! j = words s x ! j" for x j
    using more[of x] by (auto simp: nth_append)
  have K: "known_stores (words s) ?R" using r by (simp add: weak_reader_ok_def Let_def)
  then have known: "known_stores M ?R" using len less_le_trans unfolding known_stores_def by blast
  have same: "M x ! j = words s x ! j" if "j \<le> ?R (StoreTo x)" for j x
    using that K nth le_less_trans unfolding known_stores_def by metis
  have order: "gets_in_order (publications s @ qs) got n" if "gets_in_order (publications s) got n" for got n
    using that by (rule gets_in_order_more)
  have keep: "attempt_ok M ?R seq got'" if "attempt_ok (words s) ?R seq got"
    "\<And>j. j \<le> ?R (StoreTo HostTime) \<Longrightarrow> j \<le> ?R (StoreTo SamplePos) \<Longrightarrow> got j \<Longrightarrow> got' j" for seq got got'
    using attempt_keeps[of "words s" ?R seq got M got'] that len[of Seq] by blast
  show ?thesis
  proof (cases "clock_reader s")
    case (RTime k seq)
    with r known order keep[of seq "\<lambda>j. True" "\<lambda>j. True"] show ?thesis by (simp add: weak_reader_ok_def Let_def)
  next
    case (RPos k seq t)
    with r known order keep[of seq "\<lambda>j. t = fst (words s HostTime ! j)" "\<lambda>j. t = fst (M HostTime ! j)"] same
    show ?thesis by (simp add: weak_reader_ok_def Let_def)
  next
    case (RCheck k seq t p)
    with r known order same keep[of seq "\<lambda>j. t = fst (words s HostTime ! j) \<and> p = fst (words s SamplePos ! j)"
      "\<lambda>j. t = fst (M HostTime ! j) \<and> p = fst (M SamplePos ! j)"]
    show ?thesis by (simp add: weak_reader_ok_def Let_def)
  qed (use r known order in \<open>simp_all add: weak_reader_ok_def Let_def\<close>)
qed

definition writer_views_ok :: "clock_history \<Rightarrow> clock_word view \<Rightarrow> bool" where
  "writer_views_ok M V \<longleftrightarrow> (\<forall>x. \<forall>m \<in> set (M x). known_stores M (snd m)) \<and> (\<forall>x. V (StoreTo x) + 1 = length (M x))"

lemma store_word_views:
  assumes "writer_views_ok M V" "store_word x v (M, V) = (M', V')"
  shows "writer_views_ok M' V'" "\<exists>new. M' y = M y @ new"
proof -
  have M': "M' = M(x := M x @ [(v, V')])" "V' = V(StoreTo x := length (M x))"
    using assms(2) by (auto simp: store_word_def release_store_def Let_def)
  have v: "\<forall>y. V (StoreTo y) + 1 = length (M y)" using assms(1) by (simp add: writer_views_ok_def)
  then have v': "V' (StoreTo y) + 1 = length (M' y)" for y by (simp add: M')
  have grow: "known_stores M W \<Longrightarrow> known_stores M' W" for W
    unfolding known_stores_def M'(1) by (auto intro: less_SucI)
  moreover have "known_stores M' V'" using v' unfolding known_stores_def by (metis less_add_one)
  ultimately have "known_stores M' (snd m)" if "m \<in> set (M' y)" for m y
    using that assms(1) by (auto simp: M'(1) writer_views_ok_def split: if_splits)
  with v' show "writer_views_ok M' V'" by (simp add: writer_views_ok_def)
  show "\<exists>new. M' y = M y @ new" by (simp add: M'(1))
qed

lemma store_seq:
  assumes "seq_history_ok M" "v = of_nat (length (M Seq))" "store_word Seq v (M, V) = (M', V')"
    "\<And>j. length (M Seq) = 2 * j \<Longrightarrow> j \<le> V (StoreTo HostTime) \<and> j \<le> V (StoreTo SamplePos)"
  shows "seq_history_ok M'"
  using assms by (auto simp: seq_history_ok_def store_word_def release_store_def Let_def nth_append less_Suc_eq)

lemma store_other:
  assumes "word_history_ok x vs M" "store_word x v (M, V) = (M', V')" "x \<noteq> Seq" "0 < length (M x)"
    "vs ! (length (M x) - 1) = v" "2 * length (M x) - 1 \<le> V (StoreTo Seq)"
  shows "word_history_ok x vs M'" "seq_history_ok M' = seq_history_ok M" "y \<noteq> x \<Longrightarrow> word_history_ok y us M' = word_history_ok y us M"
  using assms by (auto simp: word_history_ok_def seq_history_ok_def store_word_def release_store_def Let_def nth_append less_Suc_eq)

lemma word_history_prefix:
  assumes "word_history_ok x vs M" "length (M x) \<le> length vs + 1"
  shows "word_history_ok x (vs @ us) M"
  using assms by (auto simp: word_history_ok_def nth_append)

lemma word_history_seq: "x \<noteq> Seq \<Longrightarrow> word_history_ok x vs (M(Seq := h)) = word_history_ok x vs M"
  by (simp add: word_history_ok_def)

text \<open>What the writer relies on in the middle of a publication of \<open>(t, p)\<close>, with \<open>b\<close> and \<open>c\<close> stores made to the two words.\<close>

definition publishing :: "weak_clock \<Rightarrow> clock_history \<Rightarrow> clock_word view \<Rightarrow> u64 \<Rightarrow> u64 \<Rightarrow> nat \<Rightarrow> nat \<Rightarrow> bool" where
  "publishing s M V t p b c \<longleftrightarrow>
     (let k = length (publications s) in
      writer_views_ok M V \<and> seq_history_ok M \<and> length (M Seq) = 2 * k + 2 \<and>
      length (M HostTime) = k + 1 + b \<and> length (M SamplePos) = k + 1 + c \<and>
      word_history_ok HostTime (map fst (publications s) @ [t]) M \<and>
      word_history_ok SamplePos (map snd (publications s) @ [p]) M)"

lemma publishing_stores:
  assumes "publishing s M V t p b c"
  shows "b = 0 \<Longrightarrow> store_word HostTime t (M, V) = (M', V') \<Longrightarrow> publishing s M' V' t p 1 c"
    "c = 0 \<Longrightarrow> store_word SamplePos p (M, V) = (M', V') \<Longrightarrow> publishing s M' V' t p b 1"
proof -
  let ?k = "length (publications s)"
  have f: "writer_views_ok M V" "seq_history_ok M" "length (M Seq) = 2 * ?k + 2"
    "length (M HostTime) = ?k + 1 + b" "length (M SamplePos) = ?k + 1 + c"
    "word_history_ok HostTime (map fst (publications s) @ [t]) M" "word_history_ok SamplePos (map snd (publications s) @ [p]) M"
    using assms by (simp_all add: publishing_def Let_def)
  have v: "V (StoreTo Seq) = 2 * ?k + 1" using f(1,3) unfolding writer_views_ok_def by (metis add_right_cancel add.assoc one_add_one)
  have len: "length (M' y) = length (M y) + (if y = x then 1 else 0)" if "store_word x u (M, V) = (M', V')" for x u y
    using that by (auto simp: store_word_def release_store_def Let_def)
  show "b = 0 \<Longrightarrow> store_word HostTime t (M, V) = (M', V') \<Longrightarrow> publishing s M' V' t p 1 c"
    using store_word_views(1)[OF f(1)] store_other[OF f(6)] f v len by (simp add: publishing_def nth_append)
  show "c = 0 \<Longrightarrow> store_word SamplePos p (M, V) = (M', V') \<Longrightarrow> publishing s M' V' t p b 1"
    using store_word_views(1)[OF f(1)] store_other[OF f(7)] f v len by (simp add: publishing_def nth_append)
qed

lemma weak_writer_publishing:
  assumes "weak_writer_ok s"
  shows "clock_writer s = WOdd t p seq \<Longrightarrow> publishing s (words s) (writer_view s) t p 0 0 \<and> seq = of_nat (2 * length (publications s))"
    "clock_writer s = WTime t p seq \<Longrightarrow> publishing s (words s) (writer_view s) t p 1 0 \<and> seq = of_nat (2 * length (publications s))"
    "clock_writer s = WPos t p seq \<Longrightarrow> publishing s (words s) (writer_view s) t p 1 1 \<and> seq = of_nat (2 * length (publications s))"
  using assms by (simp_all add: weak_writer_ok_def Let_def publishing_def writer_views_ok_def under_way_def stores_made_def)

lemma publishing_weak_writer:
  assumes "seq = of_nat (2 * length (publications s))"
  shows "publishing s M V t p 0 0 \<Longrightarrow> weak_writer_ok (s\<lparr>words := M, writer_view := V, clock_writer := WOdd t p seq\<rparr>)"
    "publishing s M V t p 1 0 \<Longrightarrow> weak_writer_ok (s\<lparr>words := M, writer_view := V, clock_writer := WTime t p seq\<rparr>)"
    "publishing s M V t p 1 1 \<Longrightarrow> weak_writer_ok (s\<lparr>words := M, writer_view := V, clock_writer := WPos t p seq\<rparr>)"
  using assms by (simp_all add: weak_writer_ok_def Let_def publishing_def writer_views_ok_def under_way_def stores_made_def)

text \<open>The first and the last store of a publication.\<close>

lemma begin_publishing:
  assumes w: "weak_writer_ok s" "clock_writer s = WStart t p"
    and acc: "weak_writer_access n (words s, writer_view s) (WStart t p) = Some ((M, V), pc)"
  shows "publishing s M V t p 0 0 \<and> pc = WOdd t p (of_nat (2 * length (publications s))) \<and> (\<exists>new. M x = words s x @ new)"
proof -
  let ?M = "words s" and ?V = "writer_view s" and ?k = "length (publications s)"
  have f: "writer_views_ok ?M ?V" "seq_history_ok ?M" "length (?M Seq) = 2 * ?k + 1"
    "length (?M HostTime) = ?k + 1" "length (?M SamplePos) = ?k + 1"
    "word_history_ok HostTime (map fst (publications s)) ?M" "word_history_ok SamplePos (map snd (publications s)) ?M"
    using w by (simp_all add: weak_writer_ok_def Let_def writer_views_ok_def under_way_def stores_made_def)
  have v: "?V (StoreTo Seq) = 2 * ?k" using f(1,3) unfolding writer_views_ok_def by (metis add_right_cancel)
  obtain seq V' where r: "relaxed_load (?M Seq) Seq n ?V = Some (seq, V')"
    and st: "store_word Seq (seq + 1) (?M, V') = (M, V)" and pc: "pc = WOdd t p seq"
    using acc by (auto split: bind_splits)
  have n: "n = 2 * ?k" "V' = ?V" "seq = fst (?M Seq ! n)"
    using r v f(3) by (auto simp: relaxed_load_def split: if_splits)
  then have seq: "seq = of_nat (2 * ?k)" using f(2,3) by (simp add: seq_history_ok_def)
  note st = st [unfolded n(2)]
  have M: "M = ?M(Seq := ?M Seq @ [(seq + 1, V)])" using st by (auto simp: store_word_def release_store_def Let_def)
  have odd: "Suc (?k * 2) \<noteq> j * 2" for j by presburger
  have "seq_history_ok M" by (rule store_seq[OF f(2) _ st]) (use f(3) seq odd in \<open>simp_all add: ac_simps\<close>)
  moreover have "word_history_ok HostTime (map fst (publications s) @ [t]) M" "word_history_ok SamplePos (map snd (publications s) @ [p]) M"
    unfolding M using f(4-7) by (simp_all add: word_history_seq word_history_prefix)
  ultimately show ?thesis
    using store_word_views[OF f(1) st] f(3-5) pc seq by (simp add: publishing_def Let_def M)
qed

lemma end_publishing:
  assumes p: "publishing s M V t p 1 1" and seq: "seq = of_nat (2 * length (publications s))"
    and st: "store_word Seq (seq + 2) (M, V) = (M', V')"
  shows "weak_writer_ok (s\<lparr>words := M', writer_view := V', clock_writer := WIdle, publications := publications s @ [(t, p)]\<rparr>)"
proof -
  let ?k = "length (publications s)"
  have f: "writer_views_ok M V" "seq_history_ok M" "length (M Seq) = 2 * ?k + 2"
    "length (M HostTime) = ?k + 2" "length (M SamplePos) = ?k + 2"
    "word_history_ok HostTime (map fst (publications s) @ [t]) M" "word_history_ok SamplePos (map snd (publications s) @ [p]) M"
    using p by (simp_all add: publishing_def Let_def)
  have v: "V (StoreTo HostTime) = ?k + 1" "V (StoreTo SamplePos) = ?k + 1"
    using f(1,4,5) unfolding writer_views_ok_def by (metis add_right_cancel add.assoc one_add_one)+
  have M: "M' = M(Seq := M Seq @ [(seq + 2, V')])" using st by (auto simp: store_word_def release_store_def Let_def)
  have "seq_history_ok M'" by (rule store_seq[OF f(2) _ st]) (use f(3) seq v in \<open>simp_all add: ac_simps\<close>)
  with store_word_views(1)[OF f(1) st] f show ?thesis
    by (simp add: weak_writer_ok_def Let_def writer_views_ok_def under_way_def stores_made_def M word_history_seq)
qed

lemma weak_writer_step:
  assumes w: "weak_writer_ok s"
    and acc: "weak_writer_access n (words s, writer_view s) (clock_writer s) = Some ((M, V), pc)"
  shows "weak_writer_ok (s\<lparr>words := M, writer_view := V, clock_writer := pc, publications := publications s @ completed (clock_writer s)\<rparr>) \<and>
    (\<exists>new. M x = words s x @ new)"
proof (cases "clock_writer s")
  case (WStart t p)
  with begin_publishing[OF w WStart, of n M V pc x] acc publishing_weak_writer(1)[of _ s M V t p] show ?thesis
    by (simp add: completed_def)
next
  case (WOdd t p seq)
  then have st: "store_word HostTime t (words s, writer_view s) = (M, V)" "pc = WTime t p seq" using acc by auto
  note p = weak_writer_publishing(1)[OF w WOdd]
  have "publishing s M V t p 1 0" by (rule publishing_stores(1)[OF conjunct1[OF p] refl st(1)])
  from publishing_weak_writer(2)[OF conjunct2[OF p] this] p store_word_views(2)[OF _ st(1), of x] WOdd st(2)
  show ?thesis by (simp add: completed_def publishing_def Let_def)
next
  case (WTime t p seq)
  then have st: "store_word SamplePos p (words s, writer_view s) = (M, V)" "pc = WPos t p seq" using acc by auto
  note p = weak_writer_publishing(2)[OF w WTime]
  have "publishing s M V t p 1 1" by (rule publishing_stores(2)[OF conjunct1[OF p] refl st(1)])
  from publishing_weak_writer(3)[OF conjunct2[OF p] this] p store_word_views(2)[OF _ st(1), of x] WTime st(2)
  show ?thesis by (simp add: completed_def publishing_def Let_def)
next
  case (WPos t p seq)
  then have st: "store_word Seq (seq + 2) (words s, writer_view s) = (M, V)" "pc = WIdle" using acc by auto
  note p = weak_writer_publishing(3)[OF w WPos]
  from end_publishing[OF conjunct1[OF p] conjunct2[OF p] st(1)] p store_word_views(2)[OF _ st(1), of x] WPos st(2)
  show ?thesis by (simp add: completed_def publishing_def Let_def)
qed (use acc w in \<open>auto simp: completed_def weak_writer_ok_def Let_def\<close>)

section \<open>Every run\<close>

lemma advance_publications: "advance_clock m s = Some s' \<Longrightarrow> length (publications s) \<le> length (publications s')"
  by (cases m) (auto split: if_splits bind_splits reader_pc.splits)

lemma run_publications: "run_clock ms s = Some s' \<Longrightarrow> length (publications s) \<le> length (publications s')"
  by (induction ms arbitrary: s) (auto split: bind_splits dest: advance_publications intro: le_trans)

lemma weak_clock_start: "weak_clock_ok (clock_start t p)"
proof -
  have "gets_in_order [] [] 0" by (auto simp: gets_in_order_def intro: exI[of _ "[]"])
  then show ?thesis
    by (simp add: weak_clock_ok_def weak_writer_ok_def weak_reader_ok_def clock_start_def Let_def first_store_def no_events_def
      under_way_def stores_made_def seq_history_ok_def word_history_ok_def known_stores_def)
qed

lemma advance_clock_ok:
  assumes "weak_clock_ok s" "length (publications s) < 2 ^ 63 - 1" "advance_clock m s = Some s'"
  shows "weak_clock_ok s'"
proof -
  have w: "weak_writer_ok s" and r: "weak_reader_ok s" using assms(1) by (simp_all add: weak_clock_ok_def)
  show ?thesis
  proof (cases m)
    case (Publish t p)
    then have s': "clock_writer s = WIdle" "s' = s\<lparr>clock_writer := WStart t p\<rparr>" using assms(3) by (simp_all split: if_splits)
    have "weak_writer_ok s'" using w s' by (simp add: weak_writer_ok_def Let_def under_way_def stores_made_def)
    moreover have "weak_reader_ok s'" using r s'(2) by (simp add: weak_reader_ok_def)
    ultimately show ?thesis by (simp add: weak_clock_ok_def)
  next
    case (WriterMove n)
    then obtain M V pc where acc: "weak_writer_access n (words s, writer_view s) (clock_writer s) = Some ((M, V), pc)"
      and s': "s' = s\<lparr>words := M, writer_view := V, clock_writer := pc, publications := publications s @ completed (clock_writer s)\<rparr>"
      using assms(3) by (auto split: bind_splits)
    show ?thesis unfolding s' weak_clock_ok_def
      using weak_writer_step[OF w acc] reader_keeps[OF r, of M] by blast
  next
    case (ReaderMove n)
    then obtain V pc where acc: "weak_reader_access n (words s) (reader_view s) (clock_reader s) = Some (V, pc)"
      and s': "s' = s\<lparr>reader_view := V, clock_reader := pc\<rparr>"
      using assms(3) by (auto split: bind_splits)
    show ?thesis unfolding s' weak_clock_ok_def
      using weak_reader_step[OF w assms(2) r acc] w by (simp add: weak_writer_ok_def)
  next
    case ReaderReturns
    then obtain res where d: "clock_reader s = RDone res" and
      s': "s' = s\<lparr>clock_reader := RIdle, obtained := obtained s @ (case res of None \<Rightarrow> [] | Some x \<Rightarrow> [x])\<rparr>"
      using assms(3) by (auto split: reader_pc.splits)
    have "weak_writer_ok s'" using w unfolding s' by (simp add: weak_writer_ok_def)
    moreover have "weak_reader_ok s'" using r d unfolding s' by (cases res) (simp_all add: weak_reader_ok_def)
    ultimately show ?thesis by (simp add: weak_clock_ok_def)
  qed
qed

lemma run_clock_ok:
  assumes "run_clock ms s = Some s'" "weak_clock_ok s" "length (publications s') < 2 ^ 63 - 1"
  shows "weak_clock_ok s'"
  using assms
proof (induction ms arbitrary: s)
  case (Cons m ms)
  then obtain s1 where s1: "advance_clock m s = Some s1" "run_clock ms s1 = Some s'" by (auto split: bind_splits)
  have "length (publications s) < 2 ^ 63 - 1"
    using run_publications[OF s1(2)] advance_publications[OF s1(1)] Cons.prems(3) by linarith
  from Cons.IH[OF s1(2) advance_clock_ok[OF Cons.prems(2) this s1(1)] Cons.prems(3)] show ?case .
qed simp

section \<open>Properties\<close>

text \<open>C9. The sequence lock is right on the memory that its accesses ask for, not only on a sequentially
  consistent one: whatever the order of the accesses of writer and reader and whichever
  old values the loads of the reader find, the pairs that its calls return are pairs of
  completed publications, never a time and a position of different ones, and never older than a
  pair it returned before; and a load always finds a value.\<close>

theorem weak_clock_never_torn:
  assumes "run_clock ms (clock_start t0 p0) = Some s" "length (publications s) < 2 ^ 63 - 1"
  shows "(\<exists>js. sorted js \<and> (\<forall>j \<in> set js. j < length (publications s)) \<and> obtained s = map ((!) (publications s)) js) \<and>
    (\<exists>n. weak_reader_access n (words s) (reader_view s) (clock_reader s) \<noteq> None)"
proof
  have ok: "weak_writer_ok s" "weak_reader_ok s"
    using run_clock_ok[OF assms(1) weak_clock_start assms(2)] by (simp_all add: weak_clock_ok_def)
  then obtain got n where "gets_in_order (publications s) (obtained s @ got) n" by (auto simp: weak_reader_ok_def Let_def)
  then obtain js where "sorted js" "obtained s @ got = map ((!) (publications s)) js" "\<forall>j \<in> set js. j < length (publications s)"
    unfolding gets_in_order_def by blast
  moreover from this have "obtained s = map ((!) (publications s)) (take (length (obtained s)) js)"
    by (metis append_eq_conv_conj take_map)
  ultimately show "\<exists>js. sorted js \<and> (\<forall>j \<in> set js. j < length (publications s)) \<and> obtained s = map ((!) (publications s)) js"
    by (intro exI[of _ "take (length (obtained s)) js"])
      (auto simp: sorted_wrt_take dest: in_set_takeD)
  have "known_stores (words s) (reader_view s)" using ok(2) by (simp add: weak_reader_ok_def Let_def)
  then have "acquire_load (words s x) x (reader_view s (StoreTo x)) (reader_view s) \<noteq> None" for x
    by (simp add: acquire_load_def known_stores_def)
  then show "\<exists>n. weak_reader_access n (words s) (reader_view s) (clock_reader s) \<noteq> None"
    by (cases "clock_reader s") (fastforce split: bind_splits)+
qed

text \<open>A reader that finds the first sequence number, and with it the first pair, after the second publication.\<close>

definition old_pair_moves :: "clock_move list" where
  "old_pair_moves =
     [Publish 70 9, WriterMove 0, WriterMove 0, WriterMove 0, WriterMove 0,
      Publish 80 10, WriterMove 2, WriterMove 0, WriterMove 0, WriterMove 0,
      ReaderMove 0, ReaderMove 2, ReaderMove 1, ReaderMove 1, ReaderMove 2, ReaderReturns,
      ReaderMove 0, ReaderMove 4, ReaderMove 2, ReaderMove 2, ReaderMove 4, ReaderReturns]"

lemma old_pair_run:
  "map_option (\<lambda>s. (publications s, obtained s)) (run_clock (take 16 old_pair_moves) (clock_start 0 0)) =
     Some ([(70, 9), (80, 10)], [(70, 9)])"
  "map_option (\<lambda>s. (publications s, obtained s)) (run_clock old_pair_moves (clock_start 0 0)) =
     Some ([(70, 9), (80, 10)], [(70, 9), (80, 10)])"
  by code_simp+

lemma weak_clock_never_torn_witness:
  "\<exists>s. run_clock old_pair_moves (clock_start 0 0) = Some s \<and> obtained s = [(70, 9), (80, 10)] \<and>
     (\<exists>js. sorted js \<and> obtained s = map ((!) (publications s)) js)"
proof -
  obtain s where s: "run_clock old_pair_moves (clock_start 0 0) = Some s" "publications s = [(70, 9), (80, 10)]"
    "obtained s = [(70, 9), (80, 10)]"
    using old_pair_run(2) by (cases "run_clock old_pair_moves (clock_start 0 0)") auto
  have "length (publications s) < 2 ^ 63 - 1" using s(2) by simp
  from weak_clock_never_torn[OF s(1) this] s(1,3) show ?thesis by blast
qed

end
