(* ===== verification/FloatModel.thy ===== *)
theory FloatModel
  imports ReacPrelude Complex_Main "HOL-Library.Log_Nat"
begin

text \<open>
  The C types \<open>float\<close> and \<open>double\<close> (\<open>Float32\<close> and \<open>Float64\<close> in the driver).  A
  finite floating point value is modelled by the rational number it denotes, and every
  floating point operation by the exact operation followed by rounding to nearest, ties to
  even, with 24 or 53 significant bits.  Overflow, subnormal numbers and NaN are outside the
  model: the values the sources compute stay far inside the normal range, and the one
  division whose divisor may be zero is made explicit where it occurs.
\<close>

definition round_half_even :: "rat \<Rightarrow> int" where
  "round_half_even x =
     (let f = \<lfloor>x\<rfloor>; r = x - of_int f
      in if r < 1 / 2 then f else if 1 / 2 < r then f + 1 else if even f then f else f + 1)"

text \<open>The binary exponent \<open>\<lfloor>log\<^sub>2 x\<rfloor>\<close> of a positive rational number.\<close>

definition exponent_of :: "rat \<Rightarrow> int" where
  "exponent_of x =
     (let (n, d) = quotient_of x; e = bitlen n - bitlen d
      in if 2 powi e \<le> x then e else e - 1)"

definition round_to :: "nat \<Rightarrow> rat \<Rightarrow> rat" where
  "round_to p x =
     (if x = 0 then 0
      else let e = exponent_of \<bar>x\<bar> - int p + 1
           in of_int (round_half_even (x / 2 powi e)) * 2 powi e)"

abbreviation f32 :: "rat \<Rightarrow> rat" where "f32 \<equiv> round_to 24"
abbreviation f64 :: "rat \<Rightarrow> rat" where "f64 \<equiv> round_to 53"

section \<open>Rounding to an integer\<close>

lemma round_half_even_of_int [simp]: "round_half_even (of_int n) = n"
  by (simp add: round_half_even_def)

lemma round_half_even_bounds:
  "of_int (round_half_even x) \<le> x + 1 / 2" "x - 1 / 2 \<le> of_int (round_half_even x)"
proof -
  define f where "f = \<lfloor>x\<rfloor>"
  have "of_int f \<le> x" "x < of_int f + 1"
    using floor_correct[of x] by (auto simp: f_def)
  then show "of_int (round_half_even x) \<le> x + 1 / 2" "x - 1 / 2 \<le> of_int (round_half_even x)"
    unfolding round_half_even_def Let_def f_def [symmetric] by auto
qed

lemma round_half_even_near:
  assumes "x < y" shows "round_half_even x \<le> round_half_even y"
proof -
  have fl: "\<lfloor>x\<rfloor> \<le> \<lfloor>y\<rfloor>" using assms by (simp add: floor_mono)
  show ?thesis
  proof (cases "\<lfloor>x\<rfloor> = \<lfloor>y\<rfloor>")
    case True
    with assms show ?thesis by (auto simp: round_half_even_def Let_def)
  next
    case False
    with fl have "\<lfloor>x\<rfloor> + 1 \<le> \<lfloor>y\<rfloor>" by simp
    then show ?thesis by (auto simp: round_half_even_def Let_def)
  qed
qed

lemma round_half_even_mono: "x \<le> y \<Longrightarrow> round_half_even x \<le> round_half_even y"
  using round_half_even_near[of x y] by (cases "x = y") auto

lemma round_half_even_uminus: "round_half_even (- x) = - round_half_even x"
proof (cases "x = of_int \<lfloor>x\<rfloor>")
  case True
  then have "- x = of_int (- \<lfloor>x\<rfloor>)" by simp
  then show ?thesis using True by (metis round_half_even_of_int)
next
  case False
  moreover have "of_int \<lfloor>x\<rfloor> \<le> x" "x < of_int \<lfloor>x\<rfloor> + 1"
    using floor_correct[of x] by auto
  ultimately have fl: "\<lfloor>- x\<rfloor> = - \<lfloor>x\<rfloor> - 1"
    by (intro floor_unique) (auto simp: le_less)
  show ?thesis
    by (auto simp: round_half_even_def Let_def fl)
qed

section \<open>The exponent\<close>

lemma powi_diff_frac: "(2::rat) powi (a - b) = 2 powi a / 2 powi b"
  by (simp add: power_int_diff)

lemma powi_mono: "a \<le> b \<Longrightarrow> (2::rat) powi a \<le> 2 powi b"
  by (rule power_int_increasing) auto

lemma powi_pos [simp]: "0 < (2::rat) powi a"
  by simp

lemma bitlen_rat_bounds:
  assumes "0 < n"
  shows "(2::rat) powi (bitlen n - 1) \<le> of_int n" "of_int n < (2::rat) powi (bitlen n)"
proof -
  have b: "0 < bitlen n" using bitlen_bounds[OF assms] assms by (cases "bitlen n \<le> 0") auto
  have "of_int (2 ^ nat (bitlen n - 1)) \<le> (of_int n :: rat)"
    using bitlen_bounds[OF assms] by (subst of_int_le_iff) simp
  then show "(2::rat) powi (bitlen n - 1) \<le> of_int n"
    using b by (simp add: power_int_def)
  have "of_int n < (of_int (2 ^ nat (bitlen n)) :: rat)"
    using bitlen_bounds[OF assms] by (subst of_int_less_iff) simp
  then show "of_int n < (2::rat) powi (bitlen n)"
    using b by (simp add: power_int_def)
qed

lemma exponent_of_bounds:
  assumes "0 < x"
  shows "2 powi (exponent_of x) \<le> x" "x < 2 powi (exponent_of x + 1)"
proof -
  obtain n d where q: "quotient_of x = (n, d)" by (cases "quotient_of x")
  have d: "0 < d" and x: "x = of_int n / of_int d"
    using quotient_of_denom_pos[OF q] quotient_of_div[OF q] by auto
  have n: "0 < n" using assms d by (simp add: x zero_less_divide_iff)
  note nb = bitlen_rat_bounds[OF n] and db = bitlen_rat_bounds[OF d]
  let ?e = "bitlen n - bitlen d"
  have "2 powi (?e - 1) = (2::rat) powi (bitlen n - 1) / 2 powi bitlen d"
    by (simp add: powi_diff_frac)
  also have "\<dots> \<le> x"
    unfolding x using nb db d n by (intro frac_le) auto
  finally have lo: "2 powi (?e - 1) \<le> x" .
  have "x < 2 powi bitlen n / 2 powi (bitlen d - 1)"
    unfolding x using nb db d n by (intro frac_less) auto
  also have "\<dots> = 2 powi (?e + 1)"
    by (simp add: powi_diff_frac power_int_add)
  finally have hi: "x < 2 powi (?e + 1)" .
  show "2 powi (exponent_of x) \<le> x" "x < 2 powi (exponent_of x + 1)"
    using lo hi by (auto simp: exponent_of_def q Let_def)
qed

lemma exponent_of_mono:
  assumes "0 < x" "x \<le> y" shows "exponent_of x \<le> exponent_of y"
proof (rule ccontr)
  assume "\<not> ?thesis"
  then have "2 powi (exponent_of y + 1) \<le> (2::rat) powi (exponent_of x)"
    by (intro powi_mono) simp
  also have "\<dots> \<le> y" using exponent_of_bounds(1)[OF assms(1)] assms(2) by linarith
  finally show False using exponent_of_bounds(2)[of y] assms by linarith
qed

section \<open>Rounding to a number of significant bits\<close>

lemma round_to_0 [simp]: "round_to p 0 = 0"
  by (simp add: round_to_def)

lemma round_to_uminus: "round_to p (- x) = - round_to p x"
  by (simp add: round_to_def Let_def round_half_even_uminus)

text \<open>A number with at most \<open>p\<close> significant bits is not changed by rounding.\<close>

lemma round_to_exact:
  assumes "\<bar>m\<bar> < 2 ^ p"
  shows "round_to p (of_int m * 2 powi k) = of_int m * 2 powi k"
proof (cases "m = 0")
  case False
  let ?x = "of_int m * 2 powi k :: rat"
  define e where "e = exponent_of \<bar>?x\<bar> - int p + 1"
  have pos: "0 < \<bar>?x\<bar>" using False by simp
  have "\<bar>?x\<bar> < 2 powi (int p + k)"
  proof -
    have "\<bar>of_int m :: rat\<bar> < 2 ^ p"
      using assms by (metis of_int_abs of_int_less_iff of_int_numeral of_int_power)
    then show ?thesis by (simp add: abs_mult power_int_add)
  qed
  then have "2 powi (exponent_of \<bar>?x\<bar>) < (2::rat) powi (int p + k)"
    using exponent_of_bounds(1)[OF pos] by linarith
  then have "exponent_of \<bar>?x\<bar> < int p + k"
    using powi_mono[of "int p + k" "exponent_of \<bar>?x\<bar>"] by linarith
  then have ek: "e \<le> k" by (simp add: e_def)
  have "?x / 2 powi e = of_int (m * 2 ^ nat (k - e))"
  proof -
    have "?x / 2 powi e = of_int m * 2 powi (k - e)" by (simp add: powi_diff_frac)
    also have "\<dots> = of_int m * 2 ^ nat (k - e)" using ek by (simp add: power_int_def)
    finally show ?thesis by simp
  qed
  then have "of_int (round_half_even (?x / 2 powi e)) = ?x / 2 powi e"
    by (metis round_half_even_of_int)
  then show ?thesis
    using False by (simp add: round_to_def Let_def flip: e_def)
qed simp

lemma round_to_binade:
  assumes "0 < x" "0 < p"
  shows "2 powi exponent_of x \<le> round_to p x" "round_to p x \<le> 2 powi (exponent_of x + 1)"
proof -
  let ?k = "exponent_of x"
  let ?e = "?k - int p + 1"
  let ?m = "round_half_even (x / 2 powi ?e)"
  have r: "round_to p x = of_int ?m * 2 powi ?e"
    using assms by (simp add: round_to_def Let_def)
  have lo: "(2::rat) powi ?k = of_int (2 ^ (p - 1)) * 2 powi ?e"
  proof -
    have "(2::rat) powi ?k = 2 powi (int (p - 1) + ?e)" using assms(2) by (simp add: of_nat_diff)
    also have "\<dots> = 2 powi int (p - 1) * 2 powi ?e" by (rule power_int_add) simp
    finally show ?thesis by simp
  qed
  have hi: "(2::rat) powi (?k + 1) = of_int (2 ^ p) * 2 powi ?e"
    by (simp flip: power_int_of_nat power_int_add)
  have "of_int (2 ^ (p - 1)) \<le> x / 2 powi ?e"
    using exponent_of_bounds(1)[OF assms(1)] by (simp add: lo pos_le_divide_eq)
  then have "2 ^ (p - 1) \<le> ?m"
    using round_half_even_mono by (metis round_half_even_of_int)
  then show "2 powi ?k \<le> round_to p x"
    unfolding r lo by (intro mult_right_mono) (simp_all only: of_int_le_iff powi_pos less_imp_le)
  have "x / 2 powi ?e \<le> of_int (2 ^ p)"
    using exponent_of_bounds(2)[OF assms(1)] by (simp add: hi pos_divide_le_eq)
  then have "?m \<le> 2 ^ p"
    using round_half_even_mono by (metis round_half_even_of_int)
  then show "round_to p x \<le> 2 powi (?k + 1)"
    unfolding r hi by (intro mult_right_mono) (simp_all only: of_int_le_iff powi_pos less_imp_le)
qed

lemma round_to_mono_pos:
  assumes "0 < x" "x \<le> y" "0 < p"
  shows "round_to p x \<le> round_to p y"
proof (cases "exponent_of x = exponent_of y")
  case True
  have "round_half_even (x / 2 powi e) \<le> round_half_even (y / 2 powi e)" for e
    using assms by (intro round_half_even_mono divide_right_mono) auto
  then show ?thesis
    using True assms by (simp add: round_to_def Let_def)
next
  case False
  with exponent_of_mono[OF assms(1,2)] have "exponent_of x + 1 \<le> exponent_of y" by simp
  then have "(2::rat) powi (exponent_of x + 1) \<le> 2 powi exponent_of y" by (rule powi_mono)
  then show ?thesis
    using round_to_binade(2)[of x p] round_to_binade(1)[of y p] assms by linarith
qed

lemma round_to_nonneg: "0 \<le> x \<Longrightarrow> 0 < p \<Longrightarrow> 0 \<le> round_to p x"
  by (cases "x = 0") (auto intro: order_trans [OF less_imp_le [OF powi_pos] round_to_binade(1)])

lemma round_to_mono:
  assumes "x \<le> y" "0 < p"
  shows "round_to p x \<le> round_to p y"
proof -
  consider "0 < x" | "x \<le> 0" "0 \<le> y" | "y < 0" by linarith
  then show ?thesis
  proof cases
    case 1
    with assms show ?thesis by (intro round_to_mono_pos)
  next
    case 2
    then show ?thesis
      using round_to_nonneg[of y p] round_to_nonneg[of "- x" p] assms(2)
      by (simp add: round_to_uminus)
  next
    case 3
    then show ?thesis
      using round_to_mono_pos[of "- y" "- x" p] assms by (simp add: round_to_uminus)
  qed
qed

lemma round_to_int:
  "\<bar>m\<bar> < 2 ^ p \<Longrightarrow> round_to p (of_int m) = of_int m"
  using round_to_exact[of m p 0] by simp

text \<open>Rounding changes a number by at most one part in \<open>2\<^sup>p\<close>.\<close>

lemma round_to_error:
  assumes "0 < p"
  shows "\<bar>round_to p x - x\<bar> \<le> \<bar>x\<bar> / 2 ^ p"
proof (cases "x = 0")
  case False
  define k where "k = exponent_of \<bar>x\<bar>"
  define e where "e = k - int p + 1"
  have b: "2 powi k \<le> \<bar>x\<bar>" using exponent_of_bounds(1)[of "\<bar>x\<bar>"] False by (simp add: k_def)
  have "round_to p x - x = (of_int (round_half_even (x / 2 powi e)) - x / 2 powi e) * 2 powi e"
    using False by (simp add: round_to_def Let_def k_def e_def left_diff_distrib)
  then have "\<bar>round_to p x - x\<bar> = \<bar>of_int (round_half_even (x / 2 powi e)) - x / 2 powi e\<bar> * 2 powi e"
    by (simp add: abs_mult)
  also have "\<dots> \<le> 1 / 2 * 2 powi e"
    using round_half_even_bounds[of "x / 2 powi e"] by (intro mult_right_mono) (linarith, simp)
  also have "\<dots> = 2 powi k / 2 ^ p"
  proof -
    have "(2::rat) powi e = 2 powi (k - int p) * 2 powi 1" unfolding e_def by (subst power_int_add) simp_all
    then show ?thesis by (simp add: powi_diff_frac)
  qed
  also have "\<dots> \<le> \<bar>x\<bar> / 2 ^ p" using b by (intro divide_right_mono) simp_all
  finally show ?thesis .
qed simp

lemma round_to_le:
  assumes "0 \<le> x" "0 < p" shows "round_to p x \<le> x + x / 2 ^ p"
  using round_to_error[OF assms(2), of x] assms(1) by (simp add: abs_le_iff)

lemma round_to_ge:
  assumes "0 \<le> x" "0 < p" shows "x - x / 2 ^ p \<le> round_to p x"
  using round_to_error[OF assms(2), of x] assms(1) by (simp add: abs_le_iff)

text \<open>A rounded number is a number of the format.\<close>

lemma round_to_idem [simp]:
  assumes "0 < p" shows "round_to p (round_to p x) = round_to p x"
proof -
  have pos: "round_to p (round_to p x) = round_to p x" if x: "0 < x" for x
  proof -
    define e where "e = exponent_of x - int p + 1"
    let ?m = "round_half_even (x / 2 powi e)"
    have r: "round_to p x = of_int ?m * 2 powi e" using x by (simp add: round_to_def Let_def e_def)
    have hi: "(2::rat) powi (exponent_of x + 1) = of_int (2 ^ p) * 2 powi e"
      by (simp add: e_def flip: power_int_of_nat power_int_add)
    have "of_int ?m * 2 powi e \<le> of_int (2 ^ p) * (2::rat) powi e"
      using round_to_binade(2)[OF x assms] by (simp only: r hi)
    then have m: "?m \<le> 2 ^ p" by (metis mult_le_cancel_right_pos of_int_le_iff powi_pos)
    have nn: "0 \<le> ?m" using round_half_even_mono[of 0 "x / 2 powi e"] x round_half_even_of_int[of 0] by simp
    show ?thesis
    proof (cases "?m = 2 ^ p")
      case True
      then have "round_to p x = of_int 1 * 2 powi (int p + e)" unfolding r True by (simp add: power_int_add)
      then show ?thesis using round_to_exact[of 1 p "int p + e"] assms by simp
    next
      case False
      then show ?thesis unfolding r using m nn by (intro round_to_exact) simp
    qed
  qed
  consider "0 < x" | "x = 0" | "0 < - x" by linarith
  then show ?thesis
  proof cases
    case 3
    then show ?thesis using pos[of "- x"] by (simp add: round_to_uminus)
  qed (simp_all add: pos)
qed

end
