(* ===== verification/ReacDecode.thy ===== *)
theory ReacDecode
  imports FloatModel
begin

text \<open>
  The REAC packet decoder: \<open>src/reac.h\<close>, \<open>src/reac_decode.h\<close> and \<open>src/reac_decode.c\<close>.
  A pointer argument is an \<open>option\<close> (\<^term>\<open>None\<close> is \<open>NULL\<close>); the result \<^term>\<open>None\<close> of an
  operation means an access outside a buffer.  The sample encoder is the one of
  \<open>tests/test_reac_decode.c\<close> and serves as the reference for the round trip.
\<close>

section \<open>Data\<close>

datatype ReacStatus =
    REAC_STATUS_OK
  | REAC_STATUS_BAD_ARGUMENT
  | REAC_STATUS_NOT_REAC
  | REAC_STATUS_SHORT_PACKET
  | REAC_STATUS_BAD_END_MARKER
  | REAC_STATUS_BAD_PAYLOAD_SIZE
  | REAC_STATUS_UNSUPPORTED_CHANNEL_COUNT

text \<open>
  \<open>pv_payload\<close> is the packet's memory from the pointer on; \<open>payload_size\<close> bytes of it are
  the payload.
\<close>

record ReacPacketView =
  pv_counter :: u16
  pv_channels :: u16
  pv_payload_size :: u64
  pv_payload :: "u8 list option"

abbreviation (input) REAC_ETHERTYPE :: u16 where "REAC_ETHERTYPE \<equiv> 0x8819"
abbreviation (input) REAC_MAX_CHANNELS :: nat where "REAC_MAX_CHANNELS \<equiv> 40"
abbreviation (input) REAC_FRAMES_PER_PACKET :: u64 where "REAC_FRAMES_PER_PACKET \<equiv> 12"
abbreviation (input) REAC_BYTES_PER_SAMPLE :: u64 where "REAC_BYTES_PER_SAMPLE \<equiv> 3"
abbreviation (input) REAC_END_MARKER_0 :: u8 where "REAC_END_MARKER_0 \<equiv> 0xc2"
abbreviation (input) REAC_END_MARKER_1 :: u8 where "REAC_END_MARKER_1 \<equiv> 0xea"
abbreviation (input) ETHERNET_HEADER_BYTES :: u64 where "ETHERNET_HEADER_BYTES \<equiv> 14"
abbreviation (input) REAC_PACKET_HEADER_BYTES :: u64 where "REAC_PACKET_HEADER_BYTES \<equiv> 36"
abbreviation (input) REAC_END_MARKER_BYTES :: u64 where "REAC_END_MARKER_BYTES \<equiv> 2"

text \<open>\<open>MAX_INT24\<close> of \<open>src/reac.h\<close> is \<open>1 << 23\<close>.\<close>

definition MAX_INT24 :: int where
  "MAX_INT24 = push_bit 23 1"

section \<open>Operations\<close>

definition read_be16 :: "u8 list \<Rightarrow> nat \<Rightarrow> u16 option" where
  "read_be16 data p =
     do { d0 \<leftarrow> rd data p; d1 \<leftarrow> rd data (p + 1);
          Some (push_bit 8 (ucast d0) OR ucast d1) }"

definition read_le16 :: "u8 list \<Rightarrow> nat \<Rightarrow> u16 option" where
  "read_le16 data p =
     do { d0 \<leftarrow> rd data p; d1 \<leftarrow> rd data (p + 1);
          Some (ucast d0 OR push_bit 8 (ucast d1)) }"

definition sign_extend_24 :: "u32 \<Rightarrow> u32" where
  "sign_extend_24 value =
     (if value AND 0x800000 \<noteq> 0 then value OR 0xff000000 else value)"

text \<open>The argument is the bit pattern of the \<open>int32_t\<close>; \<^term>\<open>sint\<close> reads it.\<close>

definition sample24_to_float :: "u32 \<Rightarrow> rat" where
  "sample24_to_float value =
     f32 (f32 (of_int (sint value)) / f32 (of_int MAX_INT24))"

definition reac_packet_overhead :: u64 where
  "reac_packet_overhead = ETHERNET_HEADER_BYTES + REAC_PACKET_HEADER_BYTES"

definition reac_payload_bytes_for :: "u16 \<Rightarrow> u64 \<Rightarrow> u64" where
  "reac_payload_bytes_for channels frames = ucast channels * frames * REAC_BYTES_PER_SAMPLE"

definition empty_view :: ReacPacketView where
  "empty_view = \<lparr>pv_counter = 0, pv_channels = 0, pv_payload_size = 0, pv_payload = None\<rparr>"

text \<open>The guards up to the computation of the payload size, in the order of the code.\<close>

definition reac_parse_packet ::
  "u8 list option \<Rightarrow> u64 \<Rightarrow> ReacPacketView option \<Rightarrow>
   (ReacStatus \<times> ReacPacketView option) option" where
  "reac_parse_packet frame_ptr frame_size packet_ptr =
     (case (frame_ptr, packet_ptr) of
        (Some frame, Some _) \<Rightarrow>
          (let overhead = reac_packet_overhead in
           if frame_size < overhead + REAC_END_MARKER_BYTES
           then Some (REAC_STATUS_SHORT_PACKET, Some empty_view)
           else do {
             ethertype \<leftarrow> read_be16 frame 12;
             if ethertype \<noteq> REAC_ETHERTYPE then Some (REAC_STATUS_NOT_REAC, Some empty_view)
             else do {
               m0 \<leftarrow> rd frame (unat (frame_size - 2));
               m1 \<leftarrow> rd frame (unat (frame_size - 1));
               if m0 \<noteq> REAC_END_MARKER_0 \<or> m1 \<noteq> REAC_END_MARKER_1
               then Some (REAC_STATUS_BAD_END_MARKER, Some empty_view)
               else
                 let payload_size = frame_size - overhead - REAC_END_MARKER_BYTES;
                     packet_quantum = reac_payload_bytes_for 1 REAC_FRAMES_PER_PACKET
                 in if payload_size = 0 \<or> payload_size mod packet_quantum \<noteq> 0
                    then Some (REAC_STATUS_BAD_PAYLOAD_SIZE, Some empty_view)
                    else
                      let channels = payload_size div packet_quantum
                      in if channels = 0 \<or> channels > of_nat REAC_MAX_CHANNELS \<or> channels mod 2 \<noteq> 0
                         then Some (REAC_STATUS_UNSUPPORTED_CHANNEL_COUNT, Some empty_view)
                         else do {
                           counter \<leftarrow> read_le16 frame (unat ETHERNET_HEADER_BYTES);
                           Some (REAC_STATUS_OK,
                             Some \<lparr>pv_counter = counter, pv_channels = ucast channels,
                                   pv_payload_size = payload_size,
                                   pv_payload = Some (drop (unat overhead) frame)\<rparr>) }
             }
           })
      | _ \<Rightarrow> Some (REAC_STATUS_BAD_ARGUMENT, packet_ptr))"

text \<open>The scan of the output pointers, which stops at the first \<open>NULL\<close>.\<close>

fun any_null :: "'a option list \<Rightarrow> nat list \<Rightarrow> bool option" where
  "any_null outputs [] = Some False"
| "any_null outputs (ch # chs) =
     do { p \<leftarrow> rd outputs ch;
          if p = None then Some True else any_null outputs chs }"

definition store_output ::
  "'a list option list \<Rightarrow> nat \<Rightarrow> nat \<Rightarrow> 'a \<Rightarrow> 'a list option list option" where
  "store_output outputs ch frame v =
     do { p \<leftarrow> rd outputs ch;
          buf \<leftarrow> p;
          buf' \<leftarrow> wr buf frame v;
          wr outputs ch (Some buf') }"

definition sample1_of :: "u8 list \<Rightarrow> nat \<Rightarrow> u32 option" where
  "sample1_of mem p =
     do { b3 \<leftarrow> rd mem (p + 3); b0 \<leftarrow> rd mem p; b1 \<leftarrow> rd mem (p + 1);
          Some (ucast b3 OR push_bit 8 (ucast b0) OR push_bit 16 (ucast b1)) }"

definition sample2_of :: "u8 list \<Rightarrow> nat \<Rightarrow> u32 option" where
  "sample2_of mem p =
     do { b4 \<leftarrow> rd mem (p + 4); b5 \<leftarrow> rd mem (p + 5); b2 \<leftarrow> rd mem (p + 2);
          Some (ucast b4 OR push_bit 8 (ucast b5) OR push_bit 16 (ucast b2)) }"

text \<open>
  The body of the inner loop: two samples from six bytes.  The state is the read pointer
  \<open>in\<close>, as an offset, and the output buffers.
\<close>

definition decode_pair ::
  "u8 list \<Rightarrow> nat \<Rightarrow> nat \<Rightarrow> nat \<times> rat list option list \<Rightarrow> (nat \<times> rat list option list) option" where
  "decode_pair samples frame ch = (\<lambda>(p, outs).
     do { s1 \<leftarrow> sample1_of samples p;
          s2 \<leftarrow> sample2_of samples p;
          outs1 \<leftarrow> store_output outs ch frame (sample24_to_float (sign_extend_24 s1));
          outs2 \<leftarrow> store_output outs1 (ch + 1) frame (sample24_to_float (sign_extend_24 s2));
          Some (p + 6, outs2) })"

text \<open>\<open>for (ch = 0; ch < channels; ch += 2)\<close> visits the even numbers below \<open>channels\<close>.\<close>

definition decode_frame ::
  "u8 list \<Rightarrow> u16 \<Rightarrow> nat \<Rightarrow> nat \<times> rat list option list \<Rightarrow> (nat \<times> rat list option list) option" where
  "decode_frame samples channels frame =
     for_each (\<lambda>j. decode_pair samples frame (2 * j)) [0..<(unat channels + 1) div 2]"

definition reac_decode_samples_to_channels ::
  "u8 list option \<Rightarrow> u64 \<Rightarrow> u16 \<Rightarrow> u64 \<Rightarrow> rat list option list option \<Rightarrow>
   (ReacStatus \<times> rat list option list option) option" where
  "reac_decode_samples_to_channels samples_ptr sample_bytes channels frames outputs_ptr =
     (case (samples_ptr, outputs_ptr) of
        (Some samples, Some outputs) \<Rightarrow>
          if channels = 0 \<or> channels > of_nat REAC_MAX_CHANNELS \<or> channels mod 2 \<noteq> 0
          then Some (REAC_STATUS_UNSUPPORTED_CHANNEL_COUNT, outputs_ptr)
          else if sample_bytes \<noteq> reac_payload_bytes_for channels frames
          then Some (REAC_STATUS_BAD_PAYLOAD_SIZE, outputs_ptr)
          else do {
            null_output \<leftarrow> any_null outputs [0..<unat channels];
            if null_output then Some (REAC_STATUS_BAD_ARGUMENT, outputs_ptr)
            else do {
              (_, outputs') \<leftarrow> for_each (decode_frame samples channels) [0..<unat frames] (0, outputs);
              Some (REAC_STATUS_OK, Some outputs') } }
      | _ \<Rightarrow> Some (REAC_STATUS_BAD_ARGUMENT, outputs_ptr))"

section \<open>The reference encoder\<close>

text \<open>\<open>put_reac_sample_pair\<close> of the decoder's test suite, on two 24 bit sample values.\<close>

definition put_reac_sample_pair :: "int \<Rightarrow> int \<Rightarrow> u8 list" where
  "put_reac_sample_pair sample1 sample2 =
     (let value1 = (word_of_int sample1 :: u32) AND 0x00ffffff;
          value2 = (word_of_int sample2 :: u32) AND 0x00ffffff
      in [ucast (drop_bit 8 value1 AND 0xff), ucast (drop_bit 16 value1 AND 0xff),
          ucast (drop_bit 16 value2 AND 0xff), ucast (value1 AND 0xff),
          ucast (value2 AND 0xff), ucast (drop_bit 8 value2 AND 0xff)])"

text \<open>A block of audio: \<open>pcm ch frame\<close> is the 24 bit sample of a channel in a frame.\<close>

definition encode_frame :: "(nat \<Rightarrow> nat \<Rightarrow> int) \<Rightarrow> nat \<Rightarrow> nat \<Rightarrow> u8 list" where
  "encode_frame pcm channels frame =
     concat (map (\<lambda>j. put_reac_sample_pair (pcm (2 * j) frame) (pcm (2 * j + 1) frame))
                 [0..<channels div 2])"

definition encode_payload :: "(nat \<Rightarrow> nat \<Rightarrow> int) \<Rightarrow> nat \<Rightarrow> nat \<Rightarrow> u8 list" where
  "encode_payload pcm channels frames = concat (map (encode_frame pcm channels) [0..<frames])"

text \<open>\<open>make_packet\<close> of the test suite, for the REAC Ethertype and arbitrary audio.\<close>

definition make_packet :: "u16 \<Rightarrow> u16 \<Rightarrow> (nat \<Rightarrow> nat \<Rightarrow> int) \<Rightarrow> nat \<Rightarrow> u8 list" where
  "make_packet ethertype counter pcm channels =
     replicate 12 0 @ [ucast (drop_bit 8 ethertype), ucast (ethertype AND 0xff)] @
     [ucast (counter AND 0xff), ucast (drop_bit 8 counter)] @ replicate 34 0 @
     encode_payload pcm channels 12 @ [REAC_END_MARKER_0, REAC_END_MARKER_1]"

section \<open>Reference status of a packet\<close>

text \<open>
  What the packet format asks of the first \<open>n\<close> bytes of a frame, on natural numbers: the
  Ethernet and REAC headers and the end marker take 52 bytes, a channel takes 36.
\<close>

definition packet_status :: "u8 list \<Rightarrow> nat \<Rightarrow> ReacStatus" where
  "packet_status frame n =
     (if n < 52 then REAC_STATUS_SHORT_PACKET
      else if \<not> (frame ! 12 = 0x88 \<and> frame ! 13 = 0x19) then REAC_STATUS_NOT_REAC
      else if \<not> (frame ! (n - 2) = 0xc2 \<and> frame ! (n - 1) = 0xea) then REAC_STATUS_BAD_END_MARKER
      else if n = 52 \<or> \<not> 36 dvd n - 52 then REAC_STATUS_BAD_PAYLOAD_SIZE
      else if 40 < (n - 52) div 36 \<or> odd ((n - 52) div 36)
      then REAC_STATUS_UNSUPPORTED_CHANNEL_COUNT
      else REAC_STATUS_OK)"

definition packet_view :: "u8 list \<Rightarrow> nat \<Rightarrow> ReacPacketView" where
  "packet_view frame n =
     \<lparr>pv_counter = of_nat (unat (frame ! 14) + 256 * unat (frame ! 15)),
      pv_channels = of_nat ((n - 52) div 36), pv_payload_size = of_nat (n - 52),
      pv_payload = Some (drop 50 frame)\<rparr>"

section \<open>Reference result of the decoder\<close>

text \<open>
  The 24 bit sample of a channel in a frame: frame \<open>f\<close> starts at byte \<open>3 C f\<close>, and the
  samples of the channels \<open>2 j\<close> and \<open>2 j + 1\<close> share six bytes.
\<close>

definition sample_word :: "u8 list \<Rightarrow> nat \<Rightarrow> nat \<Rightarrow> nat \<Rightarrow> u32" where
  "sample_word mem C ch f =
     (let p = 3 * C * f + 6 * (ch div 2)
      in if even ch
         then ucast (mem ! (p + 3)) OR push_bit 8 (ucast (mem ! p)) OR push_bit 16 (ucast (mem ! (p + 1)))
         else ucast (mem ! (p + 4)) OR push_bit 8 (ucast (mem ! (p + 5))) OR push_bit 16 (ucast (mem ! (p + 2))))"

definition decoded_sample :: "u8 list \<Rightarrow> nat \<Rightarrow> nat \<Rightarrow> nat \<Rightarrow> rat" where
  "decoded_sample mem C ch f = sample24_to_float (sign_extend_24 (sample_word mem C ch f))"

text \<open>
  Output buffers in which the first \<open>cnt ch\<close> samples of every channel \<open>ch < C\<close> are the given
  ones and everything else is as before.
\<close>

definition decoded_buffer :: "(nat \<Rightarrow> 'a) \<Rightarrow> nat \<Rightarrow> 'a list \<Rightarrow> 'a list" where
  "decoded_buffer sv n buf = map sv [0..<n] @ drop n buf"

definition decoded_outputs ::
  "(nat \<Rightarrow> nat \<Rightarrow> 'a) \<Rightarrow> nat \<Rightarrow> (nat \<Rightarrow> nat) \<Rightarrow> 'a list option list \<Rightarrow> 'a list option list" where
  "decoded_outputs sv C cnt outs =
     map (\<lambda>ch. if ch < C then map_option (decoded_buffer (sv ch) (cnt ch)) (outs ! ch) else outs ! ch)
         [0..<length outs]"

definition good_outputs :: "'a list option list \<Rightarrow> nat \<Rightarrow> nat \<Rightarrow> bool" where
  "good_outputs outs C n \<longleftrightarrow>
     C \<le> length outs \<and> (\<forall>ch < C. case outs ! ch of None \<Rightarrow> False | Some buf \<Rightarrow> n \<le> length buf)"

section \<open>Samples\<close>

lemma mask_24: "(0x00ffffff :: u32) = mask 24"
  by (simp add: mask_eq_exp_minus_1)

lemma mask_8: "(0xff :: u32) = mask 8"
  by (simp add: mask_eq_exp_minus_1)

lemma sign_extend_24_signed_take_bit:
  assumes "v AND 0x00ffffff = v"
  shows "sign_extend_24 v = signed_take_bit 23 v"
proof -
  have high: "\<not> bit v n" if "24 \<le> n" for n
    using that assms by (metis bit_and_iff bit_mask_iff linorder_not_less mask_24)
  have top: "v AND 0x800000 \<noteq> 0 \<longleftrightarrow> bit v 23"
  proof -
    have "v AND 0x800000 = v AND 2 ^ 23" by simp
    then show ?thesis by (simp only: and_exp_eq_0_iff_not_bit not_not)
  qed
  have ext: "(0xff000000 :: u32) = push_bit 24 (mask 8)"
    by (simp add: mask_eq_exp_minus_1 push_bit_eq_mult)
  show ?thesis
  proof (rule bit_word_eqI)
    fix n assume n: "n < LENGTH(32)"
    show "bit (sign_extend_24 v) n = bit (signed_take_bit 23 v) n"
      using n high[of n] unfolding sign_extend_24_def top ext
      by (cases "n = 23") (auto simp: bit_simps min_def)
  qed
qed

lemma assemble_sample:
  fixes v :: u32
  assumes "v AND 0x00ffffff = v"
  shows "(ucast (ucast (v AND 0xff) :: u8) OR push_bit 8 (ucast (ucast (drop_bit 8 v AND 0xff) :: u8))
            OR push_bit 16 (ucast (ucast (drop_bit 16 v AND 0xff) :: u8)) :: u32) = v"
    (is "?a = v")
proof (rule bit_word_eqI)
  fix n assume n: "n < LENGTH(32)"
  have high: "\<not> bit v n" if "24 \<le> n"
    using that assms by (metis bit_and_iff bit_mask_iff linorder_not_less mask_24)
  consider "n < 8" | "8 \<le> n" "n < 16" | "16 \<le> n" "n < 24" | "24 \<le> n" by linarith
  then show "bit ?a n = bit v n"
    using n high unfolding mask_8 by cases (auto simp: bit_simps)
qed

lemma sint_sign_extend_24:
  assumes "- 8388608 \<le> s" "s < 8388608"
  shows "sint (sign_extend_24 ((word_of_int s :: u32) AND 0x00ffffff)) = s"
proof -
  let ?v = "(word_of_int s :: u32) AND 0x00ffffff"
  have "sign_extend_24 ?v = signed_take_bit 23 (take_bit 24 (word_of_int s))"
    by (subst sign_extend_24_signed_take_bit) (simp_all add: mask_24 take_bit_eq_mask and.assoc)
  also have "\<dots> = word_of_int (signed_take_bit 23 s)"
    by (rule bit_word_eqI) (auto simp: bit_simps min_def)
  also have "signed_take_bit 23 s = s"
    using assms by (simp add: signed_take_bit_int_eq_self_iff)
  finally show ?thesis
    using assms by (simp add: signed_of_int signed_take_bit_int_eq_self)
qed

lemma sample24_exact:
  assumes "- 8388608 \<le> sint v" "sint v < 8388608"
  shows "sample24_to_float v = of_int (sint v) / 8388608"
proof -
  have d: "f32 8388608 = 8388608"
    using round_to_int[of 8388608 24] by simp
  have n: "f32 (of_int (sint v)) = of_int (sint v)"
    using assms by (intro round_to_int) auto
  have "(of_int (sint v) / 8388608 :: rat) = of_int (sint v) * 2 powi (- 23)"
    by (simp add: power_int_minus field_simps)
  also have "f32 \<dots> = \<dots>"
    using assms by (intro round_to_exact) auto
  finally show ?thesis
    using n d unfolding sample24_to_float_def MAX_INT24_def by simp
qed

section \<open>Parsing\<close>

lemma reac_packet_overhead_50 [simp]: "reac_packet_overhead = 50"
  by (simp add: reac_packet_overhead_def)

lemma packet_quantum [simp]: "reac_payload_bytes_for 1 12 = 36"
  by (simp add: reac_payload_bytes_for_def)

lemma unat_reac_payload_bytes_for:
  "unat channels * unat frames * 3 < 2 ^ 64 \<Longrightarrow>
   unat (reac_payload_bytes_for channels frames) = unat channels * unat frames * 3"
  by (simp add: reac_payload_bytes_for_def unat_word_ariths)

lemma be16_bytes:
  fixes a b :: u8
  shows "ucast (drop_bit 8 (push_bit 8 (ucast a) OR ucast b :: u16)) = a"
    and "ucast (push_bit 8 (ucast a) OR ucast b :: u16) = b"
  by (rule bit_word_eqI; auto simp: bit_simps dest: bit_imp_le_length)+

lemma be16_eq_ethertype:
  "(push_bit 8 (ucast (a :: u8)) OR ucast (b :: u8) :: u16) = 0x8819 \<longleftrightarrow> a = 0x88 \<and> b = 0x19"
proof
  assume eq: "(push_bit 8 (ucast a) OR ucast b :: u16) = 0x8819"
  from be16_bytes[of a b] show "a = 0x88 \<and> b = 0x19"
    unfolding eq by simp
qed simp

lemma le16_value:
  "(ucast (a :: u8) OR push_bit 8 (ucast (b :: u8)) :: u16) = of_nat (unat a + 256 * unat b)"
proof -
  have "(ucast a OR push_bit 8 (ucast b) :: u16) = ucast a + push_bit 8 (ucast b)"
    by (rule disjunctive_add [symmetric]) (auto simp: bit_simps dest: bit_imp_le_length)
  then show ?thesis
    by (simp add: push_bit_eq_mult)
qed

lemma parse_reference:
  assumes "unat frame_size \<le> length frame"
  shows "reac_parse_packet (Some frame) frame_size (Some v) =
    Some (packet_status frame (unat frame_size),
      Some (if packet_status frame (unat frame_size) = REAC_STATUS_OK
            then packet_view frame (unat frame_size) else empty_view))"
proof (cases "unat frame_size < 52")
  case True
  then show ?thesis
    by (simp add: reac_parse_packet_def packet_status_def word_less_nat_alt)
next
  case False
  define n where "n = unat frame_size"
  define ps where "ps = frame_size - 50 - 2"
  have n: "52 \<le> n" "n \<le> length frame" "n < 2 ^ 64"
    using False assms unat_u64_bound[of frame_size] by (auto simp: n_def)
  have ps: "unat ps = n - 52"
    using n(1) by (simp add: ps_def n_def word_nat_simps)
  have m: "unat (frame_size - 2) = n - 2" "unat (frame_size - 1) = n - Suc 0"
    using n(1) by (auto simp: n_def word_nat_simps)
  have bounds: "12 < length frame" "13 < length frame" "14 < length frame" "15 < length frame"
    using n by auto
  have marker: "rd frame (n - 2) = Some (frame ! (n - 2))"
    "rd frame (n - Suc 0) = Some (frame ! (n - Suc 0))"
    using n by (auto simp: rd_def)
  have z: "ps = 0 \<longleftrightarrow> n = 52" "ps mod 36 = 0 \<longleftrightarrow> 36 dvd n - 52"
    using n(1) by (auto simp: word_unat_eq_iff unat_mod ps dvd_eq_mod_eq_0)
  have c: "unat (ps div 36) = (n - 52) div 36"
    by (simp add: unat_div ps)
  have par: "ps div 36 mod 2 = 0 \<longleftrightarrow> even ((n - 52) div 36)"
    "ps div 36 mod 2 = 1 \<longleftrightarrow> odd ((n - 52) div 36)" "ps div 36 = 0 \<longleftrightarrow> (n - 52) div 36 = 0"
    using c by (auto simp: word_unat_eq_iff unat_mod odd_iff_mod_2_eq_one even_iff_mod_2_eq_zero)
  have c2: "ucast (ps div 36) = (of_nat ((n - 52) div 36) :: u16)"
    using c by (metis of_nat_unat)
  have c3: "word_of_nat n - 52 = ps"
    by (simp add: ps_def n_def)
  have pos: "(n - 52) div 36 \<noteq> 0" if "n \<noteq> 52" "36 dvd n - 52"
    using that n(1) by (auto simp: dvd_div_eq_0_iff)
  have be: "read_be16 frame 12 = Some (push_bit 8 (ucast (frame ! 12)) OR ucast (frame ! 13))"
    and le: "read_le16 frame 14 = Some (of_nat (unat (frame ! 14) + 256 * unat (frame ! 15)))"
    using bounds by (simp_all add: read_be16_def read_le16_def mem_simps le16_value)
  show ?thesis
    using False pos unfolding reac_parse_packet_def packet_status_def packet_view_def
    by (simp add: word_less_nat_alt be marker m be16_eq_ethertype flip: n_def ps_def)
      (auto simp: Let_def z c par c2 c3 le)
qed

section \<open>Decoding\<close>

lemma decoded_buffer_step:
  "n < length buf \<Longrightarrow> (decoded_buffer sv n buf)[n := sv n] = decoded_buffer sv (Suc n) buf"
  by (rule nth_equalityI) (auto simp: decoded_buffer_def nth_list_update nth_append)

lemma decoded_buffer_0 [simp]: "decoded_buffer sv 0 = (\<lambda>buf. buf)"
  by (simp add: decoded_buffer_def fun_eq_iff)

lemma decoded_outputs_0 [simp]: "decoded_outputs sv C (\<lambda>_. 0) outs = outs"
  by (rule nth_equalityI) (simp_all add: decoded_outputs_def option.map_ident)

lemma store_output_step:
  assumes "good_outputs outs C n" "ch < C" "cnt ch < n"
  shows "store_output (decoded_outputs sv C cnt outs) ch (cnt ch) (sv ch (cnt ch)) =
         Some (decoded_outputs sv C (cnt(ch := Suc (cnt ch))) outs)"
proof -
  from assms obtain buf where buf: "outs ! ch = Some buf" "n \<le> length buf" and ch: "ch < length outs"
    by (auto simp: good_outputs_def split: option.splits)
  have len: "cnt ch < length (decoded_buffer (sv ch) (cnt ch) buf)"
    using assms(3) buf(2) by (simp add: decoded_buffer_def)
  have "(decoded_outputs sv C cnt outs)[ch := Some (decoded_buffer (sv ch) (Suc (cnt ch)) buf)] =
        decoded_outputs sv C (cnt(ch := Suc (cnt ch))) outs"
    using ch buf assms(2) by (intro nth_equalityI) (auto simp: decoded_outputs_def nth_list_update)
  moreover have "(decoded_buffer (sv ch) (cnt ch) buf)[cnt ch := sv ch (cnt ch)] =
      decoded_buffer (sv ch) (Suc (cnt ch)) buf"
    using assms(3) buf(2) by (intro decoded_buffer_step) simp
  ultimately show ?thesis
    using ch buf assms(2) len by (simp add: store_output_def rd_def wr_def decoded_outputs_def)
qed

lemma decode_pair_step:
  assumes good: "good_outputs outs C n" and C: "2 * j + 1 < C" and f: "f < n"
    and mem: "3 * C * f + 6 * j + 6 \<le> length mem"
  shows "decode_pair mem f (2 * j)
      (3 * C * f + 6 * j, decoded_outputs (decoded_sample mem C) C (\<lambda>ch. if ch < 2 * j then Suc f else f) outs) =
    Some (3 * C * f + 6 * Suc j,
      decoded_outputs (decoded_sample mem C) C (\<lambda>ch. if ch < 2 * Suc j then Suc f else f) outs)"
proof -
  let ?sv = "decoded_sample mem C"
  let ?c = "\<lambda>ch. if ch < 2 * j then Suc f else f"
  let ?p = "3 * C * f + 6 * j"
  have s1: "sample1_of mem ?p = Some (sample_word mem C (2 * j) f)"
    and s2: "sample2_of mem ?p = Some (sample_word mem C (Suc (2 * j)) f)"
    using mem by (simp_all add: sample1_of_def sample2_of_def sample_word_def mem_simps Let_def)
  have st1: "store_output (decoded_outputs ?sv C ?c outs) (2 * j) f (?sv (2 * j) f) =
      Some (decoded_outputs ?sv C (?c(2 * j := Suc f)) outs)"
    using store_output_step[OF good, of "2 * j" ?c ?sv] C f by simp
  have st2: "store_output (decoded_outputs ?sv C (?c(2 * j := Suc f)) outs) (Suc (2 * j)) f (?sv (Suc (2 * j)) f) =
      Some (decoded_outputs ?sv C (?c(2 * j := Suc f, Suc (2 * j) := Suc f)) outs)"
    using store_output_step[OF good, of "Suc (2 * j)" "?c(2 * j := Suc f)" ?sv] C f by simp
  have c: "?c(2 * j := Suc f, Suc (2 * j) := Suc f) = (\<lambda>ch. if ch < 2 * Suc j then Suc f else f)"
    by (auto simp: fun_eq_iff)
  show ?thesis
    using s1 s2 st1 st2 by (simp add: decode_pair_def c flip: decoded_sample_def)
qed

lemma decode_frame_step:
  assumes good: "good_outputs outs (unat channels) n" and ev: "even (unat channels)" and f: "f < n"
    and mem: "3 * unat channels * Suc f \<le> length mem"
  shows "decode_frame mem channels f
      (3 * unat channels * f, decoded_outputs (decoded_sample mem (unat channels)) (unat channels) (\<lambda>_. f) outs) =
    Some (3 * unat channels * Suc f,
      decoded_outputs (decoded_sample mem (unat channels)) (unat channels) (\<lambda>_. Suc f) outs)"
proof -
  let ?C = "unat channels"
  let ?sv = "decoded_sample mem ?C"
  let ?st = "\<lambda>j. (3 * ?C * f + 6 * j, decoded_outputs ?sv ?C (\<lambda>ch. if ch < 2 * j then Suc f else f) outs)"
  obtain h where h: "?C = 2 * h" using ev by (elim evenE)
  have "\<exists>s'. for_each (\<lambda>j. decode_pair mem f (2 * j)) [0..<h] (?st 0) = Some s' \<and> s' = ?st h"
  proof (rule for_each_range [where I = "\<lambda>j s. s = ?st j"])
    fix j s assume j: "j < h" and s: "s = ?st j"
    have "3 * ?C * f + 6 * j + 6 \<le> 3 * ?C * Suc f" using j h by simp
    with mem have "3 * ?C * f + 6 * j + 6 \<le> length mem" by linarith
    from decode_pair_step[OF good _ f this] j h s
    show "\<exists>s'. decode_pair mem f (2 * j) s = Some s' \<and> s' = ?st (Suc j)" by auto
  qed auto
  moreover have "decoded_outputs ?sv ?C (\<lambda>ch. if ch < 2 * h then Suc f else f) outs =
      decoded_outputs ?sv ?C (\<lambda>_. Suc f) outs"
    by (simp add: decoded_outputs_def h)
  ultimately show ?thesis
    by (simp add: decode_frame_def h)
qed

lemma any_null_good:
  "good_outputs outs C n \<Longrightarrow> any_null outs [0..<C] = Some False"
proof -
  assume good: "good_outputs outs C n"
  have "any_null outs is = Some False" if "\<forall>i \<in> set is. i < C" for "is"
    using that
  proof (induction "is")
    case (Cons i "is")
    from good Cons.prems have "i < length outs" "outs ! i \<noteq> None"
      by (auto simp: good_outputs_def split: option.splits)
    with Cons show ?case by (simp add: rd_def)
  qed simp
  then show ?thesis by simp
qed

lemma decode_correct:
  assumes ch: "0 < unat channels" "unat channels \<le> 40" "even (unat channels)"
    and size: "unat channels * unat frames * 3 < 2 ^ 64"
    and bytes: "unat sample_bytes = 3 * unat channels * unat frames" "unat sample_bytes \<le> length mem"
    and good: "good_outputs outs (unat channels) (unat frames)"
  shows "reac_decode_samples_to_channels (Some mem) sample_bytes channels frames (Some outs) =
    Some (REAC_STATUS_OK, Some (decoded_outputs (decoded_sample mem (unat channels)) (unat channels)
      (\<lambda>_. unat frames) outs))"
proof -
  let ?C = "unat channels" and ?F = "unat frames"
  let ?st = "\<lambda>f. (3 * ?C * f, decoded_outputs (decoded_sample mem ?C) ?C (\<lambda>_. f) outs)"
  have guard: "\<not> (channels = 0 \<or> channels > 40 \<or> channels mod 2 \<noteq> 0)"
    using ch by (auto simp: word_less_nat_alt word_unat_eq_iff unat_mod even_iff_mod_2_eq_zero)
  have sb: "sample_bytes = reac_payload_bytes_for channels frames"
    using unat_reac_payload_bytes_for[OF size] bytes(1) by (simp add: word_unat_eq_iff ac_simps)
  have "\<exists>s'. for_each (decode_frame mem channels) [0..<?F] (?st 0) = Some s' \<and> s' = ?st ?F"
  proof (rule for_each_range [where I = "\<lambda>f s. s = ?st f"])
    fix f s assume f: "f < ?F" and s: "s = ?st f"
    have "3 * ?C * Suc f \<le> 3 * ?C * ?F" using f by (intro mult_le_mono2) simp
    with bytes have "3 * ?C * Suc f \<le> length mem" by linarith
    from decode_frame_step[OF good ch(3) f this] s
    show "\<exists>s'. decode_frame mem channels f s = Some s' \<and> s' = ?st (Suc f)" by auto
  qed auto
  with guard sb any_null_good[OF good] show ?thesis
    by (simp add: reac_decode_samples_to_channels_def)
qed

section \<open>The encoder and the round trip\<close>

definition pcm_in_range :: "(nat \<Rightarrow> nat \<Rightarrow> int) \<Rightarrow> nat \<Rightarrow> nat \<Rightarrow> bool" where
  "pcm_in_range pcm C F \<longleftrightarrow> (\<forall>ch < C. \<forall>f < F. - 8388608 \<le> pcm ch f \<and> pcm ch f < 8388608)"

lemma length_put_reac_sample_pair [simp]: "length (put_reac_sample_pair a b) = 6"
  by (simp add: put_reac_sample_pair_def Let_def)

lemma length_encode_frame [simp]: "length (encode_frame pcm C f) = 6 * (C div 2)"
  unfolding encode_frame_def by (rule length_concat_uniform) simp

lemma length_encode_payload [simp]: "length (encode_payload pcm C F) = 6 * (C div 2) * F"
  unfolding encode_payload_def by (rule length_concat_uniform) simp

lemma nth_encode_payload:
  assumes "even C" "j < C div 2" "f < F" "r < 6"
  shows "(encode_payload pcm C F @ rest) ! (3 * C * f + 6 * j + r) =
         put_reac_sample_pair (pcm (2 * j) f) (pcm (2 * j + 1) f) ! r"
proof -
  have k: "3 * C = 6 * (C div 2)" using assms(1) by auto
  have inner: "6 * j + r < 6 * (C div 2)" using assms(2,4) by (rule block_index_less)
  have idx: "3 * C * f + 6 * j + r = (6 * (C div 2)) * f + (6 * j + r)" by (simp add: k)
  have "(6 * (C div 2)) * f + (6 * j + r) < length (encode_payload pcm C F)"
    using assms(3) inner by (simp add: block_index_less del: mult.assoc)
  then have "(encode_payload pcm C F @ rest) ! (3 * C * f + 6 * j + r) =
      encode_payload pcm C F ! ((6 * (C div 2)) * f + (6 * j + r))"
    by (simp only: idx nth_append if_True)
  also have "\<dots> = encode_frame pcm C f ! (6 * j + r)"
    unfolding encode_payload_def using assms(3) inner by (intro nth_concat_uniform) simp_all
  also have "\<dots> = put_reac_sample_pair (pcm (2 * j) f) (pcm (2 * j + 1) f) ! r"
    unfolding encode_frame_def using assms(2,4) by (intro nth_concat_uniform) simp_all
  finally show ?thesis .
qed

lemma sample_word_encoded:
  assumes "even C" "ch < C" "f < F"
  shows "sample_word (encode_payload pcm C F @ rest) C ch f = word_of_int (pcm ch f) AND 0x00ffffff"
proof -
  let ?j = "ch div 2"
  have j: "?j < C div 2" using assms(1,2) by (auto elim!: evenE)
  note byte = nth_encode_payload[OF assms(1) j assms(3), of _ pcm rest]
  have b: "(encode_payload pcm C F @ rest) ! (3 * C * f + 6 * ?j) =
      put_reac_sample_pair (pcm (2 * ?j) f) (pcm (2 * ?j + 1) f) ! 0"
    using byte[of 0] by simp
  have asm: "(v AND 0x00ffffff) AND 0x00ffffff = v AND (0x00ffffff :: u32)" for v
    by (simp add: and.assoc)
  show ?thesis
  proof (cases "even ch")
    case True
    then have "2 * ?j = ch" by simp
    with True show ?thesis
      using assemble_sample[OF asm, of "word_of_int (pcm ch f)"]
      by (simp add: sample_word_def Let_def byte b put_reac_sample_pair_def nth_Cons' del: One_nat_def add_2_eq_Suc add_2_eq_Suc')
  next
    case False
    then have "2 * ?j + 1 = ch" by simp
    with False show ?thesis
      using assemble_sample[OF asm, of "word_of_int (pcm ch f)"]
      by (simp add: sample_word_def Let_def byte b put_reac_sample_pair_def nth_Cons' del: One_nat_def add_2_eq_Suc add_2_eq_Suc')
  qed
qed

lemma decoded_sample_encoded:
  assumes "even C" "ch < C" "f < F" "pcm_in_range pcm C F"
  shows "decoded_sample (encode_payload pcm C F @ rest) C ch f = of_int (pcm ch f) / 8388608"
proof -
  have r: "- 8388608 \<le> pcm ch f" "pcm ch f < 8388608"
    using assms by (auto simp: pcm_in_range_def)
  from sint_sign_extend_24[OF r] r show ?thesis
    by (simp add: decoded_sample_def sample_word_encoded[OF assms(1-3)] sample24_exact)
qed

section \<open>Properties\<close>

lemma packet_status_OK:
  assumes "packet_status frame n = REAC_STATUS_OK"
  obtains c where "n = 52 + 36 * c" "0 < c" "c \<le> 40" "even c"
proof -
  from assms have "52 \<le> n" "n \<noteq> 52" "36 dvd n - 52" "(n - 52) div 36 \<le> 40" "even ((n - 52) div 36)"
    by (auto simp: packet_status_def split: if_splits)
  then show ?thesis by (intro that[of "(n - 52) div 36"]) (auto simp: dvd_div_eq_0_iff)
qed

text \<open>C14. On every frame whose buffer holds the claimed number of bytes, the parser reads only
  inside the buffer, returns exactly the status that the packet format asks for, and fills the
  view for a good packet and clears it otherwise.\<close>

theorem reac_parse_packet_correct:
  assumes "unat frame_size \<le> length frame"
  shows "reac_parse_packet (Some frame) frame_size (Some v) =
    Some (packet_status frame (unat frame_size),
      Some (if packet_status frame (unat frame_size) = REAC_STATUS_OK
            then packet_view frame (unat frame_size) else empty_view))"
  using assms by (rule parse_reference)

text \<open>The frame of the test suite: two channels, all samples zero.\<close>

definition silent_packet :: "u8 list" where
  "silent_packet = make_packet 0x8819 0x1234 (\<lambda>_ _. 0) 2"

lemma length_make_packet: "length (make_packet e c pcm C) = 52 + 6 * (C div 2) * 12"
  by (simp add: make_packet_def)

theorem reac_parse_packet_correct_witness:
  "reac_parse_packet (Some silent_packet) 124 (Some empty_view) =
    Some (packet_status silent_packet 124,
      Some (if packet_status silent_packet 124 = REAC_STATUS_OK
            then packet_view silent_packet 124 else empty_view))"
  using reac_parse_packet_correct[of 124 silent_packet empty_view]
  by (simp add: silent_packet_def length_make_packet)

lemma accepted_packet_shape:
  assumes "unat frame_size \<le> length frame"
    and "reac_parse_packet (Some frame) frame_size (Some v) = Some (REAC_STATUS_OK, Some view)"
  shows "even (unat (pv_channels view)) \<and> 2 \<le> unat (pv_channels view) \<and> unat (pv_channels view) \<le> 40
    \<and> unat (pv_payload_size view) = 36 * unat (pv_channels view)
    \<and> unat frame_size = 50 + unat (pv_payload_size view) + 2
    \<and> pv_payload view = Some (drop 50 frame)
    \<and> unat (pv_payload_size view) + 2 \<le> length (drop 50 frame)"
proof -
  let ?n = "unat frame_size"
  from assms have ok: "packet_status frame ?n = REAC_STATUS_OK" and view: "view = packet_view frame ?n"
    by (auto simp: parse_reference split: if_splits)
  from packet_status_OK[OF ok] obtain c where c: "?n = 52 + 36 * c" "0 < c" "c \<le> 40" "even c" .
  have "2 \<le> c" using c(2,4) by (auto elim!: evenE)
  moreover have "unat (pv_channels view) = c" "unat (pv_payload_size view) = 36 * c"
    using c by (simp_all add: view packet_view_def word_nat_simps del: of_nat_mult)
  ultimately show ?thesis
    using c assms(1) by (simp add: view packet_view_def)
qed

text \<open>An accepted packet has an even number of channels between 2 and 40, its payload is 36
  bytes per channel, the payload lies inside the frame, and header, payload and end marker
  make up the whole frame.\<close>

theorem accepted_packet_wellformed:
  assumes "unat frame_size \<le> length frame"
    and "reac_parse_packet (Some frame) frame_size (Some v) = Some (REAC_STATUS_OK, Some view)"
  shows "even (unat (pv_channels view)) \<and> 2 \<le> unat (pv_channels view) \<and> unat (pv_channels view) \<le> 40
    \<and> unat (pv_payload_size view) = 36 * unat (pv_channels view)
    \<and> unat frame_size = 50 + unat (pv_payload_size view) + 2
    \<and> pv_payload view = Some (drop 50 frame)
    \<and> unat (pv_payload_size view) + 2 \<le> length (drop 50 frame)"
  using assms by (rule accepted_packet_shape)

lemma silent_packet_status: "packet_status silent_packet 124 = REAC_STATUS_OK"
  unfolding silent_packet_def by code_simp

theorem accepted_packet_wellformed_witness:
  "unat (pv_payload_size (packet_view silent_packet 124)) = 36 * unat (pv_channels (packet_view silent_packet 124))"
proof -
  have len: "unat (124 :: u64) \<le> length silent_packet"
    by (simp add: silent_packet_def length_make_packet)
  have "reac_parse_packet (Some silent_packet) 124 (Some empty_view) =
      Some (REAC_STATUS_OK, Some (packet_view silent_packet 124))"
    using parse_reference[OF len] by (simp add: silent_packet_status)
  from accepted_packet_wellformed[OF len this] show ?thesis by blast
qed

text \<open>Decoding a payload looks at its bytes only, not at what follows them in memory.\<close>

lemma decoded_sample_payload:
  assumes "even C" "ch < C" "f < 12" "36 * C \<le> length mem"
  shows "decoded_sample (take (36 * C) mem) C ch f = decoded_sample mem C ch f"
proof -
  define p where "p = 3 * C * f + 6 * (ch div 2)"
  have "ch div 2 < C div 2" using assms(1,2) by (auto elim!: evenE)
  then have "6 * (ch div 2) + 6 \<le> 3 * C" using assms(1) by (auto elim!: evenE)
  moreover have "C * f \<le> C * 11" using assms(3) by (intro mult_le_mono2) simp
  then have "3 * C * f \<le> 33 * C" by simp
  ultimately have "p + 6 \<le> 36 * C" unfolding p_def by linarith
  then show ?thesis by (simp add: decoded_sample_def sample_word_def p_def [symmetric])
qed

lemma decoded_outputs_payload:
  assumes "even C" "36 * C \<le> length mem"
  shows "decoded_outputs (decoded_sample (take (36 * C) mem) C) C (\<lambda>_. 12) outs = decoded_outputs (decoded_sample mem C) C (\<lambda>_. 12) outs"
proof -
  have "decoded_buffer (decoded_sample (take (36 * C) mem) C ch) 12 = decoded_buffer (decoded_sample mem C ch) 12" if "ch < C" for ch
    using decoded_sample_payload[OF assms(1) that _ assms(2)] by (intro ext) (simp add: decoded_buffer_def del: upt_rec_numeral)
  then show ?thesis by (simp add: decoded_outputs_def)
qed

text \<open>C13. Whatever the parser accepts, the decoder decodes: on the payload of an accepted packet
  and one buffer of at least 12 samples per channel it succeeds without leaving its buffers,
  writes the first 12 samples of every channel of the packet and changes nothing else.  Its result is
  the same when the memory ends with the last byte of the payload, so no read leaves the payload,
  which has 36 bytes per channel.\<close>

theorem accepted_packet_decodes:
  assumes "unat frame_size \<le> length frame"
    and "reac_parse_packet (Some frame) frame_size (Some v) = Some (REAC_STATUS_OK, Some view)"
    and "good_outputs outs (unat (pv_channels view)) 12"
  defines "decoded \<equiv> decoded_outputs (decoded_sample (drop 50 frame) (unat (pv_channels view))) (unat (pv_channels view)) (\<lambda>_. 12) outs"
  shows "unat (pv_payload_size view) = 36 * unat (pv_channels view) \<and>
    reac_decode_samples_to_channels (pv_payload view) (pv_payload_size view) (pv_channels view) 12 (Some outs) =
      Some (REAC_STATUS_OK, Some decoded) \<and>
    reac_decode_samples_to_channels (Some (take (unat (pv_payload_size view)) (drop 50 frame))) (pv_payload_size view) (pv_channels view) 12
      (Some outs) = Some (REAC_STATUS_OK, Some decoded)"
proof -
  note sh = accepted_packet_shape[OF assms(1,2)]
  then have n: "unat (pv_payload_size view) = 36 * unat (pv_channels view)"
    "36 * unat (pv_channels view) \<le> length (drop 50 frame)" by auto
  note dec = decode_correct[of "pv_channels view" 12 "pv_payload_size view" _ outs]
  from sh dec[of "drop 50 frame"] dec[of "take (36 * unat (pv_channels view)) (drop 50 frame)"] assms(3)
    decoded_outputs_payload[of "unat (pv_channels view)" "drop 50 frame" outs] n
  show ?thesis by (simp add: decoded_def)
qed

lemma silent_packet_parses:
  "reac_parse_packet (Some silent_packet) 124 (Some empty_view) =
     Some (REAC_STATUS_OK, Some (packet_view silent_packet 124))"
  using parse_reference[of 124 silent_packet] silent_packet_status
  by (simp add: silent_packet_def length_make_packet)

lemma good_outputs_replicate: "n \<le> m \<Longrightarrow> good_outputs (replicate C (Some (replicate m x))) C n"
  by (simp add: good_outputs_def)

theorem accepted_packet_decodes_witness:
  "reac_decode_samples_to_channels (Some (drop 50 silent_packet)) 72 2 12
      (Some (replicate 2 (Some (replicate 12 1)))) =
    Some (REAC_STATUS_OK, Some (decoded_outputs (decoded_sample (drop 50 silent_packet) 2) 2 (\<lambda>_. 12)
      (replicate 2 (Some (replicate 12 1))))) \<and>
   reac_decode_samples_to_channels (Some (take 72 (drop 50 silent_packet))) 72 2 12
      (Some (replicate 2 (Some (replicate 12 1)))) =
    Some (REAC_STATUS_OK, Some (decoded_outputs (decoded_sample (drop 50 silent_packet) 2) 2 (\<lambda>_. 12)
      (replicate 2 (Some (replicate 12 1)))))"
proof -
  have ch: "pv_channels (packet_view silent_packet 124) = 2" "pv_payload_size (packet_view silent_packet 124) = 72"
    "pv_payload (packet_view silent_packet 124) = Some (drop 50 silent_packet)"
    by (simp_all add: packet_view_def)
  have len: "unat (124 :: u64) \<le> length silent_packet"
    by (simp add: silent_packet_def length_make_packet)
  have outs: "good_outputs (replicate 2 (Some (replicate 12 1))) 2 12" by (rule good_outputs_replicate) simp
  have n: "unat (72 :: u64) = 72" "unat (2 :: u16) = 2" by simp_all
  from accepted_packet_decodes[OF len silent_packet_parses, of "replicate 2 (Some (replicate 12 1))"] outs
  show ?thesis unfolding ch n by blast
qed

lemma counter_bytes:
  "(of_nat (unat (ucast (c AND 0xff) :: u8) + 256 * unat (ucast (drop_bit 8 c) :: u8)) :: u16) = c"
proof -
  have m: "(0xff :: u16) = mask 8" by (simp add: mask_eq_exp_minus_1)
  have "(ucast (ucast (c AND 0xff) :: u8) OR push_bit 8 (ucast (ucast (drop_bit 8 c) :: u8)) :: u16) = c"
    unfolding m by (rule bit_word_eqI) (auto simp: bit_simps)
  then show ?thesis unfolding le16_value .
qed

lemma make_packet_view:
  fixes counter :: u16 and pcm :: "nat \<Rightarrow> nat \<Rightarrow> int"
  assumes "even C" "0 < C" "C \<le> 40"
  defines "pkt \<equiv> make_packet 0x8819 counter pcm C"
  shows "packet_status pkt (length pkt) = REAC_STATUS_OK"
    and "drop 50 pkt = encode_payload pcm C 12 @ [0xc2, 0xea]"
    and "pv_counter (packet_view pkt (length pkt)) = counter"
    and "length pkt = 52 + 36 * C"
proof -
  have six: "6 * (C div 2) = 3 * C" using assms(1) by auto
  have len: "length pkt = 52 + 36 * C"
    by (simp add: pkt_def length_make_packet six)
  have mk: "pkt ! (50 + 36 * C) = 0xc2" "pkt ! (51 + 36 * C) = 0xea"
  proof -
    define pre where "pre = replicate 12 0 @ [ucast (drop_bit 8 (0x8819 :: u16)), ucast ((0x8819 :: u16) AND 0xff)] @
      [ucast (counter AND 0xff), ucast (drop_bit 8 counter)] @ replicate 34 0 @ encode_payload pcm C 12"
    have "pkt = pre @ [0xc2, 0xea]" "length pre = 50 + 36 * C"
      by (simp_all add: pkt_def make_packet_def pre_def six)
    then show "pkt ! (50 + 36 * C) = 0xc2" "pkt ! (51 + 36 * C) = 0xea"
      by (simp_all add: nth_append)
  qed
  show "packet_status pkt (length pkt) = REAC_STATUS_OK"
    using mk assms(1-3) unfolding packet_status_def len
    by (simp add: pkt_def make_packet_def nth_append)
  show "drop 50 pkt = encode_payload pcm C 12 @ [0xc2, 0xea]"
    by (simp add: pkt_def make_packet_def)
  have "pv_counter (packet_view pkt (length pkt)) =
      of_nat (unat (ucast (counter AND 0xff) :: u8) + 256 * unat (ucast (drop_bit 8 counter) :: u8))"
    by (simp add: pkt_def make_packet_def packet_view_def nth_append)
  then show "pv_counter (packet_view pkt (length pkt)) = counter"
    by (simp only: counter_bytes)
  show "length pkt = 52 + 36 * C" by (fact len)
qed

text \<open>C2. Round trip: a packet built by the reference encoder from 24 bit audio parses, carries its
  counter and channel count, and decodes to exactly the encoded samples divided by
  \<open>2\<^sup>2\<^sup>3\<close>; in particular the conversion to \<open>float\<close> loses no bit.\<close>

theorem packet_roundtrip:
  assumes "even C" "0 < C" "C \<le> 40" "pcm_in_range pcm C 12" "good_outputs outs C 12"
  shows "\<exists>view outs'.
    reac_parse_packet (Some (make_packet 0x8819 counter pcm C))
      (of_nat (length (make_packet 0x8819 counter pcm C))) (Some v) = Some (REAC_STATUS_OK, Some view) \<and>
    pv_counter view = counter \<and> unat (pv_channels view) = C \<and>
    reac_decode_samples_to_channels (pv_payload view) (pv_payload_size view) (pv_channels view) 12
      (Some outs) = Some (REAC_STATUS_OK, Some outs') \<and>
    (\<forall>ch < C. \<exists>buf. outs' ! ch = Some buf \<and> take 12 buf = map (\<lambda>f. of_int (pcm ch f) / 8388608) [0..<12])"
proof -
  let ?pkt = "make_packet 0x8819 counter pcm C"
  let ?size = "of_nat (length ?pkt) :: u64"
  note pkt = make_packet_view[OF assms(1-3), of counter pcm]
  have size: "unat ?size = length ?pkt"
    using assms(3) pkt(4) by (intro unat_of_nat_small) simp
  define view where "view = packet_view ?pkt (length ?pkt)"
  have parse: "reac_parse_packet (Some ?pkt) ?size (Some v) = Some (REAC_STATUS_OK, Some view)"
    using parse_reference[of ?size ?pkt v] pkt(1) by (simp add: size view_def)
  have ch: "unat (pv_channels view) = C"
    using assms(3) unfolding view_def packet_view_def pkt(4)
    by (simp add: word_nat_simps)
  let ?outs' = "decoded_outputs (decoded_sample (drop 50 ?pkt) C) C (\<lambda>_. 12) outs"
  have dec: "reac_decode_samples_to_channels (pv_payload view) (pv_payload_size view) (pv_channels view) 12
      (Some outs) = Some (REAC_STATUS_OK, Some ?outs')"
    using accepted_packet_shape[OF _ parse] assms(5)
      decode_correct[of "pv_channels view" 12 "pv_payload_size view" "drop 50 ?pkt" outs]
    by (simp add: size ch)
  have "\<exists>buf. ?outs' ! c = Some buf \<and> take 12 buf = map (\<lambda>f. of_int (pcm c f) / 8388608) [0..<12]"
    if "c < C" for c
  proof -
    from assms(5) that obtain b where "outs ! c = Some b" "c < length outs"
      by (auto simp: good_outputs_def split: option.splits)
    with that have "?outs' ! c = Some (decoded_buffer (decoded_sample (drop 50 ?pkt) C c) 12 b)"
      by (simp add: decoded_outputs_def)
    moreover have "take 12 (decoded_buffer (decoded_sample (drop 50 ?pkt) C c) 12 b) =
        map (\<lambda>f. of_int (pcm c f) / 8388608) [0..<12]"
      using decoded_sample_encoded[OF assms(1) that _ assms(4)]
      by (simp add: decoded_buffer_def pkt(2) del: upt_conv_Cons_Cons)
    ultimately show ?thesis by blast
  qed
  with parse dec ch pkt(3) show ?thesis
    by (intro exI [of _ view] exI [of _ ?outs']) (auto simp: view_def)
qed

theorem packet_roundtrip_witness:
  "\<exists>view outs'.
    reac_parse_packet (Some (make_packet 0x8819 7 (\<lambda>ch f. int ch - int f) 2))
      (of_nat (length (make_packet 0x8819 7 (\<lambda>ch f. int ch - int f) 2))) (Some empty_view) =
        Some (REAC_STATUS_OK, Some view) \<and>
    pv_counter view = 7 \<and> unat (pv_channels view) = 2 \<and>
    reac_decode_samples_to_channels (pv_payload view) (pv_payload_size view) (pv_channels view) 12
      (Some (replicate 2 (Some (replicate 12 0)))) = Some (REAC_STATUS_OK, Some outs') \<and>
    (\<forall>ch < 2. \<exists>buf. outs' ! ch = Some buf \<and>
       take 12 buf = map (\<lambda>f. of_int (int ch - int f) / 8388608) [0..<12])"
  by (rule packet_roundtrip) (simp_all add: pcm_in_range_def good_outputs_replicate)

lemma sign_extend_24_range:
  assumes "v AND 0x00ffffff = v"
  shows "- 8388608 \<le> sint (sign_extend_24 v) \<and> sint (sign_extend_24 v) < 8388608"
proof -
  have "sign_extend_24 v = word_of_int (signed_take_bit 23 (uint v))"
    unfolding sign_extend_24_signed_take_bit[OF assms]
    by (rule bit_word_eqI) (auto simp: bit_simps min_def)
  then have "sint (sign_extend_24 v) = signed_take_bit 23 (uint v)"
    by (simp add: signed_of_int)
  then show ?thesis
    using signed_take_bit_int_greater_eq_minus_exp[of 23 "uint v"]
      signed_take_bit_int_less_exp[of 23 "uint v"] by simp
qed

lemma sample_word_24: "sample_word mem C ch f AND 0x00ffffff = sample_word mem C ch f"
proof -
  have "(ucast a OR push_bit 8 (ucast b) OR push_bit 16 (ucast c)) AND 0x00ffffff =
      (ucast a OR push_bit 8 (ucast b) OR push_bit 16 (ucast c) :: u32)" for a b c :: u8
    unfolding mask_24 by (rule bit_word_eqI) (auto simp: bit_simps dest: bit_imp_le_length)
  then show ?thesis by (simp add: sample_word_def Let_def)
qed

lemma decoded_sample_range: "- 1 \<le> decoded_sample mem C ch f \<and> decoded_sample mem C ch f < 1"
proof -
  define k where "k = sint (sign_extend_24 (sample_word mem C ch f))"
  have k: "- 8388608 \<le> k" "k < 8388608"
    using sign_extend_24_range[OF sample_word_24, of mem C ch f] by (auto simp: k_def)
  then have "decoded_sample mem C ch f = of_int k / 8388608"
    unfolding decoded_sample_def by (simp add: sample24_exact k_def)
  moreover have "- 8388608 \<le> (of_int k :: rat)" "(of_int k :: rat) < 8388608"
    using k by (metis of_int_le_iff of_int_minus of_int_numeral, metis of_int_less_iff of_int_numeral)
  ultimately show ?thesis by (simp add: field_simps)
qed

text \<open>Every sample that a successful decode writes lies in the range from -1 up to but not
  including 1, whatever bytes the packet holds.\<close>

theorem decoded_samples_in_unit_range:
  assumes "0 < unat channels" "unat channels \<le> 40" "even (unat channels)"
    and "unat channels * unat frames * 3 < 2 ^ 64"
    and "unat sample_bytes = 3 * unat channels * unat frames" "unat sample_bytes \<le> length mem"
    and "good_outputs outs (unat channels) (unat frames)"
  shows "\<exists>outs'. reac_decode_samples_to_channels (Some mem) sample_bytes channels frames (Some outs) =
      Some (REAC_STATUS_OK, Some outs') \<and>
    (\<forall>ch < unat channels. \<exists>buf. outs' ! ch = Some buf \<and>
       (\<forall>f < unat frames. - 1 \<le> buf ! f \<and> buf ! f < 1))"
proof -
  let ?outs' = "decoded_outputs (decoded_sample mem (unat channels)) (unat channels) (\<lambda>_. unat frames) outs"
  have "\<exists>buf. ?outs' ! ch = Some buf \<and> (\<forall>f < unat frames. - 1 \<le> buf ! f \<and> buf ! f < 1)"
    if "ch < unat channels" for ch
    using assms(7) that decoded_sample_range
    by (auto simp: good_outputs_def decoded_outputs_def decoded_buffer_def nth_append split: option.splits)
  with decode_correct[OF assms] show ?thesis by blast
qed

theorem decoded_samples_in_unit_range_witness:
  "\<exists>outs'. reac_decode_samples_to_channels (Some [0xff, 0x7f, 0x80, 0xff, 0, 0]) 6 2 1
      (Some (replicate 2 (Some (replicate 1 0)))) = Some (REAC_STATUS_OK, Some outs') \<and>
    (\<forall>ch < unat (2 :: u16). \<exists>buf. outs' ! ch = Some buf \<and>
       (\<forall>f < unat (1 :: u64). - 1 \<le> buf ! f \<and> buf ! f < 1))"
  by (rule decoded_samples_in_unit_range) (simp_all add: good_outputs_def)

text \<open>Every error return of the decoder leaves the output buffers untouched; a \<open>NULL\<close> sample
  or output pointer, an odd, zero or too large channel count and a wrong byte count are
  reported with their own status before any output is looked at.\<close>

theorem decode_errors:
  "(reac_decode_samples_to_channels mem sample_bytes channels frames outs = Some (status, outs') \<and>
      status \<noteq> REAC_STATUS_OK \<longrightarrow> outs' = outs) \<and>
   (mem = None \<or> outs = None \<longrightarrow>
      reac_decode_samples_to_channels mem sample_bytes channels frames outs =
        Some (REAC_STATUS_BAD_ARGUMENT, outs)) \<and>
   (mem \<noteq> None \<and> outs \<noteq> None \<and> (unat channels = 0 \<or> 40 < unat channels \<or> odd (unat channels)) \<longrightarrow>
      reac_decode_samples_to_channels mem sample_bytes channels frames outs =
        Some (REAC_STATUS_UNSUPPORTED_CHANNEL_COUNT, outs)) \<and>
   (mem \<noteq> None \<and> outs \<noteq> None \<and> 0 < unat channels \<and> unat channels \<le> 40 \<and> even (unat channels) \<and>
      sample_bytes \<noteq> reac_payload_bytes_for channels frames \<longrightarrow>
      reac_decode_samples_to_channels mem sample_bytes channels frames outs =
        Some (REAC_STATUS_BAD_PAYLOAD_SIZE, outs))"
proof -
  have guard: "(channels = 0 \<or> channels > 40 \<or> channels mod 2 \<noteq> 0) \<longleftrightarrow>
      (unat channels = 0 \<or> 40 < unat channels \<or> odd (unat channels))"
    by (auto simp: word_less_nat_alt word_unat_eq_iff unat_mod odd_iff_mod_2_eq_one)
  show ?thesis
    unfolding reac_decode_samples_to_channels_def guard of_nat_numeral
    by (auto split: option.splits if_splits bind_splits)
qed

theorem decode_errors_witness:
  "reac_decode_samples_to_channels (Some []) 0 3 0 (Some []) =
     Some (REAC_STATUS_UNSUPPORTED_CHANNEL_COUNT, Some [])"
  using decode_errors[of "Some []" 0 3 0 "Some []"] by simp

text \<open>The byte count check of the decoder is computed modulo \<open>2\<^sup>6\<^sup>4\<close>: for two channels and
  \<open>2\<^sup>6\<^sup>3\<close> frames the expected size wraps to zero, so an empty sample buffer passes the check
  and the first access of the loop leaves the buffer.\<close>

theorem decode_size_check_wraps:
  "reac_payload_bytes_for 2 (2 ^ 63) = 0 \<and>
   reac_decode_samples_to_channels (Some []) 0 2 (2 ^ 63) (Some (replicate 2 (Some []))) = None"
proof -
  have z: "reac_payload_bytes_for 2 (2 ^ 63) = 0"
    by (simp add: reac_payload_bytes_for_def)
  have up: "[0..<unat (2 ^ 63 :: u64)] = 0 # [1..<unat (2 ^ 63 :: u64)]"
    by (subst upt_conv_Cons) simp_all
  have two: "[0..<Suc (Suc 0)] = [0, 1]" by (simp add: upt_rec)
  have nul: "any_null (replicate 2 (Some [] :: rat list option)) [0..<2] = Some False"
    by (simp add: numeral_2_eq_2 rd_def)
  have "decode_frame [] 2 0 s = None" for s
    by (cases s) (simp add: decode_frame_def decode_pair_def sample1_of_def rd_def)
  then show ?thesis
    using z nul unfolding reac_decode_samples_to_channels_def up
    by simp
qed

end
