(* ===== verification/CaptureCommon.thy ===== *)
theory CaptureCommon
  imports ReacDecode SharedAudio
begin

text \<open>
  What the capture loops of the daemon and of the PipeWire client have in common: the channel
  storage into which packets are decoded, the audio a packet carries, and the conversion of
  command line numbers.
\<close>

section \<open>Channel storage\<close>

text \<open>
  \<open>float channel_storage[REAC_MAX_CHANNELS][REAC_FRAMES_PER_PACKET]\<close>, reached through the
  array \<open>channel_ptrs\<close> of pointers to its rows.
\<close>

type_synonym storage = "rat list list"

definition storage_ok :: "storage \<Rightarrow> bool" where
  "storage_ok st \<longleftrightarrow> length st = 40 \<and> (\<forall>b \<in> set st. length b = 12)"

definition channel_ptrs :: "storage \<Rightarrow> rat list option list" where
  "channel_ptrs st = map Some st"

definition storage_of :: "rat list option list \<Rightarrow> storage" where
  "storage_of ptrs = map (\<lambda>p. case p of None \<Rightarrow> [] | Some b \<Rightarrow> b) ptrs"

text \<open>The frames of audio in the payload of a packet.\<close>

definition packet_audio :: "u8 list \<Rightarrow> nat \<Rightarrow> rat list list" where
  "packet_audio payload C = map (\<lambda>f. map (\<lambda>ch. decoded_sample payload C ch f) [0..<C]) [0..<12]"

lemma storage_buffers: "storage_ok st \<Longrightarrow> C \<le> 40 \<Longrightarrow> buffers_ok C 12 st"
  by (auto simp: storage_ok_def buffers_ok_def)

lemma storage_outputs: "storage_ok st \<Longrightarrow> C \<le> 40 \<Longrightarrow> good_outputs (channel_ptrs st) C 12"
  by (auto simp: storage_ok_def good_outputs_def channel_ptrs_def)

lemma storage_of_decoded:
  fixes sv :: "nat \<Rightarrow> nat \<Rightarrow> rat"
  assumes "storage_ok st" "C \<le> 40"
  defines "st' \<equiv> storage_of (decoded_outputs sv C (\<lambda>_. 12) (channel_ptrs st))"
  shows "storage_ok st'" "ch < C \<Longrightarrow> st' ! ch = map (sv ch) [0..<12]"
proof -
  have len: "length st = 40" "\<And>ch. ch < 40 \<Longrightarrow> length (st ! ch) = 12" using assms(1) by (auto simp: storage_ok_def)
  have st': "st' = map (\<lambda>ch. if ch < C then map (sv ch) [0..<12] else st ! ch) [0..<40]"
    using len by (auto simp: st'_def storage_of_def decoded_outputs_def channel_ptrs_def decoded_buffer_def comp_def)
  show "storage_ok st'" using len by (auto simp: st' storage_ok_def)
  show "ch < C \<Longrightarrow> st' ! ch = map (sv ch) [0..<12]" using assms(2) by (simp add: st')
qed

lemma frames_of_decoded:
  assumes "storage_ok st" "C \<le> 40"
  shows "frames_of C 12 (storage_of (decoded_outputs (decoded_sample payload C) C (\<lambda>_. 12) (channel_ptrs st))) =
    packet_audio payload C"
  using storage_of_decoded(2)[OF assms, of _ "decoded_sample payload C"]
  by (simp add: frames_of_def packet_audio_def del: upt_rec_numeral)

text \<open>Decoding an accepted packet into the storage.\<close>

lemma decode_accepted:
  assumes "unat bytes \<le> length frame" "storage_ok st"
    "reac_parse_packet (Some frame) bytes (Some v) = Some (REAC_STATUS_OK, Some view)"
  shows "\<exists>ptrs. reac_decode_samples_to_channels (pv_payload view) (pv_payload_size view) (pv_channels view) 12
      (Some (channel_ptrs st)) = Some (REAC_STATUS_OK, Some ptrs) \<and> storage_ok (storage_of ptrs) \<and>
    frames_of (unat (pv_channels view)) 12 (storage_of ptrs) = packet_audio (drop 50 frame) (unat (pv_channels view))"
proof -
  note shape = accepted_packet_shape[OF assms(1,3)]
  then have C: "unat (pv_channels view) \<le> 40" by blast
  have "reac_decode_samples_to_channels (pv_payload view) (pv_payload_size view) (pv_channels view) 12
      (Some (channel_ptrs st)) =
    Some (REAC_STATUS_OK, Some (decoded_outputs (decoded_sample (drop 50 frame) (unat (pv_channels view)))
      (unat (pv_channels view)) (\<lambda>_. 12) (channel_ptrs st)))"
    using shape decode_correct[of "pv_channels view" 12 "pv_payload_size view" "drop 50 frame" "channel_ptrs st"]
      storage_outputs[OF assms(2) C] by simp
  with storage_of_decoded(1)[OF assms(2) C] frames_of_decoded[OF assms(2) C] show ?thesis by blast
qed

section \<open>Numbers on the command line\<close>

text \<open>
  \<open>strtol(s, NULL, 10)\<close>: leading white space, an optional sign, then digits; the result
  saturates at the limits of \<open>long\<close>, and is 0 when there is no digit.
\<close>

definition is_space :: "char \<Rightarrow> bool" where
  "is_space c \<longleftrightarrow> c = CHR '' '' \<or> 9 \<le> (of_char c :: nat) \<and> (of_char c :: nat) \<le> 13"

definition digit_value :: "char \<Rightarrow> int option" where
  "digit_value c = (if 48 \<le> (of_char c :: int) \<and> (of_char c :: int) \<le> 57 then Some (of_char c - 48) else None)"

fun parse_digits :: "int \<Rightarrow> string \<Rightarrow> int" where
  "parse_digits acc [] = acc"
| "parse_digits acc (c # cs) = (case digit_value c of None \<Rightarrow> acc | Some d \<Rightarrow> parse_digits (10 * acc + d) cs)"

definition strtol10 :: "string \<Rightarrow> int" where
  "strtol10 s =
     (let t = dropWhile is_space s;
          v = (case t of
                 [] \<Rightarrow> 0
               | c # cs \<Rightarrow> if c = CHR ''-'' then - parse_digits 0 cs
                           else if c = CHR ''+'' then parse_digits 0 cs
                           else parse_digits 0 t)
      in max (- (2 ^ 63)) (min (2 ^ 63 - 1) v))"

text \<open>The check of \<open>-c\<close>, the same in the daemon and in the PipeWire client.\<close>

definition channels_argument :: "string \<Rightarrow> u16 option" where
  "channels_argument s =
     (let channels = strtol10 s
      in if channels \<le> 0 \<or> channels > int REAC_MAX_CHANNELS \<or> channels mod 2 \<noteq> 0 then None
         else Some (word_of_int channels))"

lemma channels_argument_valid:
  assumes "channels_argument s = Some c"
  shows "0 < unat c" "unat c \<le> 40" "even (unat c)" "int (unat c) = strtol10 s"
proof -
  from assms have v: "0 < strtol10 s" "strtol10 s \<le> 40" "strtol10 s mod 2 = 0" "c = word_of_int (strtol10 s)"
    by (auto simp: channels_argument_def Let_def split: if_splits)
  define n where "n = nat (strtol10 s)"
  have n: "strtol10 s = int n" "n \<le> 40" "0 < n" "even n" using v(1-3) by (auto simp: n_def even_nat_iff)
  have "unat c = n" unfolding v(4) n(1) using n(2) by (simp add: unat_of_nat_small)
  with n show "0 < unat c" "unat c \<le> 40" "even (unat c)" "int (unat c) = strtol10 s" by simp_all
qed

text \<open>The channel counts a REAC stream can have.\<close>

definition valid_channels :: "u16 \<Rightarrow> bool" where
  "valid_channels c \<longleftrightarrow> 0 < unat c \<and> unat c \<le> 40 \<and> even (unat c)"

lemma channels_argument_ok: "channels_argument s = Some c \<Longrightarrow> valid_channels c"
  by (simp add: valid_channels_def channels_argument_valid)

section \<open>Network interfaces\<close>

text \<open>An entry of the interface list: whether it has a packet address, and its name.\<close>

type_synonym ifaddr = "bool \<times> string"

definition shown_interfaces :: "ifaddr list \<Rightarrow> string list" where
  "shown_interfaces ifs = map snd (filter fst ifs)"

text \<open>The second pass over the list, up to the selected entry.\<close>

fun find_interface :: "int \<Rightarrow> int \<Rightarrow> ifaddr list \<Rightarrow> string option" where
  "find_interface selected current [] = None"
| "find_interface selected current ((is_packet, name) # ifs) =
     (if \<not> is_packet then find_interface selected current ifs
      else if current + 1 = selected then Some name
      else find_interface selected (current + 1) ifs)"

lemma find_interface_nth:
  assumes "current < selected" "selected \<le> current + int (length (shown_interfaces ifs))"
  shows "find_interface selected current ifs = Some (shown_interfaces ifs ! nat (selected - current - 1))"
  using assms
proof (induction ifs arbitrary: current)
  case (Cons entry ifs)
  obtain pkt name where e: "entry = (pkt, name)" by fastforce
  show ?case
  proof (cases "pkt \<and> current + 1 \<noteq> selected")
    case True
    with Cons.IH[of "current + 1"] Cons.prems e
    have "find_interface selected current (entry # ifs) = Some (shown_interfaces ifs ! nat (selected - current - 2))"
      by (simp add: shown_interfaces_def)
    moreover have "nat (selected - current - 1) = Suc (nat (selected - current - 2))" using True Cons.prems by linarith
    ultimately show ?thesis using True e by (simp add: shown_interfaces_def)
  next
    case False
    with Cons e show ?thesis by (auto simp: shown_interfaces_def)
  qed
qed (simp add: shown_interfaces_def)

section \<open>Capturing with libpcap\<close>

text \<open>What the calls of \<open>libpcap\<close> return when a capture is opened.\<close>

record pcap_setup =
  pcap_create_ok :: bool
  pcap_activate_rc :: int
  pcap_is_ethernet :: bool
  pcap_compile_ok :: bool
  pcap_setfilter_ok :: bool

text \<open>What \<open>pcap_next_ex\<close> returns: 0, -2, an error, or 1 with the captured bytes.\<close>

datatype pcap_result = PcapTimeout | PcapBreak | PcapError | PcapPacket "u8 list"

end
