(* ===== verification/CaptureLoop.thy ===== *)
theory CaptureLoop
  imports ReacPrelude
begin

text \<open>
  The loops of the program: how a run of one ends, and the contract of a capture thread, whose
  accounting follows once for every capture backend from what a single pass promises.
\<close>

section \<open>The end of a loop\<close>

text \<open>
  A loop of the program runs until its flag is cleared or an error ends it.  A run of the model
  gives it what it observes in each pass: when these observations are used up without the loop
  having returned, it is still running, and this is not a return.
\<close>

datatype ('s, 'r) loop_end = Running 's | Returned 's 'r

fun end_state :: "('s, 'r) loop_end \<Rightarrow> 's" where
  "end_state (Running s) = s"
| "end_state (Returned s rc) = s"

text \<open>
  How a pass of a capture thread ends: the next pass follows, the thread leaves its loop, or it is
  still inside the call that waits for a frame when the observations are used up.
\<close>

datatype pass_end = NextPass | LeaveLoop | InCall

section \<open>What the observations ask for\<close>

text \<open>
  What a pass has to come to, judged by its observations alone: the thread stops, it goes on
  waiting, the capture fails, or a frame is taken.
\<close>

datatype outcome = Stops | Waits | Fails | Takes

text \<open>
  The account of a sequence of passes, from the place where the first frame is expected: whether
  the thread has returned, how many frames it has taken and how many times the capture failed.
\<close>

fun account :: "('p \<Rightarrow> 'e \<Rightarrow> outcome) \<Rightarrow> ('p \<Rightarrow> 'p) \<Rightarrow> 'p \<Rightarrow> 'e list \<Rightarrow> bool \<times> nat \<times> nat" where
  "account outcome next_place p [] = (False, 0, 0)"
| "account outcome next_place p (e # es) =
     (case outcome p e of
        Stops \<Rightarrow> (True, 0, 0)
      | Waits \<Rightarrow> (False, 0, 0)
      | Fails \<Rightarrow> (let (returned, taken, failed) = account outcome next_place p es in (returned, taken, failed + 1))
      | Takes \<Rightarrow> (let (returned, taken, failed) = account outcome next_place (next_place p) es in (returned, taken + 1, failed)))"

lemma account_bound: "account outcome next_place p es = (returned, taken, failed) \<Longrightarrow> taken + failed \<le> length es"
  by (induction es arbitrary: p returned taken failed) (force split: outcome.splits prod.splits)+

section \<open>The contract of a capture thread\<close>

text \<open>
  \<open>pass\<close> is one pass of the loop, the evaluation of its condition included; \<open>counted\<close> and \<open>failures\<close>
  are the counters of the thread and \<open>place\<close> is where it takes the next frame from.
\<close>

locale capture_thread =
  fixes pass :: "'e \<Rightarrow> 's \<Rightarrow> ('s \<times> pass_end) option"
    and thread_loop :: "'e list \<Rightarrow> 's \<Rightarrow> ('s, unit) loop_end option"
    and invar :: "'s \<Rightarrow> bool"
    and event_fine :: "'e \<Rightarrow> bool"
    and outcome_of :: "'p \<Rightarrow> 'e \<Rightarrow> outcome"
    and place :: "'s \<Rightarrow> 'p"
    and next_place :: "'p \<Rightarrow> 'p"
    and counted :: "'s \<Rightarrow> u64"
    and failures :: "'s \<Rightarrow> u64"
  assumes loop_nil: "thread_loop [] s = Some (Running s)"
    and loop_cons: "thread_loop (e # es) s =
      do { (s', how) \<leftarrow> pass e s;
           case how of NextPass \<Rightarrow> thread_loop es s' | LeaveLoop \<Rightarrow> Some (Returned s' ()) | InCall \<Rightarrow> Some (Running s') }"
    and pass_outcome: "invar s \<Longrightarrow> event_fine e \<Longrightarrow> \<exists>s'. invar s' \<and>
      pass e s = Some (s', case outcome_of (place s) e of Stops \<Rightarrow> LeaveLoop | Waits \<Rightarrow> InCall | _ \<Rightarrow> NextPass) \<and>
      counted s' = counted s + (if outcome_of (place s) e = Takes then 1 else 0) \<and>
      failures s' = failures s + (if outcome_of (place s) e = Fails then 1 else 0) \<and>
      place s' = (if outcome_of (place s) e = Takes then next_place (place s) else place s)"
begin

text \<open>The loop agrees with the account of its observations: on its end, its counters and its place.\<close>

lemma loop_account:
  assumes "invar s" "list_all event_fine es" "account outcome_of next_place (place s) es = (returned, taken, failed)"
  shows "\<exists>s'. thread_loop es s = Some (if returned then Returned s' () else Running s') \<and> invar s' \<and>
    counted s' = counted s + of_nat taken \<and> failures s' = failures s + of_nat failed \<and>
    place s' = (next_place ^^ taken) (place s)"
  using assms
proof (induction es arbitrary: s returned taken failed)
  case Nil
  then show ?case by (simp add: loop_nil)
next
  case (Cons e es)
  from pass_outcome[OF Cons.prems(1), of e] Cons.prems(2) obtain s1 where
    p: "invar s1" "pass e s = Some (s1, case outcome_of (place s) e of Stops \<Rightarrow> LeaveLoop | Waits \<Rightarrow> InCall | _ \<Rightarrow> NextPass)"
      "counted s1 = counted s + (if outcome_of (place s) e = Takes then 1 else 0)"
      "failures s1 = failures s + (if outcome_of (place s) e = Fails then 1 else 0)"
      "place s1 = (if outcome_of (place s) e = Takes then next_place (place s) else place s)" by auto
  obtain r t f where rest: "account outcome_of next_place (place s1) es = (r, t, f)" by (metis prod_cases3)
  have fine: "list_all event_fine es" using Cons.prems(2) by simp
  note ih = Cons.IH[OF p(1) fine rest]
  show ?case
  proof (cases "outcome_of (place s) e")
    case Fails
    with ih p rest Cons.prems(3) show ?thesis by (auto simp: loop_cons add.assoc)
  next
    case Takes
    with ih p rest Cons.prems(3) show ?thesis by (auto simp: loop_cons add.assoc funpow_swap1)
  qed (use p Cons.prems(3) in \<open>simp_all add: loop_cons\<close>)
qed

end

end
