(* ===== verification/SharedAudioShm.thy ===== *)
theory SharedAudioShm
  imports SharedAudio
begin

text \<open>
  Creation, opening and closing of the ring in POSIX shared memory (\<open>src/shared_audio.c\<close>).  The
  operating system is a table of names, a table of memory objects, the open file descriptors
  and the mappings; each system call may fail when the environment says so, and the C functions
  are run against it with all their error paths.
\<close>

section \<open>The operating system\<close>

text \<open>
  A memory object has a size in bytes; seen through a mapping it is a header followed, at the
  sample offset, by as many samples as fit.
\<close>

record 'a shm_object =
  o_size :: u64
  o_ring :: "'a shared_ring"

record 'a os =
  os_names :: "string \<rightharpoonup> nat"
  os_objects :: "nat \<rightharpoonup> 'a shm_object"
  os_next :: nat
  os_fds :: "nat list"
  os_maps :: "(nat \<times> u64) list"

datatype syscall = Sys_shm_open | Sys_ftruncate | Sys_mmap | Sys_fstat

text \<open>The calls that fail in this run for reasons outside the model (permissions, memory).\<close>

type_synonym failures = "syscall \<Rightarrow> bool"

definition sizeof_SharedAudioHeader :: u64 where
  "sizeof_SharedAudioHeader = 112"

definition zero_header :: SharedAudioHeader where
  "zero_header =
     \<lparr>h_magic = 0, h_abi_version = 0, h_header_bytes = 0, h_sample_rate = 0, h_channels = 0,
      h_capacity_frames = 0, h_write_pos = 0, h_read_pos = 0, h_underruns = 0, h_overruns = 0,
      h_dropped_packets = 0, h_resets = 0, h_inserted_frames = 0, h_dropped_frames = 0,
      h_clock_seq = 0, h_clock_host_time = 0, h_clock_sample_pos = 0\<rparr>"

section \<open>Sizes\<close>

definition samples_offset :: u64 where
  "samples_offset = (sizeof_SharedAudioHeader + (64 - 1)) AND NOT (64 - 1)"

definition mapping_bytes :: "u32 \<Rightarrow> u32 \<Rightarrow> u64" where
  "mapping_bytes channels capacity_frames =
     samples_offset + ucast channels * ucast capacity_frames * 4"

text \<open>The number of samples behind the sample offset of an object of a given size.\<close>

definition samples_in :: "u64 \<Rightarrow> nat" where
  "samples_in bytes = (unat bytes - 128) div 4"

section \<open>System calls\<close>

definition shm_unlink :: "'a os \<Rightarrow> string \<Rightarrow> 'a os \<times> int" where
  "shm_unlink os name =
     (os\<lparr>os_names := (os_names os)(name := None)\<rparr>, if os_names os name = None then - 1 else 0)"

text \<open>\<open>shm_open(name, O_RDWR | O_CREAT | O_EXCL, 0600)\<close>\<close>

definition shm_open_new :: "failures \<Rightarrow> ('a::zero) os \<Rightarrow> string \<Rightarrow> 'a os \<times> nat option" where
  "shm_open_new fails os name =
     (if fails Sys_shm_open \<or> os_names os name \<noteq> None then (os, None)
      else (let fd = os_next os in
        (os\<lparr>os_names := (os_names os)(name \<mapsto> fd), os_next := fd + 1, os_fds := fd # os_fds os,
            os_objects := (os_objects os)(fd \<mapsto>
              \<lparr>o_size = 0, o_ring = \<lparr>header = zero_header, samples = []\<rparr>\<rparr>)\<rparr>, Some fd)))"

text \<open>\<open>shm_open(name, O_RDWR, 0)\<close>\<close>

definition shm_open_old :: "failures \<Rightarrow> 'a os \<Rightarrow> string \<Rightarrow> 'a os \<times> nat option" where
  "shm_open_old fails os name =
     (case os_names os name of
        None \<Rightarrow> (os, None)
      | Some fd \<Rightarrow> if fails Sys_shm_open then (os, None) else (os\<lparr>os_fds := fd # os_fds os\<rparr>, Some fd))"

text \<open>Growing a new object: its bytes are zero.\<close>

definition ftruncate :: "failures \<Rightarrow> ('a::zero) os \<Rightarrow> nat \<Rightarrow> u64 \<Rightarrow> 'a os \<times> int" where
  "ftruncate fails os fd bytes =
     (if fails Sys_ftruncate then (os, - 1)
      else (os\<lparr>os_objects := (os_objects os)(fd \<mapsto>
              \<lparr>o_size = bytes, o_ring = \<lparr>header = zero_header, samples = replicate (samples_in bytes) 0\<rparr>\<rparr>)\<rparr>, 0))"

definition fstat_size :: "failures \<Rightarrow> 'a os \<Rightarrow> nat \<Rightarrow> u64 option" where
  "fstat_size fails os fd = (if fails Sys_fstat then None else map_option o_size (os_objects os fd))"

definition close_fd :: "'a os \<Rightarrow> nat \<Rightarrow> 'a os" where
  "close_fd os fd = os\<lparr>os_fds := remove1 fd (os_fds os)\<rparr>"

definition munmap :: "'a os \<Rightarrow> nat \<Rightarrow> u64 \<Rightarrow> 'a os" where
  "munmap os addr bytes = os\<lparr>os_maps := remove1 (addr, bytes) (os_maps os)\<rparr>"

section \<open>The handle and its operations\<close>

text \<open>Pointers into a mapping are named by the mapped object; \<^term>\<open>None\<close> is the null pointer.\<close>

record SharedAudio =
  sa_header :: "nat option"
  sa_samples :: "nat option"
  sa_mapped_bytes :: u64
  sa_owner :: int
  sa_name :: string

definition map_shared :: "failures \<Rightarrow> 'a os \<Rightarrow> SharedAudio \<Rightarrow> nat \<Rightarrow> u64 \<Rightarrow> 'a os \<times> SharedAudio \<times> int" where
  "map_shared fails os audio fd bytes =
     (if fails Sys_mmap then (os, audio, - 1)
      else (os\<lparr>os_maps := (fd, bytes) # os_maps os\<rparr>,
            audio\<lparr>sa_header := Some fd, sa_samples := Some fd, sa_mapped_bytes := bytes\<rparr>, 0))"

definition init_handle :: "SharedAudio \<Rightarrow> string option \<Rightarrow> SharedAudio \<times> int" where
  "init_handle audio name =
     (case name of
        None \<Rightarrow> (audio, - 1)
      | Some n \<Rightarrow> if n = [] \<or> hd n \<noteq> CHR ''/'' \<or> length n \<ge> 32 then (audio, - 1)
                  else (\<lparr>sa_header = None, sa_samples = None, sa_mapped_bytes = 0, sa_owner = 0, sa_name = n\<rparr>, 0))"

definition shared_audio_close :: "'a os \<Rightarrow> SharedAudio \<Rightarrow> 'a os \<times> SharedAudio" where
  "shared_audio_close os audio =
     (case sa_header audio of
        None \<Rightarrow> (os, audio)
      | Some addr \<Rightarrow> (munmap os addr (sa_mapped_bytes audio),
                      audio\<lparr>sa_header := None, sa_samples := None, sa_mapped_bytes := 0\<rparr>))"

definition shared_audio_unlink :: "'a os \<Rightarrow> string \<Rightarrow> 'a os \<times> int" where
  "shared_audio_unlink os name = shm_unlink os name"

text \<open>The header stores of \<open>shared_audio_create\<close>.\<close>

definition initial_header :: "SharedAudioHeader \<Rightarrow> u32 \<Rightarrow> u16 \<Rightarrow> u32 \<Rightarrow> SharedAudioHeader" where
  "initial_header h sample_rate channels capacity_frames =
     h\<lparr>h_magic := 0x524a5341, h_abi_version := 3, h_header_bytes := ucast sizeof_SharedAudioHeader,
       h_sample_rate := sample_rate, h_channels := ucast channels, h_capacity_frames := capacity_frames\<rparr>"

definition store_header :: "'a os \<Rightarrow> nat \<Rightarrow> (SharedAudioHeader \<Rightarrow> SharedAudioHeader) \<Rightarrow> 'a os" where
  "store_header os addr f =
     os\<lparr>os_objects := (os_objects os)(addr := map_option
        (\<lambda>obj. obj\<lparr>o_ring := (o_ring obj)\<lparr>header := f (header (o_ring obj))\<rparr>\<rparr>) (os_objects os addr))\<rparr>"

definition shared_audio_create ::
  "failures \<Rightarrow> ('a::zero) os \<Rightarrow> SharedAudio \<Rightarrow> string option \<Rightarrow> u32 \<Rightarrow> u16 \<Rightarrow> u32 \<Rightarrow> 'a os \<times> SharedAudio \<times> int" where
  "shared_audio_create fails os audio name sample_rate channels capacity_frames =
     (let (audio, rc) = init_handle audio name
      in if rc \<noteq> 0 \<or> sample_rate = 0 \<or> channels = 0 \<or> capacity_frames = 0 then (os, audio, - 1)
         else let name = the name;
                  (os, _) = shm_unlink os name;
                  (os, fd) = shm_open_new fails os name
              in case fd of
                   None \<Rightarrow> (os, audio, - 1)
                 | Some fd \<Rightarrow>
                     let bytes = mapping_bytes (ucast channels) capacity_frames;
                         (os, trunc) = ftruncate fails os fd bytes;
                         (os, audio, mapped) = (if trunc \<noteq> 0 then (os, audio, - 1) else map_shared fails os audio fd bytes)
                     in if trunc \<noteq> 0 \<or> mapped \<noteq> 0
                        then (fst (shm_unlink (close_fd os fd) name), audio, - 1)
                        else (store_header (close_fd os fd) fd
                                (\<lambda>h. initial_header h sample_rate channels capacity_frames),
                              audio\<lparr>sa_owner := 1\<rparr>, 0))"

text \<open>The validation of a mapped header of an object of \<open>st_size\<close> bytes.\<close>

definition header_acceptable :: "SharedAudioHeader \<Rightarrow> u64 \<Rightarrow> bool" where
  "header_acceptable h st_size \<longleftrightarrow>
     \<not> (h_magic h \<noteq> 0x524a5341 \<or> h_abi_version h \<noteq> 3 \<or>
        h_header_bytes h \<noteq> ucast sizeof_SharedAudioHeader \<or>
        h_channels h = 0 \<or> h_capacity_frames h = 0 \<or>
        st_size < mapping_bytes (h_channels h) (h_capacity_frames h))"

definition shared_audio_open ::
  "failures \<Rightarrow> 'a os \<Rightarrow> SharedAudio \<Rightarrow> string option \<Rightarrow> 'a os \<times> SharedAudio \<times> int" where
  "shared_audio_open fails os audio name =
     (let (audio, rc) = init_handle audio name
      in if rc \<noteq> 0 then (os, audio, - 1)
         else let (os, fd) = shm_open_old fails os (the name)
              in case fd of
                   None \<Rightarrow> (os, audio, - 1)
                 | Some fd \<Rightarrow>
                     (case fstat_size fails os fd of
                        None \<Rightarrow> (close_fd os fd, audio, - 1)
                      | Some st_size \<Rightarrow>
                          if st_size < sizeof_SharedAudioHeader then (close_fd os fd, audio, - 1)
                          else let (os, audio, mapped) = map_shared fails os audio fd st_size
                               in if mapped \<noteq> 0 then (close_fd os fd, audio, - 1)
                                  else let os = close_fd os fd
                                       in case os_objects os fd of
                                            None \<Rightarrow> (os, audio, - 1)
                                          | Some obj \<Rightarrow>
                                              if header_acceptable (header (o_ring obj)) st_size
                                              then (os, audio, 0)
                                              else let (os, audio) = shared_audio_close os audio
                                                   in (os, audio, - 1)))"

section \<open>The ring of a handle\<close>

text \<open>The memory that the pointers of a handle reach.\<close>

definition ring_at :: "'a os \<Rightarrow> SharedAudio \<Rightarrow> 'a shared_ring option" where
  "ring_at os audio = do { addr \<leftarrow> sa_header audio; obj \<leftarrow> os_objects os addr; Some (o_ring obj) }"

definition put_ring :: "'a os \<Rightarrow> SharedAudio \<Rightarrow> 'a shared_ring \<Rightarrow> 'a os" where
  "put_ring os audio ring =
     (case sa_header audio of
        None \<Rightarrow> os
      | Some addr \<Rightarrow> os\<lparr>os_objects := (os_objects os)(addr := map_option (o_ring_update (\<lambda>_. ring)) (os_objects os addr))\<rparr>)"

lemma ring_at_put: "ring_at os audio = Some r \<Longrightarrow> ring_at (put_ring os audio r') audio = Some r'"
  by (auto simp: ring_at_def put_ring_def split: bind_splits)

section \<open>Sizes without wrap-around\<close>

lemma samples_offset_val [simp]: "samples_offset = 128"
  unfolding samples_offset_def sizeof_SharedAudioHeader_def by code_simp

lemma unat_mapping_bytes:
  assumes "unat channels * unat capacity < 2 ^ 62 - 32"
  shows "unat (mapping_bytes channels capacity) = 128 + unat channels * unat capacity * 4"
proof -
  from assms have "unat channels * unat capacity < 4611686018427387872" by simp
  then have "128 + unat channels * unat capacity * 4 < 18446744073709551616" by linarith
  then have "(128 + unat channels * unat capacity * 4) mod 18446744073709551616 = 128 + unat channels * unat capacity * 4"
    by (rule mod_less)
  then show ?thesis by (simp add: mapping_bytes_def unat_word_ariths mod_simps)
qed

lemma samples_in_mapping_bytes:
  assumes "unat channels * unat capacity < 2 ^ 62 - 32"
  shows "samples_in (mapping_bytes channels capacity) = unat channels * unat capacity"
  by (simp add: samples_in_def unat_mapping_bytes[OF assms])

lemma u16_channels_bound: "unat (ucast (channels :: u16) :: u32) * unat (capacity :: u32) < 2 ^ 62 - 32"
proof -
  have "unat channels * unat capacity \<le> (2 ^ 16) * (2 ^ 32)"
    by (intro mult_le_mono) (simp_all add: less_imp_le)
  then show ?thesis by simp
qed

lemma accepted_header_size:
  assumes "header_acceptable h st_size" "unat (h_channels h) * unat (h_capacity_frames h) < 2 ^ 62 - 32"
  shows "unat (h_channels h) * unat (h_capacity_frames h) \<le> samples_in st_size"
proof -
  have "unat (mapping_bytes (h_channels h) (h_capacity_frames h)) \<le> unat st_size"
    using assms(1) by (simp add: header_acceptable_def word_le_nat_alt not_less)
  then show ?thesis by (simp add: unat_mapping_bytes[OF assms(2)] samples_in_def)
qed

section \<open>Paths through create and open\<close>

lemma init_handle_ok:
  "init_handle audio name = (audio', 0) \<longleftrightarrow>
   (\<exists>n. name = Some n \<and> n \<noteq> [] \<and> hd n = CHR ''/'' \<and> length n < 32 \<and>
     audio' = \<lparr>sa_header = None, sa_samples = None, sa_mapped_bytes = 0, sa_owner = 0, sa_name = n\<rparr>)"
  by (auto simp: init_handle_def split: option.splits)

lemma init_handle_rc: "snd (init_handle audio name) = 0 \<or> snd (init_handle audio name) = - 1"
  by (auto simp: init_handle_def split: option.splits)

lemmas os_defs = shm_unlink_def shm_open_new_def shm_open_old_def ftruncate_def map_shared_def close_fd_def
  store_header_def munmap_def

text \<open>A successful creation: the new object, its mapping and the handle.\<close>

lemma create_success:
  assumes "shared_audio_create fails os audio (Some n) sr ch cap = (os', audio', 0)"
  shows "os_names os' n = Some (os_next os) \<and>
    os_objects os' (os_next os) = Some \<lparr>o_size = mapping_bytes (ucast ch) cap,
      o_ring = \<lparr>header = initial_header zero_header sr ch cap,
                samples = replicate (samples_in (mapping_bytes (ucast ch) cap)) 0\<rparr>\<rparr> \<and>
    audio' = \<lparr>sa_header = Some (os_next os), sa_samples = Some (os_next os),
      sa_mapped_bytes = mapping_bytes (ucast ch) cap, sa_owner = 1, sa_name = n\<rparr> \<and>
    ch \<noteq> 0 \<and> cap \<noteq> 0 \<and> n \<noteq> [] \<and> hd n = CHR ''/'' \<and> length n < 32"
  using assms unfolding shared_audio_create_def
  by (auto simp: os_defs init_handle_def Let_def split: if_splits)

lemma create_resources:
  assumes "shared_audio_create fails os audio name sr ch cap = (os', audio', rc)"
  shows "os_fds os' = os_fds os"
    "rc = 0 \<or> rc = - 1"
    "rc = 0 \<Longrightarrow> os_maps os' = (the (sa_header audio'), sa_mapped_bytes audio') # os_maps os"
    "rc \<noteq> 0 \<Longrightarrow> os_maps os' = os_maps os"
  using assms unfolding shared_audio_create_def
  by (auto simp: os_defs init_handle_def Let_def split: if_splits option.splits)

lemma open_resources:
  assumes "shared_audio_open fails os audio name = (os', audio', rc)"
  shows "os_fds os' = os_fds os"
    "rc = 0 \<or> rc = - 1"
    "rc = 0 \<Longrightarrow> os_maps os' = (the (sa_header audio'), sa_mapped_bytes audio') # os_maps os"
    "rc \<noteq> 0 \<Longrightarrow> os_maps os' = os_maps os"
  using assms unfolding shared_audio_open_def
  by (auto simp: os_defs init_handle_def shared_audio_close_def fstat_size_def Let_def split: if_splits option.splits)

text \<open>Opening the ring a name is bound to.\<close>

lemma open_success:
  assumes "os_names os n = Some i" "os_objects os i = Some obj" "n \<noteq> []" "hd n = CHR ''/''" "length n < 32"
    "o_size obj \<ge> sizeof_SharedAudioHeader" "header_acceptable (header (o_ring obj)) (o_size obj)"
  shows "shared_audio_open (\<lambda>_. False) os audio (Some n) =
    (os\<lparr>os_maps := (i, o_size obj) # os_maps os\<rparr>,
     \<lparr>sa_header = Some i, sa_samples = Some i, sa_mapped_bytes = o_size obj, sa_owner = 0, sa_name = n\<rparr>, 0)"
  using assms by (simp add: shared_audio_open_def os_defs init_handle_def fstat_size_def not_le Let_def)

lemma open_accepted:
  assumes "shared_audio_open fails os audio name = (os', audio', 0)"
  shows "\<exists>i obj. sa_header audio' = Some i \<and> os_objects os' i = Some obj \<and> sa_mapped_bytes audio' = o_size obj \<and>
    header_acceptable (header (o_ring obj)) (o_size obj) \<and> os_objects os' = os_objects os"
  using assms unfolding shared_audio_open_def
  by (auto simp: os_defs init_handle_def shared_audio_close_def fstat_size_def Let_def split: if_splits option.splits)

lemma created_header_acceptable:
  assumes "ch \<noteq> 0" "cap \<noteq> 0"
  shows "header_acceptable (initial_header zero_header sr ch cap) (mapping_bytes (ucast ch) cap)"
    "mapping_bytes (ucast ch) cap \<ge> sizeof_SharedAudioHeader"
proof -
  have "(ucast ch :: u32) \<noteq> 0" using assms(1) by (simp add: word_unat_eq_iff)
  with assms(2) show "header_acceptable (initial_header zero_header sr ch cap) (mapping_bytes (ucast ch) cap)"
    by (simp add: header_acceptable_def initial_header_def)
  show "mapping_bytes (ucast ch) cap \<ge> sizeof_SharedAudioHeader"
    using unat_mapping_bytes[OF u16_channels_bound, of ch cap]
    by (simp add: word_le_nat_alt sizeof_SharedAudioHeader_def)
qed

lemma created_ring:
  assumes "cap \<noteq> 0"
  shows "ring_ok \<lparr>header = initial_header zero_header sr ch cap,
      samples = replicate (samples_in (mapping_bytes (ucast ch) cap)) 0\<rparr>"
  using assms samples_in_mapping_bytes[OF u16_channels_bound, of ch cap]
  by (simp add: ring_ok_def initial_header_def zero_header_def word_unat_eq_iff)

section \<open>Properties\<close>

text \<open>C23. A ring that was created can be opened: after a successful creation the object bound to the
  name is a well-formed empty ring with the requested geometry and all counters at zero, and
  a reader that opens the name gets a handle to the same memory, mapped in full.\<close>

theorem create_open_roundtrip:
  fixes os :: "('a::zero) os"
  assumes "shared_audio_create fails os audio (Some n) sr ch cap = (os', audio', 0)"
  shows "\<exists>i obj. sa_header audio' = Some i \<and> os_objects os' i = Some obj \<and> ring_ok (o_ring obj) \<and>
    fill_of (o_ring obj) = 0 \<and> h_channels (header (o_ring obj)) = ucast ch \<and>
    h_capacity_frames (header (o_ring obj)) = cap \<and> h_sample_rate (header (o_ring obj)) = sr \<and>
    (\<forall>reader. \<exists>os'' reader'. shared_audio_open (\<lambda>_. False) os' reader (Some n) = (os'', reader', 0) \<and>
       sa_header reader' = Some i \<and> sa_mapped_bytes reader' = sa_mapped_bytes audio' \<and>
       os_objects os'' i = Some obj)"
proof -
  note c = create_success[OF assms]
  let ?obj = "\<lparr>o_size = mapping_bytes (ucast ch) cap, o_ring = \<lparr>header = initial_header zero_header sr ch cap,
      samples = replicate (samples_in (mapping_bytes (ucast ch) cap)) (0 :: 'a)\<rparr>\<rparr>"
  from c have op: "shared_audio_open (\<lambda>_. False) os' reader (Some n) =
    (os'\<lparr>os_maps := (os_next os, o_size ?obj) # os_maps os'\<rparr>,
     \<lparr>sa_header = Some (os_next os), sa_samples = Some (os_next os), sa_mapped_bytes = o_size ?obj,
      sa_owner = 0, sa_name = n\<rparr>, 0)" for reader
    using created_header_acceptable(1)[of ch cap sr] created_header_acceptable(2)[of ch cap] by (intro open_success) auto
  have ok: "ring_ok (o_ring ?obj)" using c created_ring[of cap sr ch] by simp
  have "fill_of (o_ring ?obj) = 0" "h_channels (header (o_ring ?obj)) = ucast ch"
    "h_capacity_frames (header (o_ring ?obj)) = cap" "h_sample_rate (header (o_ring ?obj)) = sr"
    by (simp_all add: fill_of_def initial_header_def zero_header_def)
  with c op ok show ?thesis by (intro exI [of _ "os_next os"] exI [of _ ?obj]) simp
qed

definition empty_os :: "int os" where
  "empty_os = \<lparr>os_names = Map.empty, os_objects = Map.empty, os_next = 0, os_fds = [], os_maps = []\<rparr>"

definition no_handle :: SharedAudio where
  "no_handle = \<lparr>sa_header = None, sa_samples = None, sa_mapped_bytes = 0, sa_owner = 0, sa_name = []\<rparr>"

theorem create_open_roundtrip_witness:
  "\<exists>os' audio' i. shared_audio_create (\<lambda>_. False) empty_os no_handle (Some ''/reac'') 48000 2 4 = (os', audio', 0) \<and>
     sa_header audio' = Some i \<and>
     (\<exists>os'' reader'. shared_audio_open (\<lambda>_. False) os' no_handle (Some ''/reac'') = (os'', reader', 0) \<and>
        sa_header reader' = Some i)"
proof -
  obtain os' audio' where
    c: "shared_audio_create (\<lambda>_. False) empty_os no_handle (Some ''/reac'') 48000 2 4 = (os', audio', 0)"
    by (auto simp: shared_audio_create_def os_defs init_handle_def empty_os_def Let_def)
  from create_open_roundtrip[OF c] c show ?thesis by blast
qed

text \<open>C22. Creating and opening leak nothing: on every path, including every failing system call, no
  file descriptor stays open; exactly one mapping is added on success, recorded in the handle,
  and none on failure.\<close>

theorem create_open_no_leak:
  "(case shared_audio_create fails os audio name sr ch cap of (os', audio', rc) \<Rightarrow>
      os_fds os' = os_fds os \<and>
      os_maps os' = (if rc = 0 then [(the (sa_header audio'), sa_mapped_bytes audio')] else []) @ os_maps os) \<and>
   (case shared_audio_open fails os audio name of (os', audio', rc) \<Rightarrow>
      os_fds os' = os_fds os \<and>
      os_maps os' = (if rc = 0 then [(the (sa_header audio'), sa_mapped_bytes audio')] else []) @ os_maps os)"
  using create_resources[of fails os audio name sr ch cap] open_resources[of fails os audio name]
  by (auto split: prod.splits)

text \<open>Closing undoes the mapping and clears the handle, and closing again does nothing: a handle
  that was opened and closed twice leaves the mappings as they were.\<close>

theorem open_close_restores:
  assumes "shared_audio_open fails os audio name = (os1, audio1, 0)"
    "shared_audio_close os1 audio1 = (os2, audio2)"
  shows "os_maps os2 = os_maps os \<and> os_fds os2 = os_fds os \<and> sa_header audio2 = None \<and>
    sa_samples audio2 = None \<and> shared_audio_close os2 audio2 = (os2, audio2)"
  using open_accepted[OF assms(1)] open_resources[OF assms(1)] assms(2)
  by (auto simp: shared_audio_close_def munmap_def)

theorem open_close_restores_witness:
  "\<exists>os1 audio1 os2 audio2.
     shared_audio_open (\<lambda>_. False) (fst (shared_audio_create (\<lambda>_. False) empty_os no_handle (Some ''/reac'') 48000 2 4))
       no_handle (Some ''/reac'') = (os1, audio1, 0) \<and>
     shared_audio_close os1 audio1 = (os2, audio2) \<and> sa_header audio2 = None \<and>
     os_maps os2 = os_maps (fst (shared_audio_create (\<lambda>_. False) empty_os no_handle (Some ''/reac'') 48000 2 4))"
proof -
  define os where "os = fst (shared_audio_create (\<lambda>_. False) empty_os no_handle (Some ''/reac'') 48000 2 4)"
  obtain audio' where
    "shared_audio_create (\<lambda>_. False) empty_os no_handle (Some ''/reac'') 48000 2 4 = (os, audio', 0)"
    by (auto simp: os_def shared_audio_create_def os_defs init_handle_def empty_os_def Let_def)
  note c = create_success[OF this]
  obtain os1 audio1 where o: "shared_audio_open (\<lambda>_. False) os no_handle (Some ''/reac'') = (os1, audio1, 0)"
    using open_success[of os "''/reac''", OF conjunct1[OF c]] c created_header_acceptable(1)[of 2 4 48000] created_header_acceptable(2)[of 2 4] by auto
  obtain os2 audio2 where cl: "shared_audio_close os1 audio1 = (os2, audio2)" by fastforce
  from open_close_restores[OF o cl] o cl show ?thesis unfolding os_def [symmetric] by blast
qed

text \<open>C37. The size check of \<open>shared_audio_open\<close> is exact up to the wrap of its own arithmetic: the sample
  area that the header of an accepted ring describes lies inside the mapping if and only if its size in bytes,
  with the header, does not wrap around 64 bits, that is for fewer than \<open>2\<^sup>6\<^sup>2 - 32\<close> samples; the code does not
  test for the wrap, so a corrupt header with more is accepted although its samples do not fit.\<close>

theorem opened_ring_fits_mapping:
  assumes "shared_audio_open fails os audio name = (os', audio', 0)"
  shows "\<exists>i obj. sa_header audio' = Some i \<and> os_objects os' i = Some obj \<and> sa_mapped_bytes audio' = o_size obj \<and>
    (chans_of (o_ring obj) * cap_of (o_ring obj) \<le> samples_in (sa_mapped_bytes audio') \<longleftrightarrow>
     chans_of (o_ring obj) * cap_of (o_ring obj) < 2 ^ 62 - 32)"
proof -
  from open_accepted[OF assms(1)] obtain i obj where
    o: "sa_header audio' = Some i" "os_objects os' i = Some obj" "sa_mapped_bytes audio' = o_size obj"
      "header_acceptable (header (o_ring obj)) (o_size obj)" by auto
  have "samples_in (o_size obj) < 2 ^ 62 - 32" using unat_u64_bound[of "o_size obj"]
    by (simp add: samples_in_def div_less_iff_less_mult less_diff_conv2 del: unat_u64_bound)
  with accepted_header_size[OF o(4)] have
    "chans_of (o_ring obj) * cap_of (o_ring obj) \<le> samples_in (o_size obj) \<longleftrightarrow>
     chans_of (o_ring obj) * cap_of (o_ring obj) < 2 ^ 62 - 32" by linarith
  with o show ?thesis by auto
qed

definition os_with :: "int shm_object \<Rightarrow> int os" where
  "os_with obj = \<lparr>os_names = [''/reac'' \<mapsto> 0], os_objects = [0 \<mapsto> obj], os_next = 1, os_fds = [], os_maps = []\<rparr>"

theorem opened_ring_fits_mapping_witness:
  "\<exists>os' audio'. shared_audio_open (\<lambda>_. False)
      (os_with \<lparr>o_size = 160, o_ring = \<lparr>header = (sample_header 2 4 0 0), samples = replicate 8 0\<rparr>\<rparr>)
      no_handle (Some ''/reac'') = (os', audio', 0) \<and>
     (\<exists>i obj. sa_header audio' = Some i \<and> os_objects os' i = Some obj \<and>
        chans_of (o_ring obj) * cap_of (o_ring obj) \<le> samples_in (sa_mapped_bytes audio'))"
proof -
  let ?obj = "\<lparr>o_size = 160, o_ring = \<lparr>header = (sample_header 2 4 0 0), samples = replicate 8 0\<rparr>\<rparr> :: int shm_object"
  have acc: "header_acceptable (header (o_ring ?obj)) (o_size ?obj)"
    by (simp add: header_acceptable_def sample_header_def sizeof_SharedAudioHeader_def mapping_bytes_def)
  obtain os' audio' where o: "shared_audio_open (\<lambda>_. False) (os_with ?obj) no_handle (Some ''/reac'') = (os', audio', 0)"
    using open_success[of "os_with ?obj" "''/reac''" 0 ?obj no_handle] acc
    by (auto simp: os_with_def sizeof_SharedAudioHeader_def)
  from open_accepted[OF o] have "os_objects os' = os_objects (os_with ?obj)" by auto
  with opened_ring_fits_mapping[OF o] have "\<exists>i obj. sa_header audio' = Some i \<and> os_objects os' i = Some obj \<and>
      chans_of (o_ring obj) * cap_of (o_ring obj) \<le> samples_in (sa_mapped_bytes audio')"
    by (auto simp: os_with_def sample_header_def split: if_splits)
  with o show ?thesis by blast
qed

text \<open>The size check of \<open>shared_audio_open\<close> can be defeated by a corrupt header: with two to the
  power 31 channels and as many frames the required size wraps around to the bare header, so a
  mapping of 128 bytes, which holds no sample at all, is accepted.\<close>

theorem open_size_check_wraps:
  "\<exists>os' audio'. shared_audio_open (\<lambda>_. False)
      (os_with \<lparr>o_size = 128, o_ring = \<lparr>header = sample_header 0x80000000 0x80000000 0 0, samples = []\<rparr>\<rparr>)
      no_handle (Some ''/reac'') = (os', audio', 0) \<and> samples_in (sa_mapped_bytes audio') = 0"
proof -
  let ?obj = "\<lparr>o_size = 128, o_ring = \<lparr>header = sample_header 0x80000000 0x80000000 0 0, samples = []\<rparr>\<rparr> :: int shm_object"
  have m: "mapping_bytes 0x80000000 0x80000000 = 128" by code_simp
  have acc: "header_acceptable (header (o_ring ?obj)) (o_size ?obj)"
    by (simp add: header_acceptable_def sample_header_def sizeof_SharedAudioHeader_def m)
  show ?thesis
    using open_success[of "os_with ?obj" "''/reac''" 0 ?obj no_handle] acc
    by (auto simp: os_with_def sizeof_SharedAudioHeader_def samples_in_def)
qed

end
