(* ===== verification/PacketLoss.thy ===== *)
theory PacketLoss
  imports ReacPrelude
begin

text \<open>
  Loss accounting by the 16 bit packet counter.  The daemon, the PipeWire client and the JACK
  client each have their own copy of the counter bookkeeping; the locale \<open>loss_counter\<close> states
  what one such copy promises, and its lemmas count the missing packets exactly.  Each client
  interprets it in its own theory.
\<close>

section \<open>The bookkeeping\<close>

text \<open>The number of packets noted as lost when \<open>counter\<close> follows \<open>last_counter\<close>.\<close>

definition lost_between :: "u16 \<Rightarrow> u16 \<Rightarrow> u64" where
  "lost_between last_counter counter =
     (let expected = last_counter + 1
      in if counter \<noteq> expected
         then (let gap = counter - expected in if gap < 32768 then ucast gap else 1)
         else 0)"

text \<open>
  A sender numbers its packets by a counter that wraps; \<open>arrivals\<close> are the absolute numbers of
  the packets that get through, in order, with fewer than 32768 missing in a row.
\<close>

fun arrivals_ok :: "nat list \<Rightarrow> bool" where
  "arrivals_ok [] = True"
| "arrivals_ok [n] = True"
| "arrivals_ok (m # n # ns) = (m < n \<and> n - m \<le> 32768 \<and> arrivals_ok (n # ns))"

definition missing :: "nat list \<Rightarrow> nat" where
  "missing ns = (if ns = [] then 0 else Suc (last ns) - hd ns - length ns)"

text \<open>
  Packets that also come late or twice: each arrival is either ahead of the one before it, with
  fewer than 32768 packets missing between them, or behind it or the same, by fewer than 32768.
  What is noted is the number missing for the first kind, one packet for the second.
\<close>

fun steps_ok :: "nat list \<Rightarrow> bool" where
  "steps_ok [] = True"
| "steps_ok [n] = True"
| "steps_ok (m # n # ns) = ((if m < n then n - m \<le> 32768 else m - n < 32768) \<and> steps_ok (n # ns))"

fun noted :: "nat list \<Rightarrow> nat" where
  "noted [] = 0"
| "noted [n] = 0"
| "noted (m # n # ns) = (if m < n then n - m - 1 else 1) + noted (n # ns)"

section \<open>Lemmas\<close>

lemma lost_between_gap:
  assumes "m < n" "n - m \<le> 32768"
  shows "lost_between (of_nat m) (of_nat n) = of_nat (n - m - 1)"
proof -
  define g where "g = n - m - 1"
  have n: "n = m + 1 + g" "g < 32768" using assms by (simp_all add: g_def)
  have d: "(of_nat n :: u16) - (of_nat m + 1) = of_nat g" by (simp add: n)
  have u: "unat (of_nat g :: u16) = g" using n(2) by (intro unat_of_nat_small) simp
  have "(of_nat n :: u16) = of_nat m + 1 \<longleftrightarrow> (of_nat g :: u16) = 0" using d by (metis right_minus_eq)
  then have z: "(of_nat n :: u16) = of_nat m + 1 \<longleftrightarrow> g = 0" using u by (simp add: word_unat_eq_iff)
  have "(of_nat g :: u16) < 32768" using u n(2) by (simp add: word_less_nat_alt)
  moreover have "(ucast (of_nat g :: u16) :: u64) = of_nat g"
    using u n(2) by (simp add: word_unat_eq_iff unat_of_nat_small)
  ultimately show ?thesis unfolding lost_between_def Let_def d g_def [symmetric] using z by simp
qed

lemma arrivals_mono: "arrivals_ok (n # ns) \<Longrightarrow> n + length ns \<le> last (n # ns)"
  by (induction ns arbitrary: n) fastforce+

lemma missing_Cons: "arrivals_ok (m # n # ns) \<Longrightarrow> missing (m # n # ns) = n - m - 1 + missing (n # ns)"
  using arrivals_mono[of n ns] by (auto simp: missing_def)

lemma arrivals_noted: "arrivals_ok ns \<Longrightarrow> steps_ok ns \<and> noted ns = missing ns"
proof (induction ns rule: noted.induct)
  case (3 m n ns)
  then show ?case using missing_Cons[of m n ns] by simp
qed (simp_all add: missing_def)

lemma lost_between_late:
  assumes "n \<le> m" "m - n < 32768"
  shows "lost_between (of_nat m) (of_nat n) = 1"
proof -
  define g where "g = m - n"
  have m: "m = n + g" "g < 32768" using assms by (simp_all add: g_def)
  have e: "(of_nat n :: u16) - (of_nat m + 1) = - of_nat (Suc g)" by (simp add: m)
  have "- (of_nat (Suc g) :: u16) = of_nat (65536 - Suc g)"
    using m(2) by (simp add: of_nat_diff)
  then have "unat (- of_nat (Suc g) :: u16) = 65536 - Suc g"
    using m(2) by (simp only:) (rule unat_of_nat_small, simp)
  then have "\<not> (- of_nat (Suc g) :: u16) < 32768" "(- of_nat (Suc g) :: u16) \<noteq> 0"
    using m(2) by (auto simp: word_less_nat_alt word_unat_eq_iff)
  then show ?thesis unfolding lost_between_def Let_def e by (metis (no_types) e right_minus_eq)
qed

section \<open>The interface of a loss counter\<close>

locale loss_counter =
  fixes record_packet :: "'s \<Rightarrow> u16 \<Rightarrow> 's"
    and lost :: "'s \<Rightarrow> u64"
    and seen :: "'s \<Rightarrow> u16 option"
  assumes note_seen: "seen (record_packet s c) = Some c"
    and note_lost: "lost (record_packet s c) =
      lost s + (case seen s of None \<Rightarrow> 0 | Some l \<Rightarrow> lost_between l c)"
begin

lemma note_all_noted_from:
  assumes "steps_ok (m # ns)" "seen s = Some (of_nat m)"
  shows "lost (foldl record_packet s (map of_nat ns)) = lost s + of_nat (noted (m # ns))"
  using assms
proof (induction ns arbitrary: m s)
  case (Cons n ns)
  have "lost (record_packet s (of_nat n)) = lost s + of_nat (if m < n then n - m - 1 else 1)"
    using Cons.prems lost_between_gap[of m n] lost_between_late[of n m] by (simp add: note_lost)
  with Cons.IH[of n "record_packet s (of_nat n)"] Cons.prems show ?case
    by (simp add: note_seen)
qed simp

text \<open>From a fresh state the counter holds exactly what is noted, or the number of missing packets.\<close>

lemma note_all_noted:
  assumes "steps_ok ns" "seen s = None"
  shows "lost (foldl record_packet s (map of_nat ns)) = lost s + of_nat (noted ns)"
proof (cases ns)
  case (Cons n ms)
  then have "lost (foldl record_packet (record_packet s (of_nat n)) (map of_nat ms)) = lost (record_packet s (of_nat n)) + of_nat (noted (n # ms))"
    using assms by (intro note_all_noted_from) (simp_all add: note_seen)
  with Cons assms(2) show ?thesis by (simp add: note_lost)
qed simp

lemma note_all_exact:
  assumes "arrivals_ok ns" "seen s = None"
  shows "lost (foldl record_packet s (map of_nat ns)) = lost s + of_nat (missing ns)"
  using note_all_noted[OF _ assms(2)] arrivals_noted[OF assms(1)] by simp

text \<open>A repeated or late packet counts as one lost packet, never as thousands.\<close>

lemma note_late:
  assumes "seen s = Some (of_nat m)" "n \<le> m" "m - n < 32768"
  shows "lost (record_packet s (of_nat n)) = lost s + 1"
  using assms lost_between_late[of n m] by (simp add: note_lost)

end

end
