(* ===== verification/Reacjackd.thy ===== *)
theory Reacjackd
  imports CaptureCommon CaptureLoop SharedAudioShm SharedClock PacketLoss
begin

text \<open>
  The capture daemon \<open>src/reacjackd.c\<close>: it captures packets (or generates a test tone), decodes
  them, writes the audio to the shared memory ring and publishes its clock there.  The daemon's
  state is a record, the shared memory is the operating system state of \<open>SharedAudioShm\<close>, and
  one iteration of each loop is a function of the state and of what the libraries return in
  that iteration: the capture library (\<open>libpcap\<close>), the clocks, and failing system calls.
\<close>

section \<open>State\<close>

record ReacDaemon =
  d_ring :: SharedAudio
  d_ring_created :: bool
  d_ring_name :: string
  d_interface :: "string option"
  d_channels :: u16
  d_tone_mode :: bool
  d_pcap :: bool
  d_received_packets :: u64
  d_lost_packets :: u64
  d_non_reac_packets :: u64
  d_malformed_packets :: u64
  d_capture_errors :: u64
  d_status_last_received :: u64
  d_last_counter :: u16
  d_have_last_counter :: bool

section \<open>Operations\<close>

definition note_counter :: "ReacDaemon \<Rightarrow> u16 \<Rightarrow> ReacDaemon" where
  "note_counter daemon counter =
     (let daemon1 =
        (if d_have_last_counter daemon then
           (let expected = d_last_counter daemon + 1
            in if counter \<noteq> expected
               then (let gap = counter - expected
                     in daemon\<lparr>d_lost_packets := d_lost_packets daemon + (if gap < 32768 then ucast gap else 1)\<rparr>)
               else daemon)
         else daemon)
      in daemon1\<lparr>d_last_counter := counter, d_have_last_counter := True\<rparr>)"

definition ensure_ring :: "failures \<Rightarrow> ('a::zero) os \<Rightarrow> ReacDaemon \<Rightarrow> u16 \<Rightarrow> 'a os \<times> ReacDaemon \<times> int" where
  "ensure_ring fails os daemon channels =
     (if d_ring_created daemon then (os, daemon, 0)
      else let (os, ring, rc) =
             shared_audio_create fails os (d_ring daemon) (Some (d_ring_name daemon)) 48000 channels 48000
           in if rc \<noteq> 0 then (os, daemon\<lparr>d_ring := ring\<rparr>, - 1)
              else (os, daemon\<lparr>d_ring := ring, d_ring_created := True, d_channels := channels\<rparr>, 0))"

text \<open>What a status line reports; the hint is the message printed after it.\<close>

datatype status_hint = NoHint | NoPacketsYet | StreamStalled

record status_report =
  st_received :: u64
  st_lost :: u64
  st_malformed :: u64
  st_non_reac :: u64
  st_capture_errors :: u64
  st_fill :: u32
  st_overruns :: u64
  st_underruns :: u64
  st_inserted :: u64
  st_dropped :: u64
  st_hint :: status_hint

definition print_status :: "'a os \<Rightarrow> ReacDaemon \<Rightarrow> (ReacDaemon \<times> status_report) option" where
  "print_status os daemon =
     do { ring \<leftarrow> (if d_ring_created daemon then map_option Some (ring_at os (d_ring daemon)) else Some None);
          let field = (\<lambda>f. case ring of None \<Rightarrow> 0 | Some r \<Rightarrow> f (header r));
              hint = (if \<not> d_tone_mode daemon \<and> d_pcap daemon
                      then if d_received_packets daemon = 0 then NoPacketsYet
                           else if d_received_packets daemon = d_status_last_received daemon then StreamStalled
                           else NoHint
                      else NoHint)
          in Some (daemon\<lparr>d_status_last_received := d_received_packets daemon\<rparr>,
            \<lparr>st_received = d_received_packets daemon, st_lost = d_lost_packets daemon,
             st_malformed = d_malformed_packets daemon, st_non_reac = d_non_reac_packets daemon,
             st_capture_errors = d_capture_errors daemon,
             st_fill = (case ring of None \<Rightarrow> 0 | Some r \<Rightarrow> shared_audio_readable_frames r),
             st_overruns = field h_overruns, st_underruns = field h_underruns,
             st_inserted = field h_inserted_frames, st_dropped = field h_dropped_frames, st_hint = hint\<rparr>) }"

text \<open>The result says whether the handle is set, the return code and whether the filter is installed.\<close>

definition capture_open :: "pcap_setup \<Rightarrow> ReacDaemon \<Rightarrow> ReacDaemon \<times> int \<times> bool" where
  "capture_open p daemon =
     (let daemon = daemon\<lparr>d_pcap := pcap_create_ok p\<rparr>
      in if \<not> d_pcap daemon then (daemon, - 1, False)
         else if pcap_activate_rc p < 0 then (daemon, - 1, False)
         else if \<not> pcap_is_ethernet p then (daemon, - 1, False)
         else (daemon, 0, pcap_compile_ok p \<and> pcap_setfilter_ok p))"

text \<open>
  Writing one decoded block and publishing the clock; the capture loop and the tone loop have
  the same statement.
\<close>

definition write_block :: "rat os \<Rightarrow> ReacDaemon \<Rightarrow> storage \<Rightarrow> u64 \<Rightarrow> rat os option" where
  "write_block os daemon st host_time =
     do { ring \<leftarrow> ring_at os (d_ring daemon);
          (ring1, rc) \<leftarrow> shared_audio_write ring st 12;
          let ring2 = (if rc \<noteq> 0
                then ring1\<lparr>header := (header ring1)\<lparr>h_dropped_packets := h_dropped_packets (header ring1) + 1\<rparr>\<rparr>
                else shared_audio_publish_clock ring1 host_time (h_write_pos (header ring1)))
          in Some (put_ring os (d_ring daemon) ring2) }"

section \<open>The capture loop\<close>

text \<open>What one pass observes: first the flag \<open>isRunning\<close>, as the loop condition reads it.\<close>

record capture_event =
  ev_running :: bool
  ev_now :: int
  ev_pcap :: pcap_result
  ev_host_time :: u64
  ev_fails :: failures

record capture_state =
  c_os :: "rat os"
  c_daemon :: ReacDaemon
  c_storage :: storage
  c_last_status :: int
  c_reports :: "status_report list"

datatype loop_result = Continue capture_state | Break capture_state | ReturnError capture_state

text \<open>The status line of one iteration, every two seconds.\<close>

definition capture_status :: "int \<Rightarrow> capture_state \<Rightarrow> capture_state option" where
  "capture_status now s =
     (if now - c_last_status s \<ge> 2
      then do { (d, report) \<leftarrow> print_status (c_os s) (c_daemon s);
                Some (s\<lparr>c_daemon := d, c_last_status := now, c_reports := c_reports s @ [report]\<rparr>) }
      else Some s)"

text \<open>From the captured bytes to the end of the loop body.\<close>

definition capture_packet :: "failures \<Rightarrow> u64 \<Rightarrow> u8 list \<Rightarrow> capture_state \<Rightarrow> loop_result option" where
  "capture_packet fails host_time packet s =
     do { (parse_status, view_ptr) \<leftarrow> reac_parse_packet (Some packet) (of_nat (length packet)) (Some empty_view);
          let d = c_daemon s
          in if parse_status = REAC_STATUS_NOT_REAC
             then Some (Continue (s\<lparr>c_daemon := d\<lparr>d_non_reac_packets := d_non_reac_packets d + 1\<rparr>\<rparr>))
             else if parse_status \<noteq> REAC_STATUS_OK
             then Some (Continue (s\<lparr>c_daemon := d\<lparr>d_malformed_packets := d_malformed_packets d + 1\<rparr>\<rparr>))
             else do {
               view \<leftarrow> view_ptr;
               let (os, d, rc) = ensure_ring fails (c_os s) d (pv_channels view);
                   s = s\<lparr>c_os := os, c_daemon := d\<rparr>
               in if rc \<noteq> 0 then Some (ReturnError s)
                  else if pv_channels view \<noteq> d_channels d
                  then Some (Continue (s\<lparr>c_daemon := d\<lparr>d_malformed_packets := d_malformed_packets d + 1\<rparr>\<rparr>))
                  else do {
                    (decode_status, ptrs) \<leftarrow> reac_decode_samples_to_channels (pv_payload view) (pv_payload_size view)
                        (pv_channels view) REAC_FRAMES_PER_PACKET (Some (channel_ptrs (c_storage s)));
                    outs \<leftarrow> ptrs;
                    let s = s\<lparr>c_storage := storage_of outs\<rparr>
                    in if decode_status \<noteq> REAC_STATUS_OK
                       then Some (Continue (s\<lparr>c_daemon := d\<lparr>d_malformed_packets := d_malformed_packets d + 1\<rparr>\<rparr>))
                       else do {
                         os' \<leftarrow> write_block (c_os s) d (c_storage s) host_time;
                         let d = note_counter d (pv_counter view)
                         in Some (Continue (s\<lparr>c_os := os',
                              c_daemon := d\<lparr>d_received_packets := d_received_packets d + 1\<rparr>\<rparr>)) } } } }"

definition capture_iteration :: "capture_event \<Rightarrow> capture_state \<Rightarrow> loop_result option" where
  "capture_iteration ev s =
     do { s \<leftarrow> capture_status (ev_now ev) s;
          case ev_pcap ev of
            PcapTimeout \<Rightarrow> Some (Continue s)
          | PcapBreak \<Rightarrow> Some (Break s)
          | PcapError \<Rightarrow> Some (Continue (s\<lparr>c_daemon := (c_daemon s)
                           \<lparr>d_capture_errors := d_capture_errors (c_daemon s) + 1\<rparr>\<rparr>))
          | PcapPacket packet \<Rightarrow> capture_packet (ev_fails ev) (ev_host_time ev) packet s }"

text \<open>
  The loop \<open>while (isRunning)\<close>: it returns when a pass reads the flag cleared by a signal, when the
  capture is broken off, or with an error; after the last observed pass it is still running.
  Before each pass another process may have read frames from the ring.
\<close>

definition reader_consumes :: "u32 \<Rightarrow> capture_state \<Rightarrow> capture_state" where
  "reader_consumes n s =
     (case ring_at (c_os s) (d_ring (c_daemon s)) of
        None \<Rightarrow> s
      | Some ring \<Rightarrow> s\<lparr>c_os := put_ring (c_os s) (d_ring (c_daemon s)) (read_state ring n)\<rparr>)"

fun capture_loop :: "(u32 \<times> capture_event) list \<Rightarrow> capture_state \<Rightarrow> (capture_state, int) loop_end option" where
  "capture_loop [] s = Some (Running s)"
| "capture_loop ((n, ev) # evs) s =
     (let s = reader_consumes n s
      in if \<not> ev_running ev then Some (Returned s 0)
         else do { r \<leftarrow> capture_iteration ev s;
                   case r of
                     Continue s' \<Rightarrow> capture_loop evs s'
                   | Break s' \<Rightarrow> Some (Returned s' 0)
                   | ReturnError s' \<Rightarrow> Some (Returned s' (- 1)) })"

definition initial_storage :: storage where
  "initial_storage = replicate 40 (replicate 12 0)"

definition run_capture ::
  "pcap_setup \<Rightarrow> failures \<Rightarrow> int \<Rightarrow> (u32 \<times> capture_event) list \<Rightarrow> rat os \<Rightarrow> ReacDaemon \<Rightarrow> (capture_state, int) loop_end option" where
  "run_capture p fails now evs os daemon =
     (let mk = (\<lambda>os d. \<lparr>c_os = os, c_daemon = d, c_storage = initial_storage, c_last_status = now, c_reports = []\<rparr>);
          (daemon, rc, _) = capture_open p daemon
      in if rc \<noteq> 0 then Some (Returned (mk os daemon) (- 1))
         else if d_channels daemon \<noteq> 0
         then let (os, daemon, rc) = ensure_ring fails os daemon (d_channels daemon)
              in if rc \<noteq> 0 then Some (Returned (mk os daemon) (- 1)) else capture_loop evs (mk os daemon)
         else capture_loop evs (mk os daemon))"

section \<open>The tone generator\<close>

text \<open>
  The sine function of the C library is a parameter.  Additions and products of \<open>double\<close> and
  \<open>float\<close> values are rounded; \<open>M_PI\<close> is the \<open>double\<close> next to pi.
\<close>

definition M_PI :: rat where
  "M_PI = 884279719003555 / 281474976710656"

definition phase_step :: rat where
  "phase_step = f64 (f64 (f64 (2 * M_PI) * 440) / 48000)"

definition elapsed_ns :: "int \<times> int \<Rightarrow> int \<times> int \<Rightarrow> u64" where
  "elapsed_ns start now =
     word_of_int (fst now - fst start) * 1000000000 + word_of_int (snd now - snd start)"

definition due_frames :: "u64 \<Rightarrow> u64" where
  "due_frames elapsed = elapsed * 48000 div 1000000000"

text \<open>One block of the tone: the samples of all channels, and the phase after the block.\<close>

definition store_tone :: "u16 \<Rightarrow> nat \<Rightarrow> rat \<Rightarrow> storage \<Rightarrow> storage option" where
  "store_tone channels i v st =
     for_each (\<lambda>ch st. do { row \<leftarrow> rd st ch; row' \<leftarrow> wr row i v; wr st ch row' }) [0..<unat channels] st"

definition tone_block :: "(rat \<Rightarrow> rat) \<Rightarrow> u16 \<Rightarrow> rat \<times> storage \<Rightarrow> (rat \<times> storage) option" where
  "tone_block sine channels =
     for_each (\<lambda>i (phase, st).
         do { st' \<leftarrow> store_tone channels i (f32 (1 / 2 * f32 (sine phase))) st;
              Some (f64 (phase + phase_step), st') }) [0..<12]"

record tone_state =
  t_os :: "rat os"
  t_daemon :: ReacDaemon
  t_storage :: storage
  t_sent_frames :: u64
  t_phase :: rat
  t_last_status :: int
  t_reports :: "status_report list"

text \<open>
  The inner loop \<open>while (sent_frames + 12 <= due_frames)\<close>.  Each block reads the host clock anew,
  so the readings are a function of the number of frames sent before the block.  The sum wraps, so for a due count
  close to the largest \<open>uint64_t\<close> it would not end; such a loop has no result.
\<close>

partial_function (option) tone_catch_up :: "(rat \<Rightarrow> rat) \<Rightarrow> (u64 \<Rightarrow> u64) \<Rightarrow> u64 \<Rightarrow> tone_state \<Rightarrow> tone_state option" where
  "tone_catch_up sine host_time due s =
     (if t_sent_frames s + 12 \<le> due
      then do {
        (phase, st) \<leftarrow> tone_block sine (d_channels (t_daemon s)) (t_phase s, t_storage s);
        os' \<leftarrow> write_block (t_os s) (t_daemon s) st (host_time (t_sent_frames s));
        tone_catch_up sine host_time due
          (s\<lparr>t_os := os', t_storage := st, t_phase := phase, t_sent_frames := t_sent_frames s + 12,
             t_daemon := (t_daemon s)\<lparr>d_received_packets := d_received_packets (t_daemon s) + 1\<rparr>\<rparr>) }
      else Some s)"

record tone_event =
  te_running :: bool
  te_clock :: "int \<times> int"
  te_host_time :: "u64 \<Rightarrow> u64"
  te_now :: int

definition tone_iteration :: "(rat \<Rightarrow> rat) \<Rightarrow> int \<times> int \<Rightarrow> tone_event \<Rightarrow> tone_state \<Rightarrow> tone_state option" where
  "tone_iteration sine start ev s =
     do { s \<leftarrow> tone_catch_up sine (te_host_time ev) (due_frames (elapsed_ns start (te_clock ev))) s;
          if te_now ev - t_last_status s \<ge> 2
          then do { (d, report) \<leftarrow> print_status (t_os s) (t_daemon s);
                    Some (s\<lparr>t_daemon := d, t_last_status := te_now ev, t_reports := t_reports s @ [report]\<rparr>) }
          else Some s }"

fun tone_loop :: "(rat \<Rightarrow> rat) \<Rightarrow> int \<times> int \<Rightarrow> tone_event list \<Rightarrow> tone_state \<Rightarrow> (tone_state, int) loop_end option" where
  "tone_loop sine start [] s = Some (Running s)"
| "tone_loop sine start (ev # evs) s =
     (if \<not> te_running ev then Some (Returned s 0)
      else tone_iteration sine start ev s \<bind> tone_loop sine start evs)"

definition run_tone ::
  "(rat \<Rightarrow> rat) \<Rightarrow> failures \<Rightarrow> int \<Rightarrow> int \<times> int \<Rightarrow> tone_event list \<Rightarrow> rat os \<Rightarrow> ReacDaemon \<Rightarrow> (tone_state, int) loop_end option" where
  "run_tone sine fails now start evs os daemon =
     (let (os, daemon, rc) = ensure_ring fails os daemon (d_channels daemon);
          s = \<lparr>t_os = os, t_daemon = daemon, t_storage = initial_storage, t_sent_frames = 0, t_phase = 0,
               t_last_status = now, t_reports = []\<rparr>
      in if rc \<noteq> 0 then Some (Returned s (- 1)) else tone_loop sine start evs s)"

section \<open>The command line and the end of the program\<close>

text \<open>\<open>Inl\<close> is the early exit with code 1 (usage or bad channel count).\<close>

definition no_daemon :: ReacDaemon where
  "no_daemon =
     \<lparr>d_ring = \<lparr>sa_header = None, sa_samples = None, sa_mapped_bytes = 0, sa_owner = 0, sa_name = []\<rparr>,
      d_ring_created = False, d_ring_name = ''/reacjack-audio'', d_interface = None, d_channels = 0,
      d_tone_mode = False, d_pcap = False, d_received_packets = 0, d_lost_packets = 0, d_non_reac_packets = 0,
      d_malformed_packets = 0, d_capture_errors = 0, d_status_last_received = 0, d_last_counter = 0,
      d_have_last_counter = False\<rparr>"

fun parse_args :: "string list \<Rightarrow> ReacDaemon \<Rightarrow> int + ReacDaemon" where
  "parse_args [] daemon = Inr daemon"
| "parse_args (a # rest) daemon =
     (if a = ''-i'' \<and> rest \<noteq> [] then parse_args (tl rest) (daemon\<lparr>d_interface := Some (hd rest)\<rparr>)
      else if a = ''-n'' \<and> rest \<noteq> [] then parse_args (tl rest) (daemon\<lparr>d_ring_name := hd rest\<rparr>)
      else if a = ''-tone'' then parse_args rest (daemon\<lparr>d_tone_mode := True\<rparr>)
      else if a = ''-c'' \<and> rest \<noteq> []
      then (case channels_argument (hd rest) of
              None \<Rightarrow> Inl 1
            | Some c \<Rightarrow> parse_args (tl rest) (daemon\<lparr>d_channels := c\<rparr>))
      else Inl 1)"

definition configure :: "string list \<Rightarrow> int + ReacDaemon" where
  "configure args =
     (case parse_args args no_daemon of
        Inl e \<Rightarrow> Inl e
      | Inr daemon \<Rightarrow>
          if \<not> d_tone_mode daemon \<and> d_interface daemon = None then Inl 1
          else if d_tone_mode daemon \<and> d_channels daemon = 0 then Inr (daemon\<lparr>d_channels := 2\<rparr>)
          else Inr daemon)"

text \<open>After the loop: a last status line, then the ring is unmapped and its name removed.\<close>

definition finish :: "rat os \<Rightarrow> ReacDaemon \<Rightarrow> int \<Rightarrow> (rat os \<times> ReacDaemon \<times> status_report \<times> int) option" where
  "finish os daemon result =
     do { (daemon, report) \<leftarrow> print_status os daemon;
          let daemon = (if d_pcap daemon then daemon\<lparr>d_pcap := False\<rparr> else daemon);
              exit_code = (if result = 0 then 0 else 1)
          in if d_ring_created daemon
             then let (os, ring) = shared_audio_close os (d_ring daemon);
                      (os, _) = shared_audio_unlink os (d_ring_name daemon)
                  in Some (os, daemon\<lparr>d_ring := ring\<rparr>, report, exit_code)
             else Some (os, daemon, report, exit_code) }"

section \<open>The ring of the daemon\<close>

definition daemon_seen :: "ReacDaemon \<Rightarrow> u16 option" where
  "daemon_seen d = (if d_have_last_counter d then Some (d_last_counter d) else None)"

interpretation daemon_loss: loss_counter note_counter d_lost_packets daemon_seen
  by unfold_locales (auto simp: note_counter_def daemon_seen_def lost_between_def Let_def)

lemma note_counter_sel [simp]:
  "d_ring (note_counter d c) = d_ring d" "d_ring_created (note_counter d c) = d_ring_created d"
  "d_channels (note_counter d c) = d_channels d" "d_received_packets (note_counter d c) = d_received_packets d"
  "d_non_reac_packets (note_counter d c) = d_non_reac_packets d"
  "d_malformed_packets (note_counter d c) = d_malformed_packets d"
  "d_capture_errors (note_counter d c) = d_capture_errors d"
  by (simp_all add: note_counter_def Let_def)

text \<open>Once created, the ring is well formed and has the daemon's channel count.\<close>

definition ring_matches :: "u16 \<Rightarrow> rat shared_ring \<Rightarrow> bool" where
  "ring_matches channels ring \<longleftrightarrow> ring_ok ring \<and> chans_of ring = unat channels \<and> unat channels \<le> 40"

definition daemon_ok :: "rat os \<Rightarrow> ReacDaemon \<Rightarrow> bool" where
  "daemon_ok os d \<longleftrightarrow> (d_ring_created d \<longrightarrow> (\<exists>ring. ring_at os (d_ring d) = Some ring \<and> ring_matches (d_channels d) ring))"

definition ring_wpos :: "rat os \<Rightarrow> ReacDaemon \<Rightarrow> nat" where
  "ring_wpos os d = (if d_ring_created d then case ring_at os (d_ring d) of None \<Rightarrow> 0 | Some r \<Rightarrow> wpos r else 0)"

lemma daemon_ok_cong:
  assumes "d_ring d' = d_ring d" "d_ring_created d' = d_ring_created d" "d_channels d' = d_channels d"
  shows "daemon_ok os d' = daemon_ok os d" "ring_wpos os d' = ring_wpos os d"
  using assms by (simp_all add: daemon_ok_def ring_wpos_def)

lemma daemon_ring:
  assumes "daemon_ok os d" "d_ring_created d"
  obtains ring where "ring_at os (d_ring d) = Some ring" "ring_matches (d_channels d) ring" "ring_wpos os d = wpos ring"
  using assms by (auto simp: daemon_ok_def ring_wpos_def)

lemma create_ring_at:
  assumes "shared_audio_create fails os audio (Some n) 48000 ch 48000 = (os', audio', 0)"
  shows "\<exists>ring. ring_at os' audio' = Some ring \<and> ring_ok ring \<and> chans_of ring = unat ch \<and> wpos ring = 0 \<and> ring_frames ring = []"
proof -
  note c = create_success[OF assms]
  let ?ring = "\<lparr>header = initial_header zero_header 48000 ch 48000,
    samples = replicate (samples_in (mapping_bytes (ucast ch) 48000)) 0\<rparr>"
  have "ring_at os' audio' = Some ?ring" using c by (simp add: ring_at_def)
  moreover have "ring_ok ?ring" by (rule created_ring) simp
  ultimately show ?thesis
    by (intro exI [of _ ?ring]) (simp add: initial_header_def zero_header_def ring_frames_def)
qed

lemma ensure_ring_spec:
  assumes ok: "daemon_ok os d" and c: "unat ch \<le> 40" and e: "ensure_ring fails os d ch = (os', d', rc)"
  shows "daemon_ok os' d'" "rc = 0 \<Longrightarrow> d_ring_created d'" "ring_wpos os' d' \<le> ring_wpos os d"
    "d_ring_created d \<Longrightarrow> os' = os \<and> d' = d \<and> rc = 0"
    "rc = 0 \<Longrightarrow> \<not> d_ring_created d \<Longrightarrow> d_channels d' = ch"
    "d_received_packets d' = d_received_packets d" "d_non_reac_packets d' = d_non_reac_packets d"
    "d_malformed_packets d' = d_malformed_packets d" "d_capture_errors d' = d_capture_errors d"
proof -
  obtain os1 r1 rc1 where cr: "shared_audio_create fails os (d_ring d) (Some (d_ring_name d)) 48000 ch 48000 = (os1, r1, rc1)"
    by (metis prod.exhaust)
  have created: "daemon_ok os1 (d\<lparr>d_ring := r1, d_ring_created := True, d_channels := ch\<rparr>)"
      "ring_wpos os1 (d\<lparr>d_ring := r1, d_ring_created := True, d_channels := ch\<rparr>) = 0" if "rc1 = 0"
    using create_ring_at[OF cr [unfolded that]] c by (auto simp: daemon_ok_def ring_matches_def ring_wpos_def)
  show "daemon_ok os' d'" "rc = 0 \<Longrightarrow> d_ring_created d'" "ring_wpos os' d' \<le> ring_wpos os d"
    "d_ring_created d \<Longrightarrow> os' = os \<and> d' = d \<and> rc = 0"
    "rc = 0 \<Longrightarrow> \<not> d_ring_created d \<Longrightarrow> d_channels d' = ch"
    "d_received_packets d' = d_received_packets d" "d_non_reac_packets d' = d_non_reac_packets d"
    "d_malformed_packets d' = d_malformed_packets d" "d_capture_errors d' = d_capture_errors d"
    using e ok created cr
    by (auto simp: ensure_ring_def daemon_ok_def ring_wpos_def split: if_splits)
qed

section \<open>One block\<close>

lemma publish_clock_view:
  "ring_ok (shared_audio_publish_clock a t p) = ring_ok a"
  "ring_frames (shared_audio_publish_clock a t p) = ring_frames a"
  "fill_of (shared_audio_publish_clock a t p) = fill_of a"
  by (rule ring_view_cong; simp add: publish_clock_header shared_audio_publish_clock_def Let_def)+

lemma count_dropped_view:
  fixes a :: "'a shared_ring" and x y :: u64
  defines "a' \<equiv> a\<lparr>header := (header a)\<lparr>h_overruns := x, h_dropped_packets := y\<rparr>\<rparr>"
  shows "ring_ok a' = ring_ok a" "ring_frames a' = ring_frames a" "fill_of a' = fill_of a"
  unfolding a'_def by (rule ring_view_cong; simp)+

text \<open>What a writer never touches: the fields a reader validates.\<close>

definition same_geometry :: "'a shared_ring \<Rightarrow> 'a shared_ring \<Rightarrow> bool" where
  "same_geometry a b \<longleftrightarrow> h_magic (header b) = h_magic (header a) \<and> h_abi_version (header b) = h_abi_version (header a) \<and>
     h_header_bytes (header b) = h_header_bytes (header a) \<and> h_channels (header b) = h_channels (header a) \<and>
     h_capacity_frames (header b) = h_capacity_frames (header a)"

lemma same_geometry_trans: "same_geometry a b \<Longrightarrow> same_geometry b c \<Longrightarrow> same_geometry a c"
  by (simp add: same_geometry_def)

lemma write_block_spec:
  assumes r: "ring_at os (d_ring d) = Some ring" and m: "ring_matches (d_channels d) ring"
    and st: "storage_ok st" and pos: "wpos ring + 12 < 2 ^ 64"
  shows "\<exists>ring'. write_block os d st host_time = Some (put_ring os (d_ring d) ring') \<and>
    ring_matches (d_channels d) ring' \<and> wpos ring' \<le> wpos ring + 12 \<and> same_geometry ring ring' \<and>
    (if fill_of ring + 12 \<le> cap_of ring
     then ring_frames ring' = ring_frames ring @ frames_of (unat (d_channels d)) 12 st \<and>
       h_dropped_packets (header ring') = h_dropped_packets (header ring) \<and>
       h_clock_host_time (header ring') = host_time \<and> h_clock_sample_pos (header ring') = h_write_pos (header ring') \<and>
       wpos ring' = wpos ring + 12 \<and> h_clock_seq (header ring') = h_clock_seq (header ring) + 2
     else ring_frames ring' = ring_frames ring \<and>
       h_dropped_packets (header ring') = h_dropped_packets (header ring) + 1)"
proof -
  have ok: "ring_ok ring" and c: "chans_of ring = unat (d_channels d)" "unat (d_channels d) \<le> 40"
    using m by (simp_all add: ring_matches_def)
  have n: "unat (12 :: u32) = 12" by simp
  show ?thesis
  proof (cases "fill_of ring + 12 \<le> cap_of ring")
    case True
    have bufs: "buffers_ok (chans_of ring) (unat (12 :: u32)) st" using storage_buffers[OF st c(2)] by (simp add: c(1))
    from shared_audio_write_accepts[OF ok bufs] pos True obtain smp where
      w: "shared_audio_write ring st 12 = Some (ring\<lparr>samples := smp, header := (header ring)\<lparr>h_write_pos := h_write_pos (header ring) + 12\<rparr>\<rparr>, 0)"
        "length smp = length (samples ring)"
        "ring_frames (ring\<lparr>samples := smp, header := (header ring)\<lparr>h_write_pos := h_write_pos (header ring) + 12\<rparr>\<rparr>) =
          ring_frames ring @ frames_of (chans_of ring) 12 st" by auto
    let ?r1 = "ring\<lparr>samples := smp, header := (header ring)\<lparr>h_write_pos := h_write_pos (header ring) + 12\<rparr>\<rparr>"
    have wp: "unat (h_write_pos (header ring) + 12) = wpos ring + 12" using pos by (simp add: unat_add_nowrap)
    have "ring_ok ?r1" using ok w(2) True wp by (auto simp: ring_ok_def fill_of_def)
    then show ?thesis
      using r w True c wp
      by (intro exI [of _ "shared_audio_publish_clock ?r1 host_time (h_write_pos (header ring) + 12)"])
        (simp add: write_block_def ring_matches_def publish_clock_view publish_clock_header same_geometry_def)
  next
    case False
    with shared_audio_write_rejects[OF ok, of 12 st] have
      w: "shared_audio_write ring st 12 = Some (ring\<lparr>header := (header ring)\<lparr>h_overruns := h_overruns (header ring) + 1\<rparr>\<rparr>, - 1)"
      by simp
    let ?r' = "ring\<lparr>header := (header ring)\<lparr>h_overruns := h_overruns (header ring) + 1, h_dropped_packets := h_dropped_packets (header ring) + 1\<rparr>\<rparr>"
    show ?thesis
      using r w False c ok count_dropped_view[where a = ring]
      by (intro exI [of _ ?r']) (simp add: write_block_def ring_matches_def same_geometry_def)
  qed
qed

section \<open>The capture loop\<close>

definition capture_ok :: "capture_state \<Rightarrow> bool" where
  "capture_ok s \<longleftrightarrow> daemon_ok (c_os s) (c_daemon s) \<and> storage_ok (c_storage s)"

definition capture_wpos :: "capture_state \<Rightarrow> nat" where
  "capture_wpos s = ring_wpos (c_os s) (c_daemon s)"

text \<open>All packets the daemon has accounted for.\<close>

definition packets_counted :: "ReacDaemon \<Rightarrow> u64" where
  "packets_counted d = d_received_packets d + d_non_reac_packets d + d_malformed_packets d"

fun result_state :: "loop_result \<Rightarrow> capture_state" where
  "result_state (Continue s) = s"
| "result_state (Break s) = s"
| "result_state (ReturnError s) = s"

definition packet_fits_model :: "u8 list \<Rightarrow> bool" where
  "packet_fits_model packet \<longleftrightarrow> length packet < 2 ^ 32"

lemma length_packet_word:
  assumes "packet_fits_model packet" shows "unat (of_nat (length packet) :: u64) = length packet"
  using assms by (intro unat_of_nat_small) (simp add: packet_fits_model_def)

text \<open>An accepted packet that matches the ring.\<close>

lemma capture_packet_good:
  assumes ok: "capture_ok s" and fit: "packet_fits_model packet"
    and good: "packet_status packet (length packet) = REAC_STATUS_OK"
    and ens: "ensure_ring fails (c_os s) (c_daemon s) (pv_channels (packet_view packet (length packet))) = (os1, d1, 0)"
    and ch: "pv_channels (packet_view packet (length packet)) = d_channels d1"
    and pos: "capture_wpos s + 12 < 2 ^ 64"
  shows "\<exists>ring1 ring' st' d'. ring_at os1 (d_ring d1) = Some ring1 \<and>
    capture_packet fails host_time packet s =
      Some (Continue (s\<lparr>c_os := put_ring os1 (d_ring d1) ring', c_daemon := d', c_storage := st'\<rparr>)) \<and>
    d' = (note_counter d1 (pv_counter (packet_view packet (length packet))))\<lparr>d_received_packets := d_received_packets d1 + 1\<rparr> \<and>
    storage_ok st' \<and> ring_matches (d_channels d1) ring' \<and> wpos ring' \<le> capture_wpos s + 12 \<and> same_geometry ring1 ring' \<and>
    (if fill_of ring1 + 12 \<le> cap_of ring1
     then ring_frames ring' = ring_frames ring1 @ packet_audio (drop 50 packet) (unat (d_channels d1)) \<and>
       h_clock_host_time (header ring') = host_time \<and> h_clock_sample_pos (header ring') = h_write_pos (header ring') \<and>
       wpos ring' = wpos ring1 + 12
     else ring_frames ring' = ring_frames ring1 \<and> h_dropped_packets (header ring') = h_dropped_packets (header ring1) + 1)"
proof -
  define view where "view = packet_view packet (length packet)"
  have size: "unat (of_nat (length packet) :: u64) \<le> length packet" using length_packet_word[OF fit] by simp
  have parse: "reac_parse_packet (Some packet) (of_nat (length packet)) (Some empty_view) = Some (REAC_STATUS_OK, Some view)"
    using parse_reference[OF size] good by (simp add: length_packet_word[OF fit] view_def)
  note shape = accepted_packet_shape[OF size parse]
  have ok': "daemon_ok (c_os s) (c_daemon s)" "storage_ok (c_storage s)" using ok by (simp_all add: capture_ok_def)
  note e = ensure_ring_spec[OF ok'(1) _ ens [folded view_def]]
  have c40: "unat (pv_channels view) \<le> 40" using shape by blast
  from daemon_ring[OF e(1)[OF c40] e(2)[OF c40 refl]] obtain ring1 where
    r1: "ring_at os1 (d_ring d1) = Some ring1" "ring_matches (d_channels d1) ring1" "ring_wpos os1 d1 = wpos ring1" .
  have p1: "wpos ring1 \<le> capture_wpos s" using e(3)[OF c40] r1(3) by (simp add: capture_wpos_def)
  from decode_accepted[OF size ok'(2) parse] obtain ptrs where
    dec: "reac_decode_samples_to_channels (pv_payload view) (pv_payload_size view) (pv_channels view) 12
        (Some (channel_ptrs (c_storage s))) = Some (REAC_STATUS_OK, Some ptrs)" "storage_ok (storage_of ptrs)"
      "frames_of (unat (pv_channels view)) 12 (storage_of ptrs) = packet_audio (drop 50 packet) (unat (pv_channels view))" by blast
  have "wpos ring1 + 12 < 2 ^ 64" using p1 pos by simp
  from write_block_spec[OF r1(1,2) dec(2) this, of host_time] obtain ring' where
    w: "write_block os1 d1 (storage_of ptrs) host_time = Some (put_ring os1 (d_ring d1) ring')"
      "ring_matches (d_channels d1) ring'" "wpos ring' \<le> wpos ring1 + 12" "same_geometry ring1 ring'"
      "if fill_of ring1 + 12 \<le> cap_of ring1
       then ring_frames ring' = ring_frames ring1 @ frames_of (unat (d_channels d1)) 12 (storage_of ptrs) \<and>
         h_dropped_packets (header ring') = h_dropped_packets (header ring1) \<and>
         h_clock_host_time (header ring') = host_time \<and> h_clock_sample_pos (header ring') = h_write_pos (header ring') \<and>
         wpos ring' = wpos ring1 + 12 \<and> h_clock_seq (header ring') = h_clock_seq (header ring1) + 2
       else ring_frames ring' = ring_frames ring1 \<and>
         h_dropped_packets (header ring') = h_dropped_packets (header ring1) + 1" by blast
  let ?d' = "(note_counter d1 (pv_counter view))\<lparr>d_received_packets := d_received_packets d1 + 1\<rparr>"
  have run: "capture_packet fails host_time packet s =
      Some (Continue (s\<lparr>c_os := put_ring os1 (d_ring d1) ring', c_daemon := ?d', c_storage := storage_of ptrs\<rparr>))"
    using parse ens ch dec(1) w(1) by (simp add: capture_packet_def view_def [symmetric] Let_def)
  show ?thesis
    using run w dec(2,3) r1(1) p1 ch
    by (intro exI [of _ ring1] exI [of _ ring'] exI [of _ "storage_of ptrs"] exI [of _ ?d'])
      (auto simp: view_def [symmetric])
qed

lemma accepted_channels:
  assumes "packet_fits_model packet" "packet_status packet (length packet) = REAC_STATUS_OK"
  shows "unat (pv_channels (packet_view packet (length packet))) \<le> 40"
proof -
  have size: "unat (of_nat (length packet) :: u64) \<le> length packet" using length_packet_word[OF assms(1)] by simp
  have "reac_parse_packet (Some packet) (of_nat (length packet)) (Some empty_view) =
      Some (REAC_STATUS_OK, Some (packet_view packet (length packet)))"
    using parse_reference[OF size] assms(2) by (simp add: length_packet_word[OF assms(1)])
  from accepted_packet_shape[OF size this] show ?thesis by blast
qed

text \<open>
  What one pass observes has its effect on the counters: \<open>counts\<close> says that between two states the
  daemon has counted the packets of the given passes, each foreign one among them as foreign, and
  the capture errors.
\<close>

definition packets_in :: "capture_event \<Rightarrow> nat" where
  "packets_in ev = (case ev_pcap ev of PcapPacket _ \<Rightarrow> 1 | _ \<Rightarrow> 0)"

definition foreign_in :: "capture_event \<Rightarrow> nat" where
  "foreign_in ev = (case ev_pcap ev of
     PcapPacket p \<Rightarrow> if packet_status p (length p) = REAC_STATUS_NOT_REAC then 1 else 0 | _ \<Rightarrow> 0)"

definition errors_in :: "capture_event \<Rightarrow> nat" where
  "errors_in ev = (if ev_pcap ev = PcapError then 1 else 0)"

definition counts :: "ReacDaemon \<Rightarrow> capture_event list \<Rightarrow> ReacDaemon \<Rightarrow> bool" where
  "counts d evs d' \<longleftrightarrow>
     packets_counted d' = packets_counted d + of_nat (sum_list (map packets_in evs)) \<and>
     d_non_reac_packets d' = d_non_reac_packets d + of_nat (sum_list (map foreign_in evs)) \<and>
     d_capture_errors d' = d_capture_errors d + of_nat (sum_list (map errors_in evs))"

lemma counts_nil [simp]: "counts d [] d"
  by (simp add: counts_def)

lemma counts_cons: "counts d [ev] d1 \<Longrightarrow> counts d1 evs d2 \<Longrightarrow> counts d (ev # evs) d2"
  by (simp add: counts_def add.assoc)

text \<open>The passes that stop the loop, and the packets of this protocol.\<close>

definition stops :: "capture_event \<Rightarrow> bool" where
  "stops ev \<longleftrightarrow> \<not> ev_running ev \<or> ev_pcap ev = PcapBreak"

definition well_formed_in :: "capture_event \<Rightarrow> bool" where
  "well_formed_in ev = (case ev_pcap ev of PcapPacket p \<Rightarrow> packet_status p (length p) = REAC_STATUS_OK | _ \<Rightarrow> False)"

text \<open>What every way through the loop body guarantees.\<close>

definition step_fine :: "capture_state \<Rightarrow> capture_event \<Rightarrow> loop_result \<Rightarrow> bool" where
  "step_fine s ev r \<longleftrightarrow> capture_ok (result_state r) \<and> capture_wpos (result_state r) \<le> capture_wpos s + 12 \<and>
     (case r of Continue s' \<Rightarrow> ev_pcap ev \<noteq> PcapBreak \<and> counts (c_daemon s) [ev] (c_daemon s')
      | Break s' \<Rightarrow> ev_pcap ev = PcapBreak \<and> counts (c_daemon s) [] (c_daemon s')
      | ReturnError s' \<Rightarrow> well_formed_in ev \<and> counts (c_daemon s) [] (c_daemon s') \<and> \<not> d_ring_created (c_daemon s'))"

lemma step_fine_counters:
  assumes "capture_ok s" "d_ring d' = d_ring (c_daemon s)" "d_ring_created d' = d_ring_created (c_daemon s)"
    "d_channels d' = d_channels (c_daemon s)" "counts (c_daemon s) [ev] d'" "ev_pcap ev \<noteq> PcapBreak"
  shows "step_fine s ev (Continue (s\<lparr>c_daemon := d'\<rparr>))"
  using assms daemon_ok_cong[OF assms(2-4)] by (simp add: step_fine_def capture_ok_def capture_wpos_def)

lemma packet_event:
  assumes "ev_pcap ev = PcapPacket packet"
  shows "packets_in ev = 1" "errors_in ev = 0"
    "foreign_in ev = (if packet_status packet (length packet) = REAC_STATUS_NOT_REAC then 1 else 0)"
    "well_formed_in ev \<longleftrightarrow> packet_status packet (length packet) = REAC_STATUS_OK"
  using assms by (simp_all add: packets_in_def errors_in_def foreign_in_def well_formed_in_def)

lemma capture_packet_rejected:
  assumes ok: "capture_ok s" and fit: "packet_fits_model packet" and ev: "ev_pcap ev = PcapPacket packet"
    and bad: "packet_status packet (length packet) \<noteq> REAC_STATUS_OK"
  shows "\<exists>r. capture_packet fails host_time packet s = Some r \<and> step_fine s ev r"
proof -
  have size: "unat (of_nat (length packet) :: u64) \<le> length packet" using length_packet_word[OF fit] by simp
  have "reac_parse_packet (Some packet) (of_nat (length packet)) (Some empty_view) =
      Some (packet_status packet (length packet), Some empty_view)"
    using parse_reference[OF size] bad by (simp add: length_packet_word[OF fit])
  with bad ok ev show ?thesis
    by (cases "packet_status packet (length packet) = REAC_STATUS_NOT_REAC")
      (auto simp: capture_packet_def Let_def packets_counted_def counts_def packet_event[OF ev] intro!: step_fine_counters)
qed

text \<open>The ways of a packet of this protocol: the ring cannot be created, or has other channels.\<close>

lemma capture_packet_no_ring:
  assumes fit: "packet_fits_model packet" and good: "packet_status packet (length packet) = REAC_STATUS_OK"
    and ens: "ensure_ring fails (c_os s) (c_daemon s) (pv_channels (packet_view packet (length packet))) = (os1, d1, rc)"
    and rc: "rc \<noteq> 0 \<or> pv_channels (packet_view packet (length packet)) \<noteq> d_channels d1"
  shows "capture_packet fails host_time packet s =
    Some (if rc \<noteq> 0 then ReturnError (s\<lparr>c_os := os1, c_daemon := d1\<rparr>)
          else Continue (s\<lparr>c_os := os1, c_daemon := d1\<lparr>d_malformed_packets := d_malformed_packets d1 + 1\<rparr>\<rparr>))"
proof -
  have size: "unat (of_nat (length packet) :: u64) \<le> length packet" using length_packet_word[OF fit] by simp
  have "reac_parse_packet (Some packet) (of_nat (length packet)) (Some empty_view) =
      Some (REAC_STATUS_OK, Some (packet_view packet (length packet)))"
    using parse_reference[OF size] good by (simp add: length_packet_word[OF fit])
  with ens rc show ?thesis by (simp add: capture_packet_def Let_def)
qed

lemma ensure_ring_fails_fresh:
  assumes "ensure_ring fails os d ch = (os1, d1, rc)" "rc \<noteq> 0"
  shows "\<not> d_ring_created d1"
  using assms by (auto simp: ensure_ring_def split: if_splits prod.splits)

lemma capture_packet_accepted:
  assumes ok: "capture_ok s" and fit: "packet_fits_model packet" and pos: "capture_wpos s + 12 < 2 ^ 64"
    and good: "packet_status packet (length packet) = REAC_STATUS_OK" and ev: "ev_pcap ev = PcapPacket packet"
  shows "\<exists>r. capture_packet fails host_time packet s = Some r \<and> step_fine s ev r"
proof -
  define view where "view = packet_view packet (length packet)"
  have c40: "unat (pv_channels view) \<le> 40" unfolding view_def by (rule accepted_channels[OF fit good])
  obtain os1 d1 rc where ens: "ensure_ring fails (c_os s) (c_daemon s) (pv_channels view) = (os1, d1, rc)" by (metis prod.exhaust)
  have okd: "daemon_ok (c_os s) (c_daemon s)" using ok by (simp add: capture_ok_def)
  note e = ensure_ring_spec[OF okd c40 ens]
  note no_ring = capture_packet_no_ring[OF fit good ens [unfolded view_def]]
  have cnt: "counts (c_daemon s) [] d1" by (simp add: counts_def packets_counted_def e)
  have one: "counts (c_daemon s) [ev] d'" if "packets_counted d' = packets_counted d1 + 1"
    "d_non_reac_packets d' = d_non_reac_packets d1" "d_capture_errors d' = d_capture_errors d1" for d'
    using that cnt good by (simp add: counts_def packet_event[OF ev])
  consider (fail) "rc \<noteq> 0" | (mismatch) "rc = 0" "pv_channels view \<noteq> d_channels d1" | (same) "rc = 0" "pv_channels view = d_channels d1" by blast
  then show ?thesis
  proof cases
    case fail
    with no_ring ensure_ring_fails_fresh[OF ens] good ok e(1) cnt show ?thesis
      by (simp add: step_fine_def capture_ok_def daemon_ok_def capture_wpos_def ring_wpos_def packet_event[OF ev])
  next
    case mismatch
    let ?d = "d1\<lparr>d_malformed_packets := d_malformed_packets d1 + 1\<rparr>"
    have "daemon_ok os1 ?d" "ring_wpos os1 ?d = ring_wpos os1 d1" using daemon_ok_cong[of ?d d1 os1] e(1) by simp_all
    moreover have "counts (c_daemon s) [ev] ?d" by (rule one) (simp_all add: packets_counted_def add.assoc)
    ultimately show ?thesis using mismatch no_ring ok e(3) ev
      by (simp add: step_fine_def capture_ok_def capture_wpos_def view_def)
  next
    case same
    from capture_packet_good[OF ok fit good _ _ pos] ens same obtain ring1 ring' st' where
      r: "ring_at os1 (d_ring d1) = Some ring1" "storage_ok st'" "ring_matches (d_channels d1) ring'"
        "wpos ring' \<le> capture_wpos s + 12" and
      run: "capture_packet fails host_time packet s = Some (Continue (s\<lparr>c_os := put_ring os1 (d_ring d1) ring',
        c_daemon := (note_counter d1 (pv_counter view))\<lparr>d_received_packets := d_received_packets d1 + 1\<rparr>, c_storage := st'\<rparr>))"
      unfolding view_def by blast
    have "counts (c_daemon s) [ev] ((note_counter d1 (pv_counter view))\<lparr>d_received_packets := d_received_packets d1 + 1\<rparr>)"
      by (rule one) (simp_all add: packets_counted_def add.assoc)
    with run r ring_at_put[OF r(1), of ring'] e(2) same(1) ev show ?thesis
      by (simp add: step_fine_def capture_ok_def capture_wpos_def daemon_ok_def ring_wpos_def)
  qed
qed

lemma capture_packet_total:
  assumes ok: "capture_ok s" and fit: "packet_fits_model packet" and pos: "capture_wpos s + 12 < 2 ^ 64"
    and ev: "ev_pcap ev = PcapPacket packet"
  shows "\<exists>r. capture_packet fails host_time packet s = Some r \<and> step_fine s ev r"
  using capture_packet_rejected[OF ok fit ev] capture_packet_accepted[OF ok fit pos _ ev] by blast

lemma print_status_total:
  assumes "daemon_ok os d"
  shows "\<exists>report. print_status os d = Some (d\<lparr>d_status_last_received := d_received_packets d\<rparr>, report)"
proof (cases "d_ring_created d")
  case True
  then obtain ring where "ring_at os (d_ring d) = Some ring" using assms by (auto simp: daemon_ok_def)
  with True show ?thesis by (simp add: print_status_def Let_def)
qed (simp add: print_status_def Let_def)

lemma capture_status_total:
  assumes "capture_ok s"
  shows "\<exists>s'. capture_status now s = Some s' \<and> capture_ok s' \<and> capture_wpos s' = capture_wpos s \<and>
    counts (c_daemon s) [] (c_daemon s')"
proof (cases "now - c_last_status s \<ge> 2")
  case True
  let ?d = "(c_daemon s)\<lparr>d_status_last_received := d_received_packets (c_daemon s)\<rparr>"
  from assms obtain report where "print_status (c_os s) (c_daemon s) = Some (?d, report)"
    using print_status_total[of "c_os s" "c_daemon s"] by (auto simp: capture_ok_def)
  with True assms daemon_ok_cong[of ?d "c_daemon s" "c_os s"] show ?thesis
    by (simp add: capture_status_def capture_ok_def capture_wpos_def counts_def packets_counted_def)
qed (use assms in \<open>simp add: capture_status_def\<close>)

definition event_ok :: "capture_event \<Rightarrow> bool" where
  "event_ok ev \<longleftrightarrow> (case ev_pcap ev of PcapPacket p \<Rightarrow> packet_fits_model p | _ \<Rightarrow> True)"

lemma capture_iteration_total:
  assumes ok: "capture_ok s" and ev: "event_ok ev" and pos: "capture_wpos s + 12 < 2 ^ 64"
  shows "\<exists>r. capture_iteration ev s = Some r \<and> step_fine s ev r"
proof -
  from capture_status_total[OF ok, of "ev_now ev"] obtain s1 where
    s1: "capture_status (ev_now ev) s = Some s1" "capture_ok s1" "capture_wpos s1 = capture_wpos s"
      "counts (c_daemon s) [] (c_daemon s1)" by blast
  have tr: "step_fine s1 ev r \<Longrightarrow> step_fine s ev r" for r
    using s1(3,4) by (auto simp: step_fine_def counts_def split: loop_result.splits)
  show ?thesis
  proof (cases "ev_pcap ev")
    case (PcapPacket p)
    with ev have "packet_fits_model p" by (simp add: event_ok_def)
    from capture_packet_total[OF s1(2) this _ PcapPacket] s1(3) pos obtain r where
      "capture_packet (ev_fails ev) (ev_host_time ev) p s1 = Some r" "step_fine s1 ev r" by auto
    with s1(1) PcapPacket tr show ?thesis by (simp add: capture_iteration_def)
  qed (use s1 in \<open>auto simp: capture_iteration_def counts_def packets_in_def foreign_in_def errors_in_def packets_counted_def
        step_fine_def capture_ok_def capture_wpos_def daemon_ok_def ring_wpos_def\<close>)
qed

text \<open>Other processes reading the ring keep everything in order.\<close>

lemma reader_consumes_ok:
  assumes "capture_ok s"
  shows "capture_ok (reader_consumes n s)" "capture_wpos (reader_consumes n s) = capture_wpos s"
    "c_daemon (reader_consumes n s) = c_daemon s"
proof -
  let ?d = "c_daemon s"
  have *: "capture_ok (reader_consumes n s) \<and> capture_wpos (reader_consumes n s) = capture_wpos s \<and> c_daemon (reader_consumes n s) = ?d"
  proof (cases "ring_at (c_os s) (d_ring ?d)")
    case (Some ring)
    note put = ring_at_put[OF Some, of "read_state ring n"]
    have "ring_matches c ring \<Longrightarrow> ring_matches c (read_state ring n)" for c
      using read_state_spec(1)[of ring n] by (simp add: ring_matches_def)
    with assms Some put show ?thesis
      by (auto simp: reader_consumes_def capture_ok_def capture_wpos_def daemon_ok_def ring_wpos_def)
  qed (use assms in \<open>simp add: reader_consumes_def\<close>)
  then show "capture_ok (reader_consumes n s)" "capture_wpos (reader_consumes n s) = capture_wpos s"
    "c_daemon (reader_consumes n s) = ?d" by blast+
qed

text \<open>
  The whole loop.  Either it is still running, no pass having stopped it, and has counted all the
  packets; or it returned in pass \<open>k\<close>, having counted the packets of the passes before it: with 0
  when pass \<open>k\<close> stopped it, otherwise with an error because a packet came and the ring could not
  be created.
\<close>

definition loop_accounts :: "capture_event list \<Rightarrow> ReacDaemon \<Rightarrow> (capture_state, int) loop_end \<Rightarrow> bool" where
  "loop_accounts evs d r =
     (case r of
        Running s' \<Rightarrow> list_all (\<lambda>ev. \<not> stops ev) evs \<and> counts d evs (c_daemon s')
      | Returned s' rc \<Rightarrow> (\<exists>k < length evs. list_all (\<lambda>ev. \<not> stops ev) (take k evs) \<and> counts d (take k evs) (c_daemon s') \<and>
          (if stops (evs ! k) then rc = 0
           else rc = - 1 \<and> well_formed_in (evs ! k) \<and> \<not> d_ring_created (c_daemon s'))))"

lemma loop_accounts_cons:
  assumes "loop_accounts evs d1 r" "counts d [ev] d1" "\<not> stops ev"
  shows "loop_accounts (ev # evs) d r"
proof (cases r)
  case (Running s')
  with assms counts_cons[OF assms(2)] show ?thesis by (simp add: loop_accounts_def)
next
  case (Returned s' rc)
  with assms(1) obtain k where
    k: "k < length evs" "list_all (\<lambda>ev. \<not> stops ev) (take k evs)" "counts d1 (take k evs) (c_daemon s')"
      "if stops (evs ! k) then rc = 0 else rc = - 1 \<and> well_formed_in (evs ! k) \<and> \<not> d_ring_created (c_daemon s')"
    by (auto simp: loop_accounts_def)
  with Returned assms(3) counts_cons[OF assms(2) k(3)] show ?thesis
    unfolding loop_accounts_def by (simp only: loop_end.case) (intro exI [of _ "Suc k"], simp)
qed

lemma capture_loop_total:
  assumes "capture_ok s" "list_all (\<lambda>e. event_ok (snd e)) evs" "capture_wpos s + 12 * length evs < 2 ^ 64"
  shows "\<exists>r. capture_loop evs s = Some r \<and> capture_ok (end_state r) \<and> loop_accounts (map snd evs) (c_daemon s) r"
  using assms
proof (induction evs arbitrary: s)
  case Nil
  then show ?case by (simp add: loop_accounts_def)
next
  case (Cons e evs)
  obtain n ev where e: "e = (n, ev)" by fastforce
  note rc = reader_consumes_ok[OF Cons.prems(1), of n]
  have ev: "event_ok ev" "list_all (\<lambda>e. event_ok (snd e)) evs" using Cons.prems(2) e by simp_all
  have here: "loop_accounts (ev # map snd evs) (c_daemon s) (Returned s1 rc1)"
    if "counts (c_daemon s) [] (c_daemon s1)"
      "if stops ev then rc1 = 0 else rc1 = - 1 \<and> well_formed_in ev \<and> \<not> d_ring_created (c_daemon s1)" for s1 rc1
    using that unfolding loop_accounts_def by (simp only: loop_end.case) (intro exI [of _ 0], simp)
  show ?case
  proof (cases "ev_running ev")
    case False
    with here[of "reader_consumes n s" 0] rc e show ?thesis by (simp add: stops_def)
  next
    case True
    have "capture_wpos (reader_consumes n s) + 12 < 2 ^ 64" using Cons.prems(3) rc(2) by simp
    from capture_iteration_total[OF rc(1) ev(1) this] obtain r where
      r: "capture_iteration ev (reader_consumes n s) = Some r" "step_fine (reader_consumes n s) ev r" by blast
    show ?thesis
    proof (cases r)
      case (Continue s1)
      with r rc have s1: "capture_ok s1" "capture_wpos s1 \<le> capture_wpos s + 12" "\<not> stops ev"
        "counts (c_daemon s) [ev] (c_daemon s1)" using True by (simp_all add: step_fine_def stops_def)
      have "capture_wpos s1 + 12 * length evs < 2 ^ 64" using Cons.prems(3) s1(2) by simp
      from Cons.IH[OF s1(1) ev(2) this] loop_accounts_cons[OF _ s1(4,3)] r(1) True Continue e show ?thesis by auto
    next
      case (Break s1)
      with r e rc True here[of s1 0] show ?thesis by (simp add: step_fine_def stops_def)
    next
      case (ReturnError s1)
      with r have "\<not> stops ev" using True by (auto simp: step_fine_def stops_def well_formed_in_def)
      with ReturnError r e rc True here[of s1 "- 1"] show ?thesis by (simp add: step_fine_def)
    qed
  qed
qed

end
