(* ===== verification/ReacjackdCorrect.thy ===== *)
theory ReacjackdCorrect
  imports Reacjackd
begin

text \<open>
  Correctness of the daemon: every captured packet is accounted for, accepted audio reaches the
  ring with its clock, loss is counted exactly, the tone generator keeps pace with the clock,
  the command line is validated, and the daemon removes its ring when it ends.
\<close>

section \<open>The tone generator\<close>

lemma elapsed_exact:
  assumes "0 \<le> (fst now - fst start) * 1000000000 + (snd now - snd start)"
    "(fst now - fst start) * 1000000000 + (snd now - snd start) < 2 ^ 64"
  shows "int (unat (elapsed_ns start now)) = (fst now - fst start) * 1000000000 + (snd now - snd start)"
proof -
  define x where "x = (fst now - fst start) * 1000000000 + (snd now - snd start)"
  have "elapsed_ns start now = word_of_int x" by (simp add: elapsed_ns_def x_def)
  moreover have "x = int (nat x)" using assms(1) by (simp add: x_def)
  ultimately have "elapsed_ns start now = of_nat (nat x)" by (metis of_int_of_nat_eq)
  moreover have "nat x < 2 ^ 64" using assms(2) by (simp add: x_def nat_less_iff)
  ultimately have "unat (elapsed_ns start now) = nat x" using unat_of_nat_small[of "nat x", where 'a = 64] by simp
  with assms(1) show ?thesis by (simp add: x_def)
qed

lemma due_exact:
  assumes "unat e * 48000 < 2 ^ 64" shows "unat (due_frames e) = unat e * 48000 div 1000000000"
  using assms by (simp add: due_frames_def unat_div unat_word_ariths)

lemma due_bound: "unat (due_frames e) + 12 < 2 ^ 64"
proof -
  have "unat (due_frames e) \<le> 18446744073709551616 div 1000000000"
    unfolding due_frames_def unat_div using unat_u64_bound[of "e * 48000"]
    by (simp add: div_le_mono less_imp_le del: unat_u64_bound)
  then show ?thesis by simp
qed

definition phase_at :: "rat \<Rightarrow> nat \<Rightarrow> rat" where
  "phase_at phase k = ((\<lambda>p. f64 (p + phase_step)) ^^ k) phase"

definition tone_sample :: "(rat \<Rightarrow> rat) \<Rightarrow> rat \<Rightarrow> rat" where
  "tone_sample sine phase = f32 (1 / 2 * f32 (sine phase))"

lemma store_tone_spec:
  assumes st: "storage_ok st" and c: "unat channels \<le> 40" and i: "i < 12"
  shows "\<exists>st'. store_tone channels i v st = Some st' \<and> storage_ok st' \<and>
    (\<forall>ch < unat channels. st' ! ch = (st ! ch)[i := v])"
proof -
  let ?I = "\<lambda>j st'. storage_ok st' \<and> (\<forall>ch < 40. st' ! ch = (if ch < j then (st ! ch)[i := v] else st ! ch))"
  have "\<exists>st'. store_tone channels i v st = Some st' \<and> ?I (unat channels) st'"
    unfolding store_tone_def
  proof (rule for_each_range [where I = ?I])
    fix j s assume j: "j < unat channels" and I: "?I j s"
    have "length (st ! j) = 12" using st j c by (simp add: storage_ok_def)
    with I j c have len: "j < length s" "length (s ! j) = 12" by (simp_all add: storage_ok_def)
    have "storage_ok (s[j := (s ! j)[i := v]])"
      using I len(2) by (auto simp: storage_ok_def dest!: set_update_subset_insert [THEN subsetD])
    moreover have "\<forall>ch < 40. s[j := (s ! j)[i := v]] ! ch = (if ch < Suc j then (st ! ch)[i := v] else st ! ch)"
      using I len(1) by (auto simp: nth_list_update less_Suc_eq)
    ultimately show "\<exists>s'. do { row \<leftarrow> rd s j; row' \<leftarrow> wr row i v; wr s j row' } = Some s' \<and> ?I (Suc j) s'"
      using len i by (simp add: mem_simps)
  qed (use st in auto)
  then show ?thesis using c by fastforce
qed

lemma tone_block_spec:
  assumes st: "storage_ok st" and c: "unat channels \<le> 40"
  shows "\<exists>st'. tone_block sine channels (phase, st) = Some (phase_at phase 12, st') \<and> storage_ok st' \<and>
    (\<forall>ch < unat channels. st' ! ch = map (\<lambda>k. tone_sample sine (phase_at phase k)) [0..<12])"
proof -
  let ?v = "\<lambda>k. tone_sample sine (phase_at phase k)"
  let ?I = "\<lambda>i (p, st'). p = phase_at phase i \<and> storage_ok st' \<and> (\<forall>ch < unat channels. take i (st' ! ch) = map ?v [0..<i])"
  have "\<exists>s'. tone_block sine channels (phase, st) = Some s' \<and> ?I 12 s'"
    unfolding tone_block_def
  proof (rule for_each_range [where I = ?I])
    fix i s assume i: "i < (12 :: nat)" and I: "?I i s"
    obtain p st1 where s: "s = (p, st1)" by fastforce
    with I have p: "p = phase_at phase i" and ok: "storage_ok st1" and tk: "\<forall>ch < unat channels. take i (st1 ! ch) = map ?v [0..<i]" by auto
    from store_tone_spec[OF ok c i, of "f32 (1 / 2 * f32 (sine p))"] obtain st2 where
      st2: "store_tone channels i (f32 (1 / 2 * f32 (sine p))) st1 = Some st2" "storage_ok st2"
        "\<forall>ch < unat channels. st2 ! ch = (st1 ! ch)[i := f32 (1 / 2 * f32 (sine p))]" by blast
    have "length (st1 ! ch) = 12" if "ch < unat channels" for ch using ok that c by (auto simp: storage_ok_def)
    then have "\<forall>ch < unat channels. take (Suc i) (st2 ! ch) = map ?v [0..<Suc i]"
      using st2(3) tk i by (simp add: take_Suc_conv_app_nth p tone_sample_def)
    with st2 p show "\<exists>s'. (case s of (phase, st) \<Rightarrow> do { st' \<leftarrow> store_tone channels i (f32 (1 / 2 * f32 (sine phase))) st;
        Some (f64 (phase + phase_step), st') }) = Some s' \<and> ?I (Suc i) s'"
      by (simp add: s phase_at_def)
  qed (use st in \<open>auto simp: phase_at_def\<close>)
  then obtain st' where "tone_block sine channels (phase, st) = Some (phase_at phase 12, st')" "storage_ok st'"
    "\<forall>ch < unat channels. take 12 (st' ! ch) = map ?v [0..<12]" by auto
  moreover from this(2) c have "ch < unat channels \<Longrightarrow> length (st' ! ch) = 12" for ch by (auto simp: storage_ok_def)
  ultimately show ?thesis by auto
qed

definition tone_ok :: "tone_state \<Rightarrow> bool" where
  "tone_ok s \<longleftrightarrow> daemon_ok (t_os s) (t_daemon s) \<and> d_ring_created (t_daemon s) \<and> storage_ok (t_storage s)"

text \<open>One block of the loop.\<close>

lemma tone_catch_up_block:
  assumes tone: "tone_ok s" and le: "t_sent_frames s + 12 \<le> due" and pos: "ring_wpos (t_os s) (t_daemon s) + 12 < 2 ^ 64"
  shows "\<exists>s1. tone_catch_up sine host_time due s = tone_catch_up sine host_time due s1 \<and> tone_ok s1 \<and>
    t_sent_frames s1 = t_sent_frames s + 12 \<and> t_last_status s1 = t_last_status s \<and>
    d_received_packets (t_daemon s1) = d_received_packets (t_daemon s) + 1 \<and>
    ring_wpos (t_os s1) (t_daemon s1) \<le> ring_wpos (t_os s) (t_daemon s) + 12"
proof -
  let ?d = "t_daemon s"
  have ok: "daemon_ok (t_os s) ?d" "d_ring_created ?d" "storage_ok (t_storage s)" using tone by (simp_all add: tone_ok_def)
  from daemon_ring[OF ok(1,2)] obtain ring where
    ring: "ring_at (t_os s) (d_ring ?d) = Some ring" "ring_matches (d_channels ?d) ring" "ring_wpos (t_os s) ?d = wpos ring" .
  have c40: "unat (d_channels ?d) \<le> 40" using ring(2) by (simp add: ring_matches_def)
  from tone_block_spec[OF ok(3) c40] obtain st' where
    blk: "tone_block sine (d_channels ?d) (t_phase s, t_storage s) = Some (phase_at (t_phase s) 12, st')" "storage_ok st'" by blast
  have "wpos ring + 12 < 2 ^ 64" using pos ring(3) by simp
  from write_block_spec[OF ring(1,2) blk(2) this, of "host_time (t_sent_frames s)"] obtain ring' where
    w: "write_block (t_os s) ?d st' (host_time (t_sent_frames s)) = Some (put_ring (t_os s) (d_ring ?d) ring')"
      "ring_matches (d_channels ?d) ring'" "wpos ring' \<le> wpos ring + 12" by blast
  define s1 where "s1 = s\<lparr>t_os := put_ring (t_os s) (d_ring ?d) ring', t_storage := st', t_phase := phase_at (t_phase s) 12,
    t_sent_frames := t_sent_frames s + 12, t_daemon := ?d\<lparr>d_received_packets := d_received_packets ?d + 1\<rparr>\<rparr>"
  have unf: "tone_catch_up sine host_time due s = tone_catch_up sine host_time due s1"
    by (subst tone_catch_up.simps) (simp add: le blk w(1) s1_def)
  have ok1: "tone_ok s1" and wp1: "ring_wpos (t_os s1) (t_daemon s1) = wpos ring'"
    using ring_at_put[OF ring(1), of ring'] w(2) ok(2) blk(2) by (simp_all add: tone_ok_def daemon_ok_def s1_def ring_wpos_def)
  show ?thesis using unf ok1 wp1 w(3) ring(3) by (intro exI [of _ s1]) (simp add: s1_def)
qed

lemma tone_catch_up_spec:
  assumes "tone_ok s" "unat due + 12 < 2 ^ 64"
    "unat (t_sent_frames s) + 12 < 2 ^ 64"
    "ring_wpos (t_os s) (t_daemon s) + (unat due - unat (t_sent_frames s)) < 2 ^ 64"
  shows "\<exists>s'. tone_catch_up sine host_time due s = Some s' \<and> tone_ok s' \<and>
    unat (t_sent_frames s') = unat (t_sent_frames s) + 12 * ((unat due - unat (t_sent_frames s)) div 12) \<and>
    d_received_packets (t_daemon s') = d_received_packets (t_daemon s) + of_nat ((unat due - unat (t_sent_frames s)) div 12) \<and>
    ring_wpos (t_os s') (t_daemon s') \<le> ring_wpos (t_os s) (t_daemon s) + 12 * ((unat due - unat (t_sent_frames s)) div 12) \<and>
    t_last_status s' = t_last_status s"
  using assms
proof (induction "unat due - unat (t_sent_frames s)" arbitrary: s rule: less_induct)
  case less
  let ?n = "unat (t_sent_frames s)" and ?d = "t_daemon s"
  have n12: "unat (t_sent_frames s + 12) = ?n + 12" using less.prems(3) by (simp add: unat_add_nowrap)
  show ?case
  proof (cases "t_sent_frames s + 12 \<le> due")
    case False
    then have "unat due < ?n + 12" by (simp add: word_le_nat_alt n12)
    then have "(unat due - ?n) div 12 = 0" by simp
    with False less.prems(1) show ?thesis by (subst tone_catch_up.simps) simp
  next
    case True
    then have le: "?n + 12 \<le> unat due" by (simp add: word_le_nat_alt n12)
    have "ring_wpos (t_os s) ?d + 12 < 2 ^ 64" using less.prems(4) le by linarith
    from tone_catch_up_block[OF less.prems(1) True this, of sine host_time] obtain s1 where
      s1: "tone_catch_up sine host_time due s = tone_catch_up sine host_time due s1" "tone_ok s1" "t_sent_frames s1 = t_sent_frames s + 12"
        "t_last_status s1 = t_last_status s" "d_received_packets (t_daemon s1) = d_received_packets ?d + 1"
        "ring_wpos (t_os s1) (t_daemon s1) \<le> ring_wpos (t_os s) ?d + 12" by blast
    have n1: "unat (t_sent_frames s1) = ?n + 12" by (simp add: s1(3) n12)
    have b: "unat due - unat (t_sent_frames s1) < unat due - ?n" "unat (t_sent_frames s1) + 12 < 2 ^ 64"
      "ring_wpos (t_os s1) (t_daemon s1) + (unat due - unat (t_sent_frames s1)) < 2 ^ 64"
      using le n1 s1(6) less.prems(2,4) by linarith+
    from less.hyps[OF b(1) s1(2) less.prems(2) b(2,3)] obtain s' where
      s': "tone_catch_up sine host_time due s1 = Some s'" "tone_ok s'"
        "unat (t_sent_frames s') = ?n + 12 + 12 * ((unat due - (?n + 12)) div 12)"
        "d_received_packets (t_daemon s') = d_received_packets (t_daemon s1) + of_nat ((unat due - (?n + 12)) div 12)"
        "ring_wpos (t_os s') (t_daemon s') \<le> ring_wpos (t_os s1) (t_daemon s1) + 12 * ((unat due - (?n + 12)) div 12)" "t_last_status s' = t_last_status s1"
      unfolding n1 by blast
    have q: "(unat due - ?n) div 12 = Suc ((unat due - (?n + 12)) div 12)" using le_div_geq[of 12 "unat due - ?n"] le by simp
    have "ring_wpos (t_os s') (t_daemon s') \<le> ring_wpos (t_os s) ?d + 12 * ((unat due - ?n) div 12)"
      using s'(5) s1(6) q by linarith
    then show ?thesis using s' s1(1,4,5) by (simp add: q)
  qed
qed

text \<open>The clock readings of the passes of the loop, in nanoseconds since its start, and the frames due.\<close>

definition elapsed_at :: "int \<times> int \<Rightarrow> tone_event \<Rightarrow> int" where
  "elapsed_at start ev = (fst (te_clock ev) - fst start) * 1000000000 + (snd (te_clock ev) - snd start)"

definition clock_runs :: "int \<times> int \<Rightarrow> tone_event list \<Rightarrow> bool" where
  "clock_runs start evs \<longleftrightarrow> sorted (map (elapsed_at start) evs) \<and>
     list_all (\<lambda>ev. 0 \<le> elapsed_at start ev \<and> elapsed_at start ev < 384307168202282) evs"

definition frames_due :: "int \<times> int \<Rightarrow> tone_event list \<Rightarrow> int" where
  "frames_due start evs = (if evs = [] then 0 else elapsed_at start (last evs) * 48000 div 1000000000)"

text \<open>The generator is on time after the given passes.\<close>

definition paced :: "int \<times> int \<Rightarrow> u64 \<Rightarrow> tone_event list \<Rightarrow> tone_state \<Rightarrow> bool" where
  "paced start received evs s \<longleftrightarrow> tone_ok s \<and> int (unat (t_sent_frames s)) \<le> frames_due start evs \<and>
     frames_due start evs < int (unat (t_sent_frames s)) + 12 \<and> 12 dvd unat (t_sent_frames s) \<and>
     d_received_packets (t_daemon s) = received + of_nat (unat (t_sent_frames s) div 12) \<and>
     ring_wpos (t_os s) (t_daemon s) \<le> unat (t_sent_frames s)"

lemma due_frames_at:
  assumes "0 \<le> elapsed_at start ev" "elapsed_at start ev < 384307168202282"
  shows "int (unat (due_frames (elapsed_ns start (te_clock ev)))) = elapsed_at start ev * 48000 div 1000000000"
proof -
  have e: "int (unat (elapsed_ns start (te_clock ev))) = elapsed_at start ev"
    using elapsed_exact[of "te_clock ev" start] assms by (simp add: elapsed_at_def)
  then have "unat (elapsed_ns start (te_clock ev)) < 384307168202282" using assms(2) by linarith
  then have "unat (elapsed_ns start (te_clock ev)) * 48000 < 2 ^ 64" by simp
  from due_exact[OF this] e show ?thesis by (simp add: zdiv_int)
qed

lemma tone_iteration_spec:
  assumes p: "paced start received evs s" and ev: "0 \<le> elapsed_at start ev" "elapsed_at start ev < 384307168202282"
    and later: "frames_due start evs \<le> frames_due start [ev]"
  shows "\<exists>s'. tone_iteration sine start ev s = Some s' \<and> paced start received (evs @ [ev]) s'"
proof -
  let ?due = "due_frames (elapsed_ns start (te_clock ev))" and ?n = "unat (t_sent_frames s)"
  have due: "int (unat ?due) = frames_due start (evs @ [ev])" using due_frames_at[OF ev] by (simp add: frames_due_def)
  have "int ?n \<le> frames_due start evs" using p unfolding paced_def by blast
  moreover have "frames_due start [ev] = frames_due start (evs @ [ev])" by (simp add: frames_due_def)
  ultimately have le: "?n \<le> unat ?due" using later due by linarith
  have w: "ring_wpos (t_os s) (t_daemon s) \<le> ?n" using p by (simp add: paced_def)
  have b: "?n + 12 < 2 ^ 64" "ring_wpos (t_os s) (t_daemon s) + (unat ?due - ?n) < 2 ^ 64"
    using w le due_bound[of "elapsed_ns start (te_clock ev)"] by linarith+
  from p have "tone_ok s" by (simp add: paced_def)
  from tone_catch_up_spec[OF this due_bound b] obtain s1 where
    s1: "tone_catch_up sine (te_host_time ev) ?due s = Some s1" "tone_ok s1"
      "unat (t_sent_frames s1) = ?n + 12 * ((unat ?due - ?n) div 12)"
      "d_received_packets (t_daemon s1) = d_received_packets (t_daemon s) + of_nat ((unat ?due - ?n) div 12)"
      "ring_wpos (t_os s1) (t_daemon s1) \<le> ring_wpos (t_os s) (t_daemon s) + 12 * ((unat ?due - ?n) div 12)" by blast
  from p obtain k where k: "?n = 12 * k" by (auto simp: paced_def)
  have "paced start received (evs @ [ev]) s1"
    unfolding paced_def due [symmetric]
  proof (intro conjI)
    show "tone_ok s1" "12 dvd unat (t_sent_frames s1)" using s1(2,3) k by simp_all
    show "int (unat (t_sent_frames s1)) \<le> int (unat ?due)" "int (unat ?due) < int (unat (t_sent_frames s1)) + 12"
      using s1(3) le by linarith+
    show "d_received_packets (t_daemon s1) = received + of_nat (unat (t_sent_frames s1) div 12)"
      using p s1(3,4) k by (simp add: paced_def)
    show "ring_wpos (t_os s1) (t_daemon s1) \<le> unat (t_sent_frames s1)" using p s1(3,5) by (simp add: paced_def)
  qed
  moreover have "paced start received es (s1\<lparr>t_daemon := (t_daemon s1)\<lparr>d_status_last_received := x\<rparr>, t_last_status := y, t_reports := z\<rparr>) =
      paced start received es s1" for es x y z
    using daemon_ok_cong[of "(t_daemon s1)\<lparr>d_status_last_received := x\<rparr>" "t_daemon s1" "t_os s1"] by (simp add: paced_def tone_ok_def)
  moreover obtain report where "print_status (t_os s1) (t_daemon s1) =
      Some ((t_daemon s1)\<lparr>d_status_last_received := d_received_packets (t_daemon s1)\<rparr>, report)"
    using print_status_total[of "t_os s1" "t_daemon s1"] s1(2) by (auto simp: tone_ok_def)
  ultimately show ?thesis using s1(1) by (simp add: tone_iteration_def)
qed

lemma tone_loop_spec:
  assumes "clock_runs start (past @ evs)" "paced start received past s"
  shows "\<exists>r. tone_loop sine start evs s = Some r \<and>
    (case r of Running s' \<Rightarrow> list_all te_running evs \<and> paced start received (past @ evs) s'
     | Returned s' rc \<Rightarrow> rc = 0 \<and> (\<exists>k < length evs. list_all te_running (take k evs) \<and> \<not> te_running (evs ! k) \<and>
         paced start received (past @ take k evs) s'))"
  using assms
proof (induction evs arbitrary: past s)
  case (Cons ev evs)
  show ?case
  proof (cases "te_running ev")
    case False
    with Cons.prems(2) show ?thesis by (simp add: exI [of _ 0])
  next
    case True
    have ev: "0 \<le> elapsed_at start ev" "elapsed_at start ev < 384307168202282" using Cons.prems(1) by (simp_all add: clock_runs_def)
    have "frames_due start past \<le> frames_due start [ev]"
      using Cons.prems(1) ev(1) by (auto simp: frames_due_def clock_runs_def sorted_append intro!: zdiv_mono1)
    from tone_iteration_spec[OF Cons.prems(2) ev this] obtain s1 where
      s1: "tone_iteration sine start ev s = Some s1" "paced start received (past @ [ev]) s1" by blast
    note app = append_assoc append_Cons append_Nil
    from Cons.IH[OF _ s1(2), unfolded app] Cons.prems(1) obtain r where
      r: "tone_loop sine start evs s1 = Some r"
        "case r of Running s' \<Rightarrow> list_all te_running evs \<and> paced start received (past @ ev # evs) s'
         | Returned s' rc \<Rightarrow> rc = 0 \<and> (\<exists>k < length evs. list_all te_running (take k evs) \<and> \<not> te_running (evs ! k) \<and>
             paced start received (past @ ev # take k evs) s')" by blast
    show ?thesis
    proof (cases r)
      case (Running s')
      with r s1(1) True show ?thesis by simp
    next
      case (Returned s' rc)
      with r(2) obtain k where "rc = 0" "k < length evs" "list_all te_running (take k evs)" "\<not> te_running (evs ! k)"
        "paced start received (past @ ev # take k evs) s'" by auto
      with r(1) s1(1) True Returned show ?thesis by (simp add: exI [of _ "Suc k"])
    qed
  qed
qed simp

section \<open>Command line\<close>

lemma parse_args_channels:
  assumes "parse_args args d = Inr d'" "d_channels d = 0 \<or> valid_channels (d_channels d)"
  shows "d_channels d' = 0 \<or> valid_channels (d_channels d')"
  using assms
  by (induction args d rule: parse_args.induct) (auto split: if_splits option.splits dest: channels_argument_ok)

lemma parse_args_fresh:
  assumes "parse_args args d = Inr d'"
  shows "d_ring_created d' = d_ring_created d" "d_received_packets d' = d_received_packets d"
    "d_have_last_counter d' = d_have_last_counter d" "d_lost_packets d' = d_lost_packets d"
  using assms by (induction args d rule: parse_args.induct) (auto split: if_splits option.splits)

section \<open>Properties\<close>

text \<open>C16. A captured packet of this protocol reaches the ring.  When there is no ring yet and it cannot be
  created, the loop ends with an error and nothing but that attempt has happened; when the
  packet's channel count is not that of the ring, it is counted as malformed and the ring is left
  alone; otherwise the twelve frames of audio in the packet are appended to the live frames of
  the ring, the clock observation pairs the host time with the new write position and the packet
  is counted as received, and when the reader has left no room, the ring keeps its frames and the
  dropped packet is counted.  The write position is assumed to be below the end of its 64 bits.\<close>

theorem captured_packet_reaches_ring:
  assumes "capture_ok s" "packet_fits_model packet" "packet_status packet (length packet) = REAC_STATUS_OK"
    "capture_wpos s + 12 < 2 ^ 64"
  shows "case ensure_ring fails (c_os s) (c_daemon s) (pv_channels (packet_view packet (length packet))) of (os1, d1, rc) \<Rightarrow>
    if rc \<noteq> 0
    then capture_packet fails host_time packet s = Some (ReturnError (s\<lparr>c_os := os1, c_daemon := d1\<rparr>)) \<and> \<not> d_ring_created d1
    else if pv_channels (packet_view packet (length packet)) \<noteq> d_channels d1
    then capture_packet fails host_time packet s =
      Some (Continue (s\<lparr>c_os := os1, c_daemon := d1\<lparr>d_malformed_packets := d_malformed_packets d1 + 1\<rparr>\<rparr>))
    else \<exists>ring1 ring' s'. ring_at os1 (d_ring d1) = Some ring1 \<and>
      capture_packet fails host_time packet s = Some (Continue s') \<and> capture_ok s' \<and>
      ring_at (c_os s') (d_ring (c_daemon s')) = Some ring' \<and>
      d_received_packets (c_daemon s') = d_received_packets (c_daemon s) + 1 \<and>
      (if fill_of ring1 + 12 \<le> cap_of ring1
       then ring_frames ring' = ring_frames ring1 @ packet_audio (drop 50 packet) (unat (d_channels d1)) \<and>
         h_clock_host_time (header ring') = host_time \<and> h_clock_sample_pos (header ring') = h_write_pos (header ring') \<and>
         wpos ring' = wpos ring1 + 12
       else ring_frames ring' = ring_frames ring1 \<and> h_dropped_packets (header ring') = h_dropped_packets (header ring1) + 1)"
proof -
  let ?ch = "pv_channels (packet_view packet (length packet))"
  obtain os1 d1 rc where ens: "ensure_ring fails (c_os s) (c_daemon s) ?ch = (os1, d1, rc)" by (metis prod.exhaust)
  show ?thesis
  proof (cases "rc \<noteq> 0 \<or> ?ch \<noteq> d_channels d1")
    case True
    from capture_packet_no_ring[OF assms(2,3) ens this] True ens ensure_ring_fails_fresh[OF ens] show ?thesis by simp
  next
    case False
    then have ok: "rc = 0" "?ch = d_channels d1" by simp_all
    have d: "d_received_packets d1 = d_received_packets (c_daemon s)"
      using ensure_ring_spec(6)[OF _ accepted_channels[OF assms(2,3)] ens] assms(1) by (simp add: capture_ok_def)
    from capture_packet_good[OF assms(1-3) ens [unfolded ok(1)] ok(2) assms(4), of host_time] obtain ring1 ring' st' d' where
      g: "ring_at os1 (d_ring d1) = Some ring1"
        "capture_packet fails host_time packet s =
          Some (Continue (s\<lparr>c_os := put_ring os1 (d_ring d1) ring', c_daemon := d', c_storage := st'\<rparr>))"
        "d' = (note_counter d1 (pv_counter (packet_view packet (length packet))))\<lparr>d_received_packets := d_received_packets d1 + 1\<rparr>"
        "storage_ok st'" "ring_matches (d_channels d1) ring'"
        "if fill_of ring1 + 12 \<le> cap_of ring1
         then ring_frames ring' = ring_frames ring1 @ packet_audio (drop 50 packet) (unat (d_channels d1)) \<and>
           h_clock_host_time (header ring') = host_time \<and> h_clock_sample_pos (header ring') = h_write_pos (header ring') \<and>
           wpos ring' = wpos ring1 + 12
         else ring_frames ring' = ring_frames ring1 \<and> h_dropped_packets (header ring') = h_dropped_packets (header ring1) + 1"
      by blast
    let ?s' = "s\<lparr>c_os := put_ring os1 (d_ring d1) ring', c_daemon := d', c_storage := st'\<rparr>"
    have "capture_ok ?s'" using g(3-5) ring_at_put[OF g(1), of ring'] by (simp add: capture_ok_def daemon_ok_def)
    with g ens ok d ring_at_put[OF g(1), of ring'] show ?thesis
      by (simp only: prod.case if_False simp_thms) (intro exI [of _ ring1] exI [of _ ring'] exI [of _ ?s']; simp)
  qed
qed

definition fresh_capture :: capture_state where
  "fresh_capture = \<lparr>c_os = \<lparr>os_names = Map.empty, os_objects = Map.empty, os_next = 0, os_fds = [], os_maps = []\<rparr>,
     c_daemon = no_daemon, c_storage = initial_storage, c_last_status = 0, c_reports = []\<rparr>"

lemma fresh_capture_ok: "capture_ok fresh_capture" "capture_wpos fresh_capture = 0"
  by (simp_all add: fresh_capture_def capture_ok_def daemon_ok_def no_daemon_def initial_storage_def storage_ok_def
      capture_wpos_def ring_wpos_def)

lemma silent_packet_facts: "length silent_packet = 124" "packet_fits_model silent_packet"
  "pv_channels (packet_view silent_packet 124) = 2"
  by (simp_all add: silent_packet_def length_make_packet packet_fits_model_def packet_view_def)

lemma fresh_ensure:
  "\<exists>os1 d1. ensure_ring (\<lambda>_. False) (c_os fresh_capture) (c_daemon fresh_capture) 2 = (os1, d1, 0) \<and> d_channels d1 = 2"
  by (simp add: ensure_ring_def fresh_capture_def no_daemon_def shared_audio_create_def init_handle_def os_defs Let_def)

theorem captured_packet_reaches_ring_witness:
  "\<exists>s'. capture_packet (\<lambda>_. False) 99 silent_packet fresh_capture = Some (Continue s') \<and> capture_ok s'"
proof -
  from fresh_ensure obtain os1 d1 where
    e: "ensure_ring (\<lambda>_. False) (c_os fresh_capture) (c_daemon fresh_capture) 2 = (os1, d1, 0)" "d_channels d1 = 2" by blast
  show ?thesis
    using captured_packet_reaches_ring[OF fresh_capture_ok(1) silent_packet_facts(2), of "\<lambda>_. False" 99] e
    by (simp add: silent_packet_facts silent_packet_status fresh_capture_ok(2)) blast
qed

text \<open>C15. Every captured packet is accounted for exactly once: whatever the passes of the capture loop
  observe and whenever readers consume frames, no pass of it is undefined and the daemon's ring stays
  well formed with the channel count of the daemon.  While the loop runs it has counted each
  packet as received, foreign or malformed, the foreign ones as foreign, and each capture error.
  It returns in a pass only for one of three reasons, and has counted the passes before it: with 0 when
  the flag is cleared or the capture is broken off, and with -1 when a packet of this protocol
  came and the ring could not be created; that packet is not counted.  The write position is
  assumed to stay within its 64 bits.\<close>

theorem capture_loop_accounts:
  assumes "capture_ok s" "list_all (\<lambda>e. event_ok (snd e)) evs" "capture_wpos s + 12 * length evs < 2 ^ 64"
  shows "\<exists>r. capture_loop evs s = Some r \<and> capture_ok (end_state r) \<and> loop_accounts (map snd evs) (c_daemon s) r"
  using assms by (rule capture_loop_total)

definition sample_events :: "(u32 \<times> capture_event) list" where
  "sample_events =
     [(0, \<lparr>ev_running = True, ev_now = 1, ev_pcap = PcapPacket silent_packet, ev_host_time = 5, ev_fails = (\<lambda>_. False)\<rparr>),
      (3, \<lparr>ev_running = True, ev_now = 2, ev_pcap = PcapPacket [1, 2, 3], ev_host_time = 6, ev_fails = (\<lambda>_. False)\<rparr>),
      (0, \<lparr>ev_running = True, ev_now = 5, ev_pcap = PcapTimeout, ev_host_time = 7, ev_fails = (\<lambda>_. False)\<rparr>),
      (0, \<lparr>ev_running = False, ev_now = 5, ev_pcap = PcapTimeout, ev_host_time = 7, ev_fails = (\<lambda>_. False)\<rparr>)]"

theorem capture_loop_accounts_witness:
  "\<exists>r. capture_loop sample_events fresh_capture = Some r \<and> capture_ok (end_state r) \<and>
     loop_accounts (map snd sample_events) no_daemon r"
proof -
  have ev: "list_all (\<lambda>e. event_ok (snd e)) sample_events" "capture_wpos fresh_capture + 12 * length sample_events < 2 ^ 64"
    by (simp_all add: sample_events_def event_ok_def silent_packet_facts packet_fits_model_def fresh_capture_ok(2))
  from capture_loop_accounts[OF fresh_capture_ok(1) ev] show ?thesis by (simp add: fresh_capture_def)
qed

text \<open>C21. Loss is counted by the gaps of the 16 bit packet counter, across any number of its wraps.  An
  arrival that is ahead of the one before it by fewer than 32768 missing packets adds exactly the number
  missing; one that is late or repeated, behind by fewer than 32768, adds one, although
  nothing is missing by it.  For a stream that arrives in order, with fewer than 32768 packets missing
  in a row, the number of lost packets is then exactly the number sent minus the number received.\<close>

theorem daemon_counts_losses_exactly:
  assumes "steps_ok ns" "\<not> d_have_last_counter d"
  shows "d_lost_packets (foldl note_counter d (map of_nat ns)) = d_lost_packets d + of_nat (noted ns) \<and>
    (arrivals_ok ns \<longrightarrow> d_lost_packets (foldl note_counter d (map of_nat ns)) = d_lost_packets d + of_nat (missing ns))"
proof -
  have "daemon_seen d = None" using assms(2) by (simp add: daemon_seen_def)
  with daemon_loss.note_all_noted[OF assms(1)] daemon_loss.note_all_exact show ?thesis by blast
qed

theorem daemon_counts_losses_exactly_witness:
  "d_lost_packets (foldl note_counter no_daemon (map of_nat [65534, 65535, 65536, 65540])) = 3 \<and>
   d_lost_packets (foldl note_counter no_daemon (map of_nat [65534, 98302, 65535, 65535])) = 32769"
  using daemon_counts_losses_exactly[of "[65534, 65535, 65536, 65540]" no_daemon]
    daemon_counts_losses_exactly[of "[65534, 98302, 65535, 65535]" no_daemon]
  by (simp add: no_daemon_def missing_def)

text \<open>C35. The tone generator keeps pace, as long as its clock does not run back and for the first 384307
  seconds, about four and a half days: started on a configuration without a ring, it gives up with -1
  when the ring cannot be created; otherwise every pass ends, and after each the number of generated
  frames is at most the number due at 48 kHz and less than one block behind it, with one packet
  counted for each block of twelve.  It returns exactly when it reads its flag as cleared.\<close>

theorem tone_keeps_pace:
  assumes "\<not> d_ring_created d" "unat (d_channels d) \<le> 40" "clock_runs start evs"
  shows "\<exists>r. run_tone sine fails now start evs os d = Some r \<and>
    (case r of
       Running s \<Rightarrow> list_all te_running evs \<and> paced start (d_received_packets d) evs s
     | Returned s rc \<Rightarrow>
         if rc = 0
         then \<exists>k < length evs. list_all te_running (take k evs) \<and> \<not> te_running (evs ! k) \<and>
           paced start (d_received_packets d) (take k evs) s
         else rc = - 1 \<and> \<not> d_ring_created (t_daemon s) \<and> t_sent_frames s = 0)"
proof -
  obtain os1 d1 rc where ens: "ensure_ring fails os d (d_channels d) = (os1, d1, rc)" by (metis prod.exhaust)
  let ?s = "\<lparr>t_os = os1, t_daemon = d1, t_storage = initial_storage, t_sent_frames = 0, t_phase = 0, t_last_status = now, t_reports = []\<rparr>"
  show ?thesis
  proof (cases "rc = 0")
    case False
    with ens ensure_ring_fails_fresh[OF ens] show ?thesis by (simp add: run_tone_def)
  next
    case True
    have "daemon_ok os d" "ring_wpos os d = 0" using assms(1) by (simp_all add: daemon_ok_def ring_wpos_def)
    with ensure_ring_spec[OF _ assms(2) ens] True have "paced start (d_received_packets d) [] ?s"
      by (simp add: paced_def tone_ok_def initial_storage_def storage_ok_def frames_due_def)
    with assms(3) tone_loop_spec[of start "[]" evs, unfolded append_Nil] obtain r where
      "tone_loop sine start evs ?s = Some r"
      "case r of Running s' \<Rightarrow> list_all te_running evs \<and> paced start (d_received_packets d) evs s'
       | Returned s' rc \<Rightarrow> rc = 0 \<and> (\<exists>k < length evs. list_all te_running (take k evs) \<and> \<not> te_running (evs ! k) \<and>
           paced start (d_received_packets d) (take k evs) s')" by blast
    with ens True show ?thesis by (intro exI [of _ r]) (cases r; simp add: run_tone_def)
  qed
qed

theorem tone_keeps_pace_witness:
  "\<exists>s. run_tone (\<lambda>_. 0) (\<lambda>_. False) 0 (10, 998999000)
       [\<lparr>te_running = True, te_clock = (11, 999000), te_host_time = (\<lambda>_. 7), te_now = 0\<rparr>,
        \<lparr>te_running = False, te_clock = (12, 0), te_host_time = (\<lambda>_. 8), te_now = 1\<rparr>]
       (c_os fresh_capture) (no_daemon\<lparr>d_channels := 2\<rparr>) = Some (Returned s 0) \<and> unat (t_sent_frames s) = 96"
proof -
  let ?e1 = "\<lparr>te_running = True, te_clock = (11, 999000), te_host_time = (\<lambda>_. 7), te_now = 0\<rparr>"
  let ?evs = "[?e1, \<lparr>te_running = False, te_clock = (12, 0), te_host_time = (\<lambda>_. 8), te_now = 1\<rparr>]"
  let ?d = "no_daemon\<lparr>d_channels := 2\<rparr>"
  have c: "clock_runs (10, 998999000) ?evs" by (simp add: clock_runs_def elapsed_at_def)
  have d: "\<not> d_ring_created ?d" "unat (d_channels ?d) \<le> 40" by (simp_all add: no_daemon_def)
  obtain os1 d1 where e: "ensure_ring (\<lambda>_. False) (c_os fresh_capture) ?d 2 = (os1, d1, 0)"
    by (simp add: ensure_ring_def fresh_capture_def no_daemon_def shared_audio_create_def init_handle_def os_defs Let_def)
  from tone_keeps_pace[OF d c, of "\<lambda>_. 0" "\<lambda>_. False" 0 "c_os fresh_capture"] obtain r where
    r: "run_tone (\<lambda>_. 0) (\<lambda>_. False) 0 (10, 998999000) ?evs (c_os fresh_capture) ?d = Some r"
    "case r of Running s \<Rightarrow> list_all te_running ?evs \<and> paced (10, 998999000) (d_received_packets ?d) ?evs s
     | Returned s rc \<Rightarrow> if rc = 0
         then \<exists>k < length ?evs. list_all te_running (take k ?evs) \<and> \<not> te_running (?evs ! k) \<and>
           paced (10, 998999000) (d_received_packets ?d) (take k ?evs) s
         else rc = - 1 \<and> \<not> d_ring_created (t_daemon s) \<and> t_sent_frames s = 0" by blast
  have run: "run_tone (\<lambda>_. 0) (\<lambda>_. False) 0 (10, 998999000) ?evs (c_os fresh_capture) ?d =
      tone_loop (\<lambda>_. 0) (10, 998999000) ?evs \<lparr>t_os = os1, t_daemon = d1, t_storage = initial_storage, t_sent_frames = 0,
        t_phase = 0, t_last_status = 0, t_reports = []\<rparr>" using e by (simp add: run_tone_def)
  obtain s rc where s: "r = Returned s rc" using r(2) by (cases r) simp_all
  have "rc = 0" using r(1) s run by (auto split: bind_splits)
  with r(2) s obtain k where k: "k < length ?evs" "\<not> te_running (?evs ! k)"
    "paced (10, 998999000) (d_received_packets ?d) (take k ?evs) s" by auto
  from k(1,2) have "k = 1" by (auto simp: less_Suc_eq nth_Cons' split: if_splits)
  then have "frames_due (10, 998999000) (take k ?evs) = 96" by (simp add: frames_due_def elapsed_at_def)
  with k(3) have "int (unat (t_sent_frames s)) \<le> 96" "96 < int (unat (t_sent_frames s)) + 12" "12 dvd unat (t_sent_frames s)"
    unfolding paced_def by metis+
  then have "unat (t_sent_frames s) \<le> 96" "96 < unat (t_sent_frames s) + 12" "12 dvd unat (t_sent_frames s)" by linarith+
  then have "unat (t_sent_frames s) = 96" by (auto elim!: dvdE)
  with r(1) s \<open>rc = 0\<close> show ?thesis by auto
qed

text \<open>After about four and a half days the tone stalls: at 384308 seconds the product of the elapsed
  nanoseconds and the sample rate has wrapped around 64 bits, the due count falls back to 39926
  frames instead of more than eighteen thousand million, and the generator, which is ahead of
  that, produces nothing.\<close>

theorem tone_stalls_after_wrap:
  assumes "39926 \<le> unat (t_sent_frames s)" "unat (t_sent_frames s) + 12 < 2 ^ 64"
  shows "due_frames (elapsed_ns (0, 0) (384308, 0)) = 39926 \<and>
    tone_catch_up sine host_time (due_frames (elapsed_ns (0, 0) (384308, 0))) s = Some s"
proof -
  have d: "due_frames (elapsed_ns (0, 0) (384308, 0)) = 39926" unfolding due_frames_def elapsed_ns_def by code_simp
  have "unat (t_sent_frames s + 12) = unat (t_sent_frames s) + 12" using assms(2) by (simp add: unat_add_nowrap)
  then have "\<not> t_sent_frames s + 12 \<le> 39926" using assms(1) by (simp add: word_le_nat_alt)
  with d show ?thesis by (subst tone_catch_up.simps) simp
qed

theorem tone_stalls_after_wrap_witness:
  "\<exists>s. tone_catch_up (\<lambda>_. 0) (\<lambda>_. 7) (due_frames (elapsed_ns (0, 0) (384308, 0))) s = Some s \<and> unat (t_sent_frames s) = 18446744064"
proof -
  define s where "s = \<lparr>t_os = c_os fresh_capture, t_daemon = no_daemon, t_storage = initial_storage,
    t_sent_frames = 18446744064, t_phase = 0, t_last_status = 0, t_reports = []\<rparr>"
  have "unat (t_sent_frames s) = 18446744064" by (simp add: s_def)
  moreover from this have "39926 \<le> unat (t_sent_frames s)" "unat (t_sent_frames s) + 12 < 2 ^ 64" by simp_all
  from tone_stalls_after_wrap[OF this, of "\<lambda>_. 0" "\<lambda>_. 7"] have
    "tone_catch_up (\<lambda>_. 0) (\<lambda>_. 7) (due_frames (elapsed_ns (0, 0) (384308, 0))) s = Some s" by blast
  ultimately show ?thesis by blast
qed

text \<open>The command line is validated: an accepted configuration has either no channel count yet or
  an even one from 2 to 40, capture has an interface, and the tone generator always has a
  channel count.\<close>

theorem configure_valid:
  assumes "configure args = Inr d"
  shows "(d_channels d = 0 \<or> valid_channels (d_channels d)) \<and> (d_tone_mode d \<or> d_interface d \<noteq> None) \<and>
    (d_tone_mode d \<longrightarrow> valid_channels (d_channels d)) \<and> \<not> d_ring_created d"
proof (cases "parse_args args no_daemon")
  case (Inr d0)
  from parse_args_channels[OF Inr] parse_args_fresh(1)[OF Inr] assms Inr show ?thesis
    by (auto simp: configure_def no_daemon_def valid_channels_def split: if_splits)
qed (use assms in \<open>simp add: configure_def\<close>)

theorem configure_valid_witness:
  "\<exists>d. configure [''-tone'', ''-c'', ''8''] = Inr d \<and> unat (d_channels d) = 8 \<and> valid_channels (d_channels d)"
proof -
  have c: "channels_argument ''8'' = Some 8" by code_simp
  obtain d where d: "configure [''-tone'', ''-c'', ''8''] = Inr d" "d_channels d = 8" "d_tone_mode d"
    by (simp add: configure_def c)
  from configure_valid[OF d(1)] d show ?thesis by simp
qed

text \<open>When the daemon ends it leaves nothing behind: the ring is unmapped, its name is removed, and
  the exit code says whether the loop succeeded; a daemon without a ring touches nothing.\<close>

theorem finish_removes_ring:
  assumes "daemon_ok os d"
  shows "\<exists>os' d' report. finish os d result = Some (os', d', report, if result = 0 then 0 else 1) \<and>
    st_received report = d_received_packets d \<and> os_fds os' = os_fds os \<and>
    (if d_ring_created d
     then os_names os' (d_ring_name d) = None \<and> sa_header (d_ring d') = None \<and>
       os_maps os' = remove1 (the (sa_header (d_ring d)), sa_mapped_bytes (d_ring d)) (os_maps os)
     else os' = os)"
proof (cases "d_ring_created d")
  case True
  with assms obtain ring where r: "ring_at os (d_ring d) = Some ring" by (auto simp: daemon_ok_def)
  then obtain addr where a: "sa_header (d_ring d) = Some addr" by (auto simp: ring_at_def split: bind_splits)
  show ?thesis
    using True r a by (simp add: finish_def print_status_def Let_def shared_audio_close_def shared_audio_unlink_def os_defs)
next
  case False
  then show ?thesis by (simp add: finish_def print_status_def Let_def)
qed

theorem finish_removes_ring_witness:
  "\<exists>os' d' report. finish (c_os fresh_capture) no_daemon (- 1) = Some (os', d', report, 1) \<and> os' = c_os fresh_capture"
proof -
  have "daemon_ok (c_os fresh_capture) no_daemon" "\<not> d_ring_created no_daemon" by (simp_all add: daemon_ok_def no_daemon_def)
  with finish_removes_ring[of "c_os fresh_capture" no_daemon "- 1"] show ?thesis by auto
qed

end
