(* ===== verification/PwRing.thy ===== *)
theory PwRing
  imports BlockCopies
begin

text \<open>
  The in-process audio ring of the PipeWire client (\<open>AudioRing\<close> in \<open>src/reacjack-pw.c\<close>): frames
  are stored interleaved, and blocks are copied in contiguous chunks by a loop.  The operations
  are total functions whose loops are proved to end; the ring implements the same FIFO contract
  as the shared memory ring.
\<close>

section \<open>Data and operations\<close>

record 'a AudioRing =
  ar_samples :: "'a list option"
  ar_capacity_frames :: u64
  ar_channels :: u16
  ar_read_pos :: u64
  ar_write_pos :: u64

definition null_ring :: "'a AudioRing" where
  "null_ring = \<lparr>ar_samples = None, ar_capacity_frames = 0, ar_channels = 0, ar_read_pos = 0, ar_write_pos = 0\<rparr>"

text \<open>
  \<open>memory\<close> says whether the allocator has the memory; an element count is a product of sizes
  that wraps as \<open>size_t\<close> does.
\<close>

definition audio_ring_init :: "bool \<Rightarrow> u16 \<Rightarrow> u64 \<Rightarrow> ('a::zero) AudioRing \<times> int" where
  "audio_ring_init memory channels capacity_frames =
     (if \<not> memory then (null_ring, - 1)
      else (null_ring\<lparr>ar_samples := Some (replicate (unat (capacity_frames * ucast channels)) 0),
                      ar_capacity_frames := capacity_frames, ar_channels := channels\<rparr>, 0))"

definition audio_ring_destroy :: "'a AudioRing \<Rightarrow> 'a AudioRing" where
  "audio_ring_destroy ring = null_ring"

text \<open>Offsets and byte counts of the copies, in elements of one sample.\<close>

definition frame_offset :: "u64 \<Rightarrow> u16 \<Rightarrow> nat" where
  "frame_offset frames channels = unat (frames * ucast channels)"

definition frame_bytes :: "u64 \<Rightarrow> u16 \<Rightarrow> nat" where
  "frame_bytes frames channels = unat (frames * ucast channels * 4) div 4"

definition chunk_todo :: "u64 \<Rightarrow> u64 \<Rightarrow> u64 \<Rightarrow> u64" where
  "chunk_todo capacity index left = (let contiguous = capacity - index in if left > contiguous then contiguous else left)"

lemma chunk_todo_bounds:
  assumes "d < n" "cap \<noteq> 0"
  shows "0 < unat (chunk_todo cap (p mod cap) (n - d))" "unat (chunk_todo cap (p mod cap) (n - d)) \<le> unat n - unat d"
    "unat (chunk_todo cap (p mod cap) (n - d)) = min (unat n - unat d) (unat cap - unat p mod unat cap)"
proof -
  have c: "0 < unat cap" using assms(2) by (simp add: word_unat_eq_iff)
  have m: "unat (p mod cap) = unat p mod unat cap" by (rule unat_mod)
  have lt: "unat p mod unat cap < unat cap" using c by (rule mod_less_divisor)
  have s: "unat (cap - p mod cap) = unat cap - unat p mod unat cap" "unat (n - d) = unat n - unat d"
    using lt assms(1) by (simp_all add: unat_sub_pos m word_less_nat_alt)
  show e: "unat (chunk_todo cap (p mod cap) (n - d)) = min (unat n - unat d) (unat cap - unat p mod unat cap)"
    unfolding chunk_todo_def Let_def word_less_nat_alt s by (simp add: s min_def)
  show "0 < unat (chunk_todo cap (p mod cap) (n - d))" "unat (chunk_todo cap (p mod cap) (n - d)) \<le> unat n - unat d"
    unfolding e using assms(1) lt by (simp_all add: word_less_nat_alt)
qed

lemma chunk_progress:
  assumes "d < n" "cap \<noteq> 0"
  shows "unat (d + chunk_todo cap (p mod cap) (n - d)) = unat d + unat (chunk_todo cap (p mod cap) (n - d))"
proof (rule unat_add_nowrap)
  have "unat d + unat (chunk_todo cap (p mod cap) (n - d)) \<le> unat n"
    using chunk_todo_bounds(2)[OF assms, of p] assms(1) by (simp add: word_less_nat_alt)
  then show "unat d + unat (chunk_todo cap (p mod cap) (n - d)) < 2 ^ LENGTH(64)"
    using le_less_trans[OF _ unat_u64_bound] by simp
qed

text \<open>The copy loop of \<open>audio_ring_write\<close>; taking the remainder by zero is undefined.\<close>

function ring_write_loop ::
  "u64 \<Rightarrow> u16 \<Rightarrow> u64 \<Rightarrow> u64 \<Rightarrow> 'a list \<Rightarrow> u64 \<Rightarrow> 'a list \<Rightarrow> 'a list option" where
  "ring_write_loop cap ch write_pos frames interleaved written samples =
     (if \<not> written < frames then Some samples
      else if cap = 0 then None
      else let write_index = (write_pos + written) mod cap;
               todo = chunk_todo cap write_index (frames - written)
           in do { samples' \<leftarrow> memcpy samples (frame_offset write_index ch)
                       interleaved (frame_offset written ch) (frame_bytes todo ch);
                   ring_write_loop cap ch write_pos frames interleaved (written + todo) samples' })"
  by pat_completeness auto
termination
  by (relation "measure (\<lambda>(cap, ch, wp, frames, src, written, smp). unat frames - unat written)")
    (auto simp: chunk_progress word_less_nat_alt intro!: diff_less_mono2 chunk_todo_bounds(1))

declare ring_write_loop.simps [simp del]

definition audio_ring_write :: "'a AudioRing \<Rightarrow> 'a list \<Rightarrow> u64 \<Rightarrow> ('a AudioRing \<times> int) option" where
  "audio_ring_write ring interleaved frames =
     (let read_pos = ar_read_pos ring;
          write_pos = ar_write_pos ring;
          used = write_pos - read_pos;
          free_frames = ar_capacity_frames ring - used
      in if frames > free_frames then Some (ring, - 1)
         else do { samples \<leftarrow> ar_samples ring;
                   samples' \<leftarrow> ring_write_loop (ar_capacity_frames ring) (ar_channels ring) write_pos frames interleaved 0 samples;
                   Some (ring\<lparr>ar_samples := Some samples', ar_write_pos := write_pos + frames\<rparr>, 0) })"

text \<open>The copy loop of \<open>audio_ring_read\<close>.\<close>

function ring_read_loop ::
  "u64 \<Rightarrow> u16 \<Rightarrow> u64 \<Rightarrow> u64 \<Rightarrow> 'a list \<Rightarrow> u64 \<Rightarrow> 'a list \<Rightarrow> 'a list option" where
  "ring_read_loop cap ch read_pos to_read samples read_frames out =
     (if \<not> read_frames < to_read then Some out
      else if cap = 0 then None
      else let read_index = (read_pos + read_frames) mod cap;
               todo = chunk_todo cap read_index (to_read - read_frames)
           in do { out' \<leftarrow> memcpy out (frame_offset read_frames ch)
                       samples (frame_offset read_index ch) (frame_bytes todo ch);
                   ring_read_loop cap ch read_pos to_read samples (read_frames + todo) out' })"
  by pat_completeness auto
termination
  by (relation "measure (\<lambda>(cap, ch, rp, to_read, smp, read_frames, out). unat to_read - unat read_frames)")
    (auto simp: chunk_progress word_less_nat_alt intro!: diff_less_mono2 chunk_todo_bounds(1))

declare ring_read_loop.simps [simp del]

definition audio_ring_read :: "('a::zero) AudioRing \<Rightarrow> 'a list \<Rightarrow> u64 \<Rightarrow> ('a AudioRing \<times> 'a list \<times> u64) option" where
  "audio_ring_read ring out frames =
     (let read_pos = ar_read_pos ring;
          write_pos = ar_write_pos ring;
          available = write_pos - read_pos;
          to_read = (if available < frames then available else frames);
          ch = ar_channels ring
      in do { samples \<leftarrow> ar_samples ring;
              out1 \<leftarrow> ring_read_loop (ar_capacity_frames ring) ch read_pos to_read samples 0 out;
              out2 \<leftarrow> (if to_read < frames
                        then memset out1 (frame_offset to_read ch) 0 (frame_bytes (frames - to_read) ch)
                        else Some out1);
              Some (ring\<lparr>ar_read_pos := read_pos + to_read\<rparr>, out2, to_read) })"

text \<open>Interleaving a decoded packet.\<close>

definition interleave_packet :: "'a list \<Rightarrow> 'a list list \<Rightarrow> u16 \<Rightarrow> nat \<Rightarrow> 'a list option" where
  "interleave_packet interleaved channels channel_count frames =
     for_each (\<lambda>frame. for_each (\<lambda>ch buf.
         do { c \<leftarrow> rd channels ch; v \<leftarrow> rd c frame; wr buf (frame * unat channel_count + ch) v })
       [0..<unat channel_count]) [0..<frames] interleaved"

section \<open>Slots\<close>

definition slot :: "nat \<Rightarrow> 'a list \<Rightarrow> nat \<Rightarrow> 'a list" where
  "slot ch xs k = take ch (drop (k * ch) xs)"

lemma slot_end: "k < m \<Longrightarrow> m * ch \<le> len \<Longrightarrow> k * ch + ch \<le> (len :: nat)"
  by (metis Suc_leI add.commute le_trans mult_Suc mult_le_mono1)

lemma length_slot: "k < m \<Longrightarrow> m * ch \<le> length xs \<Longrightarrow> length (slot ch xs k) = ch"
  using slot_end[of k m ch "length xs"] by (simp add: slot_def)

lemma nth_slot: "j < ch \<Longrightarrow> k * ch + ch \<le> length xs \<Longrightarrow> slot ch xs k ! j = xs ! (k * ch + j)"
  by (simp add: slot_def)

section \<open>The copy loops\<close>

lemma frame_offset_nat:
  assumes "unat f \<le> cap" "cap * unat ch < 2 ^ 62"
  shows "frame_offset f ch = unat f * unat ch" "frame_bytes f ch = unat f * unat ch"
proof -
  have "unat f * unat ch \<le> cap * unat ch" using assms(1) by simp
  from le_less_trans[OF this assms(2)] have "unat f * unat ch < 4611686018427387904" by simp
  then have "unat f * unat ch < 18446744073709551616" "unat f * unat ch * 4 < 18446744073709551616" by linarith+
  then show "frame_offset f ch = unat f * unat ch" "frame_bytes f ch = unat f * unat ch"
    by (simp_all add: frame_offset_def frame_bytes_def unat_word_ariths)
qed

text \<open>One chunk of a copy loop at position \<open>p + d\<close>: its slots are consecutive and inside the ring.\<close>

lemma chunk_step:
  fixes p d n cap :: u64 and ch :: u16
  assumes dn: "d < n" and cap: "cap \<noteq> 0" "unat cap * unat ch < 2 ^ 62" "unat n \<le> unat cap"
    and pos: "unat p + unat n < 2 ^ 64"
  defines "x \<equiv> (p + d) mod cap" and "m \<equiv> chunk_todo cap ((p + d) mod cap) (n - d)"
  shows "unat x < unat cap" "0 < unat m" "unat (d + m) = unat d + unat m" "unat d + unat m \<le> unat n"
    "unat x + unat m \<le> unat cap" "frame_offset x ch = unat x * unat ch" "frame_offset d ch = unat d * unat ch"
    "frame_bytes m ch = unat m * unat ch"
    "\<And>j. j < unat m \<Longrightarrow> (unat p + (unat d + j)) mod unat cap = unat x + j"
proof -
  have C: "0 < unat cap" using cap(1) by (simp add: word_unat_eq_iff)
  have pd: "unat (p + d) = unat p + unat d" using pos dn by (intro unat_add_nowrap) (simp add: word_less_nat_alt)
  have x: "unat x = (unat p + unat d) mod unat cap" by (simp add: x_def unat_mod pd)
  then show xC: "unat x < unat cap" using C by simp
  have m: "unat m = min (unat n - unat d) (unat cap - unat x)" "0 < unat m"
    using chunk_todo_bounds[OF dn cap(1), of "p + d"] by (simp_all add: m_def x_def pd unat_mod)
  show "0 < unat m" by (fact m(2))
  show "unat (d + m) = unat d + unat m" unfolding m_def by (rule chunk_progress[OF dn cap(1)])
  show le: "unat d + unat m \<le> unat n" "unat x + unat m \<le> unat cap"
    using m(1) dn xC by (auto simp: word_less_nat_alt)
  have "unat m \<le> unat cap" "unat d \<le> unat cap" using le cap(3) by linarith+
  then show "frame_offset x ch = unat x * unat ch" "frame_offset d ch = unat d * unat ch"
    "frame_bytes m ch = unat m * unat ch"
    using frame_offset_nat(1)[OF _ cap(2), of x] frame_offset_nat(1)[OF _ cap(2), of d]
      frame_offset_nat(2)[OF _ cap(2), of m] xC by simp_all
  show "(unat p + (unat d + j)) mod unat cap = unat x + j" if "j < unat m" for j
    using mod_slot[of j "unat cap" "unat p + unat d"] that le(2) C x by (simp add: add.assoc)
qed

text \<open>The first chunk of the frames that are left, and the rest of them.\<close>

lemma chunk_pairs:
  fixes p d n cap :: u64 and ch :: u16
  assumes dn: "d < n" and cap: "cap \<noteq> 0" "unat cap * unat ch < 2 ^ 62" "unat n \<le> unat cap"
    and pos: "unat p + unat n < 2 ^ 64"
  defines "x \<equiv> (p + d) mod cap" and "m \<equiv> chunk_todo cap ((p + d) mod cap) (n - d)"
  shows "frame_pairs (unat cap) (unat ch) (unat p) (unat d) (unat n) =
      block_pairs (frame_offset x ch) (frame_offset d ch) (frame_bytes m ch) @
      frame_pairs (unat cap) (unat ch) (unat p) (unat (d + m)) (unat n)"
    "frame_offset x ch + frame_bytes m ch \<le> unat cap * unat ch" "frame_offset d ch + frame_bytes m ch \<le> unat n * unat ch"
    "unat n - unat (d + m) < unat n - unat d" "unat (d + m) \<le> unat n"
proof -
  note st = chunk_step[OF assms(1-5), folded m_def, folded x_def]
  have run: "frame_pairs (unat cap) (unat ch) (unat p) (unat d) (unat d + unat m) =
      block_pairs (unat x * unat ch) (unat d * unat ch) (unat m * unat ch)"
    using st(9) by (intro frame_pairs_run)
  show "frame_pairs (unat cap) (unat ch) (unat p) (unat d) (unat n) =
      block_pairs (frame_offset x ch) (frame_offset d ch) (frame_bytes m ch) @
      frame_pairs (unat cap) (unat ch) (unat p) (unat (d + m)) (unat n)"
    unfolding st(3,6-8) run [symmetric] using st(4) by (intro frame_pairs_append) simp_all
  show "frame_offset x ch + frame_bytes m ch \<le> unat cap * unat ch" "frame_offset d ch + frame_bytes m ch \<le> unat n * unat ch"
    unfolding st(6-8) add_mult_distrib[symmetric] using st(4,5) by (simp_all add: mult_le_mono1)
  show "unat n - unat (d + m) < unat n - unat d" "unat (d + m) \<le> unat n" using st(2-4) by linarith+
qed

lemma fst_swap_pairs: "fst ` set (map prod.swap ps) = snd ` set ps"
  by (simp add: image_image)

text \<open>Both loops copy the elements of the frames that are left.\<close>

lemma write_loop_elements:
  assumes cap: "cap \<noteq> 0" "unat cap * unat ch < 2 ^ 62" "unat n \<le> unat cap" and src: "unat n * unat ch \<le> length src"
    and pos: "unat w + unat n < 2 ^ 64" and len: "unat cap * unat ch \<le> length smp" and d: "unat d \<le> unat n"
  shows "ring_write_loop cap ch w n src d smp =
    Some (copy_elements (frame_pairs (unat cap) (unat ch) (unat w) (unat d) (unat n)) src smp)"
  using len d
proof (induction "unat n - unat d" arbitrary: d smp rule: less_induct)
  case less
  show ?case
  proof (cases "d < n")
    case False
    then have "unat d = unat n" using less.prems by (simp add: word_less_nat_alt)
    with False show ?thesis by (subst ring_write_loop.simps) simp
  next
    case True
    define x where "x = (w + d) mod cap"
    define m where "m = chunk_todo cap x (n - d)"
    note c = chunk_pairs[OF True cap pos, folded x_def, folded m_def]
    let ?B = "block_pairs (frame_offset x ch) (frame_offset d ch) (frame_bytes m ch)"
    let ?R = "frame_pairs (unat cap) (unat ch) (unat w) (unat (d + m)) (unat n)"
    have "memcpy smp (frame_offset x ch) src (frame_offset d ch) (frame_bytes m ch) = Some (copy_elements ?B src smp)"
      using c(2,3) less.prems(1) src by (intro memcpy_elements) simp_all
    moreover have "ring_write_loop cap ch w n src (d + m) (copy_elements ?B src smp) = Some (copy_elements ?R src (copy_elements ?B src smp))"
      using less.prems(1) c(4,5) by (intro less.hyps) simp_all
    moreover have "fst ` set ?B \<inter> fst ` set ?R = {}"
      using distinct_frame_pairs(1)[OF cap(3), of "unat ch" "unat w" "unat d"] unfolding c(1) by simp
    ultimately show ?thesis using True cap(1) unfolding c(1)
      by (subst ring_write_loop.simps) (simp add: copy_elements_append x_def [symmetric] m_def [symmetric] Let_def)
  qed
qed

lemma read_loop_elements:
  assumes cap: "cap \<noteq> 0" "unat cap * unat ch < 2 ^ 62" "unat n \<le> unat cap" and out: "unat n * unat ch \<le> length out"
    and pos: "unat r + unat n < 2 ^ 64" and len: "unat cap * unat ch \<le> length smp" and d: "unat d \<le> unat n"
  shows "ring_read_loop cap ch r n smp d out =
    Some (copy_elements (map prod.swap (frame_pairs (unat cap) (unat ch) (unat r) (unat d) (unat n))) smp out)"
  using out d
proof (induction "unat n - unat d" arbitrary: d out rule: less_induct)
  case less
  show ?case
  proof (cases "d < n")
    case False
    then have "unat d = unat n" using less.prems by (simp add: word_less_nat_alt)
    with False show ?thesis by (subst ring_read_loop.simps) simp
  next
    case True
    define x where "x = (r + d) mod cap"
    define m where "m = chunk_todo cap x (n - d)"
    note c = chunk_pairs[OF True cap pos, folded x_def, folded m_def]
    let ?B = "block_pairs (frame_offset x ch) (frame_offset d ch) (frame_bytes m ch)"
    let ?S = "block_pairs (frame_offset d ch) (frame_offset x ch) (frame_bytes m ch)"
    let ?R = "frame_pairs (unat cap) (unat ch) (unat r) (unat (d + m)) (unat n)"
    have "memcpy out (frame_offset d ch) smp (frame_offset x ch) (frame_bytes m ch) = Some (copy_elements ?S smp out)"
      using c(2,3) less.prems(1) len by (intro memcpy_elements) simp_all
    moreover have "ring_read_loop cap ch r n smp (d + m) (copy_elements ?S smp out) =
        Some (copy_elements (map prod.swap ?R) smp (copy_elements ?S smp out))"
      using less.prems(1) c(4,5) by (intro less.hyps) simp_all
    moreover have "fst ` set (map prod.swap ?B) \<inter> fst ` set (map prod.swap ?R) = {}"
      using distinct_frame_pairs(2)[OF cap(3), of "unat ch" "unat r" "unat d"] unfolding c(1) fst_swap_pairs by simp
    ultimately show ?thesis using True cap(1) unfolding c(1)
      by (subst ring_read_loop.simps)
        (simp add: copy_elements_append swap_block_pairs x_def [symmetric] m_def [symmetric] Let_def)
  qed
qed

text \<open>What the copied elements are in terms of slots.\<close>

lemma nth_slot_in: "k < m \<Longrightarrow> m * ch \<le> length xs \<Longrightarrow> j < ch \<Longrightarrow> slot ch xs k ! j = xs ! (k * ch + j) \<and> k * ch + j < length xs"
  using slot_end[of k m ch "length xs"] by (simp add: nth_slot)

lemma slot_eqI:
  assumes "k < m" "m * ch \<le> length xs" "l < n" "n * ch \<le> length ys" "\<And>j. j < ch \<Longrightarrow> xs ! (k * ch + j) = ys ! (l * ch + j)"
  shows "slot ch xs k = slot ch ys l"
  using assms by (intro nth_equalityI) (simp_all add: length_slot nth_slot_in)

lemma written_slots:
  fixes w :: nat
  assumes cap: "0 < cap" "n \<le> cap" and len: "cap * ch \<le> length smp" "n * ch \<le> length src"
  defines "smp' \<equiv> copy_elements (frame_pairs cap ch w 0 n) src smp"
  shows "i < n \<Longrightarrow> slot ch smp' ((w + i) mod cap) = slot ch src i"
    "k < cap \<Longrightarrow> (\<And>i. i < n \<Longrightarrow> (w + i) mod cap \<noteq> k) \<Longrightarrow> slot ch smp' k = slot ch smp k"
proof -
  have l: "cap * ch \<le> length smp'" using len by (simp add: smp'_def)
  show "slot ch smp' ((w + i) mod cap) = slot ch src i" if i: "i < n"
  proof (rule slot_eqI)
    show "(w + i) mod cap < cap" using cap(1) by simp
    fix j assume j: "j < ch"
    show "smp' ! ((w + i) mod cap * ch + j) = src ! (i * ch + j)"
      unfolding smp'_def using i j cap(1) nth_slot_in[of "(w + i) mod cap" cap ch smp j] len(1)
      by (intro copy_elements_hit distinct_frame_pairs(1) cap(2)) (auto simp: set_frame_pairs)
  qed (use i l len in simp_all)
  show "slot ch smp' k = slot ch smp k" if k: "k < cap" "\<And>i. i < n \<Longrightarrow> (w + i) mod cap \<noteq> k"
  proof (rule slot_eqI[OF k(1) l k(1) len(1)])
    fix j assume j: "j < ch"
    have "k * ch + j \<notin> fst ` set (frame_pairs cap ch w 0 n)"
      using k(2) j by (fastforce simp: set_frame_pairs block_index_inject)
    then show "smp' ! (k * ch + j) = smp ! (k * ch + j)"
      unfolding smp'_def using nth_slot_in[OF k(1) len(1) j] by (intro copy_elements_miss) simp_all
  qed
qed

lemma read_slots:
  fixes r :: nat
  assumes cap: "0 < cap" "n \<le> cap" and len: "cap * ch \<le> length smp" "n * ch \<le> length out"
  defines "out' \<equiv> copy_elements (map prod.swap (frame_pairs cap ch r 0 n)) smp out"
  shows "i < n \<Longrightarrow> slot ch out' i = slot ch smp ((r + i) mod cap)" "drop (n * ch) out' = drop (n * ch) out"
proof -
  have l: "n * ch \<le> length out'" using len by (simp add: out'_def)
  have d: "distinct (map fst (map prod.swap (frame_pairs cap ch r 0 n)))"
    using distinct_frame_pairs(2)[OF cap(2), of ch r 0] by (simp add: comp_def)
  show "slot ch out' i = slot ch smp ((r + i) mod cap)" if i: "i < n"
  proof (rule slot_eqI)
    show "(r + i) mod cap < cap" using cap(1) by simp
    fix j assume j: "j < ch"
    show "out' ! (i * ch + j) = smp ! ((r + i) mod cap * ch + j)"
      unfolding out'_def using i j nth_slot_in[OF i len(2) j]
      by (intro copy_elements_hit d) (auto simp: set_frame_pairs image_image intro!: image_eqI[of _ _ "(i, j)"])
  qed (use i l len in simp_all)
  have "k \<notin> fst ` set (map prod.swap (frame_pairs cap ch r 0 n))" if "n * ch \<le> k" for k
    unfolding fst_swap_pairs using frame_pairs_in_ring(2)[of _ k cap ch r 0 n] cap(1) that by force
  then show "drop (n * ch) out' = drop (n * ch) out"
    unfolding out'_def by (intro nth_equalityI) (simp_all add: copy_elements_miss)
qed

section \<open>The ring as a queue of frames\<close>

abbreviation pw_cap :: "'a AudioRing \<Rightarrow> nat" where "pw_cap r \<equiv> unat (ar_capacity_frames r)"
abbreviation pw_chans :: "'a AudioRing \<Rightarrow> nat" where "pw_chans r \<equiv> unat (ar_channels r)"
abbreviation pw_wpos :: "'a AudioRing \<Rightarrow> nat" where "pw_wpos r \<equiv> unat (ar_write_pos r)"
abbreviation pw_rpos :: "'a AudioRing \<Rightarrow> nat" where "pw_rpos r \<equiv> unat (ar_read_pos r)"

definition pw_fill :: "'a AudioRing \<Rightarrow> nat" where
  "pw_fill r = pw_wpos r - pw_rpos r"

definition pw_ring_ok :: "'a AudioRing \<Rightarrow> bool" where
  "pw_ring_ok r \<longleftrightarrow> ar_samples r \<noteq> None \<and> 0 < pw_cap r \<and> pw_cap r * pw_chans r < 2 ^ 62 \<and>
     pw_cap r * pw_chans r \<le> length (the (ar_samples r)) \<and>
     pw_rpos r \<le> pw_wpos r \<and> pw_wpos r - pw_rpos r \<le> pw_cap r"

definition pw_frames :: "'a AudioRing \<Rightarrow> 'a list list" where
  "pw_frames r = window (slot (pw_chans r) (the (ar_samples r))) (pw_cap r) (pw_rpos r) (pw_wpos r)"

text \<open>The frames of an interleaved buffer.\<close>

definition deinterleaved :: "nat \<Rightarrow> nat \<Rightarrow> 'a list \<Rightarrow> 'a list list" where
  "deinterleaved ch n xs = map (slot ch xs) [0..<n]"

lemma length_deinterleaved [simp]: "length (deinterleaved ch n xs) = n"
  by (simp add: deinterleaved_def)

lemma length_pw_frames: "length (pw_frames r) = pw_fill r"
  by (simp add: pw_frames_def pw_fill_def)

lemma take_slots: "n * ch \<le> length xs \<Longrightarrow> take (n * ch) xs = concat (deinterleaved ch n xs)"
proof (induction n)
  case (Suc n)
  then have "take (Suc n * ch) xs = take (n * ch) xs @ slot ch xs n"
    by (simp add: slot_def take_add add.commute [of ch])
  with Suc show ?case by (simp add: deinterleaved_def)
qed (simp add: deinterleaved_def)

lemma deinterleaved_concat:
  "\<forall>f \<in> set fs. length f = ch \<Longrightarrow> deinterleaved ch (length fs) (concat fs) = fs"
proof (induction fs)
  case (Cons f fs)
  then have "slot ch (concat (f # fs)) 0 = f" "slot ch (concat (f # fs)) (Suc i) = slot ch (concat fs) i" for i
    by (simp_all add: slot_def)
  with Cons show ?case by (simp add: deinterleaved_def upt_rec [of 0] map_Suc_upt [symmetric] comp_def del: upt_Suc)
qed (simp add: deinterleaved_def)

lemma unat_pw_used:
  assumes "pw_ring_ok r" shows "unat (ar_write_pos r - ar_read_pos r) = pw_fill r" "pw_fill r \<le> pw_cap r"
  using assms by (simp_all add: pw_ring_ok_def pw_fill_def unat_sub_pos)

lemma audio_ring_write_accepts:
  assumes ok: "pw_ring_ok r" and src: "unat n * pw_chans r \<le> length src"
    and pos: "pw_wpos r + unat n < 2 ^ 64" and room: "pw_fill r + unat n \<le> pw_cap r"
  shows "\<exists>smp'. audio_ring_write r src n =
      Some (r\<lparr>ar_samples := Some smp', ar_write_pos := ar_write_pos r + n\<rparr>, 0) \<and>
    pw_ring_ok (r\<lparr>ar_samples := Some smp', ar_write_pos := ar_write_pos r + n\<rparr>) \<and>
    pw_frames (r\<lparr>ar_samples := Some smp', ar_write_pos := ar_write_pos r + n\<rparr>) =
      pw_frames r @ deinterleaved (pw_chans r) (unat n) src"
proof -
  obtain smp where smp: "ar_samples r = Some smp" using ok by (auto simp: pw_ring_ok_def)
  have g: "\<not> n > ar_capacity_frames r - (ar_write_pos r - ar_read_pos r)"
    using unat_pw_used[OF ok] room by (simp add: word_less_nat_alt unat_sub_pos)
  have c: "ar_capacity_frames r \<noteq> 0" "pw_cap r * pw_chans r < 2 ^ 62" "unat n \<le> pw_cap r" "pw_cap r * pw_chans r \<le> length smp"
    using ok room smp by (auto simp: pw_ring_ok_def)
  have C: "0 < pw_cap r" using ok by (simp add: pw_ring_ok_def)
  obtain smp' where
    l: "ring_write_loop (ar_capacity_frames r) (ar_channels r) (ar_write_pos r) n src 0 smp = Some smp'" "length smp' = length smp"
      "\<And>i. i < unat n \<Longrightarrow> slot (pw_chans r) smp' ((pw_wpos r + i) mod pw_cap r) = slot (pw_chans r) src i"
      "\<And>k. k < pw_cap r \<Longrightarrow> (\<And>i. i < unat n \<Longrightarrow> (pw_wpos r + i) mod pw_cap r \<noteq> k) \<Longrightarrow> slot (pw_chans r) smp' k = slot (pw_chans r) smp k"
    using write_loop_elements[OF c(1-3) src pos c(4), of 0] written_slots[OF C c(3,4) src, where w = "pw_wpos r"] by simp
  have w: "unat (ar_write_pos r + n) = pw_wpos r + unat n" using pos by (simp add: unat_add_nowrap)
  have "pw_frames (r\<lparr>ar_samples := Some smp', ar_write_pos := ar_write_pos r + n\<rparr>) =
      pw_frames r @ deinterleaved (pw_chans r) (unat n) src"
    using window_append[where r = "pw_rpos r" and w = "pw_wpos r" and fs = "deinterleaved (pw_chans r) (unat n) src"
        and cap = "pw_cap r" and slots' = "slot (pw_chans r) smp'" and slots = "slot (pw_chans r) smp"] ok room l(3,4)
    by (simp add: pw_frames_def smp w pw_fill_def pw_ring_ok_def deinterleaved_def)
  moreover have "audio_ring_write r src n = Some (r\<lparr>ar_samples := Some smp', ar_write_pos := ar_write_pos r + n\<rparr>, 0)"
    using g l(1) by (simp add: audio_ring_write_def Let_def smp)
  moreover have "pw_ring_ok (r\<lparr>ar_samples := Some smp', ar_write_pos := ar_write_pos r + n\<rparr>)"
    using ok l(2) w room by (auto simp: pw_ring_ok_def smp pw_fill_def)
  ultimately show ?thesis by blast
qed

lemma audio_ring_write_rejects:
  assumes "pw_ring_ok r" "pw_cap r < pw_fill r + unat n"
  shows "audio_ring_write r src n = Some (r, - 1)"
proof -
  have "n > ar_capacity_frames r - (ar_write_pos r - ar_read_pos r)"
    using unat_pw_used[OF assms(1)] assms(2) by (simp add: word_less_nat_alt unat_sub_pos)
  then show ?thesis by (simp add: audio_ring_write_def Let_def)
qed

text \<open>The ring after a read of \<open>n\<close> frames.\<close>

definition pw_advance :: "'a AudioRing \<Rightarrow> nat \<Rightarrow> 'a AudioRing" where
  "pw_advance r n = r\<lparr>ar_read_pos := ar_read_pos r + of_nat (min n (pw_fill r))\<rparr>"

lemma pw_read_bound: "pw_ring_ok r \<Longrightarrow> pw_rpos r + min n (pw_fill r) \<le> pw_wpos r"
  unfolding pw_ring_ok_def pw_fill_def by linarith

lemma pw_advance_spec:
  assumes "pw_ring_ok r"
  shows "pw_ring_ok (pw_advance r n)" "pw_frames (pw_advance r n) = drop n (pw_frames r)"
    "pw_fill (pw_advance r n) = pw_fill r - n"
proof -
  let ?k = "min n (pw_fill r)"
  have le: "pw_rpos r + ?k \<le> pw_wpos r" using assms by (rule pw_read_bound)
  have k: "unat (of_nat ?k :: u64) = ?k"
    using le_less_trans[OF _ unat_u64_bound, of ?k "ar_write_pos r"] le by (intro unat_of_nat_small) simp
  have p: "unat (ar_read_pos r + of_nat ?k) = pw_rpos r + ?k"
    using le_less_trans[OF le unat_u64_bound] by (subst unat_add_nowrap) (simp_all only: k, simp)
  show "pw_ring_ok (pw_advance r n)" using assms le p by (auto simp: pw_ring_ok_def pw_advance_def)
  show "pw_fill (pw_advance r n) = pw_fill r - n" using p by (simp add: pw_fill_def pw_advance_def min_def)
  have "pw_frames (pw_advance r n) = drop ?k (pw_frames r)"
    using window_drop p by (simp add: pw_frames_def pw_advance_def)
  then show "pw_frames (pw_advance r n) = drop n (pw_frames r)"
    by (simp add: min_def length_pw_frames split: if_splits)
qed

text \<open>The copy out of the ring, before the rest of the buffer is silenced.\<close>

lemma ring_read_frames:
  fixes r :: "('a::zero) AudioRing" and n t :: u64
  assumes ok: "pw_ring_ok r" and len: "unat n * pw_chans r \<le> length out" and smp: "ar_samples r = Some smp"
    and t: "unat t = min (unat n) (pw_fill r)"
  shows "\<exists>out1. ring_read_loop (ar_capacity_frames r) (ar_channels r) (ar_read_pos r) t smp 0 out = Some out1 \<and>
    length out1 = length out \<and> out1 = concat (take (unat n) (pw_frames r)) @ drop (unat t * pw_chans r) out \<and>
    length (concat (take (unat n) (pw_frames r))) = unat t * pw_chans r"
proof -
  let ?c = "pw_chans r"
  have c: "ar_capacity_frames r \<noteq> 0" "pw_cap r * ?c < 2 ^ 62" "unat t \<le> pw_cap r" "pw_cap r * ?c \<le> length smp"
    using ok smp unat_pw_used(2)[OF ok] by (auto simp: pw_ring_ok_def t)
  have tl: "unat t * ?c \<le> unat n * ?c" by (rule mult_le_mono1) (simp add: t)
  have pos: "pw_rpos r + unat t < 2 ^ 64"
  proof -
    have "pw_rpos r + unat t \<le> pw_wpos r" using pw_read_bound[OF ok] by (simp add: t)
    from le_less_trans[OF this unat_u64_bound] show ?thesis by simp
  qed
  have C: "0 < pw_cap r" using ok by (simp add: pw_ring_ok_def)
  obtain out1 where
    l: "ring_read_loop (ar_capacity_frames r) (ar_channels r) (ar_read_pos r) t smp 0 out = Some out1"
      "length out1 = length out" "drop (unat t * ?c) out1 = drop (unat t * ?c) out"
      "\<And>i. i < unat t \<Longrightarrow> slot ?c out1 i = slot ?c smp ((pw_rpos r + i) mod pw_cap r)"
    using read_loop_elements[OF c(1-3) le_trans[OF tl len] pos c(4), of 0] read_slots[OF C c(3,4) le_trans[OF tl len], where r = "pw_rpos r"] by simp
  have "deinterleaved ?c (unat t) out1 = take (unat n) (pw_frames r)"
    using l(4) by (intro nth_equalityI)
      (auto simp: deinterleaved_def t pw_frames_def nth_window smp pw_fill_def)
  with take_slots[of "unat t" ?c out1] tl len l(2) have tk: "take (unat t * ?c) out1 = concat (take (unat n) (pw_frames r))"
    by simp
  then have out1: "out1 = concat (take (unat n) (pw_frames r)) @ drop (unat t * ?c) out"
    using l(3) append_take_drop_id[of "unat t * ?c" out1] by simp
  have lt: "length (concat (take (unat n) (pw_frames r))) = unat t * ?c"
    using arg_cong[OF tk, of length] tl len l(2) by simp
  show ?thesis using l(1,2) out1 lt by blast
qed

lemma audio_ring_read_spec:
  fixes r :: "('a::zero) AudioRing"
  assumes ok: "pw_ring_ok r" and len: "unat n * pw_chans r \<le> length out" and small: "unat n * pw_chans r < 2 ^ 62"
  shows "audio_ring_read r out n = Some (pw_advance r (unat n),
      concat (take (unat n) (pw_frames r)) @ replicate ((unat n - pw_fill r) * pw_chans r) 0 @
        drop (unat n * pw_chans r) out, of_nat (min (unat n) (pw_fill r)))"
proof -
  let ?c = "pw_chans r"
  obtain smp where smp: "ar_samples r = Some smp" using ok by (auto simp: pw_ring_ok_def)
  define t where "t = (if ar_write_pos r - ar_read_pos r < n then ar_write_pos r - ar_read_pos r else n)"
  have t: "unat t = min (unat n) (pw_fill r)" using unat_pw_used[OF ok] by (simp add: t_def word_less_nat_alt min_def)
  have tn: "of_nat (min (unat n) (pw_fill r)) = t" unfolding t [symmetric] by simp
  obtain out1 where
    l: "ring_read_loop (ar_capacity_frames r) (ar_channels r) (ar_read_pos r) t smp 0 out = Some out1" "length out1 = length out"
    and out1: "out1 = concat (take (unat n) (pw_frames r)) @ drop (unat t * ?c) out"
    and lt: "length (concat (take (unat n) (pw_frames r))) = unat t * ?c"
    using ring_read_frames[OF ok len smp t] by blast
  have adv: "r\<lparr>ar_read_pos := ar_read_pos r + t\<rparr> = pw_advance r (unat n)" by (simp add: pw_advance_def tn)
  show ?thesis
  proof (cases "t < n")
    case True
    then have f: "unat t = pw_fill r" "pw_fill r < unat n" by (simp_all add: word_less_nat_alt t)
    have nt: "unat (n - t) = unat n - pw_fill r" using f by (simp add: unat_sub_pos)
    have o: "frame_offset t (ar_channels r) = unat t * ?c" "frame_bytes (n - t) (ar_channels r) = (unat n - pw_fill r) * ?c"
      using frame_offset_nat[OF _ small] f nt by simp_all
    have e: "unat t * ?c + (unat n - pw_fill r) * ?c = unat n * ?c" using f by (metis add_mult_distrib le_add_diff_inverse less_imp_le)
    have "memset out1 (unat t * ?c) 0 ((unat n - pw_fill r) * ?c) = Some (concat (take (unat n) (pw_frames r)) @
        replicate ((unat n - pw_fill r) * ?c) 0 @ drop (unat n * ?c) out)"
      using len l(2) e unfolding out1 by (simp add: memset_Some splice_behind[OF lt] add.commute)
    then show ?thesis
      using True l(1) o by (simp add: audio_ring_read_def Let_def smp adv tn t_def [symmetric])
  next
    case False
    then have "unat n = unat t" by (simp add: word_less_nat_alt t)
    moreover from this have "unat n - pw_fill r = 0" by (simp add: t)
    ultimately show ?thesis
      using False l(1) out1 by (simp add: audio_ring_read_def Let_def smp adv tn t_def [symmetric])
  qed
qed

section \<open>The FIFO contract\<close>

definition pw_push :: "'a AudioRing \<Rightarrow> 'a list list \<Rightarrow> ('a AudioRing \<times> bool) option" where
  "pw_push r fs =
     do { (r', rc) \<leftarrow> audio_ring_write r (concat fs) (of_nat (length fs));
          Some (r', rc = 0) }"

text \<open>A read of more than a ring full of frames delivers what a read of a ring full does.\<close>

definition pw_pop :: "('a::zero) AudioRing \<Rightarrow> nat \<Rightarrow> ('a AudioRing \<times> 'a list list) option" where
  "pw_pop r n =
     (let m = min n (pw_cap r)
      in do { (r', out, got) \<leftarrow> audio_ring_read r (replicate (m * pw_chans r) 0) (of_nat m);
              Some (r', deinterleaved (pw_chans r) (unat got) out) })"

definition pw_fits :: "'a AudioRing \<Rightarrow> 'a list list \<Rightarrow> bool" where
  "pw_fits r fs \<longleftrightarrow> (\<forall>f \<in> set fs. length f = pw_chans r) \<and> length fs < 2 ^ 64"

definition pw_headroom :: "'a AudioRing \<Rightarrow> nat" where
  "pw_headroom r = 2 ^ 64 - pw_wpos r"

lemma concat_uniform_length: "\<forall>f \<in> set fs. length f = c \<Longrightarrow> length (concat fs) = length fs * c"
  by (induction fs) auto

lemma frames_in_ring: "pw_ring_ok r \<Longrightarrow> f \<in> set (pw_frames r) \<Longrightarrow> length f = pw_chans r"
  by (auto simp: pw_frames_def window_def pw_ring_ok_def intro!: length_slot[of _ "pw_cap r"])

lemma deinterleaved_append: "length xs = n * ch \<Longrightarrow> deinterleaved ch n (xs @ ys) = deinterleaved ch n xs"
proof -
  assume len: "length xs = n * ch"
  have "slot ch (xs @ ys) i = slot ch xs i" if "i < n" for i
    using slot_end[OF that, of ch "n * ch"] len by (simp add: slot_def)
  then show ?thesis by (simp add: deinterleaved_def)
qed

lemma pw_pop_spec:
  fixes r :: "('a::zero) AudioRing"
  assumes ok: "pw_ring_ok r"
  shows "pw_pop r n = Some (pw_advance r n, take n (pw_frames r))"
proof -
  define m where "m = min n (pw_cap r)"
  have m: "unat (of_nat m :: u64) = m"
    using le_less_trans[OF _ unat_u64_bound, of m "ar_capacity_frames r"] by (intro unat_of_nat_small) (simp add: m_def)
  have f: "pw_fill r \<le> pw_cap r" by (rule unat_pw_used(2)[OF ok])
  have mf: "min m (pw_fill r) = min n (pw_fill r)" "take m (pw_frames r) = take n (pw_frames r)"
    "pw_advance r m = pw_advance r n"
    using f by (auto simp: m_def min_def length_pw_frames pw_advance_def)
  have "m * pw_chans r \<le> pw_cap r * pw_chans r" by (intro mult_le_mono1) (simp add: m_def)
  moreover have "pw_cap r * pw_chans r < 2 ^ 62" using ok by (simp add: pw_ring_ok_def)
  ultimately have "m * pw_chans r < 2 ^ 62" by (rule le_less_trans)
  then have rd: "audio_ring_read r (replicate (m * pw_chans r) 0) (of_nat m) = Some (pw_advance r n,
      concat (take n (pw_frames r)) @ replicate ((m - pw_fill r) * pw_chans r) 0, of_nat (min n (pw_fill r)))"
    using audio_ring_read_spec[OF ok, of "of_nat m" "replicate (m * pw_chans r) 0"] by (simp add: m mf)
  have fr: "\<forall>f \<in> set (take n (pw_frames r)). length f = pw_chans r"
    using frames_in_ring[OF ok] by (meson in_set_takeD)
  have l: "unat (of_nat (min n (pw_fill r)) :: u64) = length (take n (pw_frames r))"
    using le_less_trans[OF _ unat_u64_bound, of "min n (pw_fill r)" "ar_capacity_frames r"] f
    by (subst unat_of_nat_small) (simp_all add: length_pw_frames)
  have "deinterleaved (pw_chans r) (length (take n (pw_frames r)))
      (concat (take n (pw_frames r)) @ replicate ((m - pw_fill r) * pw_chans r) 0) = take n (pw_frames r)"
    using deinterleaved_append[OF concat_uniform_length[OF fr]] deinterleaved_concat[OF fr] by simp
  with rd l show ?thesis unfolding pw_pop_def Let_def m_def [symmetric] by simp
qed

interpretation pw_fifo: frame_fifo pw_ring_ok pw_frames pw_cap pw_headroom pw_fits pw_push pw_pop
proof
  fix r :: "'a AudioRing" and fs :: "'a list list" and n :: nat
  assume ok: "pw_ring_ok r"
  show "length (pw_frames r) \<le> pw_cap r" using unat_pw_used(2)[OF ok] by (simp add: length_pw_frames)
  have sel: "pw_cap (pw_advance r n) = pw_cap r" "pw_headroom (pw_advance r n) = pw_headroom r"
    "pw_fits (pw_advance r n) = pw_fits r" by (simp_all add: pw_advance_def pw_headroom_def pw_fits_def fun_eq_iff)
  show "\<exists>r'. pw_pop r n = Some (r', take n (pw_frames r)) \<and> pw_ring_ok r' \<and> pw_frames r' = drop n (pw_frames r) \<and>
      pw_cap r' = pw_cap r \<and> pw_headroom r' = pw_headroom r \<and> pw_fits r' = pw_fits r"
    using pw_pop_spec[OF ok, of n] pw_advance_spec[OF ok, of n] sel by simp
  assume fits: "pw_fits r fs" and room: "length fs < pw_headroom r"
  let ?n = "of_nat (length fs) :: u64"
  have n: "unat ?n = length fs" using fits by (intro unat_of_nat_small) (simp add: pw_fits_def)
  have fs: "\<forall>f \<in> set fs. length f = pw_chans r" using fits by (simp add: pw_fits_def)
  have src: "unat ?n * pw_chans r \<le> length (concat fs)" using concat_uniform_length[OF fs] by (simp add: n)
  have pos: "pw_wpos r + unat ?n < 2 ^ 64" using room by (simp add: pw_headroom_def n)
  show "\<exists>r'. pw_push r fs = Some (r', True) \<and> pw_ring_ok r' \<and> pw_frames r' = pw_frames r @ fs \<and>
      pw_cap r' = pw_cap r \<and> pw_headroom r' = pw_headroom r - length fs \<and> pw_fits r' = pw_fits r"
    if "length (pw_frames r) + length fs \<le> pw_cap r"
  proof -
    from that have "pw_fill r + unat ?n \<le> pw_cap r" by (simp add: n length_pw_frames)
    from audio_ring_write_accepts[OF ok src pos this] obtain smp' where
      w: "audio_ring_write r (concat fs) ?n = Some (r\<lparr>ar_samples := Some smp', ar_write_pos := ar_write_pos r + ?n\<rparr>, 0)"
      "pw_ring_ok (r\<lparr>ar_samples := Some smp', ar_write_pos := ar_write_pos r + ?n\<rparr>)"
      "pw_frames (r\<lparr>ar_samples := Some smp', ar_write_pos := ar_write_pos r + ?n\<rparr>) = pw_frames r @ fs"
      by (auto simp: n deinterleaved_concat[OF fs])
    have "unat (ar_write_pos r + ?n) = pw_wpos r + length fs" using pos by (simp add: unat_add_nowrap n)
    with w show ?thesis by (auto simp: pw_push_def pw_headroom_def pw_fits_def fun_eq_iff)
  qed
  show "\<exists>r'. pw_push r fs = Some (r', False) \<and> pw_ring_ok r' \<and> pw_frames r' = pw_frames r \<and>
      pw_cap r' = pw_cap r \<and> pw_headroom r' = pw_headroom r \<and> pw_fits r' = pw_fits r"
    if "pw_cap r < length (pw_frames r) + length fs"
    using audio_ring_write_rejects[OF ok, of ?n "concat fs"] that ok by (simp add: pw_push_def n length_pw_frames)
qed

section \<open>Interleaving\<close>

definition packet_frames :: "nat \<Rightarrow> nat \<Rightarrow> 'a list list \<Rightarrow> 'a list list" where
  "packet_frames c n channels = map (\<lambda>i. map (\<lambda>ch. channels ! ch ! i) [0..<c]) [0..<n]"

lemma length_packet_frames [simp]: "length (packet_frames c n channels) = n"
  by (simp add: packet_frames_def)

lemma wr_behind:
  assumes "length P = k" "k < length buf"
  shows "wr (P @ drop k buf) k v = Some ((P @ [v]) @ drop (Suc k) buf)"
proof -
  have "drop k buf = buf ! k # drop (Suc k) buf" using assms(2) by (rule Cons_nth_drop_Suc [symmetric])
  then show ?thesis using assms by (simp add: wr_Some list_update_append)
qed

lemma interleave_row:
  assumes P: "length P = k" and room: "k + c \<le> length buf" and chans: "c \<le> length channels" "\<And>ch. ch < c \<Longrightarrow> i < length (channels ! ch)"
  shows "for_each (\<lambda>ch b. do { x \<leftarrow> rd channels ch; v \<leftarrow> rd x i; wr b (k + ch) v }) [0..<c] (P @ drop k buf) =
    Some ((P @ map (\<lambda>ch. channels ! ch ! i) [0..<c]) @ drop (k + c) buf)"
proof -
  have "\<exists>b. for_each (\<lambda>ch b. do { x \<leftarrow> rd channels ch; v \<leftarrow> rd x i; wr b (k + ch) v }) [0..<c] (P @ drop k buf) = Some b \<and>
      b = (P @ map (\<lambda>ch. channels ! ch ! i) [0..<c]) @ drop (k + c) buf"
  proof (rule for_each_range [where I = "\<lambda>j b. b = (P @ map (\<lambda>ch. channels ! ch ! i) [0..<j]) @ drop (k + j) buf"])
    fix j b assume j: "j < c" and b: "b = (P @ map (\<lambda>ch. channels ! ch ! i) [0..<j]) @ drop (k + j) buf"
    have "wr b (k + j) v = Some (((P @ map (\<lambda>ch. channels ! ch ! i) [0..<j]) @ [v]) @ drop (Suc (k + j)) buf)" for v
      unfolding b using P room j by (intro wr_behind) simp_all
    moreover have "rd channels j = Some (channels ! j)" "rd (channels ! j) i = Some (channels ! j ! i)"
      using j chans by (simp_all add: rd_Some)
    ultimately show "\<exists>b'. do { x \<leftarrow> rd channels j; v \<leftarrow> rd x i; wr b (k + j) v } = Some b' \<and>
        b' = (P @ map (\<lambda>ch. channels ! ch ! i) [0..<Suc j]) @ drop (k + Suc j) buf"
      by simp
  qed simp_all
  then show ?thesis by simp
qed

lemma interleave_packet_spec:
  assumes "n * unat c \<le> length buf" "unat c \<le> length channels" "\<And>ch. ch < unat c \<Longrightarrow> n \<le> length (channels ! ch)"
  shows "interleave_packet buf channels c n = Some (concat (packet_frames (unat c) n channels) @ drop (n * unat c) buf)"
proof -
  let ?row = "\<lambda>i. map (\<lambda>ch. channels ! ch ! i) [0..<unat c]"
  have len: "length (concat (packet_frames (unat c) i channels)) = i * unat c" for i
    unfolding packet_frames_def using length_concat_uniform[of i ?row "unat c"] by (simp add: mult.commute)
  have "\<exists>b. interleave_packet buf channels c n = Some b \<and> b = concat (packet_frames (unat c) n channels) @ drop (n * unat c) buf"
    unfolding interleave_packet_def
  proof (rule for_each_range [where I = "\<lambda>i b. b = concat (packet_frames (unat c) i channels) @ drop (i * unat c) buf"])
    fix i b assume i: "i < n" and b: "b = concat (packet_frames (unat c) i channels) @ drop (i * unat c) buf"
    have room: "i * unat c + unat c \<le> length buf" using slot_end[OF i assms(1)] .
    have "for_each (\<lambda>ch b. do { x \<leftarrow> rd channels ch; v \<leftarrow> rd x i; wr b (i * unat c + ch) v }) [0..<unat c] b =
        Some ((concat (packet_frames (unat c) i channels) @ ?row i) @ drop (i * unat c + unat c) buf)"
      unfolding b by (rule interleave_row[OF len room assms(2) less_le_trans[OF i assms(3)]])
    then show "\<exists>b'. for_each (\<lambda>ch b. do { x \<leftarrow> rd channels ch; v \<leftarrow> rd x i; wr b (i * unat c + ch) v }) [0..<unat c] b = Some b' \<and>
        b' = concat (packet_frames (unat c) (Suc i) channels) @ drop (Suc i * unat c) buf"
      by (simp add: packet_frames_def add.commute)
  qed (simp_all add: packet_frames_def)
  then show ?thesis by simp
qed

section \<open>Properties\<close>

definition pw_sample_ring :: "int AudioRing" where
  "pw_sample_ring = \<lparr>ar_samples = Some [10, 20, 11, 21, 12, 22, 13, 23], ar_capacity_frames = 4, ar_channels = 2,
     ar_read_pos = 3, ar_write_pos = 5\<rparr>"

lemma pw_sample_ring_facts: "pw_ring_ok pw_sample_ring" "pw_frames pw_sample_ring = [[13, 23], [10, 20]]"
  "pw_fill pw_sample_ring = 2" "pw_cap pw_sample_ring = 4" "pw_chans pw_sample_ring = 2" "pw_wpos pw_sample_ring = 5"
proof -
  show "pw_frames pw_sample_ring = [[13, 23], [10, 20]]" by code_simp
qed (simp_all add: pw_sample_ring_def pw_ring_ok_def pw_fill_def)

text \<open>A write to the PipeWire ring is all or nothing and its copy loop always ends: a block that fits
  is appended to the live frames, across the end of the buffer if need be, and a block that does
  not fit leaves the ring as it was.  A new ring is well formed and empty.\<close>

theorem audio_ring_write_all_or_nothing:
  assumes "pw_ring_ok r" "unat n * pw_chans r \<le> length src" "pw_wpos r + unat n < 2 ^ 64"
  shows "if pw_fill r + unat n \<le> pw_cap r
    then \<exists>r'. audio_ring_write r src n = Some (r', 0) \<and> pw_ring_ok r' \<and>
      pw_frames r' = pw_frames r @ deinterleaved (pw_chans r) (unat n) src
    else audio_ring_write r src n = Some (r, - 1)"
  using audio_ring_write_accepts[OF assms] audio_ring_write_rejects[OF assms(1), of n src]
  by (cases "pw_fill r + unat n \<le> pw_cap r") auto

theorem audio_ring_write_all_or_nothing_witness:
  "\<exists>r'. audio_ring_write pw_sample_ring [1, 2, 3, 4] 2 = Some (r', 0) \<and>
     pw_frames r' = [[13, 23], [10, 20], [1, 2], [3, 4]]"
proof -
  have "deinterleaved 2 2 [1, 2, 3, 4 :: int] = [[1, 2], [3, 4]]" by code_simp
  then show ?thesis
    using audio_ring_write_all_or_nothing[OF pw_sample_ring_facts(1), of 2 "[1, 2, 3, 4]"]
    by (auto simp: pw_sample_ring_facts)
qed

text \<open>A read from the PipeWire ring fills the whole output: the oldest frames first, silence for the
  missing ones, and what lies behind the requested frames is not touched; the result is the
  number of real frames and exactly those leave the ring.\<close>

theorem audio_ring_read_delivers:
  fixes r :: "('a::zero) AudioRing"
  assumes "pw_ring_ok r" "unat n * pw_chans r \<le> length out" "unat n * pw_chans r < 2 ^ 62"
  shows "\<exists>r' got. audio_ring_read r out n = Some (r',
      concat (take (unat n) (pw_frames r)) @ replicate ((unat n - pw_fill r) * pw_chans r) 0 @
        drop (unat n * pw_chans r) out, got) \<and>
    unat got = min (unat n) (pw_fill r) \<and> pw_ring_ok r' \<and> pw_frames r' = drop (unat n) (pw_frames r)"
proof -
  have "unat (of_nat (min (unat n) (pw_fill r)) :: u64) = min (unat n) (pw_fill r)"
    using le_less_trans[OF _ unat_u64_bound, of "min (unat n) (pw_fill r)" n] by (intro unat_of_nat_small) simp
  with audio_ring_read_spec[OF assms] pw_advance_spec[OF assms(1)] show ?thesis by auto
qed

theorem audio_ring_read_delivers_witness:
  "\<exists>r' got. audio_ring_read pw_sample_ring (replicate 6 7) 3 = Some (r', [13, 23, 10, 20, 0, 0], got) \<and> unat got = 2"
proof -
  have "replicate 2 (0 :: int) = [0, 0]" by code_simp
  then show ?thesis
    using audio_ring_read_delivers[OF pw_sample_ring_facts(1), of 3 "replicate 6 7"]
    by (auto simp: pw_sample_ring_facts)
qed

lemma audio_ring_init_ok:
  assumes "audio_ring_init True ch 96000 = (r, 0)" "unat ch \<le> 40"
  shows "pw_ring_ok r" "pw_frames r = []" "ar_channels r = ch" "pw_cap r = 96000" "pw_wpos r = 0"
proof -
  have b: "96000 * unat ch < 18446744073709551616" using assms(2) by linarith
  have r: "r = \<lparr>ar_samples = Some (replicate (96000 * unat ch) 0), ar_capacity_frames = 96000, ar_channels = ch,
      ar_read_pos = 0, ar_write_pos = 0\<rparr>"
    using assms(1) b by (simp add: audio_ring_init_def null_ring_def unat_word_ariths)
  show "pw_ring_ok r" "pw_frames r = []" "ar_channels r = ch" "pw_cap r = 96000" "pw_wpos r = 0"
    using assms(2) by (simp_all add: r pw_ring_ok_def pw_frames_def)
qed

text \<open>The PipeWire ring satisfies the same conservation law as the shared memory ring: over every
  sequence of writes and reads nothing is lost, duplicated or reordered, and the ring that the
  client allocates (any even channel count up to 40, two seconds of frames) is a well-formed
  start.\<close>

theorem pw_ring_conservation:
  fixes r :: "('a::zero) AudioRing"
  assumes "audio_ring_init True ch 96000 = (r, 0)" "unat ch \<le> 40" "\<forall>fs \<in> set (pushed ops). pw_fits r fs"
    "sum_list (map length (pushed ops)) < pw_headroom r"
  shows "\<exists>r' ins outs. run_ops pw_push pw_pop r ops = Some (r', ins, outs) \<and> pw_ring_ok r' \<and>
    ins = outs @ pw_frames r'"
  using pw_fifo.run_conservation[OF audio_ring_init_ok(1)[OF assms(1,2)] assms(3,4)] audio_ring_init_ok(2)[OF assms(1,2)] by auto

theorem pw_ring_conservation_witness:
  "\<exists>r r' ins outs. audio_ring_init True 2 96000 = (r, 0) \<and>
     run_ops pw_push pw_pop r [Push [[1, 2 :: int]], Pop 2, Push [[3, 4], [5, 6]]] = Some (r', ins, outs) \<and>
     ins = outs @ pw_frames r'"
proof -
  obtain r :: "int AudioRing" where r: "audio_ring_init True 2 96000 = (r, 0)" by (auto simp: audio_ring_init_def)
  then have f: "pw_chans r = 2" "pw_wpos r = 0" by (auto simp: audio_ring_init_def null_ring_def)
  let ?ops = "[Push [[1, 2]], Pop 2, Push [[3, 4], [5, 6]]] :: int list fifo_op list"
  have "\<forall>fs \<in> set (pushed ?ops). pw_fits r fs" "sum_list (map length (pushed ?ops)) < pw_headroom r"
    by (simp_all add: pw_fits_def pw_headroom_def f)
  from pw_ring_conservation[OF r _ this] r show ?thesis by auto
qed

end
