(* ===== verification/PwConcurrent.thy ===== *)
theory PwConcurrent
  imports PwRing RingInterleaving
begin

text \<open>
  The ring of the PipeWire client as two threads use it: the capture thread in \<open>audio_ring_write\<close>
  and the process callback of the stream in \<open>audio_ring_read\<close>, one memory access at a time in any
  interleaving.  The samples of a block may be copied in any order; the position of the other side
  is loaded once, and the own position is stored after the copy.
\<close>

section \<open>Accesses\<close>

datatype 'a pw_write_pc =
    PwWriteIdle
  | PwWriteCheck "'a list" u64
  | PwWriteCopy "'a list" u64 "(nat \<times> nat) list"
  | PwWriteDone int

datatype 'a pw_read_pc =
    PwReadIdle
  | PwReadStart "'a list" u64
  | PwReadCopy "'a list" u64 u64 "(nat \<times> nat) list"
  | PwReadDone "'a list" u64

text \<open>The elements that the copy loops move for a block at a position: the index in the ring and that in the buffer.\<close>

definition ring_copies :: "u64 \<Rightarrow> u16 \<Rightarrow> u64 \<Rightarrow> u64 \<Rightarrow> (nat \<times> nat) list" where
  "ring_copies cap ch pos n =
     concat (map (\<lambda>i. block_pairs (frame_offset ((pos + of_nat i) mod cap) ch) (frame_offset (of_nat i) ch) (frame_bytes 1 ch))
       [0..<unat n])"

text \<open>One access of the capture thread; \<open>k\<close> chooses the next of the samples that are left.\<close>

fun pw_write_access :: "nat \<Rightarrow> 'a AudioRing \<Rightarrow> 'a pw_write_pc \<Rightarrow> ('a AudioRing \<times> 'a pw_write_pc) option" where
  "pw_write_access k r PwWriteIdle = Some (r, PwWriteIdle)"
| "pw_write_access k r (PwWriteCheck src n) =
     (let used = ar_write_pos r - ar_read_pos r;
          free_frames = ar_capacity_frames r - used
      in if n > free_frames then Some (r, PwWriteDone (- 1))
         else if ar_capacity_frames r = 0 \<and> n > 0 then None
         else Some (r, PwWriteCopy src n (ring_copies (ar_capacity_frames r) (ar_channels r) (ar_write_pos r) n)))"
| "pw_write_access k r (PwWriteCopy src n []) = Some (r\<lparr>ar_write_pos := ar_write_pos r + n\<rparr>, PwWriteDone 0)"
| "pw_write_access k r (PwWriteCopy src n (x # xs)) =
     (let (d, s) = (x # xs) ! (k mod length (x # xs))
      in do { smp \<leftarrow> ar_samples r;
              v \<leftarrow> rd src s;
              smp' \<leftarrow> wr smp d v;
              Some (r\<lparr>ar_samples := Some smp'\<rparr>, PwWriteCopy src n (remove1 (d, s) (x # xs))) })"
| "pw_write_access k r (PwWriteDone rc) = Some (r, PwWriteDone rc)"

text \<open>One access of the process callback; what is missing is silence, in a buffer that only the callback sees.\<close>

fun pw_read_access :: "nat \<Rightarrow> ('a::zero) AudioRing \<Rightarrow> 'a pw_read_pc \<Rightarrow> ('a AudioRing \<times> 'a pw_read_pc) option" where
  "pw_read_access k r PwReadIdle = Some (r, PwReadIdle)"
| "pw_read_access k r (PwReadStart out n) =
     (let available = ar_write_pos r - ar_read_pos r;
          to_read = (if available < n then available else n)
      in if ar_capacity_frames r = 0 \<and> to_read > 0 then None
         else Some (r, PwReadCopy out n to_read (ring_copies (ar_capacity_frames r) (ar_channels r) (ar_read_pos r) to_read)))"
| "pw_read_access k r (PwReadCopy out n to_read []) =
     do { out' \<leftarrow> (if to_read < n
                    then memset out (frame_offset to_read (ar_channels r)) 0 (frame_bytes (n - to_read) (ar_channels r))
                    else Some out);
          Some (r\<lparr>ar_read_pos := ar_read_pos r + to_read\<rparr>, PwReadDone out' to_read) }"
| "pw_read_access k r (PwReadCopy out n to_read (x # xs)) =
     (let (d, s) = (x # xs) ! (k mod length (x # xs))
      in do { smp \<leftarrow> ar_samples r;
              v \<leftarrow> rd smp d;
              out' \<leftarrow> wr out s v;
              Some (r, PwReadCopy out' n to_read (remove1 (d, s) (x # xs))) })"
| "pw_read_access k r (PwReadDone out real) = Some (r, PwReadDone out real)"

section \<open>The ring program\<close>

definition pw_frames_stored :: "'a AudioRing \<Rightarrow> 'a pw_write_pc \<Rightarrow> 'a list list" where
  "pw_frames_stored r pc = (case pc of PwWriteCopy src n [] \<Rightarrow> deinterleaved (pw_chans r) (unat n) src | _ \<Rightarrow> [])"

definition pw_frames_passed :: "'a AudioRing \<Rightarrow> 'a pw_read_pc \<Rightarrow> 'a list option list" where
  "pw_frames_passed r pc =
     (case pc of PwReadCopy out n t [] \<Rightarrow> map Some (deinterleaved (pw_chans r) (unat t) out) | _ \<Rightarrow> [])"

text \<open>Buffers are as long as the functions require, and the write position does not wrap.\<close>

definition pw_write_starts :: "'a AudioRing \<Rightarrow> 'a pw_write_pc \<Rightarrow> bool" where
  "pw_write_starts r pc =
     (case pc of PwWriteCheck src n \<Rightarrow> unat n * pw_chans r \<le> length src \<and> ar_write_pos r \<le> ar_write_pos r + n | _ \<Rightarrow> False)"

definition pw_read_starts :: "'a AudioRing \<Rightarrow> 'a pw_read_pc \<Rightarrow> bool" where
  "pw_read_starts r pc =
     (case pc of PwReadStart out n \<Rightarrow> unat n * pw_chans r \<le> length out \<and> n \<le> 0x100000000000 | _ \<Rightarrow> False)"

definition pw_write_done :: "'a pw_write_pc \<Rightarrow> bool" where
  "pw_write_done pc = (case pc of PwWriteDone rc \<Rightarrow> True | _ \<Rightarrow> False)"

definition pw_read_done :: "'a pw_read_pc \<Rightarrow> bool" where
  "pw_read_done pc = (case pc of PwReadDone out real \<Rightarrow> True | _ \<Rightarrow> False)"

definition pw_ring_program :: "(('a::zero) AudioRing, 'a pw_write_pc, 'a pw_read_pc, 'a list, 'a list) ring_program" where
  "pw_ring_program =
     \<lparr>idle_writer = PwWriteIdle, idle_reader = PwReadIdle, write_begins = pw_write_starts, read_begins = pw_read_starts,
      write_over = pw_write_done, read_over = pw_read_done, access_write = pw_write_access, access_read = pw_read_access,
      frames_in = pw_frames_stored, frames_out = pw_frames_passed\<rparr>"

lemma pw_ring_program_sel [simp]:
  "idle_writer pw_ring_program = PwWriteIdle" "idle_reader pw_ring_program = PwReadIdle"
  "write_begins pw_ring_program = pw_write_starts" "read_begins pw_ring_program = pw_read_starts"
  "write_over pw_ring_program = pw_write_done" "read_over pw_ring_program = pw_read_done"
  "access_write pw_ring_program = pw_write_access" "access_read pw_ring_program = pw_read_access"
  "frames_in pw_ring_program = pw_frames_stored" "frames_out pw_ring_program = pw_frames_passed"
  by (simp_all add: pw_ring_program_def)

definition pw_reachable ::
  "('a::zero) AudioRing \<Rightarrow> ('a AudioRing, 'a pw_write_pc, 'a pw_read_pc, 'a list, 'a list) ring_system \<Rightarrow> bool" where
  "pw_reachable r s \<longleftrightarrow> ring_reachable pw_ring_program (ring_start pw_ring_program r (pw_frames r)) s"

section \<open>Invariant\<close>

abbreviation pw_smp :: "'a AudioRing \<Rightarrow> 'a list" where "pw_smp r \<equiv> the (ar_samples r)"

abbreviation pw_pairs :: "'a AudioRing \<Rightarrow> u64 \<Rightarrow> u64 \<Rightarrow> (nat \<times> nat) list" where
  "pw_pairs r pos n \<equiv> frame_pairs (pw_cap r) (pw_chans r) (unat pos) 0 (unat n)"

lemma ring_copies_frames:
  assumes cap: "cap \<noteq> 0" "unat cap * unat ch < 2 ^ 62" "unat n \<le> unat cap" and pos: "unat p + unat n < 2 ^ 64"
  shows "ring_copies cap ch p n = frame_pairs (unat cap) (unat ch) (unat p) 0 (unat n)"
proof -
  have C: "0 < unat cap" using cap(1) by (simp add: word_unat_eq_iff)
  have "block_pairs (frame_offset ((p + of_nat i) mod cap) ch) (frame_offset (of_nat i) ch) (frame_bytes 1 ch) =
      block_pairs ((unat p + i) mod unat cap * unat ch) (i * unat ch) (unat ch)" if "i < unat n" for i
  proof -
    have i: "unat (of_nat i :: u64) = i" using that less_trans[OF that unat_u64_bound] by (intro unat_of_nat_small) simp
    then have "unat (p + of_nat i) = unat p + i" using pos that by (subst unat_add_nowrap) simp_all
    then have x: "unat ((p + of_nat i) mod cap) = (unat p + i) mod unat cap" by (simp add: unat_mod)
    have "(unat p + i) mod unat cap < unat cap" using C by simp
    then show ?thesis
      using frame_offset_nat(1)[OF _ cap(2), of "(p + of_nat i) mod cap"] frame_offset_nat(1)[OF _ cap(2), of "of_nat i"]
        frame_offset_nat(2)[OF _ cap(2), of 1] i x C that cap(3) by simp
  qed
  then show ?thesis unfolding ring_copies_def frame_pairs_def by (intro arg_cong[of _ _ concat] map_cong) simp_all
qed

definition pw_write_ok :: "'a AudioRing \<Rightarrow> 'a pw_write_pc \<Rightarrow> bool" where
  "pw_write_ok r pc =
     (case pc of
        PwWriteIdle \<Rightarrow> True
      | PwWriteCheck src n \<Rightarrow> unat n * pw_chans r \<le> length src \<and> pw_wpos r + unat n < 2 ^ 64
      | PwWriteCopy src n todo \<Rightarrow>
          unat n * pw_chans r \<le> length src \<and> pw_wpos r + unat n < 2 ^ 64 \<and> pw_fill r + unat n \<le> pw_cap r \<and>
          distinct todo \<and> set todo \<subseteq> set (pw_pairs r (ar_write_pos r) n) \<and>
          (\<forall>(d, s) \<in> set (pw_pairs r (ar_write_pos r) n) - set todo. pw_smp r ! d = src ! s)
      | PwWriteDone rc \<Rightarrow> rc = 0 \<or> rc = - 1)"

definition pw_read_ok :: "('a::zero) AudioRing \<Rightarrow> 'a pw_read_pc \<Rightarrow> bool" where
  "pw_read_ok r pc =
     (case pc of
        PwReadStart out n \<Rightarrow> unat n * pw_chans r \<le> length out \<and> unat n * pw_chans r < 2 ^ 62
      | PwReadCopy out n t todo \<Rightarrow>
          unat n * pw_chans r \<le> length out \<and> unat n * pw_chans r < 2 ^ 62 \<and> unat t \<le> unat n \<and> unat t \<le> pw_fill r \<and>
          distinct todo \<and> set todo \<subseteq> set (pw_pairs r (ar_read_pos r) t) \<and>
          (\<forall>(d, s) \<in> set (pw_pairs r (ar_read_pos r) t) - set todo. out ! s = pw_smp r ! d)
      | _ \<Rightarrow> True)"

definition pw_write_left :: "'a AudioRing \<Rightarrow> 'a pw_write_pc \<Rightarrow> nat" where
  "pw_write_left r pc =
     (case pc of PwWriteIdle \<Rightarrow> 0 | PwWriteCheck src n \<Rightarrow> unat n * pw_chans r + 2 | PwWriteCopy src n todo \<Rightarrow> length todo + 1
      | PwWriteDone rc \<Rightarrow> 0)"

definition pw_read_left :: "'a AudioRing \<Rightarrow> 'a pw_read_pc \<Rightarrow> nat" where
  "pw_read_left r pc =
     (case pc of PwReadIdle \<Rightarrow> 0 | PwReadStart out n \<Rightarrow> unat n * pw_chans r + 2 | PwReadCopy out n t todo \<Rightarrow> length todo + 1
      | PwReadDone out real \<Rightarrow> 0)"

section \<open>The capture thread\<close>

lemma pw_ok_facts:
  assumes "pw_ring_ok r"
  shows "ar_samples r = Some (pw_smp r)" "0 < pw_cap r" "ar_capacity_frames r \<noteq> 0" "pw_cap r * pw_chans r < 2 ^ 62"
    "pw_cap r * pw_chans r \<le> length (pw_smp r)" "pw_rpos r \<le> pw_wpos r" "pw_fill r \<le> pw_cap r"
  using assms by (auto simp: pw_ring_ok_def pw_fill_def)

text \<open>An element behind the live frames is none of theirs.\<close>

lemma live_frame_other:
  assumes ok: "pw_ring_ok r" and j: "j < pw_fill r" and i: "pw_fill r + i < pw_cap r"
  shows "(pw_rpos r + j) mod pw_cap r \<noteq> (pw_wpos r + i) mod pw_cap r"
  using j i pw_ok_facts(6)[OF ok] by (intro mod_slot_inj) (auto simp: pw_fill_def)

lemma live_element_other:
  assumes ok: "pw_ring_ok r" and live: "(d, s) \<in> set (pw_pairs r (ar_read_pos r) t)" "unat t \<le> pw_fill r"
    and new: "(d', s') \<in> set (pw_pairs r (ar_write_pos r) n)" "pw_fill r + unat n \<le> pw_cap r"
  shows "d \<noteq> d'"
proof -
  obtain j k where j: "j < unat t" "k < pw_chans r" "d = (pw_rpos r + j) mod pw_cap r * pw_chans r + k"
    using live(1) by (auto simp: set_frame_pairs)
  obtain i l where i: "i < unat n" "l < pw_chans r" "d' = (pw_wpos r + i) mod pw_cap r * pw_chans r + l"
    using new(1) by (auto simp: set_frame_pairs)
  have "(pw_rpos r + j) mod pw_cap r \<noteq> (pw_wpos r + i) mod pw_cap r"
    using j(1) i(1) live(2) new(2) by (intro live_frame_other[OF ok]) simp_all
  then show ?thesis unfolding j(3) i(3) using block_index_inject[OF j(2) i(2)] by blast
qed

text \<open>The frames in the ring, element by element.\<close>

lemma pw_frames_cong:
  assumes ok: "pw_ring_ok r" and same: "ar_capacity_frames r' = ar_capacity_frames r" "ar_channels r' = ar_channels r"
      "ar_read_pos r' = ar_read_pos r" "ar_write_pos r' = ar_write_pos r" "length (pw_smp r') = length (pw_smp r)"
    and live: "\<And>j k. j < pw_fill r \<Longrightarrow> k < pw_chans r \<Longrightarrow>
      pw_smp r' ! ((pw_rpos r + j) mod pw_cap r * pw_chans r + k) = pw_smp r ! ((pw_rpos r + j) mod pw_cap r * pw_chans r + k)"
  shows "pw_frames r' = pw_frames r"
proof (rule nth_equalityI)
  note f = pw_ok_facts[OF ok]
  fix j assume "j < length (pw_frames r')"
  then have j: "j < pw_wpos r - pw_rpos r" using same by (simp add: length_pw_frames pw_fill_def)
  have m: "(pw_rpos r + j) mod pw_cap r < pw_cap r" using f(2) by simp
  have "slot (pw_chans r) (pw_smp r') ((pw_rpos r + j) mod pw_cap r) = slot (pw_chans r) (pw_smp r) ((pw_rpos r + j) mod pw_cap r)"
    using m f(5) same(5) live[of j] j by (intro slot_eqI[of _ "pw_cap r" _ _ _ "pw_cap r"]) (simp_all add: pw_fill_def)
  then show "pw_frames r' ! j = pw_frames r ! j" using j same by (simp add: pw_frames_def nth_window)
qed (use same in \<open>simp add: length_pw_frames pw_fill_def\<close>)

text \<open>One sample of the capture thread.\<close>

lemma pw_store_sample:
  assumes ok: "pw_ring_ok r" and w: "pw_write_ok r (PwWriteCopy src n (x # xs))"
  obtains d s where "(d, s) \<in> set (x # xs)" "d < length (pw_smp r)" "s < length src"
    "pw_write_access k r (PwWriteCopy src n (x # xs)) =
       Some (r\<lparr>ar_samples := Some ((pw_smp r)[d := src ! s])\<rparr>, PwWriteCopy src n (remove1 (d, s) (x # xs)))"
proof -
  note f = pw_ok_facts[OF ok]
  obtain d s where x: "(x # xs) ! (k mod length (x # xs)) = (d, s)" by fastforce
  then have m: "(d, s) \<in> set (x # xs)" using chosen_in[of x xs k] by simp
  then have "(d, s) \<in> set (pw_pairs r (ar_write_pos r) n)" using w by (auto simp: pw_write_ok_def)
  from frame_pairs_in_ring[OF this f(2)] f(5) w have b: "d < length (pw_smp r)" "s < length src" by (auto simp: pw_write_ok_def)
  obtain smp where "ar_samples r = Some smp" using f(1) by blast
  then show ?thesis using x b by (intro that[OF m b]) (simp add: mem_simps)
qed

lemma pw_store_sample_ok:
  assumes ok: "pw_ring_ok r" and w: "pw_write_ok r (PwWriteCopy src n todo)" and ds: "(d, s) \<in> set todo"
  defines "r' \<equiv> r\<lparr>ar_samples := Some ((pw_smp r)[d := src ! s])\<rparr>"
  shows "pw_ring_ok r'" "pw_frames r' = pw_frames r" "pw_write_ok r' (PwWriteCopy src n (remove1 (d, s) todo))"
    "pw_read_ok r rp \<Longrightarrow> pw_read_ok r' rp"
proof -
  note f = pw_ok_facts[OF ok]
  have w': "unat n * pw_chans r \<le> length src" "pw_wpos r + unat n < 2 ^ 64" "pw_fill r + unat n \<le> pw_cap r" "distinct todo"
    "set todo \<subseteq> set (pw_pairs r (ar_write_pos r) n)"
    "\<And>d s. (d, s) \<in> set (pw_pairs r (ar_write_pos r) n) \<Longrightarrow> (d, s) \<notin> set todo \<Longrightarrow> pw_smp r ! d = src ! s"
    using w unfolding pw_write_ok_def by auto
  have new: "(d, s) \<in> set (pw_pairs r (ar_write_pos r) n)" using ds w'(5) by blast
  have d: "d < length (pw_smp r)" using frame_pairs_in_ring(1)[OF new f(2)] f(5) by simp
  show "pw_ring_ok r'" using ok by (simp add: pw_ring_ok_def r'_def)
  have same: "pw_fill r' = pw_fill r" "ar_capacity_frames r' = ar_capacity_frames r" "ar_channels r' = ar_channels r"
    "ar_read_pos r' = ar_read_pos r" "ar_write_pos r' = ar_write_pos r" by (simp_all add: r'_def pw_fill_def)
  have live: "pw_smp r' ! e = pw_smp r ! e" if "(e, q) \<in> set (pw_pairs r (ar_read_pos r) t)" "unat t \<le> pw_fill r" for e q and t :: u64
    using live_element_other[OF ok that new w'(3)] by (simp add: r'_def)
  have fl: "unat (of_nat (pw_fill r) :: u64) = pw_fill r"
    using le_less_trans[OF f(7) unat_u64_bound] by (intro unat_of_nat_small) simp
  show "pw_frames r' = pw_frames r"
  proof (rule pw_frames_cong[OF ok same(2-5)])
    fix j k assume "j < pw_fill r" "k < pw_chans r"
    then have "((pw_rpos r + j) mod pw_cap r * pw_chans r + k, j * pw_chans r + k) \<in> set (pw_pairs r (ar_read_pos r) (of_nat (pw_fill r)))"
      by (auto simp: set_frame_pairs fl)
    from live[OF this] fl show "pw_smp r' ! ((pw_rpos r + j) mod pw_cap r * pw_chans r + k) =
        pw_smp r ! ((pw_rpos r + j) mod pw_cap r * pw_chans r + k)" by simp
  qed (simp add: r'_def)
  show "pw_read_ok r rp \<Longrightarrow> pw_read_ok r' rp" using live by (fastforce simp: pw_read_ok_def same split: pw_read_pc.splits)
  have "pw_smp r' ! e = src ! q" if "(e, q) \<in> set (pw_pairs r (ar_write_pos r) n)" "(e, q) \<notin> set (remove1 (d, s) todo)" for e q
  proof (cases "(e, q) = (d, s)")
    case True
    then show ?thesis using d by (simp add: r'_def)
  next
    case False
    have "unat n \<le> pw_cap r" using w'(3) by simp
    with False that(1) new have "e \<noteq> d" using distinct_frame_pairs(1) by (metis eq_key_imp_eq_value)
    moreover have "(e, q) \<notin> set todo" using that(2) False by (metis in_set_remove1)
    ultimately show ?thesis using w'(6)[OF that(1)] by (simp add: r'_def)
  qed
  moreover have "set (remove1 (d, s) todo) \<subseteq> set (pw_pairs r (ar_write_pos r) n)" using w'(5) set_remove1_subset[of "(d, s)" todo] by blast
  ultimately show "pw_write_ok r' (PwWriteCopy src n (remove1 (d, s) todo))"
    using w'(1-4) unfolding pw_write_ok_def pw_write_pc.case same by (auto simp: distinct_remove1)
qed

text \<open>Publishing a block whose samples are all stored appends its frames.\<close>

lemma pw_publish_block:
  fixes n :: u64
  assumes ok: "pw_ring_ok r" and fits: "pw_fill r + unat n \<le> pw_cap r" "pw_wpos r + unat n < 2 ^ 64"
    and src: "unat n * pw_chans r \<le> length src"
    and stored: "\<And>d s. (d, s) \<in> set (pw_pairs r (ar_write_pos r) n) \<Longrightarrow> pw_smp r ! d = src ! s"
  defines "r' \<equiv> r\<lparr>ar_write_pos := ar_write_pos r + n\<rparr>"
  shows "pw_ring_ok r'" "pw_frames r' = pw_frames r @ deinterleaved (pw_chans r) (unat n) src"
    "pw_read_ok r rp \<Longrightarrow> pw_read_ok r' rp"
proof -
  note f = pw_ok_facts[OF ok]
  have w: "pw_wpos r' = pw_wpos r + unat n" using fits(2) by (simp add: r'_def unat_add_nowrap)
  then show "pw_ring_ok r'" using ok fits(1) by (auto simp: pw_ring_ok_def pw_fill_def r'_def)
  have fill: "pw_fill r \<le> pw_fill r'" using w by (simp add: pw_fill_def r'_def)
  show "pw_read_ok r rp \<Longrightarrow> pw_read_ok r' rp" using fill by (auto simp: pw_read_ok_def r'_def split: pw_read_pc.splits)
  have "slot (pw_chans r) (pw_smp r) ((pw_wpos r + i) mod pw_cap r) = slot (pw_chans r) src i" if i: "i < unat n" for i
  proof (rule slot_eqI)
    show "(pw_wpos r + i) mod pw_cap r < pw_cap r" using f(2) by simp
    fix k assume "k < pw_chans r"
    with i show "pw_smp r ! ((pw_wpos r + i) mod pw_cap r * pw_chans r + k) = src ! (i * pw_chans r + k)"
      by (intro stored) (auto simp: set_frame_pairs)
  qed (use i f(5) src in simp_all)
  then have "window (slot (pw_chans r) (pw_smp r)) (pw_cap r) (pw_rpos r) (pw_wpos r + length (deinterleaved (pw_chans r) (unat n) src)) =
      window (slot (pw_chans r) (pw_smp r)) (pw_cap r) (pw_rpos r) (pw_wpos r) @ deinterleaved (pw_chans r) (unat n) src"
    using f(6) fits(1) by (intro window_append) (simp_all add: deinterleaved_def pw_fill_def)
  then show "pw_frames r' = pw_frames r @ deinterleaved (pw_chans r) (unat n) src" using w by (simp add: pw_frames_def r'_def)
qed

lemma pw_free_frames:
  assumes "pw_ring_ok r"
  shows "n > ar_capacity_frames r - (ar_write_pos r - ar_read_pos r) \<longleftrightarrow> pw_cap r < pw_fill r + unat n"
  using unat_pw_used[OF assms] by (simp add: word_less_nat_alt unat_sub_pos less_diff_conv2 add.commute)

lemma pw_write_check:
  assumes ok: "pw_ring_ok r" and w: "pw_write_ok r (PwWriteCheck src n)"
  shows "pw_cap r < pw_fill r + unat n \<Longrightarrow> pw_write_access k r (PwWriteCheck src n) = Some (r, PwWriteDone (- 1))"
    "pw_fill r + unat n \<le> pw_cap r \<Longrightarrow> pw_write_access k r (PwWriteCheck src n) =
      Some (r, PwWriteCopy src n (pw_pairs r (ar_write_pos r) n))"
    "pw_fill r + unat n \<le> pw_cap r \<Longrightarrow> pw_write_ok r (PwWriteCopy src n (pw_pairs r (ar_write_pos r) n))"
proof -
  note f = pw_ok_facts[OF ok]
  show "pw_cap r < pw_fill r + unat n \<Longrightarrow> pw_write_access k r (PwWriteCheck src n) = Some (r, PwWriteDone (- 1))"
    by (simp add: Let_def pw_free_frames[OF ok])
  assume room: "pw_fill r + unat n \<le> pw_cap r"
  have "ring_copies (ar_capacity_frames r) (ar_channels r) (ar_write_pos r) n = pw_pairs r (ar_write_pos r) n"
    using room w by (intro ring_copies_frames f(3,4)) (simp_all add: pw_write_ok_def)
  then show "pw_write_access k r (PwWriteCheck src n) = Some (r, PwWriteCopy src n (pw_pairs r (ar_write_pos r) n))"
    using room f(3) by (simp add: Let_def pw_free_frames[OF ok])
  have "distinct (pw_pairs r (ar_write_pos r) n)"
    using distinct_frame_pairs(1)[of "unat n" "pw_cap r" "pw_chans r" "pw_wpos r" 0] room by (simp add: distinct_map)
  then show "pw_write_ok r (PwWriteCopy src n (pw_pairs r (ar_write_pos r) n))" using w room by (simp add: pw_write_ok_def)
qed

lemma pw_left_cong:
  assumes "ar_channels r' = ar_channels r"
  shows "pw_write_left r' = pw_write_left r" "pw_read_left r' = pw_read_left r"
  using assms by (simp_all add: pw_write_left_def pw_read_left_def fun_eq_iff split: pw_write_pc.split pw_read_pc.split)

lemma length_frame_pairs: "length (frame_pairs cap c p 0 n) = n * c"
  by (induction n) (simp_all add: frame_pairs_def)

lemma pw_write_access_ok:
  assumes ok: "pw_ring_ok r" and w: "pw_write_ok r pc" and rd: "pw_read_ok r rp"
  shows "\<exists>r' pc'. pw_write_access k r pc = Some (r', pc') \<and> pw_ring_ok r' \<and> pw_write_ok r' pc' \<and> pw_read_ok r' rp \<and>
    pw_frames r' = pw_frames r @ pw_frames_stored r pc \<and> pw_write_left r' pc' \<le> pw_write_left r pc - 1 \<and>
    pw_read_left r' = pw_read_left r \<and> (pc \<noteq> PwWriteIdle \<longrightarrow> pc' \<noteq> PwWriteIdle)"
proof (cases pc)
  case (PwWriteCheck src n)
  note c = pw_write_check[OF ok w[unfolded PwWriteCheck]]
  show ?thesis
  proof (cases "pw_cap r < pw_fill r + unat n")
    case True
    from c(1)[OF this] PwWriteCheck ok rd show ?thesis by (simp add: pw_write_ok_def pw_frames_stored_def pw_write_left_def)
  next
    case False
    then have "pw_fill r + unat n \<le> pw_cap r" by simp
    with c(2,3) PwWriteCheck ok rd show ?thesis
      by (simp add: pw_frames_stored_def pw_write_left_def length_frame_pairs del: pw_write_access.simps)
  qed
next
  case (PwWriteCopy src n todo)
  show ?thesis
  proof (cases todo)
    case Nil
    have w': "pw_fill r + unat n \<le> pw_cap r" "pw_wpos r + unat n < 2 ^ 64" "unat n * pw_chans r \<le> length src"
      "\<And>d s. (d, s) \<in> set (pw_pairs r (ar_write_pos r) n) \<Longrightarrow> pw_smp r ! d = src ! s"
      using w unfolding PwWriteCopy Nil pw_write_ok_def by auto
    from pw_publish_block[OF ok w'] rd PwWriteCopy Nil pw_left_cong(2)[of "r\<lparr>ar_write_pos := ar_write_pos r + n\<rparr>" r] show ?thesis
      by (simp add: pw_write_ok_def pw_frames_stored_def pw_write_left_def)
  next
    case (Cons x xs)
    from w PwWriteCopy Cons have w': "pw_write_ok r (PwWriteCopy src n (x # xs))" by simp
    obtain d s where ds: "(d, s) \<in> set (x # xs)" and acc: "pw_write_access k r (PwWriteCopy src n (x # xs)) =
        Some (r\<lparr>ar_samples := Some ((pw_smp r)[d := src ! s])\<rparr>, PwWriteCopy src n (remove1 (d, s) (x # xs)))"
      by (rule pw_store_sample[OF ok w'])
    have "length (remove1 (d, s) (x # xs)) = length xs" using ds by (simp add: length_remove1 del: remove1.simps)
    with acc pw_store_sample_ok[OF ok w' ds] rd PwWriteCopy Cons
      pw_left_cong(2)[of "r\<lparr>ar_samples := Some ((pw_smp r)[d := src ! s])\<rparr>" r] show ?thesis
      by (simp add: pw_frames_stored_def pw_write_left_def del: pw_write_access.simps remove1.simps)
  qed
qed (use ok w rd in \<open>simp_all add: pw_write_ok_def pw_frames_stored_def pw_write_left_def\<close>)

section \<open>The process callback\<close>

lemma pw_to_read:
  assumes "pw_ring_ok r"
  shows "unat (if ar_write_pos r - ar_read_pos r < n then ar_write_pos r - ar_read_pos r else n) = min (unat n) (pw_fill r)"
  using unat_pw_used[OF assms] by (simp add: word_less_nat_alt min_def)

lemma pw_read_start:
  assumes ok: "pw_ring_ok r" and rd: "pw_read_ok r (PwReadStart out n)"
  obtains t where "unat t = min (unat n) (pw_fill r)"
    "pw_read_access k r (PwReadStart out n) = Some (r, PwReadCopy out n t (pw_pairs r (ar_read_pos r) t))"
    "pw_read_ok r (PwReadCopy out n t (pw_pairs r (ar_read_pos r) t))"
proof -
  note f = pw_ok_facts[OF ok]
  define t where "t = (if ar_write_pos r - ar_read_pos r < n then ar_write_pos r - ar_read_pos r else n)"
  have t: "unat t = min (unat n) (pw_fill r)" unfolding t_def by (rule pw_to_read[OF ok])
  have "pw_rpos r + unat t \<le> pw_wpos r" using t f(6) by (simp add: pw_fill_def)
  from le_less_trans[OF this unat_u64_bound] have pos: "pw_rpos r + unat t < 2 ^ 64" by simp
  have cap: "unat t \<le> pw_cap r" using t f(7) by simp
  have "ring_copies (ar_capacity_frames r) (ar_channels r) (ar_read_pos r) t = pw_pairs r (ar_read_pos r) t"
    by (rule ring_copies_frames[OF f(3,4) cap pos])
  then have acc: "pw_read_access k r (PwReadStart out n) = Some (r, PwReadCopy out n t (pw_pairs r (ar_read_pos r) t))"
    using f(3) by (simp add: Let_def t_def)
  have "distinct (pw_pairs r (ar_read_pos r) t)"
    using distinct_frame_pairs(1)[OF cap, of "pw_chans r" "pw_rpos r" 0] by (simp add: distinct_map)
  then have "pw_read_ok r (PwReadCopy out n t (pw_pairs r (ar_read_pos r) t))" using rd t by (simp add: pw_read_ok_def)
  with t acc show ?thesis by (rule that)
qed

lemma pw_load_sample:
  assumes ok: "pw_ring_ok r" and rd: "pw_read_ok r (PwReadCopy out n t (x # xs))"
  obtains d s where "(d, s) \<in> set (x # xs)" "d < length (pw_smp r)" "s < length out"
    "pw_read_access k r (PwReadCopy out n t (x # xs)) =
       Some (r, PwReadCopy (out[s := pw_smp r ! d]) n t (remove1 (d, s) (x # xs)))"
    "pw_read_ok r (PwReadCopy (out[s := pw_smp r ! d]) n t (remove1 (d, s) (x # xs)))"
proof -
  note f = pw_ok_facts[OF ok]
  let ?P = "pw_pairs r (ar_read_pos r) t"
  have rd': "unat n * pw_chans r \<le> length out" "unat n * pw_chans r < 2 ^ 62" "unat t \<le> unat n" "unat t \<le> pw_fill r"
    "distinct (x # xs)" "set (x # xs) \<subseteq> set ?P" "\<And>d s. (d, s) \<in> set ?P \<Longrightarrow> (d, s) \<notin> set (x # xs) \<Longrightarrow> out ! s = pw_smp r ! d"
    using rd unfolding pw_read_ok_def by auto
  obtain d s where x: "(x # xs) ! (k mod length (x # xs)) = (d, s)" by fastforce
  then have m: "(d, s) \<in> set (x # xs)" using chosen_in[of x xs k] by simp
  then have P: "(d, s) \<in> set ?P" using rd'(6) by blast
  have "unat t * pw_chans r \<le> unat n * pw_chans r" using rd'(3) by (rule mult_le_mono1)
  then have b: "d < length (pw_smp r)" "s < length out" using frame_pairs_in_ring[OF P f(2)] f(5) rd'(1) by linarith+
  obtain smp where "ar_samples r = Some smp" using f(1) by blast
  then have acc: "pw_read_access k r (PwReadCopy out n t (x # xs)) =
      Some (r, PwReadCopy (out[s := pw_smp r ! d]) n t (remove1 (d, s) (x # xs)))"
    using x b by (simp add: mem_simps)
  have "out[s := pw_smp r ! d] ! q = pw_smp r ! e" if "(e, q) \<in> set ?P" "(e, q) \<notin> set (remove1 (d, s) (x # xs))" for e q
  proof (cases "(e, q) = (d, s)")
    case True
    then show ?thesis using b by simp
  next
    case False
    have "unat t \<le> pw_cap r" using rd'(4) f(7) by simp
    have "inj_on snd (set ?P)" using distinct_frame_pairs(2)[OF \<open>unat t \<le> pw_cap r\<close>] by (auto simp: distinct_map)
    then have "s \<noteq> q" using inj_onD[of snd "set ?P" "(e, q)" "(d, s)"] False that(1) P by auto
    moreover have "(e, q) \<notin> set (x # xs)" using that(2) False by (metis in_set_remove1)
    ultimately show ?thesis using rd'(7)[OF that(1)] by simp
  qed
  moreover have "set (remove1 (d, s) (x # xs)) \<subseteq> set ?P" using rd'(6) set_remove1_subset[of "(d, s)" "x # xs"] by blast
  moreover have "distinct (remove1 (d, s) (x # xs))" using rd'(5) by (rule distinct_remove1)
  ultimately have "pw_read_ok r (PwReadCopy (out[s := pw_smp r ! d]) n t (remove1 (d, s) (x # xs)))"
    using rd'(1-4) unfolding pw_read_ok_def pw_read_pc.case by (auto simp del: remove1.simps)
  with m b acc show ?thesis by (rule that)
qed

text \<open>The end of a read: silence behind the frames, and the read position.\<close>

lemma pw_finish_read:
  assumes ok: "pw_ring_ok r" and rd: "pw_read_ok r (PwReadCopy out n t [])"
  defines "r' \<equiv> r\<lparr>ar_read_pos := ar_read_pos r + t\<rparr>"
  shows "\<exists>out'. pw_read_access k r (PwReadCopy out n t []) = Some (r', PwReadDone out' t)"
    "pw_ring_ok r'" "pw_frames r' = drop (unat t) (pw_frames r)" "pw_write_ok r pc \<Longrightarrow> pw_write_ok r' pc"
    "deinterleaved (pw_chans r) (unat t) out = take (unat t) (pw_frames r)" "unat t \<le> pw_fill r"
proof -
  note f = pw_ok_facts[OF ok]
  have rd': "unat n * pw_chans r \<le> length out" "unat n * pw_chans r < 2 ^ 62" "unat t \<le> unat n" "unat t \<le> pw_fill r"
    "\<And>d s. (d, s) \<in> set (pw_pairs r (ar_read_pos r) t) \<Longrightarrow> out ! s = pw_smp r ! d"
    using rd unfolding pw_read_ok_def by auto
  show "unat t \<le> pw_fill r" by (fact rd'(4))
  have o: "frame_offset t (ar_channels r) = unat t * pw_chans r" "frame_bytes (n - t) (ar_channels r) = (unat n - unat t) * pw_chans r"
    using frame_offset_nat[OF rd'(3,2)] frame_offset_nat(2)[OF _ rd'(2), of "n - t"] rd'(3) by (simp_all add: unat_sub_pos)
  have "unat t * pw_chans r + (unat n - unat t) * pw_chans r = unat n * pw_chans r"
    using rd'(3) by (metis add_mult_distrib le_add_diff_inverse)
  then show "\<exists>out'. pw_read_access k r (PwReadCopy out n t []) = Some (r', PwReadDone out' t)"
    using rd'(1) by (cases "t < n") (simp_all add: o mem_simps r'_def)
  have le: "pw_rpos r + unat t \<le> pw_wpos r" using rd'(4) f(6) by (simp add: pw_fill_def)
  then have p: "pw_rpos r' = pw_rpos r + unat t"
    using le_less_trans[OF le unat_u64_bound] by (simp add: r'_def unat_add_nowrap)
  show "pw_ring_ok r'" using ok le p by (auto simp: pw_ring_ok_def r'_def)
  show "pw_frames r' = drop (unat t) (pw_frames r)" unfolding pw_frames_def p using window_drop by (simp add: r'_def)
  have "pw_fill r' \<le> pw_fill r" using p by (simp add: pw_fill_def r'_def)
  then show "pw_write_ok r pc \<Longrightarrow> pw_write_ok r' pc" by (auto simp: pw_write_ok_def r'_def split: pw_write_pc.splits)
  have l: "unat t * pw_chans r \<le> length out" using rd'(1,3) by (meson le_trans mult_le_mono1)
  show "deinterleaved (pw_chans r) (unat t) out = take (unat t) (pw_frames r)"
  proof (rule nth_equalityI)
    show "length (deinterleaved (pw_chans r) (unat t) out) = length (take (unat t) (pw_frames r))"
      using rd'(4) by (simp add: length_pw_frames)
    fix i assume "i < length (deinterleaved (pw_chans r) (unat t) out)"
    then have i: "i < unat t" by simp
    have "slot (pw_chans r) out i = slot (pw_chans r) (pw_smp r) ((pw_rpos r + i) mod pw_cap r)"
    proof (rule slot_eqI[OF i l _ f(5)])
      show "(pw_rpos r + i) mod pw_cap r < pw_cap r" using f(2) by simp
      fix k assume "k < pw_chans r"
      with i show "out ! (i * pw_chans r + k) = pw_smp r ! ((pw_rpos r + i) mod pw_cap r * pw_chans r + k)"
        by (intro rd'(5)) (auto simp: set_frame_pairs)
    qed
    then show "deinterleaved (pw_chans r) (unat t) out ! i = take (unat t) (pw_frames r) ! i"
      using i rd'(4) by (simp add: deinterleaved_def pw_frames_def nth_window pw_fill_def)
  qed
qed

lemma pw_read_access_ok:
  assumes ok: "pw_ring_ok r" and w: "pw_write_ok r pc" and rd: "pw_read_ok r rp"
  shows "\<exists>r' rp'. pw_read_access k r rp = Some (r', rp') \<and> pw_ring_ok r' \<and> pw_write_ok r' pc \<and> pw_read_ok r' rp' \<and>
    passed_ok id (pw_frames r) (pw_frames_passed r rp) \<and> pw_frames r' = drop (length (pw_frames_passed r rp)) (pw_frames r) \<and>
    pw_read_left r' rp' \<le> pw_read_left r rp - 1 \<and> pw_write_left r' = pw_write_left r \<and> (rp \<noteq> PwReadIdle \<longrightarrow> rp' \<noteq> PwReadIdle)"
proof (cases rp)
  case (PwReadStart out n)
  obtain t where t: "unat t = min (unat n) (pw_fill r)"
    "pw_read_access k r (PwReadStart out n) = Some (r, PwReadCopy out n t (pw_pairs r (ar_read_pos r) t))"
    "pw_read_ok r (PwReadCopy out n t (pw_pairs r (ar_read_pos r) t))"
    using pw_read_start[OF ok] rd PwReadStart by blast
  moreover have "unat t * pw_chans r \<le> unat n * pw_chans r" by (rule mult_le_mono1) (simp add: t(1))
  then have "pw_read_left r (PwReadCopy out n t (pw_pairs r (ar_read_pos r) t)) \<le> pw_read_left r rp - 1"
    unfolding PwReadStart pw_read_left_def pw_read_pc.case length_frame_pairs by linarith
  ultimately show ?thesis using ok w PwReadStart by (simp add: pw_frames_passed_def passed_ok_def del: pw_read_access.simps)
next
  case (PwReadCopy out n t todo)
  show ?thesis
  proof (cases todo)
    case Nil
    let ?r = "r\<lparr>ar_read_pos := ar_read_pos r + t\<rparr>"
    note fin = pw_finish_read[OF ok rd[unfolded PwReadCopy Nil]]
    obtain out' where acc: "pw_read_access k r (PwReadCopy out n t []) = Some (?r, PwReadDone out' t)" using fin(1)[of k] by blast
    have p: "pw_frames_passed r rp = map Some (take (unat t) (pw_frames r))"
      using PwReadCopy Nil fin(5) by (simp add: pw_frames_passed_def)
    have "passed_ok id (pw_frames r) (pw_frames_passed r rp)" "length (pw_frames_passed r rp) = unat t"
      using fin(6) by (simp_all add: p passed_ok_def length_pw_frames)
    with acc fin(2,3) fin(4)[OF w] PwReadCopy Nil pw_left_cong(1)[of ?r r] show ?thesis
      by (simp add: pw_read_ok_def pw_read_left_def del: pw_read_access.simps)
  next
    case (Cons x xs)
    from rd PwReadCopy Cons have rd': "pw_read_ok r (PwReadCopy out n t (x # xs))" by simp
    obtain d s where ds: "(d, s) \<in> set (x # xs)" and acc: "pw_read_access k r (PwReadCopy out n t (x # xs)) =
        Some (r, PwReadCopy (out[s := pw_smp r ! d]) n t (remove1 (d, s) (x # xs)))"
      "pw_read_ok r (PwReadCopy (out[s := pw_smp r ! d]) n t (remove1 (d, s) (x # xs)))"
      by (rule pw_load_sample[OF ok rd'])
    have "length (remove1 (d, s) (x # xs)) = length xs" using ds by (simp add: length_remove1 del: remove1.simps)
    with acc ok w PwReadCopy Cons show ?thesis
      by (simp add: pw_frames_passed_def passed_ok_def pw_read_left_def del: pw_read_access.simps remove1.simps)
  qed
qed (use ok w rd in \<open>simp_all add: pw_read_ok_def pw_frames_passed_def passed_ok_def pw_read_left_def\<close>)

section \<open>Every interleaving\<close>

lemma pw_write_starts_ok: "pw_write_starts r pc \<Longrightarrow> pw_write_ok r pc"
  by (auto simp: pw_write_starts_def pw_write_ok_def no_olen_add_nat split: pw_write_pc.splits)

lemma pw_read_starts_ok: "pw_read_starts r rp \<Longrightarrow> pw_read_ok r rp"
proof (cases rp)
  case (PwReadStart out n)
  assume s: "pw_read_starts r rp"
  have "unat n \<le> 2 ^ 44" using s PwReadStart by (simp add: pw_read_starts_def word_le_nat_alt)
  then have "unat n * pw_chans r \<le> 2 ^ 44 * 65536" using less_imp_le[OF unat_u16_bound] by (intro mult_le_mono) simp_all
  with s PwReadStart show ?thesis by (simp add: pw_read_starts_def pw_read_ok_def)
qed (simp_all add: pw_read_starts_def)

interpretation pw_interleaved: interleaved_ring pw_ring_program pw_ring_ok pw_frames id pw_write_ok pw_read_ok pw_write_left pw_read_left
proof (unfold_locales, unfold pw_ring_program_sel)
  fix r :: "('a::zero) AudioRing" and pc rp k
  show "pw_write_ok r PwWriteIdle" "pw_read_ok r PwReadIdle" by (simp_all add: pw_write_ok_def pw_read_ok_def)
  show "pw_write_starts r pc \<Longrightarrow> pw_write_ok r pc" "pw_read_starts r rp \<Longrightarrow> pw_read_ok r rp"
    by (fact pw_write_starts_ok, fact pw_read_starts_ok)
  show "pc \<noteq> PwWriteIdle \<Longrightarrow> pw_write_left r pc = 0 \<Longrightarrow> pw_write_done pc" "rp \<noteq> PwReadIdle \<Longrightarrow> pw_read_left r rp = 0 \<Longrightarrow> pw_read_done rp"
    by (simp_all add: pw_write_left_def pw_write_done_def pw_read_left_def pw_read_done_def split: pw_write_pc.splits pw_read_pc.splits)
qed (fact pw_write_access_ok, fact pw_read_access_ok)

text \<open>Where the two sides are about to store and to load.\<close>

definition pw_store_slots :: "'a pw_write_pc \<Rightarrow> nat set" where
  "pw_store_slots pc = (case pc of PwWriteCopy src n todo \<Rightarrow> fst ` set todo | _ \<Rightarrow> {})"

definition pw_load_slots :: "'a pw_read_pc \<Rightarrow> nat set" where
  "pw_load_slots pc = (case pc of PwReadCopy out n t todo \<Rightarrow> fst ` set todo | _ \<Rightarrow> {})"

lemma pw_slots_disjoint:
  assumes ok: "pw_ring_ok r" "pw_write_ok r pc" "pw_read_ok r rp"
  shows "pw_store_slots pc \<inter> pw_load_slots rp = {}"
proof -
  have False if st: "d \<in> pw_store_slots pc" and ld: "d \<in> pw_load_slots rp" for d
  proof -
    from st ok(2) obtain n :: u64 and s where "(d, s) \<in> set (pw_pairs r (ar_write_pos r) n)" "pw_fill r + unat n \<le> pw_cap r"
      by (force simp: pw_store_slots_def pw_write_ok_def split: pw_write_pc.splits)
    moreover from ld ok(3) obtain t :: u64 and q where "(d, q) \<in> set (pw_pairs r (ar_read_pos r) t)" "unat t \<le> pw_fill r"
      by (force simp: pw_load_slots_def pw_read_ok_def split: pw_read_pc.splits)
    ultimately show False using live_element_other[OF ok(1)] by blast
  qed
  then show ?thesis by blast
qed

section \<open>A side on its own\<close>

lemma pw_alone_done:
  shows pw_write_alone_done: "alone pw_write_access ks r (PwWriteDone rc) = Some (r, PwWriteDone rc)"
    and pw_read_alone_done: "alone pw_read_access ks r' (PwReadDone out t) = Some (r', PwReadDone out t)"
  by (simp_all add: alone_rest)

lemma distinct_map_remove1: "distinct (map f ps) \<Longrightarrow> distinct (map f (remove1 p ps))"
  by (auto simp: distinct_map intro: inj_on_diff)

lemma pw_alone_write_copy:
  assumes "ar_samples r = Some smp" "distinct (map fst todo)" "\<forall>(d, s) \<in> set todo. d < length smp \<and> s < length src"
    "length ks = length todo"
  shows "alone pw_write_access (ks @ ls) r (PwWriteCopy src n todo) =
    alone pw_write_access ls (r\<lparr>ar_samples := Some (copy_elements todo src smp)\<rparr>) (PwWriteCopy src n [])"
  using assms
proof (induction ks arbitrary: r smp todo)
  case Nil
  then have todo: "todo = []" and r: "r\<lparr>ar_samples := Some smp\<rparr> = r" by simp (use Nil(1) in \<open>cases r; simp\<close>)
  show ?case unfolding todo copy_elements_Nil r append_Nil ..
next
  case (Cons k ks)
  then obtain x xs where todo: "todo = x # xs" by (cases todo) auto
  obtain d s where x: "(x # xs) ! (k mod length (x # xs)) = (d, s)" by fastforce
  have m: "(d, s) \<in> set todo" using chosen_in[of x xs k] unfolding x todo .
  with Cons.prems(3) have b: "d < length smp" "s < length src" by auto
  let ?smp = "smp[d := src ! s]"
  have "pw_write_access k r (PwWriteCopy src n todo) = Some (r\<lparr>ar_samples := Some ?smp\<rparr>, PwWriteCopy src n (remove1 (d, s) todo))"
    using x b Cons.prems(1) unfolding todo by (simp add: mem_simps del: remove1.simps)
  moreover have "alone pw_write_access (ks @ ls) (r\<lparr>ar_samples := Some ?smp\<rparr>) (PwWriteCopy src n (remove1 (d, s) todo)) =
      alone pw_write_access ls (r\<lparr>ar_samples := Some ?smp, ar_samples := Some (copy_elements (remove1 (d, s) todo) src ?smp)\<rparr>)
        (PwWriteCopy src n [])"
    using Cons.prems(2-4) m set_remove1_subset[of "(d, s)" todo]
    by (intro Cons.IH) (auto simp: distinct_map_remove1 length_remove1)
  ultimately show ?case using copy_elements_step[OF Cons.prems(2) m b(1), of src] by (simp del: pw_write_access.simps)
qed

lemma pw_alone_read_copy:
  assumes "ar_samples r = Some smp" "distinct (map snd todo)" "\<forall>(d, s) \<in> set todo. d < length smp \<and> s < length out"
    "length ks = length todo"
  shows "alone pw_read_access (ks @ ls) r (PwReadCopy out n t todo) =
    alone pw_read_access ls r (PwReadCopy (copy_elements (map prod.swap todo) smp out) n t [])"
  using assms(2-)
proof (induction ks arbitrary: out todo)
  case Nil
  then show ?case by simp
next
  case (Cons k ks)
  then obtain x xs where todo: "todo = x # xs" by (cases todo) auto
  obtain d s where x: "(x # xs) ! (k mod length (x # xs)) = (d, s)" by fastforce
  have m: "(d, s) \<in> set todo" using chosen_in[of x xs k] unfolding x todo .
  with Cons.prems(2) have b: "d < length smp" "s < length out" by auto
  let ?out = "out[s := smp ! d]"
  have "pw_read_access k r (PwReadCopy out n t todo) = Some (r, PwReadCopy ?out n t (remove1 (d, s) todo))"
    using x b assms(1) unfolding todo by (simp add: mem_simps del: remove1.simps)
  moreover have "distinct (map snd (remove1 (d, s) todo))"
    using Cons.prems(1) by (rule distinct_map_remove1)
  then have "alone pw_read_access (ks @ ls) r (PwReadCopy ?out n t (remove1 (d, s) todo)) =
      alone pw_read_access ls r (PwReadCopy (copy_elements (map prod.swap (remove1 (d, s) todo)) smp ?out) n t [])"
    using Cons.prems(2,3) m set_remove1_subset[of "(d, s)" todo] by (intro Cons.IH) (auto simp: length_remove1)
  moreover have "map prod.swap (remove1 (d, s) todo) = remove1 (s, d) (map prod.swap todo)"
    by (induction todo) auto
  moreover have "distinct (map fst (map prod.swap todo))" "(s, d) \<in> set (map prod.swap todo)"
    using Cons.prems(1) m by (simp_all add: comp_def)
  ultimately show ?case using copy_elements_step[of "map prod.swap todo" s d out smp] b(2) by (simp del: pw_read_access.simps)
qed

lemma split_at:
  assumes "m < length ks" obtains xs l ls where "ks = xs @ l # ls" "length xs = m"
proof
  show "ks = take m ks @ ks ! m # drop (Suc m) ks" using assms by (rule id_take_nth_drop)
  show "length (take m ks) = m" using assms by simp
qed

lemma pw_alone_write:
  assumes ok: "pw_ring_ok r" and w: "pw_write_ok r (PwWriteCheck src n)" and ks: "pw_write_left r (PwWriteCheck src n) \<le> length ks"
  shows "\<exists>r' rc. audio_ring_write r src n = Some (r', rc) \<and> alone pw_write_access ks r (PwWriteCheck src n) = Some (r', PwWriteDone rc)"
proof -
  note f = pw_ok_facts[OF ok]
  obtain k ks' where k: "ks = k # ks'" using ks by (cases ks) (auto simp: pw_write_left_def)
  show ?thesis
  proof (cases "pw_cap r < pw_fill r + unat n")
    case True
    from pw_write_check(1)[OF ok w True, of k] audio_ring_write_rejects[OF ok True] k show ?thesis
      by (simp add: pw_write_alone_done del: pw_write_access.simps)
  next
    case False
    then have room: "pw_fill r + unat n \<le> pw_cap r" by simp
    obtain smp where smp: "ar_samples r = Some smp" using f(1) by blast
    let ?P = "pw_pairs r (ar_write_pos r) n"
    have n: "unat n \<le> pw_cap r" "unat n * pw_chans r \<le> length src" "pw_wpos r + unat n < 2 ^ 64"
      using room w by (simp_all add: pw_write_ok_def)
    have len: "pw_cap r * pw_chans r \<le> length smp" using f(5) smp by simp
    have b: "\<forall>(d, s) \<in> set ?P. d < length smp \<and> s < length src"
      using frame_pairs_in_ring[OF _ f(2)] len n(2) by (fastforce intro: less_le_trans)
    have "length ?P < length ks'" using ks k by (simp add: pw_write_left_def length_frame_pairs)
    then obtain xs l ls where ks': "ks' = xs @ l # ls" "length xs = length ?P" by (rule split_at)
    have "alone pw_write_access ks' r (PwWriteCopy src n ?P) =
        alone pw_write_access (l # ls) (r\<lparr>ar_samples := Some (copy_elements ?P src smp)\<rparr>) (PwWriteCopy src n [])"
      unfolding ks'(1) by (rule pw_alone_write_copy[OF smp distinct_frame_pairs(1)[OF n(1)] b ks'(2)])
    moreover have "audio_ring_write r src n = Some (r\<lparr>ar_samples := Some (copy_elements ?P src smp), ar_write_pos := ar_write_pos r + n\<rparr>, 0)"
      using write_loop_elements[OF f(3,4) n(1,2,3) len, of 0] room
      by (simp add: audio_ring_write_def Let_def pw_free_frames[OF ok] smp)
    ultimately show ?thesis using pw_write_check(2)[OF ok w room, of k] k by (simp add: pw_write_alone_done del: pw_write_access.simps(2))
  qed
qed

lemma pw_read_copied:
  assumes ok: "pw_ring_ok r" and rd: "pw_read_ok r (PwReadStart out n)" and t: "unat t = min (unat n) (pw_fill r)"
    and smp: "ar_samples r = Some smp"
  shows "pw_read_ok r (PwReadCopy (copy_elements (map prod.swap (pw_pairs r (ar_read_pos r) t)) smp out) n t [])"
proof -
  note f = pw_ok_facts[OF ok]
  let ?P = "pw_pairs r (ar_read_pos r) t"
  have cap: "unat t \<le> pw_cap r" using t f(7) by simp
  have d: "distinct (map fst (map prod.swap ?P))" using distinct_frame_pairs(2)[OF cap] by (simp add: comp_def)
  have "unat t * pw_chans r \<le> unat n * pw_chans r" by (rule mult_le_mono1) (simp add: t)
  then have len: "unat t * pw_chans r \<le> length out" using rd unfolding pw_read_ok_def pw_read_pc.case by linarith
  have "copy_elements (map prod.swap ?P) smp out ! s = smp ! e" if "(e, s) \<in> set ?P" for e s
    using that frame_pairs_in_ring(2)[OF that f(2)] len by (intro copy_elements_hit[OF d]) auto
  then show ?thesis using rd t smp by (auto simp: pw_read_ok_def)
qed

lemma pw_alone_read:
  assumes ok: "pw_ring_ok r" and rd: "pw_read_ok r (PwReadStart out n)" and ks: "pw_read_left r (PwReadStart out n) \<le> length ks"
  shows "\<exists>r' out' t. audio_ring_read r out n = Some (r', out', t) \<and> alone pw_read_access ks r (PwReadStart out n) = Some (r', PwReadDone out' t)"
proof -
  note f = pw_ok_facts[OF ok]
  obtain k ks' where k: "ks = k # ks'" using ks by (cases ks) (auto simp: pw_read_left_def)
  obtain t where t: "unat t = min (unat n) (pw_fill r)"
    "pw_read_access k r (PwReadStart out n) = Some (r, PwReadCopy out n t (pw_pairs r (ar_read_pos r) t))"
    using pw_read_start[OF ok rd] by blast
  let ?P = "pw_pairs r (ar_read_pos r) t"
  obtain smp where smp: "ar_samples r = Some smp" using f(1) by blast
  have tn: "unat t * pw_chans r \<le> unat n * pw_chans r" by (rule mult_le_mono1) (simp add: t(1))
  have le: "unat t \<le> pw_cap r" "unat t * pw_chans r \<le> length out"
    using t(1) f(7) rd tn by (simp, simp only: pw_read_ok_def pw_read_pc.case) linarith
  have "pw_rpos r + unat t \<le> pw_wpos r" using t(1) f(6) by (simp add: pw_fill_def)
  from le_less_trans[OF this unat_u64_bound] have pos: "pw_rpos r + unat t < 2 ^ 64" by simp
  have len: "pw_cap r * pw_chans r \<le> length smp" using f(5) smp by simp
  have b: "\<forall>(d, s) \<in> set ?P. d < length smp \<and> s < length out"
    using frame_pairs_in_ring[OF _ f(2)] len le(2) by (fastforce intro: less_le_trans)
  have "length ?P < length ks'" using ks tn unfolding k pw_read_left_def pw_read_pc.case length_frame_pairs list.size by linarith
  then obtain xs l ls where ks': "ks' = xs @ l # ls" "length xs = length ?P" by (rule split_at)
  define out1 where "out1 = copy_elements (map prod.swap ?P) smp out"
  have copy: "alone pw_read_access ks' r (PwReadCopy out n t ?P) = alone pw_read_access (l # ls) r (PwReadCopy out1 n t [])"
    unfolding ks'(1) out1_def by (rule pw_alone_read_copy[OF smp distinct_frame_pairs(2)[OF le(1)] b ks'(2)])
  have loop: "ring_read_loop (ar_capacity_frames r) (ar_channels r) (ar_read_pos r) t smp 0 out = Some out1"
    using read_loop_elements[OF f(3,4) le pos len, of 0] by (simp add: out1_def)
  have to: "(if ar_write_pos r - ar_read_pos r < n then ar_write_pos r - ar_read_pos r else n) = t"
    using t(1) pw_to_read[OF ok, of n] by (simp add: word_unat_eq_iff)
  have "audio_ring_read r out n =
      do { out2 \<leftarrow> (if t < n then memset out1 (frame_offset t (ar_channels r)) 0 (frame_bytes (n - t) (ar_channels r)) else Some out1);
           Some (r\<lparr>ar_read_pos := ar_read_pos r + t\<rparr>, out2, t) }"
    unfolding audio_ring_read_def Let_def to smp bind.bind_lunit loop ..
  moreover have "pw_read_ok r (PwReadCopy out1 n t [])"
    using pw_read_copied[OF ok rd t(1) smp] by (simp add: out1_def)
  from pw_finish_read(1)[OF ok this, of l] obtain out2 where
    "pw_read_access l r (PwReadCopy out1 n t []) = Some (r\<lparr>ar_read_pos := ar_read_pos r + t\<rparr>, PwReadDone out2 t)" by blast
  ultimately show ?thesis using copy t(2) k by (auto simp: pw_read_alone_done simp del: pw_read_access.simps(2) split: bind_splits)
qed

section \<open>Properties\<close>

text \<open>The callback drops nothing: what has passed it is what it has copied.\<close>

lemma pw_never_drops:
  assumes "pw_reachable r s" shows "None \<notin> set (consumed s)"
  using assms unfolding pw_reachable_def
proof (induction rule: ring_reachable.induct)
  case start
  then show ?case by (simp add: ring_start_def)
next
  case (step s s')
  have "None \<notin> set (pw_frames_passed (ring s) (rpc s))"
    by (auto simp: pw_frames_passed_def split: pw_read_pc.splits list.splits)
  with step(2,3) show ?case by (auto elim: ring_step.cases)
qed

text \<open>The capture thread and the process callback of the PipeWire client share their ring safely: however
  their memory accesses interleave, they are never about to store and to load the same sample, no
  access leaves the ring or a buffer, and the frames that the callback has copied followed by
  those in the ring are exactly the frames that have been published, in order.\<close>

theorem pw_ring_concurrent:
  assumes "pw_reachable r s" "pw_ring_ok r"
  shows "pw_store_slots (wpc s) \<inter> pw_load_slots (rpc s) = {} \<and>
    pw_write_access k (ring s) (wpc s) \<noteq> None \<and> pw_read_access k (ring s) (rpc s) \<noteq> None \<and>
    consumed s @ map Some (pw_frames (ring s)) = map Some (published_frames s)"
proof -
  note r = assms(1) [unfolded pw_reachable_def]
  have "consumed s @ map Some (pw_frames (ring s)) = map Some (published_frames s)"
    by (rule nothing_dropped[OF pw_never_drops[OF assms(1)]]) (use pw_interleaved.conservation[OF r assms(2)] in auto)
  then show ?thesis
    using pw_interleaved.reachable_ok[OF r assms(2)] pw_slots_disjoint[of "ring s"]
      pw_interleaved.never_stuck[OF r assms(2), of k] by simp
qed

text \<open>C29. The accesses of the PipeWire ring are its functions: a write or a read that is left alone comes, for
  every order in which its samples are copied, to the ring, the buffer and the result of
  \<open>audio_ring_write\<close> or \<open>audio_ring_read\<close>.\<close>

theorem pw_accesses_are_the_functions:
  assumes "pw_ring_ok r" "pw_write_starts r (PwWriteCheck src n)" "pw_read_starts r (PwReadStart out m)"
    "unat n * pw_chans r + 2 \<le> length ks" "unat m * pw_chans r + 2 \<le> length ls"
  shows "(\<exists>r' rc. audio_ring_write r src n = Some (r', rc) \<and>
      alone pw_write_access ks r (PwWriteCheck src n) = Some (r', PwWriteDone rc)) \<and>
    (\<exists>r' out' t. audio_ring_read r out m = Some (r', out', t) \<and>
      alone pw_read_access ls r (PwReadStart out m) = Some (r', PwReadDone out' t))"
  using pw_alone_write[OF assms(1) pw_write_starts_ok[OF assms(2)]] pw_alone_read[OF assms(1) pw_read_starts_ok[OF assms(3)]] assms(4,5)
  by (simp add: pw_write_left_def pw_read_left_def)

text \<open>
  Neither side waits for the other: whatever happens in between, an operation has returned after as
  many accesses of its side as it has samples, and two more.
\<close>

theorem pw_ring_wait_free:
  assumes "pw_reachable r s" "pw_ring_ok r" "ring_run pw_ring_program ms s = Some s'"
  shows "wpc s = PwWriteCheck src n \<Longrightarrow> EndWrite \<notin> set ms \<Longrightarrow> unat n * pw_chans (ring s) + 2 \<le> writer_turns ms \<Longrightarrow>
      pw_write_done (wpc s')"
    "rpc s = PwReadStart out m \<Longrightarrow> EndRead \<notin> set ms \<Longrightarrow> unat m * pw_chans (ring s) + 2 \<le> reader_turns ms \<Longrightarrow>
      pw_read_done (rpc s')"
  using pw_interleaved.wait_free[OF assms(1)[unfolded pw_reachable_def] assms(2,3)]
  by (simp_all add: pw_write_left_def pw_read_left_def)

section \<open>An interleaving\<close>

definition sample_pw_ring :: "int AudioRing" where
  "sample_pw_ring =
     \<lparr>ar_samples = Some [10, 20, 11, 21, 12, 22, 13, 23], ar_capacity_frames = 4, ar_channels = 2, ar_read_pos = 3, ar_write_pos = 5\<rparr>"

lemma sample_pw_ring_ok: "pw_ring_ok sample_pw_ring"
  by (simp add: pw_ring_ok_def sample_pw_ring_def)

definition sample_pw_moves :: "(int pw_write_pc, int pw_read_pc) ring_move list" where
  "sample_pw_moves =
     [BeginRead (PwReadStart [7, 7, 7, 7, 7, 7] 3), BeginWrite (PwWriteCheck [31, 41, 32, 42] 2), ReaderAccess 0, WriterAccess 0,
      ReaderAccess 1, WriterAccess 2, ReaderAccess 0, WriterAccess 0, ReaderAccess 1, WriterAccess 1, WriterAccess 0,
      WriterAccess 0, ReaderAccess 0, ReaderAccess 0]"

definition sample_pw_system :: "(int AudioRing, int pw_write_pc, int pw_read_pc, int list, int list) ring_system" where
  "sample_pw_system = ring_start pw_ring_program sample_pw_ring (pw_frames sample_pw_ring)"

lemma sample_pw_reachable:
  assumes "ring_run pw_ring_program ms sample_pw_system = Some s" shows "pw_reachable sample_pw_ring s"
  using assms unfolding pw_reachable_def sample_pw_system_def by (rule ring_run_reachable[OF ring_reachable.start])

lemma pw_midway:
  "map_option (\<lambda>s. (pw_store_slots (wpc s), pw_load_slots (rpc s)))
     (ring_run pw_ring_program (take 8 sample_pw_moves) sample_pw_system) = Some ({3, 5}, {0, 1})"
  by code_simp

theorem pw_ring_concurrent_witness:
  "\<exists>s. ring_run pw_ring_program (take 8 sample_pw_moves) sample_pw_system = Some s \<and>
     pw_store_slots (wpc s) = {3, 5} \<and> pw_load_slots (rpc s) = {0, 1} \<and>
     consumed s @ map Some (pw_frames (ring s)) = map Some (published_frames s)"
proof -
  obtain s where s: "ring_run pw_ring_program (take 8 sample_pw_moves) sample_pw_system = Some s"
    "pw_store_slots (wpc s) = {3, 5}" "pw_load_slots (rpc s) = {0, 1}"
    using pw_midway by (cases "ring_run pw_ring_program (take 8 sample_pw_moves) sample_pw_system") auto
  from pw_ring_concurrent[OF sample_pw_reachable[OF s(1)] sample_pw_ring_ok] s show ?thesis by blast
qed

theorem pw_accesses_are_the_functions_witness:
  "\<exists>r' out' t. audio_ring_read sample_pw_ring [7, 7, 7, 7, 7, 7] 3 = Some (r', out', t) \<and>
     alone pw_read_access [0, 1, 0, 1, 0, 0, 0, 0] sample_pw_ring (PwReadStart [7, 7, 7, 7, 7, 7] 3) = Some (r', PwReadDone out' t)"
proof -
  have h: "pw_write_starts sample_pw_ring (PwWriteCheck [31, 41, 32, 42] 2)" "pw_read_starts sample_pw_ring (PwReadStart [7, 7, 7, 7, 7, 7] 3)"
    "unat (2 :: u64) * pw_chans sample_pw_ring + 2 \<le> length [0, 2, 0, 1, 0, 0 :: nat]"
    "unat (3 :: u64) * pw_chans sample_pw_ring + 2 \<le> length [0, 1, 0, 1, 0, 0, 0, 0 :: nat]"
    by (simp_all add: sample_pw_ring_def pw_write_starts_def pw_read_starts_def)
  from pw_accesses_are_the_functions[OF sample_pw_ring_ok h] show ?thesis by blast
qed

end
