(* ===== verification/PwWeak.thy ===== *)
theory PwWeak
  imports PwConcurrent WeakRing
begin

text \<open>
  The ring of the PipeWire client on the memory that its accesses ask for: \<open>atomic_load_size\<close> is an
  acquire load and \<open>atomic_store_size\<close> a release store (\<open>src/reacjack-pw.c\<close>), the samples are
  plain memory.  The accesses are those of \<open>PwConcurrent\<close>.
\<close>

section \<open>What an access touches\<close>

fun pw_write_looks :: "'a pw_write_pc \<Rightarrow> bool" where
  "pw_write_looks (PwWriteCheck src n) = True"
| "pw_write_looks pc = False"

fun pw_read_looks :: "'a pw_read_pc \<Rightarrow> bool" where
  "pw_read_looks (PwReadStart out n) = True"
| "pw_read_looks pc = False"

fun pw_write_publishes :: "'a pw_write_pc \<Rightarrow> bool" where
  "pw_write_publishes (PwWriteCopy src n []) = True"
| "pw_write_publishes pc = False"

fun pw_read_publishes :: "'a pw_read_pc \<Rightarrow> bool" where
  "pw_read_publishes (PwReadCopy out n to_read []) = True"
| "pw_read_publishes pc = False"

fun pw_write_cell :: "nat \<Rightarrow> 'a AudioRing \<Rightarrow> 'a pw_write_pc \<Rightarrow> nat option" where
  "pw_write_cell k r (PwWriteCopy src n (x # xs)) = Some (fst ((x # xs) ! (k mod length (x # xs))))"
| "pw_write_cell k r pc = None"

fun pw_read_cell :: "nat \<Rightarrow> 'a AudioRing \<Rightarrow> 'a pw_read_pc \<Rightarrow> nat option" where
  "pw_read_cell k r (PwReadCopy out n to_read (x # xs)) = Some (fst ((x # xs) ! (k mod length (x # xs))))"
| "pw_read_cell k r pc = None"

definition pw_footprint :: "(('a::zero) AudioRing, 'a pw_write_pc, 'a pw_read_pc) ring_footprint" where
  "pw_footprint =
     \<lparr>write_word = ar_write_pos, read_word = ar_read_pos,
      set_write_word = \<lambda>p r. r\<lparr>ar_write_pos := p\<rparr>, set_read_word = \<lambda>p r. r\<lparr>ar_read_pos := p\<rparr>,
      writer_looks = pw_write_looks, reader_looks = pw_read_looks,
      writer_publishes = pw_write_publishes, reader_publishes = pw_read_publishes,
      stored_cell = pw_write_cell, loaded_cell = pw_read_cell\<rparr>"

lemma pw_footprint_sel [simp]:
  "write_word pw_footprint = ar_write_pos" "read_word pw_footprint = ar_read_pos"
  "set_write_word pw_footprint p r = r\<lparr>ar_write_pos := p\<rparr>" "set_read_word pw_footprint p r = r\<lparr>ar_read_pos := p\<rparr>"
  "writer_looks pw_footprint = pw_write_looks" "reader_looks pw_footprint = pw_read_looks"
  "writer_publishes pw_footprint = pw_write_publishes" "reader_publishes pw_footprint = pw_read_publishes"
  "stored_cell pw_footprint = pw_write_cell" "loaded_cell pw_footprint = pw_read_cell"
  by (simp_all add: pw_footprint_def)

section \<open>The footprints are those of the accesses\<close>

lemma pw_write_access_blind:
  assumes "\<not> pw_write_looks pc"
  shows "pw_write_access k (r\<lparr>ar_read_pos := p\<rparr>) pc = map_option (\<lambda>(r', pc'). (r'\<lparr>ar_read_pos := p\<rparr>, pc')) (pw_write_access k r pc)"
  using assms by (cases "(k, r, pc)" rule: pw_write_access.cases)
    (auto simp: Let_def case_prod_unfold map_bind intro!: Option.bind_cong)

lemma pw_read_access_blind:
  assumes "\<not> pw_read_looks pc"
  shows "pw_read_access k (r\<lparr>ar_write_pos := p\<rparr>) pc = map_option (\<lambda>(r', pc'). (r'\<lparr>ar_write_pos := p\<rparr>, pc')) (pw_read_access k r pc)"
  using assms by (cases "(k, r, pc)" rule: pw_read_access.cases)
    (auto simp: Let_def case_prod_unfold map_bind intro!: Option.bind_cong)

lemma pw_write_access_frame:
  assumes "pw_write_access k r pc = Some (r', pc')"
  shows "ar_read_pos r' = ar_read_pos r" "ar_channels r' = ar_channels r" "ar_capacity_frames r' = ar_capacity_frames r"
    "\<not> pw_write_publishes pc \<Longrightarrow> ar_write_pos r' = ar_write_pos r"
    "pw_write_cell k r pc \<noteq> Some i \<Longrightarrow> pw_smp r' ! i = pw_smp r ! i"
  using assms
  by (cases "(k, r, pc)" rule: pw_write_access.cases;
      force simp: Let_def case_prod_unfold wr_def split: bind_splits if_splits)+

lemma pw_read_access_frame:
  assumes "pw_read_access k r pc = Some (r', pc')"
  shows "r' = r\<lparr>ar_read_pos := ar_read_pos r'\<rparr>" "\<not> pw_read_publishes pc \<Longrightarrow> r' = r"
  using assms
  by (cases "(k, r, pc)" rule: pw_read_access.cases; force simp: Let_def case_prod_unfold split: bind_splits if_splits)+

section \<open>The laws\<close>

definition pw_shape :: "'a AudioRing \<Rightarrow> u16 \<times> u64" where
  "pw_shape r = (ar_channels r, ar_capacity_frames r)"

definition pw_room :: "u16 \<times> u64 \<Rightarrow> nat" where
  "pw_room x = unat (snd x)"

text \<open>The cells of the slot of a frame.\<close>

definition pw_cells :: "u16 \<times> u64 \<Rightarrow> nat \<Rightarrow> nat set" where
  "pw_cells x f = {i. i div unat (fst x) = f mod pw_room x}"

lemma pw_cells_apart: "f < g \<Longrightarrow> g < f + pw_room x \<Longrightarrow> i \<in> pw_cells x f \<Longrightarrow> i \<notin> pw_cells x g"
  using mod_slot_inj[of f g "pw_room x"] by (auto simp: pw_cells_def)

lemma pw_pair_cell:
  assumes "(d, s) \<in> set (pw_pairs r p n)"
  shows "\<exists>i < unat n. d \<in> pw_cells (pw_shape r) (unat p + i)"
proof -
  from assms obtain i k where ik: "i < unat n" "k < pw_chans r" "d = (unat p + i) mod pw_cap r * pw_chans r + k"
    by (auto simp: set_frame_pairs)
  then have "d div pw_chans r = (unat p + i) mod pw_cap r" by simp
  with ik(1) show ?thesis by (auto simp: pw_cells_def pw_shape_def pw_room_def)
qed

lemma pw_ok_words:
  assumes ok: "pw_ring_ok r" and p: "ar_read_pos r \<le> p" "p \<le> ar_write_pos r"
  shows "pw_ring_ok (r\<lparr>ar_read_pos := p\<rparr>)" "pw_frames (r\<lparr>ar_read_pos := p\<rparr>) = drop (unat p - pw_rpos r) (pw_frames r)"
    "pw_write_ok r pc \<Longrightarrow> pw_write_ok (r\<lparr>ar_read_pos := p\<rparr>) pc"
    "pw_ring_ok (r\<lparr>ar_write_pos := p\<rparr>)" "pw_frames (r\<lparr>ar_write_pos := p\<rparr>) = take (unat p - pw_rpos r) (pw_frames r)"
proof -
  have n: "pw_rpos r \<le> unat p" "unat p \<le> pw_wpos r" using p by (simp_all add: word_le_nat_alt)
  show "pw_ring_ok (r\<lparr>ar_read_pos := p\<rparr>)" "pw_ring_ok (r\<lparr>ar_write_pos := p\<rparr>)" using ok n by (auto simp: pw_ring_ok_def)
  show "pw_frames (r\<lparr>ar_read_pos := p\<rparr>) = drop (unat p - pw_rpos r) (pw_frames r)"
    using window_drop[of _ _ "pw_rpos r" "unat p - pw_rpos r"] n by (simp add: pw_frames_def)
  show "pw_frames (r\<lparr>ar_write_pos := p\<rparr>) = take (unat p - pw_rpos r) (pw_frames r)"
    using window_take[of "pw_rpos r" "unat p - pw_rpos r"] n by (simp add: pw_frames_def)
  have "pw_fill (r\<lparr>ar_read_pos := p\<rparr>) \<le> pw_fill r" using n by (simp add: pw_fill_def)
  then show "pw_write_ok r pc \<Longrightarrow> pw_write_ok (r\<lparr>ar_read_pos := p\<rparr>) pc" by (auto simp: pw_write_ok_def split: pw_write_pc.splits)
qed

text \<open>The samples that a reader is about to load are those of the frames.\<close>

lemma pw_frame_element:
  assumes ok: "pw_ring_ok r" and j: "j < pw_fill r" "k < pw_chans r"
  shows "pw_smp r ! ((pw_rpos r + j) mod pw_cap r * pw_chans r + k) = pw_frames r ! j ! k"
proof -
  note f = pw_ok_facts[OF ok]
  have "(pw_rpos r + j) mod pw_cap r < pw_cap r" using f(2) by simp
  from nth_slot_in[OF this f(5) j(2)] j(1) show ?thesis by (simp add: pw_frames_def nth_window pw_fill_def)
qed

lemma pw_read_ok_later:
  assumes ok: "pw_ring_ok r" "pw_ring_ok r'" and rd: "pw_read_ok r rp"
    and same: "pw_shape r' = pw_shape r" "ar_read_pos r' = ar_read_pos r" "ar_write_pos r \<le> ar_write_pos r'"
    and frames: "take (length (pw_frames r)) (pw_frames r') = pw_frames r"
  shows "pw_read_ok r' rp"
proof (cases rp)
  case (PwReadCopy out n t todo)
  have fill: "pw_fill r \<le> pw_fill r'" using same(2,3) by (simp add: pw_fill_def word_le_nat_alt)
  have sh: "ar_channels r' = ar_channels r" "ar_capacity_frames r' = ar_capacity_frames r" using same(1) by (simp_all add: pw_shape_def)
  have t: "unat t \<le> pw_fill r" using rd PwReadCopy by (simp add: pw_read_ok_def)
  have "pw_smp r' ! d = pw_smp r ! d" if d: "(d, s) \<in> set (pw_pairs r (ar_read_pos r) t)" for d s
  proof -
    obtain j k where jk: "j < unat t" "k < pw_chans r" "d = (pw_rpos r + j) mod pw_cap r * pw_chans r + k"
      using d by (auto simp: set_frame_pairs)
    have "pw_frames r' ! j = pw_frames r ! j" using frames jk(1) t by (metis length_pw_frames less_le_trans nth_take)
    then show ?thesis
      using pw_frame_element[OF ok(1), of j k] pw_frame_element[OF ok(2), of j k] jk t fill by (simp add: sh same(2))
  qed
  then have "\<forall>(d, s) \<in> set (pw_pairs r (ar_read_pos r) t) - set todo. out ! s = pw_smp r' ! d"
    using rd PwReadCopy unfolding pw_read_ok_def pw_read_pc.case by fastforce
  with rd fill show ?thesis unfolding PwReadCopy pw_read_ok_def pw_read_pc.case sh same(2) by simp
qed (use rd same in \<open>auto simp: pw_read_ok_def pw_shape_def\<close>)

lemma pw_laws:
  fixes r :: "('a::zero) AudioRing"
  shows "pw_ring_ok r \<Longrightarrow> ar_read_pos r \<le> ar_write_pos r \<and> length (pw_frames r) = pw_wpos r - pw_rpos r \<and> length (pw_frames r) \<le> pw_room (pw_shape r)"
    "pw_ring_ok r \<Longrightarrow> pw_write_ok r pc \<Longrightarrow> pw_write_access k r pc = Some (r', pc') \<Longrightarrow>
      ar_read_pos r' = ar_read_pos r \<and> pw_shape r' = pw_shape r \<and> ar_write_pos r \<le> ar_write_pos r' \<and>
      (\<not> pw_write_publishes pc \<longrightarrow> ar_write_pos r' = ar_write_pos r)"
    "pw_ring_ok r \<Longrightarrow> pw_read_ok r rp \<Longrightarrow> pw_read_access k r rp = Some (r', rp') \<Longrightarrow>
      ar_write_pos r' = ar_write_pos r \<and> pw_shape r' = pw_shape r \<and> ar_read_pos r \<le> ar_read_pos r' \<and>
      ar_read_pos r' \<le> ar_write_pos r \<and> (\<not> pw_read_publishes rp \<longrightarrow> ar_read_pos r' = ar_read_pos r)"
proof -
  show "pw_ring_ok r \<Longrightarrow> ar_read_pos r \<le> ar_write_pos r \<and> length (pw_frames r) = pw_wpos r - pw_rpos r \<and> length (pw_frames r) \<le> pw_room (pw_shape r)"
    by (simp add: pw_ring_ok_def length_pw_frames pw_fill_def word_le_nat_alt pw_room_def pw_shape_def)
  show "ar_read_pos r' = ar_read_pos r \<and> pw_shape r' = pw_shape r \<and> ar_write_pos r \<le> ar_write_pos r' \<and>
      (\<not> pw_write_publishes pc \<longrightarrow> ar_write_pos r' = ar_write_pos r)"
    if "pw_ring_ok r" "pw_write_ok r pc" "pw_write_access k r pc = Some (r', pc')"
  proof -
    note f = pw_write_access_frame[OF that(3)]
    have "ar_write_pos r \<le> ar_write_pos r'"
    proof (cases "pw_write_publishes pc")
      case True
      then obtain src n where pc: "pc = PwWriteCopy src n []" by (cases pc rule: pw_write_publishes.cases) simp_all
      with that(2,3) show ?thesis by (auto simp: pw_write_ok_def word_le_nat_alt unat_add_nowrap)
    qed (use f(4) in simp)
    with f show ?thesis by (simp add: pw_shape_def)
  qed
  show "ar_write_pos r' = ar_write_pos r \<and> pw_shape r' = pw_shape r \<and> ar_read_pos r \<le> ar_read_pos r' \<and>
      ar_read_pos r' \<le> ar_write_pos r \<and> (\<not> pw_read_publishes rp \<longrightarrow> ar_read_pos r' = ar_read_pos r)"
    if "pw_ring_ok r" "pw_read_ok r rp" "pw_read_access k r rp = Some (r', rp')"
  proof -
    note f = pw_read_access_frame[OF that(3)]
    have w: "ar_write_pos r' = ar_write_pos r" "pw_shape r' = pw_shape r" by (subst f(1), simp add: pw_shape_def)+
    have "ar_read_pos r \<le> ar_read_pos r' \<and> ar_read_pos r' \<le> ar_write_pos r"
    proof (cases "pw_read_publishes rp")
      case True
      then obtain out n t where rp: "rp = PwReadCopy out n t []" by (cases rp rule: pw_read_publishes.cases) simp_all
      then have "unat t \<le> pw_fill r" using that(2) by (simp add: pw_read_ok_def)
      then have t: "pw_rpos r + unat t \<le> pw_wpos r" using pw_ok_facts(6)[OF that(1)] by (simp add: pw_fill_def)
      moreover from le_less_trans[OF t unat_u64_bound] have "unat (ar_read_pos r + t) = pw_rpos r + unat t" by (simp add: unat_add_nowrap)
      ultimately show ?thesis using that(3) rp by (auto simp: word_le_nat_alt split: bind_splits if_splits)
    qed (use f(2) pw_ok_facts(6)[OF that(1)] in \<open>simp add: word_le_nat_alt\<close>)
    with f(2) w show ?thesis by auto
  qed
qed

lemma pw_cells_of_accesses:
  assumes ok: "pw_ring_ok r"
  shows "pw_write_ok r pc \<Longrightarrow> pw_write_cell k r pc = Some i \<Longrightarrow>
      \<exists>f. pw_wpos r \<le> f \<and> f < pw_rpos r + pw_room (pw_shape r) \<and> i \<in> pw_cells (pw_shape r) f"
    "pw_read_ok r rp \<Longrightarrow> pw_read_cell k r rp = Some i \<Longrightarrow>
      \<exists>f. pw_rpos r \<le> f \<and> f < pw_wpos r \<and> i \<in> pw_cells (pw_shape r) f"
proof -
  note f = pw_ok_facts[OF ok]
  show "\<exists>f. pw_wpos r \<le> f \<and> f < pw_rpos r + pw_room (pw_shape r) \<and> i \<in> pw_cells (pw_shape r) f"
    if w: "pw_write_ok r pc" and c: "pw_write_cell k r pc = Some i"
  proof -
    obtain src n x xs where pc: "pc = PwWriteCopy src n (x # xs)" using c by (cases "(k, r, pc)" rule: pw_write_cell.cases) simp_all
    with c chosen_in[of x xs k] obtain s where "(i, s) \<in> set (x # xs)" by (metis option.inject pw_write_cell.simps(1) prod.collapse)
    then have "(i, s) \<in> set (pw_pairs r (ar_write_pos r) n)" "pw_fill r + unat n \<le> pw_cap r" using w pc by (auto simp: pw_write_ok_def)
    moreover from pw_pair_cell[OF this(1)] obtain j where "j < unat n" "i \<in> pw_cells (pw_shape r) (pw_wpos r + j)" by blast
    ultimately show ?thesis using f(6) by (intro exI[of _ "pw_wpos r + j"]) (simp add: pw_fill_def pw_room_def pw_shape_def)
  qed
  show "\<exists>f. pw_rpos r \<le> f \<and> f < pw_wpos r \<and> i \<in> pw_cells (pw_shape r) f"
    if rd: "pw_read_ok r rp" and c: "pw_read_cell k r rp = Some i"
  proof -
    obtain out n t x xs where rp: "rp = PwReadCopy out n t (x # xs)" using c by (cases "(k, r, rp)" rule: pw_read_cell.cases) simp_all
    with c chosen_in[of x xs k] obtain s where "(i, s) \<in> set (x # xs)" by (metis option.inject pw_read_cell.simps(1) prod.collapse)
    then have "(i, s) \<in> set (pw_pairs r (ar_read_pos r) t)" "unat t \<le> pw_fill r" using rd rp by (auto simp: pw_read_ok_def)
    moreover from pw_pair_cell[OF this(1)] obtain j where "j < unat t" "i \<in> pw_cells (pw_shape r) (pw_rpos r + j)" by blast
    ultimately show ?thesis by (intro exI[of _ "pw_rpos r + j"]) (simp add: pw_fill_def)
  qed
qed

lemma pw_words:
  "ar_write_pos (r\<lparr>ar_write_pos := p\<rparr>) = p" "ar_read_pos (r\<lparr>ar_write_pos := p\<rparr>) = ar_read_pos r"
  "ar_read_pos (r\<lparr>ar_read_pos := p\<rparr>) = p" "ar_write_pos (r\<lparr>ar_read_pos := p\<rparr>) = ar_write_pos r"
  "r\<lparr>ar_read_pos := ar_read_pos r\<rparr> = r" "r\<lparr>ar_write_pos := ar_write_pos r\<rparr> = r"
  "r\<lparr>ar_read_pos := q, ar_read_pos := p\<rparr> = r\<lparr>ar_read_pos := p\<rparr>" "r\<lparr>ar_write_pos := q, ar_write_pos := p\<rparr> = r\<lparr>ar_write_pos := p\<rparr>"
  "pw_shape (r\<lparr>ar_read_pos := p\<rparr>) = pw_shape r" "pw_shape (r\<lparr>ar_write_pos := p\<rparr>) = pw_shape r"
  "r\<lparr>ar_read_pos := q, ar_write_pos := p\<rparr> = r\<lparr>ar_write_pos := p, ar_read_pos := q\<rparr>"
  by (simp_all add: pw_shape_def)

lemma pw_read_access_unseen:
  assumes "pw_read_access k r rp = Some (r', rp')"
  shows "r'\<lparr>ar_write_pos := q, ar_read_pos := p\<rparr> = r\<lparr>ar_write_pos := q, ar_read_pos := p\<rparr>"
  by (subst pw_read_access_frame(1)[OF assms]) simp

interpretation pw_weak: weak_ring pw_ring_program pw_ring_ok pw_frames id pw_write_ok pw_read_ok pw_write_left pw_read_left
  pw_footprint pw_shape pw_room pw_cells
proof (unfold_locales, unfold pw_footprint_sel pw_ring_program_sel)
  fix r :: "('a::zero) AudioRing" and p pc
  assume "pw_ring_ok r" "ar_read_pos r \<le> p" "p \<le> ar_write_pos r"
  note w = pw_ok_words[OF this]
  show "pw_ring_ok (r\<lparr>ar_read_pos := p\<rparr>) \<and> pw_frames (r\<lparr>ar_read_pos := p\<rparr>) = drop (unat p - pw_rpos r) (pw_frames r) \<and>
      (pw_write_ok r pc \<longrightarrow> pw_write_ok (r\<lparr>ar_read_pos := p\<rparr>) pc)"
    "pw_ring_ok (r\<lparr>ar_write_pos := p\<rparr>) \<and> pw_frames (r\<lparr>ar_write_pos := p\<rparr>) = take (unat p - pw_rpos r) (pw_frames r)"
    using w by simp_all
next
  fix r r' :: "('a::zero) AudioRing" and pc pc' k i
  assume w: "pw_ring_ok r" "pw_write_ok r pc"
  show "pw_write_access k r pc = Some (r', pc') \<Longrightarrow> ar_read_pos r' = ar_read_pos r \<and> pw_shape r' = pw_shape r \<and>
      ar_write_pos r \<le> ar_write_pos r' \<and> (\<not> pw_write_publishes pc \<longrightarrow> ar_write_pos r' = ar_write_pos r)"
    by (rule pw_laws(2)[OF w])
  show "pw_write_cell k r pc = Some i \<Longrightarrow>
      \<exists>f. pw_wpos r \<le> f \<and> f < pw_rpos r + pw_room (pw_shape r) \<and> i \<in> pw_cells (pw_shape r) f"
    by (rule pw_cells_of_accesses(1)[OF w])
next
  fix r r' :: "('a::zero) AudioRing" and rp rp' k i
  assume rd: "pw_ring_ok r" "pw_read_ok r rp"
  show "pw_read_access k r rp = Some (r', rp') \<Longrightarrow> ar_write_pos r' = ar_write_pos r \<and> pw_shape r' = pw_shape r \<and>
      ar_read_pos r \<le> ar_read_pos r' \<and> ar_read_pos r' \<le> ar_write_pos r \<and> (\<not> pw_read_publishes rp \<longrightarrow> ar_read_pos r' = ar_read_pos r)"
    by (rule pw_laws(3)[OF rd])
  show "pw_read_cell k r rp = Some i \<Longrightarrow> \<exists>f. pw_rpos r \<le> f \<and> f < pw_wpos r \<and> i \<in> pw_cells (pw_shape r) f"
    by (rule pw_cells_of_accesses(2)[OF rd])
next
  fix r r' :: "('a::zero) AudioRing" and rp rp' k p q pc
  assume "pw_read_access k r rp = Some (r', rp')" "pw_ring_ok (r\<lparr>ar_write_pos := q, ar_read_pos := p\<rparr>)"
  then show "pw_ring_ok (r'\<lparr>ar_write_pos := q, ar_read_pos := p\<rparr>) \<and>
      pw_frames (r'\<lparr>ar_write_pos := q, ar_read_pos := p\<rparr>) = pw_frames (r\<lparr>ar_write_pos := q, ar_read_pos := p\<rparr>) \<and>
      (pw_write_ok (r\<lparr>ar_write_pos := q, ar_read_pos := p\<rparr>) pc \<longrightarrow> pw_write_ok (r'\<lparr>ar_write_pos := q, ar_read_pos := p\<rparr>) pc)"
    by (simp only: pw_read_access_unseen) simp
qed (rule pw_words pw_laws(1) | assumption | rule pw_read_ok_later, assumption+ | erule (2) pw_cells_apart)+

section \<open>Properties\<close>

text \<open>The states that capture thread and process callback reach from a ring.\<close>

definition pw_weak_run ::
  "(('a pw_write_pc, 'a pw_read_pc) ring_move \<times> nat) list \<Rightarrow> ('a::zero) AudioRing \<Rightarrow>
   ('a AudioRing, 'a pw_write_pc, 'a pw_read_pc, 'a list, 'a list) weak_system option" where
  "pw_weak_run ms r = weak_run pw_ring_program pw_footprint ms (weak_start pw_ring_program pw_footprint r (pw_frames r))"

text \<open>C28. The ring of the PipeWire client is right on the memory that its accesses ask for: in every state that
  the two threads reach, whatever old positions they have found, the next access of each is
  defined, without a data race and inside the buffers, and the frames that the callback has copied followed
  by those in the ring are exactly the frames that have been published, in order.\<close>

theorem pw_weak_ring_sound:
  assumes "pw_weak_run ms r = Some s" "pw_ring_ok r"
  shows "(writer_may_take s n \<longrightarrow> weak_write pw_ring_program pw_footprint k n s \<noteq> None) \<and>
    (reader_may_take s n \<longrightarrow> weak_read pw_ring_program pw_footprint k n s \<noteq> None) \<and>
    (\<exists>n. writer_may_take s n) \<and> (\<exists>n. reader_may_take s n) \<and>
    consumed (core s) @ map Some (pw_frames (ring (core s))) = map Some (published_frames (core s))"
proof -
  note run = assms(1)[unfolded pw_weak_run_def]
  have "None \<notin> set (frames_out pw_ring_program a pc)" for a :: "'a AudioRing" and pc
    by (auto simp: pw_frames_passed_def split: pw_read_pc.splits list.splits)
  from weak_run_consumed[OF run this] have "None \<notin> set (consumed (core s))" by (simp add: weak_start_def ring_start_def)
  then have "consumed (core s) @ map Some (pw_frames (ring (core s))) = map Some (published_frames (core s))"
    by (rule nothing_dropped) (use pw_weak.weak_conservation[OF run assms(2)] in auto)
  with pw_weak.weak_never_undefined[OF run assms(2)] pw_weak.weak_may_take[OF run assms(2)] show ?thesis by blast
qed

section \<open>A run\<close>

text \<open>
  The capture thread publishes a frame, but the callback still finds the old write position: it gets the
  two frames in front of it and silence.
\<close>

definition old_pw_moves :: "((int pw_write_pc, int pw_read_pc) ring_move \<times> nat) list" where
  "old_pw_moves =
     (BeginWrite (PwWriteCheck [31, 41] 1), 0) # replicate 4 (WriterAccess 0, 0) @
     (BeginRead (PwReadStart [7, 7, 7, 7, 7, 7] 3), 0) # replicate 6 (ReaderAccess 0, 0)"

lemma old_pw_run:
  "map_option (\<lambda>s. (map fst (write_history s), map fst (read_history s), published_frames (core s), consumed (core s), rpc (core s)))
     (pw_weak_run old_pw_moves sample_pw_ring) =
   Some ([5, 6], [3, 5], [[13, 23], [10, 20], [31, 41]], [Some [13, 23], Some [10, 20]], PwReadDone [13, 23, 10, 20, 0, 0] 2)"
  by code_simp

lemma pw_weak_ring_sound_witness:
  "\<exists>s. pw_weak_run old_pw_moves sample_pw_ring = Some s \<and> length (consumed (core s)) = 2 \<and>
     weak_read pw_ring_program pw_footprint 0 0 s \<noteq> None \<and>
     consumed (core s) @ map Some (pw_frames (ring (core s))) = map Some (published_frames (core s))"
proof -
  let ?run = "pw_weak_run old_pw_moves sample_pw_ring"
  have "map_option (\<lambda>s. reader_may_take s 0) ?run = Some True" by code_simp
  then obtain s where s: "?run = Some s" "reader_may_take s 0" by (cases ?run) auto
  then have "length (consumed (core s)) = 2" using old_pw_run by auto
  with pw_weak_ring_sound[OF s(1) sample_pw_ring_ok, of 0 0] s show ?thesis by blast
qed

end
