(* ===== verification/ReacjackPw.thy ===== *)
theory ReacjackPw
  imports CaptureCommon PwRing PacketLoss
begin

text \<open>
  The PipeWire client \<open>src/reacjack-pw.c\<close>: a capture thread that decodes packets into the ring
  of \<open>PwRing\<close>, the process callback that moves frames from the ring to PipeWire, the choice of
  the network interface, the command line, and the acquisition and release of resources in
  \<open>main\<close>.  PipeWire and the operating system appear as the results of the calls.
\<close>

section \<open>State\<close>

record ReacPw =
  pw_ring :: "rat AudioRing"
  pw_channels :: u16
  pw_interface :: string
  pw_running :: bool
  pw_received_packets :: u64
  pw_non_reac_packets :: u64
  pw_malformed_packets :: u64
  pw_lost_packets :: u64
  pw_capture_errors :: u64
  pw_ring_overruns :: u64
  pw_pipewire_underruns :: u64
  pw_last_counter :: u16
  pw_have_last_counter :: bool

section \<open>The capture thread\<close>

definition pw_note_counter :: "ReacPw \<Rightarrow> u16 \<Rightarrow> ReacPw" where
  "pw_note_counter app counter =
     (let app1 =
        (if pw_have_last_counter app then
           (let expected = pw_last_counter app + 1
            in if counter \<noteq> expected
               then (let gap = counter - expected
                     in app\<lparr>pw_lost_packets := pw_lost_packets app + (if gap < 32768 then ucast gap else 1)\<rparr>)
               else app)
         else app)
      in app1\<lparr>pw_last_counter := counter, pw_have_last_counter := True\<rparr>)"

text \<open>What \<open>poll\<close> and \<open>recv\<close> return in one iteration; a datagram is cut to the buffer.\<close>

datatype poll_result = PollInterrupted | PollError | PollTimeout | PollReady
datatype recv_result = RecvInterrupted | RecvError | RecvBytes "u8 list"

record thread_state =
  th_app :: ReacPw
  th_packet_bytes :: "u8 list"
  th_storage :: storage
  th_interleaved :: "rat list"

definition capture_error :: "thread_state \<Rightarrow> thread_state" where
  "capture_error s = s\<lparr>th_app := (th_app s)\<lparr>pw_capture_errors := pw_capture_errors (th_app s) + 1\<rparr>\<rparr>"

definition malformed :: "thread_state \<Rightarrow> thread_state" where
  "malformed s = s\<lparr>th_app := (th_app s)\<lparr>pw_malformed_packets := pw_malformed_packets (th_app s) + 1\<rparr>\<rparr>"

text \<open>The loop body after a successful \<open>recv\<close> of \<open>bytes_read\<close> bytes.\<close>

definition thread_packet :: "u64 \<Rightarrow> thread_state \<Rightarrow> thread_state option" where
  "thread_packet bytes_read s =
     do { (parse_status, view_ptr) \<leftarrow> reac_parse_packet (Some (th_packet_bytes s)) bytes_read (Some empty_view);
          let app = th_app s
          in if parse_status = REAC_STATUS_NOT_REAC
             then Some (s\<lparr>th_app := app\<lparr>pw_non_reac_packets := pw_non_reac_packets app + 1\<rparr>\<rparr>)
             else if parse_status \<noteq> REAC_STATUS_OK then Some (malformed s)
             else do {
               packet \<leftarrow> view_ptr;
               if pv_channels packet \<noteq> pw_channels app then Some (malformed s)
               else do {
                 (decode_status, ptrs) \<leftarrow> reac_decode_samples_to_channels (pv_payload packet) (pv_payload_size packet)
                     (pv_channels packet) REAC_FRAMES_PER_PACKET (Some (channel_ptrs (th_storage s)));
                 outs \<leftarrow> ptrs;
                 let s = s\<lparr>th_storage := storage_of outs\<rparr>
                 in if decode_status \<noteq> REAC_STATUS_OK then Some (malformed s)
                    else do {
                      interleaved \<leftarrow> interleave_packet (th_interleaved s) (th_storage s) (pw_channels app) 12;
                      (ring, rc) \<leftarrow> audio_ring_write (pw_ring app) interleaved REAC_FRAMES_PER_PACKET;
                      let s = s\<lparr>th_interleaved := interleaved\<rparr>;
                          app = app\<lparr>pw_ring := ring\<rparr>
                      in if rc \<noteq> 0
                         then Some (s\<lparr>th_app := app\<lparr>pw_ring_overruns := pw_ring_overruns app + 1\<rparr>\<rparr>)
                         else let app = pw_note_counter app (pv_counter packet)
                              in Some (s\<lparr>th_app := app\<lparr>pw_received_packets := pw_received_packets app + 1\<rparr>\<rparr>) } } } }"

definition thread_iteration :: "poll_result \<Rightarrow> recv_result \<Rightarrow> thread_state \<Rightarrow> thread_state option" where
  "thread_iteration poll recv s =
     (case poll of
        PollInterrupted \<Rightarrow> Some s
      | PollError \<Rightarrow> Some (capture_error s)
      | PollTimeout \<Rightarrow> Some s
      | PollReady \<Rightarrow>
          (case recv of
             RecvInterrupted \<Rightarrow> Some s
           | RecvError \<Rightarrow> Some (capture_error s)
           | RecvBytes datagram \<Rightarrow>
               let got = take 2048 datagram
               in thread_packet (of_nat (length got)) (s\<lparr>th_packet_bytes := splice (th_packet_bytes s) 0 got\<rparr>)))"

text \<open>The loop runs while \<open>running\<close> is set; between iterations PipeWire may read the ring.\<close>

fun capture_thread_main :: "(poll_result \<times> recv_result) list \<Rightarrow> thread_state \<Rightarrow> thread_state option" where
  "capture_thread_main [] s = Some s"
| "capture_thread_main ((poll, recv) # evs) s =
     (if pw_running (th_app s) then thread_iteration poll recv s \<bind> capture_thread_main evs else Some s)"

section \<open>The process callback\<close>

text \<open>
  The buffer PipeWire hands out: its data pointer (a list of \<open>maxsize div 4\<close> samples or null),
  whether it has a chunk, and the number of frames requested.
\<close>

record pw_buffer =
  b_n_datas :: u32
  b_data :: "rat list option"
  b_has_chunk :: bool
  b_maxsize :: u32
  b_requested :: u64
  b_chunk_offset :: u32
  b_chunk_stride :: u32
  b_chunk_size :: u32

text \<open>The number of frames to deliver: what fits, or less when less is requested.\<close>

definition process_frames :: "u64 \<Rightarrow> pw_buffer \<Rightarrow> u64" where
  "process_frames stride b =
     (let frames = ucast (b_maxsize b) div stride
      in if b_requested b > 0 \<and> b_requested b < frames then b_requested b else frames)"

text \<open>
  The result is the queued buffer; \<open>None\<close> as a buffer means that none was dequeued.
\<close>

definition on_process :: "ReacPw \<Rightarrow> pw_buffer option \<Rightarrow> (ReacPw \<times> pw_buffer option) option" where
  "on_process app buffer =
     (case buffer of
        None \<Rightarrow> Some (app, None)
      | Some b \<Rightarrow>
          (case b_data b of
             None \<Rightarrow> Some (app, Some b)
           | Some data \<Rightarrow>
               if b_n_datas b = 0 \<or> \<not> b_has_chunk b then Some (app, Some b)
               else let stride = ucast (pw_channels app) * 4 :: u64
                    in if stride = 0 then None
                       else let frames = process_frames stride b
                            in do {
                              (ring, out, read_frames) \<leftarrow> audio_ring_read (pw_ring app) data frames;
                              let app = app\<lparr>pw_ring := ring\<rparr>;
                                  app = (if read_frames < frames
                                         then app\<lparr>pw_pipewire_underruns := pw_pipewire_underruns app + 1\<rparr> else app)
                              in Some (app, Some (b\<lparr>b_data := Some out, b_chunk_offset := 0,
                                   b_chunk_stride := ucast stride, b_chunk_size := ucast (frames * stride)\<rparr>)) }))"

definition do_quit :: "ReacPw \<Rightarrow> ReacPw" where
  "do_quit app = app\<lparr>pw_running := False\<rparr>"

section \<open>Interfaces and the capture socket\<close>

text \<open>\<open>None\<close> as a list is a failing \<open>getifaddrs\<close>, \<open>None\<close> as a number a failing \<open>scanf\<close>.\<close>

definition choose_interface :: "ifaddr list option \<Rightarrow> int option \<Rightarrow> nat \<Rightarrow> string option" where
  "choose_interface ifs input name_size =
     (case ifs of
        None \<Rightarrow> None
      | Some ifs \<Rightarrow>
          let shown = int (length (shown_interfaces ifs))
          in if shown = 0 then None
             else (case input of
                     None \<Rightarrow> None
                   | Some selected \<Rightarrow>
                       if selected < 1 \<or> selected > shown then None
                       else map_option (take (name_size - 1)) (find_interface selected 0 ifs)))"

record socket_setup =
  so_socket_ok :: bool
  so_ifindex :: nat
  so_bind_ok :: bool

text \<open>The result says whether a descriptor is returned and whether one is still open.\<close>

definition open_capture_socket :: "socket_setup \<Rightarrow> bool \<times> bool" where
  "open_capture_socket env =
     (if \<not> so_socket_ok env then (False, False)
      else if so_ifindex env = 0 then (False, False)
      else if \<not> so_bind_ok env then (False, False)
      else (True, True))"

section \<open>The command line\<close>

definition pw_initial :: ReacPw where
  "pw_initial =
     \<lparr>pw_ring = null_ring, pw_channels = 40, pw_interface = [], pw_running = True, pw_received_packets = 0,
      pw_non_reac_packets = 0, pw_malformed_packets = 0, pw_lost_packets = 0, pw_capture_errors = 0,
      pw_ring_overruns = 0, pw_pipewire_underruns = 0, pw_last_counter = 0, pw_have_last_counter = False\<rparr>"

fun pw_parse_args :: "string list \<Rightarrow> ReacPw \<Rightarrow> int + ReacPw" where
  "pw_parse_args [] app = Inr app"
| "pw_parse_args (a # rest) app =
     (if a = ''-i'' \<and> rest \<noteq> [] then pw_parse_args (tl rest) (app\<lparr>pw_interface := take 15 (hd rest)\<rparr>)
      else if a = ''-c'' \<and> rest \<noteq> []
      then (case channels_argument (hd rest) of
              None \<Rightarrow> Inl 1
            | Some c \<Rightarrow> pw_parse_args (tl rest) (app\<lparr>pw_channels := c\<rparr>))
      else Inl 1)"

section \<open>Resources of the program\<close>

datatype resource = RingMemory | CaptureSocket | PwLibrary | MainLoop | PwStream | CaptureThread

record pw_env =
  e_interfaces :: "ifaddr list option"
  e_input :: "int option"
  e_memory :: bool
  e_socket :: socket_setup
  e_loop_ok :: bool
  e_stream_ok :: bool
  e_connect_ok :: bool
  e_thread_ok :: bool

text \<open>
  \<open>start_pipewire_stream\<close>: the return code, and whether a stream object exists afterwards.
\<close>

definition start_pipewire_stream :: "pw_env \<Rightarrow> int \<times> bool" where
  "start_pipewire_stream env =
     (if \<not> e_stream_ok env then (- 1, False)
      else if \<not> e_connect_ok env then (- 1, True)
      else (0, True))"

text \<open>The interface of the command line, or the one the user chooses.\<close>

definition capture_interface :: "pw_env \<Rightarrow> ReacPw \<Rightarrow> string option" where
  "capture_interface env app =
     (if pw_interface app = [] then choose_interface (e_interfaces env) (e_input env) 16
      else Some (pw_interface app))"

text \<open>
  \<open>main\<close> after the command line: the exit code and the resources still held at the end.  The
  PipeWire library is initialised by \<open>pw_init\<close> and released by \<open>pw_deinit\<close>.  The
  main loop runs until a signal, then the thread is joined and everything is released.
\<close>

definition pw_main :: "pw_env \<Rightarrow> ReacPw \<Rightarrow> int \<times> resource list" where
  "pw_main env app =
     (case capture_interface env app of
           None \<Rightarrow> (1, [])
         | Some interface \<Rightarrow>
             let (ring, rc) = audio_ring_init (e_memory env) (pw_channels app) 96000 :: rat AudioRing \<times> int
             in if rc \<noteq> 0 then (1, [])
                else let held = [RingMemory];
                         (fd, _) = open_capture_socket (e_socket env)
                     in if \<not> fd then (1, remove1 RingMemory held)
                        else let held = PwLibrary # CaptureSocket # held
                             in if \<not> e_loop_ok env then (1, remove1 RingMemory (remove1 CaptureSocket held))
                                else let held = MainLoop # held;
                                         (rc, stream) = start_pipewire_stream env;
                                         held = (if stream then PwStream # held else held)
                                     in if rc \<noteq> 0
                                        then (1, remove1 RingMemory (remove1 CaptureSocket (remove1 MainLoop held)))
                                        else if \<not> e_thread_ok env
                                        then (1, remove1 RingMemory (remove1 CaptureSocket (remove1 MainLoop (remove1 PwStream held))))
                                        else let held = CaptureThread # held
                                             in (0, remove1 PwLibrary (remove1 RingMemory (remove1 CaptureSocket (remove1 MainLoop
                                                  (remove1 PwStream (remove1 CaptureThread held)))))))"

section \<open>The capture thread keeps its state in order\<close>

definition pw_seen :: "ReacPw \<Rightarrow> u16 option" where
  "pw_seen app = (if pw_have_last_counter app then Some (pw_last_counter app) else None)"

interpretation pw_loss: loss_counter pw_note_counter pw_lost_packets pw_seen
  by unfold_locales (auto simp: pw_note_counter_def pw_seen_def lost_between_def Let_def)

lemma pw_note_counter_sel [simp]:
  "pw_ring (pw_note_counter app c) = pw_ring app" "pw_channels (pw_note_counter app c) = pw_channels app"
  "pw_received_packets (pw_note_counter app c) = pw_received_packets app"
  "pw_non_reac_packets (pw_note_counter app c) = pw_non_reac_packets app"
  "pw_malformed_packets (pw_note_counter app c) = pw_malformed_packets app"
  "pw_ring_overruns (pw_note_counter app c) = pw_ring_overruns app"
  "pw_running (pw_note_counter app c) = pw_running app"
  by (simp_all add: pw_note_counter_def Let_def)

definition app_ok :: "ReacPw \<Rightarrow> bool" where
  "app_ok app \<longleftrightarrow> pw_ring_ok (pw_ring app) \<and> ar_channels (pw_ring app) = pw_channels app \<and> valid_channels (pw_channels app)"

definition thread_ok :: "thread_state \<Rightarrow> bool" where
  "thread_ok s \<longleftrightarrow> app_ok (th_app s) \<and> storage_ok (th_storage s) \<and> length (th_interleaved s) = 480 \<and>
     length (th_packet_bytes s) = 2048"

definition pw_packets_counted :: "ReacPw \<Rightarrow> u64" where
  "pw_packets_counted app = pw_received_packets app + pw_non_reac_packets app + pw_malformed_packets app + pw_ring_overruns app"

lemma packet_frames_eq: "packet_frames c n st = frames_of c n st"
  by (simp add: packet_frames_def frames_of_def)

lemma length_interleave_prefix:
  "length (concat (packet_frames c n st)) = n * c"
  unfolding packet_frames_def
  using length_concat_uniform[of n "\<lambda>i. map (\<lambda>ch. st ! ch ! i) [0..<c]" c] by (simp add: mult.commute)

text \<open>Interleaving twelve decoded frames gives a block whose frames are the audio of the packet.\<close>

lemma interleave_storage:
  assumes st: "storage_ok st" and buf: "length buf = 480" and c: "unat c \<le> 40"
  shows "\<exists>out. interleave_packet buf st c 12 = Some out \<and> length out = 480 \<and>
    deinterleaved (unat c) 12 out = frames_of (unat c) 12 st"
proof -
  have "12 * unat c \<le> length buf" using buf c by simp
  from interleave_packet_spec[OF this, of st] st c have
    r: "interleave_packet buf st c 12 = Some (concat (packet_frames (unat c) 12 st) @ drop (12 * unat c) buf)"
    by (simp add: storage_ok_def)
  have f: "\<forall>f \<in> set (packet_frames (unat c) 12 st). length f = unat c" by (auto simp: packet_frames_def)
  have "deinterleaved (unat c) 12 (concat (packet_frames (unat c) 12 st) @ drop (12 * unat c) buf) = frames_of (unat c) 12 st"
    using deinterleaved_append[OF length_interleave_prefix, of "unat c" 12 st "drop (12 * unat c) buf"] deinterleaved_concat[OF f] by (simp add: packet_frames_eq)
  with r show ?thesis using buf c by (simp add: length_interleave_prefix)
qed

text \<open>Parsing, decoding and interleaving such a packet.\<close>

lemma decode_and_interleave:
  assumes ok: "thread_ok s" and size: "unat n \<le> 2048"
    and good: "packet_status (th_packet_bytes s) (unat n) = REAC_STATUS_OK"
    and ch: "pv_channels (packet_view (th_packet_bytes s) (unat n)) = pw_channels (th_app s)"
  defines "view \<equiv> packet_view (th_packet_bytes s) (unat n)" and "c \<equiv> pw_channels (th_app s)"
  shows "\<exists>ptrs out. reac_parse_packet (Some (th_packet_bytes s)) n (Some empty_view) = Some (REAC_STATUS_OK, Some view) \<and>
    reac_decode_samples_to_channels (pv_payload view) (pv_payload_size view) c 12 (Some (channel_ptrs (th_storage s))) =
      Some (REAC_STATUS_OK, Some ptrs) \<and> storage_ok (storage_of ptrs) \<and>
    interleave_packet (th_interleaved s) (storage_of ptrs) c 12 = Some out \<and> length out = 480 \<and>
    deinterleaved (unat c) 12 out = packet_audio (drop 50 (th_packet_bytes s)) (unat c)"
proof -
  have okd: "valid_channels c" "storage_ok (th_storage s)" "length (th_interleaved s) = 480" "length (th_packet_bytes s) = 2048"
    using ok by (auto simp: thread_ok_def app_ok_def c_def)
  have c40: "unat c \<le> 40" using okd(1) by (simp add: valid_channels_def)
  have sz: "unat n \<le> length (th_packet_bytes s)" using size okd(4) by simp
  have ch': "pv_channels view = c" using ch by (simp add: view_def c_def)
  have parse: "reac_parse_packet (Some (th_packet_bytes s)) n (Some empty_view) = Some (REAC_STATUS_OK, Some view)"
    using parse_reference[OF sz] good by (simp add: view_def)
  from decode_accepted[OF sz okd(2) parse] obtain ptrs where
    dec: "reac_decode_samples_to_channels (pv_payload view) (pv_payload_size view) c 12
        (Some (channel_ptrs (th_storage s))) = Some (REAC_STATUS_OK, Some ptrs)" "storage_ok (storage_of ptrs)"
      "frames_of (unat c) 12 (storage_of ptrs) = packet_audio (drop 50 (th_packet_bytes s)) (unat c)"
    unfolding ch' by blast
  from interleave_storage[OF dec(2) okd(3) c40] parse dec show ?thesis by metis
qed

text \<open>A well-formed packet with the channel count of the ring.\<close>

lemma thread_packet_good:
  assumes ok: "thread_ok s" and size: "unat n \<le> 2048" and good: "packet_status (th_packet_bytes s) (unat n) = REAC_STATUS_OK"
    and ch: "pv_channels (packet_view (th_packet_bytes s) (unat n)) = pw_channels (th_app s)"
    and pos: "pw_wpos (pw_ring (th_app s)) + 12 < 2 ^ 64"
  shows "\<exists>s'. thread_packet n s = Some s' \<and> thread_ok s' \<and> pw_running (th_app s') = pw_running (th_app s) \<and>
    ar_capacity_frames (pw_ring (th_app s')) = ar_capacity_frames (pw_ring (th_app s)) \<and>
    (if pw_fill (pw_ring (th_app s)) + 12 \<le> pw_cap (pw_ring (th_app s))
     then pw_frames (pw_ring (th_app s')) = pw_frames (pw_ring (th_app s)) @
            packet_audio (drop 50 (th_packet_bytes s)) (unat (pw_channels (th_app s))) \<and>
          pw_wpos (pw_ring (th_app s')) = pw_wpos (pw_ring (th_app s)) + 12 \<and>
          th_app s' = (pw_note_counter (th_app s) (pv_counter (packet_view (th_packet_bytes s) (unat n))))
            \<lparr>pw_ring := pw_ring (th_app s'), pw_received_packets := pw_received_packets (th_app s) + 1\<rparr>
     else th_app s' = (th_app s)\<lparr>pw_ring_overruns := pw_ring_overruns (th_app s) + 1\<rparr>)"
proof -
  define view where "view = packet_view (th_packet_bytes s) (unat n)"
  let ?app = "th_app s" and ?r = "pw_ring (th_app s)"
  have okd: "pw_ring_ok ?r" "ar_channels ?r = pw_channels ?app" "valid_channels (pw_channels ?app)" "storage_ok (th_storage s)"
    "length (th_interleaved s) = 480" "length (th_packet_bytes s) = 2048" using ok by (auto simp: thread_ok_def app_ok_def)
  have c40: "unat (pw_channels ?app) \<le> 40" using okd(3) by (simp add: valid_channels_def)
  from decode_and_interleave[OF ok size good ch] obtain ptrs out where
    parse: "reac_parse_packet (Some (th_packet_bytes s)) n (Some empty_view) = Some (REAC_STATUS_OK, Some view)" and
    dec: "reac_decode_samples_to_channels (pv_payload view) (pv_payload_size view) (pw_channels ?app) 12
        (Some (channel_ptrs (th_storage s))) = Some (REAC_STATUS_OK, Some ptrs)" "storage_ok (storage_of ptrs)" and
    il: "interleave_packet (th_interleaved s) (storage_of ptrs) (pw_channels ?app) 12 = Some out" "length out = 480"
      "deinterleaved (unat (pw_channels ?app)) 12 out =
        packet_audio (drop 50 (th_packet_bytes s)) (unat (pw_channels ?app))"
    unfolding view_def by blast
  have ch': "pv_channels view = pw_channels ?app" using ch by (simp add: view_def)
  let ?s1 = "s\<lparr>th_storage := storage_of ptrs, th_interleaved := out\<rparr>"
  show ?thesis
  proof (cases "pw_fill ?r + 12 \<le> pw_cap ?r")
    case True
    have "unat (12 :: u64) * pw_chans ?r \<le> length out" using il(2) okd(2) c40 by simp
    from audio_ring_write_accepts[OF okd(1) this] pos True obtain smp' where
      w: "audio_ring_write ?r out 12 = Some (?r\<lparr>ar_samples := Some smp', ar_write_pos := ar_write_pos ?r + 12\<rparr>, 0)"
        "pw_ring_ok (?r\<lparr>ar_samples := Some smp', ar_write_pos := ar_write_pos ?r + 12\<rparr>)"
        "pw_frames (?r\<lparr>ar_samples := Some smp', ar_write_pos := ar_write_pos ?r + 12\<rparr>) =
          pw_frames ?r @ deinterleaved (pw_chans ?r) 12 out" by auto
    let ?r' = "?r\<lparr>ar_samples := Some smp', ar_write_pos := ar_write_pos ?r + 12\<rparr>"
    let ?s' = "?s1\<lparr>th_app := (pw_note_counter (?app\<lparr>pw_ring := ?r'\<rparr>) (pv_counter view))\<lparr>pw_received_packets := pw_received_packets ?app + 1\<rparr>\<rparr>"
    have wp: "unat (ar_write_pos ?r + 12) = pw_wpos ?r + 12" using pos by (simp add: unat_add_nowrap)
    have nc: "pw_note_counter (?app\<lparr>pw_ring := ?r'\<rparr>) c = (pw_note_counter ?app c)\<lparr>pw_ring := ?r'\<rparr>" for c
      by (simp add: pw_note_counter_def Let_def)
    have "thread_packet n s = Some ?s'"
      using parse ch' dec(1) il(1) w(1) by (simp add: thread_packet_def Let_def)
    moreover have "pw_frames ?r' = pw_frames ?r @ packet_audio (drop 50 (th_packet_bytes s)) (unat (pw_channels ?app))"
      using w(3) il(3) okd(2) by simp
    ultimately show ?thesis
      using True okd dec(2) il(2) w(2) wp by (intro exI [of _ ?s']) (simp add: thread_ok_def app_ok_def nc view_def [symmetric])
  next
    case False
    then have w: "audio_ring_write ?r out 12 = Some (?r, - 1)"
      using audio_ring_write_rejects[OF okd(1), of 12 out] by simp
    let ?s' = "?s1\<lparr>th_app := ?app\<lparr>pw_ring_overruns := pw_ring_overruns ?app + 1\<rparr>\<rparr>"
    have "thread_packet n s = Some ?s'" using parse ch' dec(1) il(1) w by (simp add: thread_packet_def Let_def)
    with False okd dec(2) il(2) show ?thesis by (intro exI [of _ ?s']) (simp add: thread_ok_def app_ok_def)
  qed
qed

lemma thread_packet_total:
  assumes ok: "thread_ok s" and size: "unat n \<le> 2048" and pos: "pw_wpos (pw_ring (th_app s)) + 12 < 2 ^ 64"
  shows "\<exists>s'. thread_packet n s = Some s' \<and> thread_ok s' \<and> pw_wpos (pw_ring (th_app s')) \<le> pw_wpos (pw_ring (th_app s)) + 12 \<and>
    pw_running (th_app s') = pw_running (th_app s) \<and> pw_packets_counted (th_app s') = pw_packets_counted (th_app s) + 1"
proof -
  have sz: "unat n \<le> length (th_packet_bytes s)" using size ok by (simp add: thread_ok_def)
  note pr = parse_reference[OF sz]
  consider (bad) "packet_status (th_packet_bytes s) (unat n) \<noteq> REAC_STATUS_OK"
    | (mismatch) "packet_status (th_packet_bytes s) (unat n) = REAC_STATUS_OK"
        "pv_channels (packet_view (th_packet_bytes s) (unat n)) \<noteq> pw_channels (th_app s)"
    | (good) "packet_status (th_packet_bytes s) (unat n) = REAC_STATUS_OK"
        "pv_channels (packet_view (th_packet_bytes s) (unat n)) = pw_channels (th_app s)" by blast
  then show ?thesis
  proof cases
    case bad
    then show ?thesis using pr ok
      by (cases "packet_status (th_packet_bytes s) (unat n) = REAC_STATUS_NOT_REAC")
        (auto simp: thread_packet_def Let_def malformed_def thread_ok_def app_ok_def pw_packets_counted_def)
  next
    case mismatch
    then show ?thesis using pr ok
      by (auto simp: thread_packet_def Let_def malformed_def thread_ok_def app_ok_def pw_packets_counted_def)
  next
    case good
    from thread_packet_good[OF ok size good pos] obtain s' where
      s': "thread_packet n s = Some s'" "thread_ok s'" "pw_running (th_app s') = pw_running (th_app s)" and
      d: "if pw_fill (pw_ring (th_app s)) + 12 \<le> pw_cap (pw_ring (th_app s))
       then pw_wpos (pw_ring (th_app s')) = pw_wpos (pw_ring (th_app s)) + 12 \<and>
          th_app s' = (pw_note_counter (th_app s) (pv_counter (packet_view (th_packet_bytes s) (unat n))))
            \<lparr>pw_ring := pw_ring (th_app s'), pw_received_packets := pw_received_packets (th_app s) + 1\<rparr>
       else th_app s' = (th_app s)\<lparr>pw_ring_overruns := pw_ring_overruns (th_app s) + 1\<rparr>"
      by (auto split: if_splits)
    have cnt: "pw_packets_counted (th_app s') = pw_packets_counted (th_app s) + 1"
    proof (cases "pw_fill (pw_ring (th_app s)) + 12 \<le> pw_cap (pw_ring (th_app s))")
      case True
      with d have e: "th_app s' = (pw_note_counter (th_app s) (pv_counter (packet_view (th_packet_bytes s) (unat n))))
            \<lparr>pw_ring := pw_ring (th_app s'), pw_received_packets := pw_received_packets (th_app s) + 1\<rparr>" by simp
      show ?thesis by (subst e) (simp add: pw_packets_counted_def)
    qed (use d in \<open>simp add: pw_packets_counted_def\<close>)
    have "pw_wpos (pw_ring (th_app s')) \<le> pw_wpos (pw_ring (th_app s)) + 12" using d by (auto split: if_splits)
    with s' cnt show ?thesis by blast
  qed
qed

lemma thread_iteration_total:
  assumes ok: "thread_ok s" and pos: "pw_wpos (pw_ring (th_app s)) + 12 < 2 ^ 64"
  shows "\<exists>s'. thread_iteration poll recv s = Some s' \<and> thread_ok s' \<and>
    pw_wpos (pw_ring (th_app s')) \<le> pw_wpos (pw_ring (th_app s)) + 12 \<and> pw_running (th_app s') = pw_running (th_app s) \<and>
    pw_packets_counted (th_app s') = pw_packets_counted (th_app s) +
      (case (poll, recv) of (PollReady, RecvBytes _) \<Rightarrow> 1 | _ \<Rightarrow> 0)"
proof -
  have err: "thread_ok (capture_error s)" "pw_packets_counted (th_app (capture_error s)) = pw_packets_counted (th_app s)"
    "pw_wpos (pw_ring (th_app (capture_error s))) = pw_wpos (pw_ring (th_app s))" "pw_running (th_app (capture_error s)) = pw_running (th_app s)"
    using ok by (simp_all add: capture_error_def thread_ok_def app_ok_def pw_packets_counted_def)
  have pkt: "\<exists>s'. thread_packet (of_nat (length (take 2048 dg))) (s\<lparr>th_packet_bytes := splice (th_packet_bytes s) 0 (take 2048 dg)\<rparr>) = Some s' \<and>
      thread_ok s' \<and> pw_wpos (pw_ring (th_app s')) \<le> pw_wpos (pw_ring (th_app s)) + 12 \<and> pw_running (th_app s') = pw_running (th_app s) \<and>
      pw_packets_counted (th_app s') = pw_packets_counted (th_app s) + 1" for dg :: "u8 list"
  proof -
    let ?s = "s\<lparr>th_packet_bytes := splice (th_packet_bytes s) 0 (take 2048 dg)\<rparr>"
    have "thread_ok ?s" using ok by (simp add: thread_ok_def)
    moreover have "unat (of_nat (length (take 2048 dg)) :: u64) \<le> 2048" by (subst unat_of_nat_small) simp_all
    ultimately show ?thesis using thread_packet_total[of ?s] pos by simp
  qed
  show ?thesis using err ok pkt
    by (cases poll; cases recv) (auto simp: thread_iteration_def Let_def)
qed

fun datagrams :: "(poll_result \<times> recv_result) list \<Rightarrow> nat" where
  "datagrams [] = 0"
| "datagrams ((PollReady, RecvBytes d) # evs) = Suc (datagrams evs)"
| "datagrams (e # evs) = datagrams evs"

lemma datagrams_Cons:
  "(of_nat (datagrams ((poll, recv) # evs)) :: u64) =
     (case (poll, recv) of (PollReady, RecvBytes _) \<Rightarrow> 1 | _ \<Rightarrow> 0) + of_nat (datagrams evs)"
  by (cases poll; cases recv) auto

lemma capture_thread_total:
  assumes "thread_ok s" "pw_running (th_app s)" "pw_wpos (pw_ring (th_app s)) + 12 * length evs < 2 ^ 64"
  shows "\<exists>s'. capture_thread_main evs s = Some s' \<and> thread_ok s' \<and>
    pw_packets_counted (th_app s') = pw_packets_counted (th_app s) + of_nat (datagrams evs)"
  using assms
proof (induction evs arbitrary: s)
  case (Cons e evs)
  obtain poll recv where e: "e = (poll, recv)" by fastforce
  have "pw_wpos (pw_ring (th_app s)) + 12 < 2 ^ 64" using Cons.prems(3) by simp
  from thread_iteration_total[OF Cons.prems(1) this, of poll recv] obtain s1 where
    s1: "thread_iteration poll recv s = Some s1" "thread_ok s1"
      "pw_wpos (pw_ring (th_app s1)) \<le> pw_wpos (pw_ring (th_app s)) + 12" "pw_running (th_app s1) = pw_running (th_app s)"
      "pw_packets_counted (th_app s1) = pw_packets_counted (th_app s) +
        (case (poll, recv) of (PollReady, RecvBytes _) \<Rightarrow> 1 | _ \<Rightarrow> 0)" by blast
  have "pw_wpos (pw_ring (th_app s1)) + 12 * length evs < 2 ^ 64" using Cons.prems(3) s1(3) by simp
  from Cons.IH[OF s1(2) _ this] s1(4) Cons.prems(2) obtain s' where
    "capture_thread_main evs s1 = Some s'" "thread_ok s'"
    "pw_packets_counted (th_app s') = pw_packets_counted (th_app s1) + of_nat (datagrams evs)" by auto
  with s1(1,5) Cons.prems(2) show ?case unfolding e datagrams_Cons by (simp add: add.assoc)
qed simp

section \<open>Properties\<close>

text \<open>A received packet reaches PipeWire's ring: for a well-formed packet with the configured channel
  count its twelve frames are appended to the ring and its counter is noted, or, when the ring
  is full, exactly the overrun counter grows.\<close>

theorem pw_packet_reaches_ring:
  assumes "thread_ok s" "unat n \<le> 2048" "packet_status (th_packet_bytes s) (unat n) = REAC_STATUS_OK"
    "pv_channels (packet_view (th_packet_bytes s) (unat n)) = pw_channels (th_app s)"
    "pw_wpos (pw_ring (th_app s)) + 12 < 2 ^ 64"
  shows "\<exists>s'. thread_packet n s = Some s' \<and> thread_ok s' \<and> pw_running (th_app s') = pw_running (th_app s) \<and>
    ar_capacity_frames (pw_ring (th_app s')) = ar_capacity_frames (pw_ring (th_app s)) \<and>
    (if pw_fill (pw_ring (th_app s)) + 12 \<le> pw_cap (pw_ring (th_app s))
     then pw_frames (pw_ring (th_app s')) = pw_frames (pw_ring (th_app s)) @
            packet_audio (drop 50 (th_packet_bytes s)) (unat (pw_channels (th_app s))) \<and>
          pw_wpos (pw_ring (th_app s')) = pw_wpos (pw_ring (th_app s)) + 12 \<and>
          th_app s' = (pw_note_counter (th_app s) (pv_counter (packet_view (th_packet_bytes s) (unat n))))
            \<lparr>pw_ring := pw_ring (th_app s'), pw_received_packets := pw_received_packets (th_app s) + 1\<rparr>
     else th_app s' = (th_app s)\<lparr>pw_ring_overruns := pw_ring_overruns (th_app s) + 1\<rparr>)"
  using assms by (rule thread_packet_good)

definition small_thread :: thread_state where
  "small_thread = \<lparr>th_app = pw_initial\<lparr>pw_channels := 2, pw_ring := \<lparr>ar_samples = Some (replicate 48 0), ar_capacity_frames = 24,
      ar_channels = 2, ar_read_pos = 0, ar_write_pos = 0\<rparr>\<rparr>, th_packet_bytes = silent_packet @ replicate 1924 0,
     th_storage = replicate 40 (replicate 12 0), th_interleaved = replicate 480 0\<rparr>"

lemma small_thread_facts: "thread_ok small_thread" "pw_running (th_app small_thread)" "pw_wpos (pw_ring (th_app small_thread)) = 0"
  "pw_channels (th_app small_thread) = 2" "pw_frames (pw_ring (th_app small_thread)) = []" "pw_fill (pw_ring (th_app small_thread)) = 0"
  "pw_cap (pw_ring (th_app small_thread)) = 24"
  by (simp_all add: small_thread_def thread_ok_def app_ok_def pw_initial_def pw_ring_ok_def valid_channels_def storage_ok_def
      silent_packet_def length_make_packet pw_frames_def pw_fill_def)

theorem pw_packet_reaches_ring_witness:
  "\<exists>s'. thread_packet 124 small_thread = Some s' \<and> thread_ok s' \<and>
     pw_frames (pw_ring (th_app s')) = packet_audio (drop 50 (th_packet_bytes small_thread)) 2"
proof -
  have "packet_status (th_packet_bytes small_thread) 124 = REAC_STATUS_OK"
    unfolding small_thread_def silent_packet_def by code_simp
  moreover have "pv_channels (packet_view (th_packet_bytes small_thread) 124) = 2" by (simp add: packet_view_def)
  ultimately show ?thesis
    using pw_packet_reaches_ring[OF small_thread_facts(1), of 124] by (auto simp: small_thread_facts)
qed

text \<open>C30. The capture thread never fails and counts each datagram exactly once, as received, foreign,
  malformed or overrun, for every sequence of poll and receive results.\<close>

theorem capture_thread_accounts:
  assumes "thread_ok s" "pw_running (th_app s)" "pw_wpos (pw_ring (th_app s)) + 12 * length evs < 2 ^ 64"
  shows "\<exists>s'. capture_thread_main evs s = Some s' \<and> thread_ok s' \<and>
    pw_packets_counted (th_app s') = pw_packets_counted (th_app s) + of_nat (datagrams evs)"
  using assms by (rule capture_thread_total)

theorem capture_thread_accounts_witness:
  "\<exists>s'. capture_thread_main [(PollReady, RecvBytes silent_packet), (PollError, RecvError), (PollReady, RecvBytes [1])] small_thread =
     Some s' \<and> pw_packets_counted (th_app s') = 2"
proof -
  have "pw_packets_counted (th_app small_thread) = 0" by (simp add: small_thread_def pw_initial_def pw_packets_counted_def)
  with capture_thread_accounts[OF small_thread_facts(1,2),
      of "[(PollReady, RecvBytes silent_packet), (PollError, RecvError), (PollReady, RecvBytes [1])]"]
  show ?thesis by (auto simp: small_thread_facts(3) simp del: capture_thread_main.simps)
qed

text \<open>The process callback with a buffer that has data.\<close>

lemma on_process_total:
  assumes "app_ok app" "b_data b = Some data" "b_n_datas b \<noteq> 0" "b_has_chunk b" "length data = unat (b_maxsize b) div 4"
  defines "room \<equiv> unat (b_maxsize b) div (4 * unat (pw_channels app))"
  defines "frames \<equiv> if 0 < unat (b_requested b) \<and> unat (b_requested b) < room then unat (b_requested b) else room"
  shows "\<exists>app' b'. on_process app (Some b) = Some (app', Some b') \<and> app_ok app' \<and>
    b_data b' = Some (concat (take frames (pw_frames (pw_ring app))) @
      replicate ((frames - pw_fill (pw_ring app)) * unat (pw_channels app)) 0 @ drop (frames * unat (pw_channels app)) data) \<and>
    unat (b_chunk_size b') = frames * (4 * unat (pw_channels app)) \<and> unat (b_chunk_size b') \<le> unat (b_maxsize b) \<and>
    pw_frames (pw_ring app') = drop frames (pw_frames (pw_ring app)) \<and>
    pw_pipewire_underruns app' = pw_pipewire_underruns app + (if pw_fill (pw_ring app) < frames then 1 else 0) \<and>
    pw_ring app' = pw_advance (pw_ring app) frames \<and> pw_channels app' = pw_channels app"
proof -
  let ?c = "unat (pw_channels app)" and ?r = "pw_ring app"
  have ok: "pw_ring_ok ?r" "ar_channels ?r = pw_channels app" "0 < ?c" "?c \<le> 40" using assms(1) by (auto simp: app_ok_def valid_channels_def)
  define stride where "stride = (ucast (pw_channels app) * 4 :: u64)"
  have stride: "unat stride = 4 * ?c" using ok(4) by (simp add: stride_def unat_word_ariths)
  define f where "f = process_frames stride b"
  have f0: "unat (ucast (b_maxsize b) div stride) = room" by (simp add: unat_div stride room_def)
  have f: "unat f = frames" unfolding f_def process_frames_def Let_def frames_def f0 [symmetric] by (simp add: word_less_nat_alt)
  have fr: "frames \<le> room" by (simp add: frames_def)
  then have "frames * (4 * ?c) \<le> room * (4 * ?c)" by (rule mult_le_mono1)
  also have "\<dots> \<le> unat (b_maxsize b)" unfolding room_def by (rule div_times_less_eq_dividend)
  finally have size: "frames * (4 * ?c) \<le> unat (b_maxsize b)" .
  have len: "unat f * pw_chans ?r \<le> length data" using size by (simp add: f ok(2) assms(5) less_eq_div_iff_mult_less_eq ac_simps)
  have small: "unat f * pw_chans ?r < 2 ^ 62" using size unat_u32_bound[of "b_maxsize b"] by (simp add: f ok(2) del: unat_u32_bound)
  note rd = audio_ring_read_spec[OF ok(1) len small]
  have fs: "unat (f * stride) = frames * (4 * ?c)"
    using size unat_u32_bound[of "b_maxsize b"] by (simp add: unat_word_ariths f stride del: unat_u32_bound)
  then have cs: "unat (ucast (f * stride) :: u32) = frames * (4 * ?c)"
    using size unat_u32_bound[of "b_maxsize b"] by (simp add: unat_u32_of_u64 del: unat_u32_bound)
  have got: "of_nat (min (unat f) (pw_fill ?r)) < f \<longleftrightarrow> pw_fill ?r < frames"
  proof -
    have "unat (of_nat (min (unat f) (pw_fill ?r)) :: u64) = min (unat f) (pw_fill ?r)"
      using le_less_trans[OF _ unat_u64_bound, of "min (unat f) (pw_fill ?r)" f] by (intro unat_of_nat_small) simp
    then show ?thesis by (auto simp: word_less_nat_alt f)
  qed
  have ch: "ar_channels (pw_advance ?r k) = pw_channels app" for k by (simp add: pw_advance_def ok(2))
  have "stride \<noteq> 0" using stride ok(3) by (auto simp: word_unat_eq_iff)
  then show ?thesis
    using rd assms(1-4) pw_advance_spec[OF ok(1), of frames] got cs size ch
    by (auto simp: on_process_def stride_def [symmetric] f_def [symmetric] f ok(2) app_ok_def)
qed

text \<open>C32. The process callback fills exactly the requested part of PipeWire's buffer: the oldest frames of
  the ring, then silence; the reported size is a whole number of frames inside the buffer, and
  an underrun is counted exactly when frames were missing.\<close>

theorem on_process_fills_buffer:
  assumes "app_ok app" "b_data b = Some data" "b_n_datas b \<noteq> 0" "b_has_chunk b" "length data = unat (b_maxsize b) div 4"
  defines "room \<equiv> unat (b_maxsize b) div (4 * unat (pw_channels app))"
  defines "frames \<equiv> if 0 < unat (b_requested b) \<and> unat (b_requested b) < room then unat (b_requested b) else room"
  shows "\<exists>app' b'. on_process app (Some b) = Some (app', Some b') \<and> app_ok app' \<and>
    b_data b' = Some (concat (take frames (pw_frames (pw_ring app))) @
      replicate ((frames - pw_fill (pw_ring app)) * unat (pw_channels app)) 0 @ drop (frames * unat (pw_channels app)) data) \<and>
    unat (b_chunk_size b') = frames * (4 * unat (pw_channels app)) \<and> unat (b_chunk_size b') \<le> unat (b_maxsize b) \<and>
    pw_frames (pw_ring app') = drop frames (pw_frames (pw_ring app)) \<and>
    pw_pipewire_underruns app' = pw_pipewire_underruns app + (if pw_fill (pw_ring app) < frames then 1 else 0)"
  using on_process_total[OF assms(1-5)] unfolding room_def frames_def by metis

definition small_buffer :: pw_buffer where
  "small_buffer = \<lparr>b_n_datas = 1, b_data = Some (replicate 8 9), b_has_chunk = True, b_maxsize = 32, b_requested = 3,
     b_chunk_offset = 7, b_chunk_stride = 7, b_chunk_size = 7\<rparr>"

theorem on_process_fills_buffer_witness:
  "\<exists>app' b'. on_process (th_app small_thread) (Some small_buffer) = Some (app', Some b') \<and>
     b_data b' = Some [0, 0, 0, 0, 0, 0, 9, 9] \<and> unat (b_chunk_size b') = 24 \<and> pw_pipewire_underruns app' = 1"
proof -
  have ok: "app_ok (th_app small_thread)" using small_thread_facts(1) by (simp add: thread_ok_def)
  have b: "b_data small_buffer = Some (replicate 8 9)" "b_n_datas small_buffer \<noteq> 0" "b_has_chunk small_buffer"
    "length (replicate 8 (9 :: rat)) = unat (b_maxsize small_buffer) div 4" "unat (b_maxsize small_buffer) = 32"
    "unat (b_requested small_buffer) = 3" by (simp_all add: small_buffer_def)
  have r: "replicate 6 (0 :: rat) @ replicate 2 9 = [0, 0, 0, 0, 0, 0, 9, 9]" by code_simp
  have u: "pw_pipewire_underruns (th_app small_thread) = 0" by (simp add: small_thread_def pw_initial_def)
  from on_process_fills_buffer[OF ok b(1-4)] show ?thesis
    by (auto simp: b(5,6) small_thread_facts r u)
qed

text \<open>The interface the user picks is the one on the list: entering the number of a shown interface
  selects that interface's name, cut to the size of the buffer, and any other input selects
  nothing.\<close>

theorem choose_interface_selects:
  "choose_interface (Some ifs) (Some k) 16 =
     (if 1 \<le> k \<and> k \<le> int (length (shown_interfaces ifs))
      then Some (take 15 (shown_interfaces ifs ! nat (k - 1))) else None)"
  using find_interface_nth[of 0 k ifs] by (auto simp: choose_interface_def Let_def)

text \<open>C39. Exit paths of \<open>main\<close>: it returns 0 exactly when every step succeeds, and then nothing is left
  behind; nor when it fails before the PipeWire library is initialised.  On each of the three later
  failures, of the main loop, the stream or the thread, the ring, the socket, the loop and the thread are
  released but the library is not, and when connecting the stream fails, the stream that was
  created just before is left too.\<close>

theorem pw_main_releases:
  fixes env :: pw_env and app :: ReacPw
  defines "initialised \<equiv> capture_interface env app \<noteq> None \<and> e_memory env \<and> fst (open_capture_socket (e_socket env))"
    and "succeeds \<equiv> e_loop_ok env \<and> e_stream_ok env \<and> e_connect_ok env \<and> e_thread_ok env"
  shows "pw_main env app =
    (if initialised \<and> succeeds then 0 else 1,
     if initialised \<and> \<not> succeeds
     then if e_loop_ok env \<and> e_stream_ok env \<and> \<not> e_connect_ok env then [PwStream, PwLibrary] else [PwLibrary]
     else [])"
  unfolding initialised_def succeeds_def
  by (auto simp: pw_main_def audio_ring_init_def open_capture_socket_def start_pipewire_stream_def Let_def split: option.splits)

end
