(* ===== verification/SenderStream.thy ===== *)
theory SenderStream
  imports CaptureCommon
begin

text \<open>
  A sender as the receivers see it: consecutive packets that carry one stream of 24 bit audio.  The
  packets are those of the encoder of the test suite; every receiver is verified against them.
\<close>

text \<open>A sender's packets: packet \<open>p\<close> carries the twelve frames from \<open>12 p\<close> on.\<close>

definition stream_packet :: "(nat \<Rightarrow> nat \<Rightarrow> int) \<Rightarrow> nat \<Rightarrow> nat \<Rightarrow> u8 list" where
  "stream_packet pcm C p = make_packet 0x8819 (of_nat p) (\<lambda>ch f. pcm ch (12 * p + f)) C"

lemma encode_payload_add:
  "encode_payload pcm C (a + b) = encode_payload pcm C a @ encode_payload (\<lambda>ch f. pcm ch (a + f)) C b"
proof -
  have "[0..<a + b] = [0..<a] @ map (\<lambda>f. f + a) [0..<b]" using upt_add_eq_append[of 0 a b] map_add_upt[of a b] by (simp add: add.commute)
  moreover have "encode_frame pcm C (f + a) = encode_frame (\<lambda>ch f. pcm ch (a + f)) C f" for f
    by (simp add: encode_frame_def add.commute)
  ultimately show ?thesis by (simp add: encode_payload_def comp_def)
qed

lemma stream_packet_view:
  assumes "even C" "0 < C" "C \<le> 40"
  shows "\<exists>view. reac_parse_packet (Some (stream_packet pcm C p)) (word_of_int (int (length (stream_packet pcm C p))))
      (Some empty_view) = Some (REAC_STATUS_OK, Some view) \<and> unat (pv_channels view) = C"
    "take (36 * C) (drop 50 (stream_packet pcm C p)) = encode_payload (\<lambda>ch f. pcm ch (12 * p + f)) C 12"
    "int (length (stream_packet pcm C p)) < 2 ^ 31"
proof -
  let ?pkt = "stream_packet pcm C p"
  note v = make_packet_view[OF assms, of "of_nat p" "\<lambda>ch f. pcm ch (12 * p + f)", folded stream_packet_def]
  have size: "unat (word_of_int (int (length ?pkt)) :: u64) = length ?pkt"
    using assms(3) v(4) unat_of_nat_small[of "length ?pkt", where 'a = 64] by simp
  have "unat (pv_channels (packet_view ?pkt (length ?pkt))) = C"
    using assms(3) unfolding packet_view_def v(4) by (simp add: word_nat_simps)
  then show "\<exists>view. reac_parse_packet (Some ?pkt) (word_of_int (int (length ?pkt))) (Some empty_view) =
      Some (REAC_STATUS_OK, Some view) \<and> unat (pv_channels view) = C"
    using parse_reference[of "word_of_int (int (length ?pkt))" ?pkt empty_view] v(1) size by simp
  have "length (encode_payload (\<lambda>ch f. pcm ch (12 * p + f)) C 12) = 36 * C" using assms(1) by auto
  then show "take (36 * C) (drop 50 ?pkt) = encode_payload (\<lambda>ch f. pcm ch (12 * p + f)) C 12"
    by (simp add: v(2))
  show "int (length ?pkt) < 2 ^ 31" using v(4) assms(3) by simp
qed

text \<open>What the daemon's channel storage holds after decoding a packet of the stream.\<close>

definition stream_frame :: "(nat \<Rightarrow> nat \<Rightarrow> int) \<Rightarrow> nat \<Rightarrow> nat \<Rightarrow> rat list" where
  "stream_frame pcm C f = map (\<lambda>ch. of_int (pcm ch f) / 8388608) [0..<C]"

lemma stream_packet_facts:
  assumes "even C" "0 < C" "C \<le> 40"
  shows "packet_status (stream_packet pcm C p) (length (stream_packet pcm C p)) = REAC_STATUS_OK"
    "length (stream_packet pcm C p) = 52 + 36 * C"
    "pv_channels (packet_view (stream_packet pcm C p) (length (stream_packet pcm C p))) = of_nat C"
proof -
  note v = make_packet_view[OF assms, of "of_nat p" "\<lambda>ch f. pcm ch (12 * p + f)", folded stream_packet_def]
  show "packet_status (stream_packet pcm C p) (length (stream_packet pcm C p)) = REAC_STATUS_OK"
    "length (stream_packet pcm C p) = 52 + 36 * C" by (fact v(1), fact v(4))
  show "pv_channels (packet_view (stream_packet pcm C p) (length (stream_packet pcm C p))) = of_nat C"
    unfolding packet_view_def v(4) by simp
qed

lemma stream_packet_audio_in:
  assumes C: "even C" "0 < C" "C \<le> 40" and pcm: "pcm_in_range pcm C F" and "12 * p + 12 \<le> F"
  shows "packet_audio (drop 50 (stream_packet pcm C p) @ rest) C = map (stream_frame pcm C) [12 * p..<12 * p + 12]"
proof -
  note v = make_packet_view[OF C, of "of_nat p" "\<lambda>ch f. pcm ch (12 * p + f)", folded stream_packet_def]
  have r: "pcm_in_range (\<lambda>ch f. pcm ch (12 * p + f)) C 12"
    using pcm assms(5) by (auto simp: pcm_in_range_def)
  have "decoded_sample (drop 50 (stream_packet pcm C p) @ rest) C ch f = of_int (pcm ch (12 * p + f)) / 8388608"
    if "ch < C" "f < 12" for ch f
    unfolding v(2) append_assoc by (rule decoded_sample_encoded[OF C(1) that r])
  moreover have "[12 * p..<12 * p + 12] = map (\<lambda>f. 12 * p + f) [0..<12]" using map_add_upt[of "12 * p" 12] by (simp add: add.commute)
  ultimately show ?thesis by (simp add: packet_audio_def stream_frame_def del: upt_rec_numeral)
qed

lemma stream_packet_audio:
  assumes "even C" "0 < C" "C \<le> 40" "pcm_in_range pcm C F" "12 * p + 12 \<le> F"
  shows "packet_audio (drop 50 (stream_packet pcm C p)) C = map (stream_frame pcm C) [12 * p..<12 * p + 12]"
  using stream_packet_audio_in[OF assms, of "[]"] by simp

text \<open>A packet in a buffer that is longer.\<close>

lemma stream_packet_in_buffer:
  fixes pcm p
  assumes C: "even C" "0 < C" "C \<le> 40"
  defines "n \<equiv> length (stream_packet pcm C p)"
  shows "packet_status (stream_packet pcm C p @ rest) n = REAC_STATUS_OK"
    "pv_channels (packet_view (stream_packet pcm C p @ rest) n) = of_nat C"
    "pv_counter (packet_view (stream_packet pcm C p @ rest) n) = of_nat p"
proof -
  note f = stream_packet_facts[OF C, of pcm p, folded n_def]
  note c = make_packet_view(3)[OF C, of "of_nat p" "\<lambda>ch f. pcm ch (12 * p + f)", folded stream_packet_def n_def]
  have at: "i < n \<Longrightarrow> (stream_packet pcm C p @ rest) ! i = stream_packet pcm C p ! i" for i by (simp add: nth_append n_def)
  have n: "12 < n" "13 < n" "14 < n" "15 < n" "n - 1 < n" "n - 2 < n" using f(2) C(2) by simp_all
  have "packet_status (stream_packet pcm C p @ rest) n = packet_status (stream_packet pcm C p) n"
    unfolding packet_status_def n[THEN at] by (rule refl)
  then show "packet_status (stream_packet pcm C p @ rest) n = REAC_STATUS_OK" using f(1) by simp
  have "pv_channels (packet_view (stream_packet pcm C p @ rest) n) = pv_channels (packet_view (stream_packet pcm C p) n)"
    "pv_counter (packet_view (stream_packet pcm C p @ rest) n) = pv_counter (packet_view (stream_packet pcm C p) n)"
    unfolding packet_view_def n[THEN at] by simp_all
  then show "pv_channels (packet_view (stream_packet pcm C p @ rest) n) = of_nat C"
    "pv_counter (packet_view (stream_packet pcm C p @ rest) n) = of_nat p" using f(3) c by simp_all
qed

end
