(* ===== verification/PwEndToEnd.thy ===== *)
theory PwEndToEnd
  imports SenderStream ReacjackPw
begin

text \<open>
  The PipeWire client as a whole: its capture thread receives a sender's packets while PipeWire calls
  the process callback, in any order.  The client does what a bounded queue of frames does.  A
  pass of the thread and a callback are single steps here; that their memory accesses may
  interleave is the subject of \<open>PwConcurrent\<close> and \<open>PwWeak\<close>.
\<close>

section \<open>The client\<close>

datatype client_event =
    ThreadPass poll_result recv_result
  | ProcessCall pw_buffer

text \<open>The result has the buffers that were queued, in order.\<close>

fun run_client :: "client_event list \<Rightarrow> thread_state \<Rightarrow> (thread_state \<times> pw_buffer option list) option" where
  "run_client [] s = Some (s, [])"
| "run_client (ThreadPass poll recv # es) s = thread_iteration poll recv s \<bind> run_client es"
| "run_client (ProcessCall b # es) s =
     do { (app, queued) \<leftarrow> on_process (th_app s) (Some b);
          (s', bs) \<leftarrow> run_client es (s\<lparr>th_app := app\<rparr>);
          Some (s', queued # bs) }"

section \<open>The reference\<close>

text \<open>
  What happens around the client: the sender's next packet arrives, a pass of the thread brings no
  packet, or PipeWire asks for audio.
\<close>

datatype client_move =
    NextPacket
  | QuietPass poll_result recv_result
  | AskFor pw_buffer

fun quiet :: "poll_result \<Rightarrow> recv_result \<Rightarrow> bool" where
  "quiet PollReady (RecvBytes datagram) = False"
| "quiet poll recv = True"

fun client_events :: "(nat \<Rightarrow> nat \<Rightarrow> int) \<Rightarrow> nat \<Rightarrow> client_move list \<Rightarrow> nat \<Rightarrow> client_event list" where
  "client_events pcm C [] p = []"
| "client_events pcm C (NextPacket # ms) p =
     ThreadPass PollReady (RecvBytes (stream_packet pcm C p)) # client_events pcm C ms (p + 1)"
| "client_events pcm C (QuietPass poll recv # ms) p = ThreadPass poll recv # client_events pcm C ms p"
| "client_events pcm C (AskFor b # ms) p = ProcessCall b # client_events pcm C ms p"

text \<open>The moves are those of a sender and of PipeWire: \<open>P\<close> packets, and buffers as PipeWire hands them out.\<close>

definition proper_buffer :: "pw_buffer \<Rightarrow> bool" where
  "proper_buffer b \<longleftrightarrow> (case b_data b of None \<Rightarrow> False | Some data \<Rightarrow> length data = unat (b_maxsize b) div 4) \<and>
     b_n_datas b \<noteq> 0 \<and> b_has_chunk b"

fun proper_move :: "client_move \<Rightarrow> bool" where
  "proper_move NextPacket = True"
| "proper_move (QuietPass poll recv) = quiet poll recv"
| "proper_move (AskFor b) = proper_buffer b"

definition packets_in :: "client_move list \<Rightarrow> nat" where
  "packets_in ms = length (filter (\<lambda>m. m = NextPacket) ms)"

lemma packets_in_simps [simp]:
  "packets_in [] = 0" "packets_in (NextPacket # ms) = Suc (packets_in ms)"
  "packets_in (QuietPass poll recv # ms) = packets_in ms" "packets_in (AskFor b # ms) = packets_in ms"
  by (simp_all add: packets_in_def)

definition frames_wanted :: "nat \<Rightarrow> pw_buffer \<Rightarrow> nat" where
  "frames_wanted C b =
     (let room = unat (b_maxsize b) div (4 * C)
      in if 0 < unat (b_requested b) \<and> unat (b_requested b) < room then unat (b_requested b) else room)"

text \<open>
  A queue of at most \<open>cap\<close> frame numbers.  A packet that does not fit is dropped as a whole; a buffer
  gets the oldest frames, then silence, and keeps what it held behind the part asked for.
\<close>

fun queue_outputs :: "(nat \<Rightarrow> nat \<Rightarrow> int) \<Rightarrow> nat \<Rightarrow> nat \<Rightarrow> client_move list \<Rightarrow> nat \<Rightarrow> nat list \<Rightarrow> rat list list" where
  "queue_outputs pcm C cap [] p q = []"
| "queue_outputs pcm C cap (NextPacket # ms) p q =
     queue_outputs pcm C cap ms (p + 1) (if length q + 12 \<le> cap then q @ [12 * p..<12 * p + 12] else q)"
| "queue_outputs pcm C cap (QuietPass poll recv # ms) p q = queue_outputs pcm C cap ms p q"
| "queue_outputs pcm C cap (AskFor b # ms) p q =
     (let n = frames_wanted C b
      in (concat (map (stream_frame pcm C) (take n q)) @ replicate ((n - length q) * C) 0 @ drop (n * C) (the (b_data b))) #
         queue_outputs pcm C cap ms p (drop n q))"

section \<open>Simulation\<close>

definition client_ok :: "(nat \<Rightarrow> nat \<Rightarrow> int) \<Rightarrow> nat \<Rightarrow> nat \<Rightarrow> nat list \<Rightarrow> thread_state \<Rightarrow> bool" where
  "client_ok pcm C cap q s \<longleftrightarrow> thread_ok s \<and> pw_channels (th_app s) = of_nat C \<and> pw_cap (pw_ring (th_app s)) = cap \<and>
     pw_frames (pw_ring (th_app s)) = map (stream_frame pcm C) q"

lemma client_fill:
  assumes "client_ok pcm C cap q s" shows "pw_fill (pw_ring (th_app s)) = length q"
proof -
  have "length (pw_frames (pw_ring (th_app s))) = length q" using assms by (simp add: client_ok_def)
  then show ?thesis by (simp add: length_pw_frames)
qed

text \<open>A packet of the stream.\<close>

lemma client_packet:
  assumes C: "even C" "0 < C" "C \<le> 40" and pcm: "pcm_in_range pcm C F" "12 * p + 12 \<le> F"
    and s: "client_ok pcm C cap q s" and pos: "pw_wpos (pw_ring (th_app s)) + 12 < 2 ^ 64"
  shows "\<exists>s'. thread_iteration PollReady (RecvBytes (stream_packet pcm C p)) s = Some s' \<and>
    client_ok pcm C cap (if length q + 12 \<le> cap then q @ [12 * p..<12 * p + 12] else q) s' \<and>
    pw_wpos (pw_ring (th_app s')) \<le> pw_wpos (pw_ring (th_app s)) + 12"
proof -
  let ?pkt = "stream_packet pcm C p" and ?r = "pw_ring (th_app s)" and ?more = "drop (length (stream_packet pcm C p)) (th_packet_bytes s)"
  let ?n = "of_nat (length ?pkt) :: u64"
  define s1 where "s1 = s\<lparr>th_packet_bytes := splice (th_packet_bytes s) 0 ?pkt\<rparr>"
  note f = stream_packet_facts[OF C, of pcm p]
  have len: "length ?pkt \<le> 2048" "unat ?n = length ?pkt"
    using C(3) f(2) unat_of_nat_small[of "length ?pkt", where 'a = 64] by simp_all
  have ok: "thread_ok s" "pw_channels (th_app s) = of_nat C" "unat (of_nat C :: u16) = C" "pw_cap ?r = cap"
    "pw_frames ?r = map (stream_frame pcm C) q" using s C(3) by (simp_all add: client_ok_def unat_of_nat_small)
  have s1: "th_app s1 = th_app s" "th_packet_bytes s1 = ?pkt @ ?more" "thread_ok s1"
    using len(1) ok(1) by (simp_all add: s1_def splice_def thread_ok_def)
  note b = stream_packet_in_buffer[OF C, of pcm p ?more, folded s1(2)] 
  have a: "packet_audio (drop 50 (th_packet_bytes s1)) C = map (stream_frame pcm C) [12 * p..<12 * p + 12]"
    using stream_packet_audio_in[OF C pcm] f(2) by (simp add: s1(2))
  have "thread_iteration PollReady (RecvBytes ?pkt) s = thread_packet ?n s1" using len(1) by (simp add: thread_iteration_def s1_def Let_def)
  moreover have "unat ?n \<le> 2048" "packet_status (th_packet_bytes s1) (unat ?n) = REAC_STATUS_OK"
    "pv_channels (packet_view (th_packet_bytes s1) (unat ?n)) = pw_channels (th_app s1)" "pw_wpos (pw_ring (th_app s1)) + 12 < 2 ^ 64"
    using len b(1,2) pos ok(2) by (simp_all add: s1(1))
  from thread_packet_good[OF s1(3) this, unfolded s1(1) client_fill[OF s] ok(2-5) a] obtain s' where
    s': "thread_packet ?n s1 = Some s'" "thread_ok s'" "ar_capacity_frames (pw_ring (th_app s')) = ar_capacity_frames ?r" and
    d: "if length q + 12 \<le> cap
       then pw_frames (pw_ring (th_app s')) = map (stream_frame pcm C) q @ map (stream_frame pcm C) [12 * p..<12 * p + 12] \<and>
          pw_wpos (pw_ring (th_app s')) = pw_wpos ?r + 12 \<and>
          th_app s' = (pw_note_counter (th_app s) (pv_counter (packet_view (th_packet_bytes s1) (unat ?n))))
            \<lparr>pw_ring := pw_ring (th_app s'), pw_received_packets := pw_received_packets (th_app s) + 1\<rparr>
       else th_app s' = (th_app s)\<lparr>pw_ring_overruns := pw_ring_overruns (th_app s) + 1\<rparr>"
    by blast
  moreover have "client_ok pcm C cap (if length q + 12 \<le> cap then q @ [12 * p..<12 * p + 12] else q) s'"
  proof (cases "length q + 12 \<le> cap")
    case True
    with d have e: "th_app s' = (pw_note_counter (th_app s) (pv_counter (packet_view (th_packet_bytes s1) (unat ?n))))
      \<lparr>pw_ring := pw_ring (th_app s'), pw_received_packets := pw_received_packets (th_app s) + 1\<rparr>" by simp
    have "pw_channels (th_app s') = of_nat C" by (subst e) (simp add: ok(2))
    with True d s'(2,3) ok(4) show ?thesis by (simp add: client_ok_def)
  qed (use d ok s'(2,3) in \<open>simp add: client_ok_def\<close>)
  moreover have "pw_wpos (pw_ring (th_app s')) \<le> pw_wpos ?r + 12" using d by (auto split: if_splits)
  ultimately show ?thesis by auto
qed

lemma client_quiet:
  assumes "client_ok pcm C cap q s" "quiet poll recv"
  shows "\<exists>s'. thread_iteration poll recv s = Some s' \<and> client_ok pcm C cap q s' \<and> pw_wpos (pw_ring (th_app s')) = pw_wpos (pw_ring (th_app s))"
proof -
  have "thread_iteration poll recv s \<in> {Some s, Some (capture_error s)}"
    using assms(2) by (cases poll; cases recv) (simp_all add: thread_iteration_def)
  moreover have "client_ok pcm C cap q (capture_error s)"
    using assms(1) by (auto simp: client_ok_def capture_error_def thread_ok_def app_ok_def)
  ultimately show ?thesis using assms(1) by (auto simp: capture_error_def)
qed

lemma client_callback:
  assumes C: "0 < C" "C \<le> 40" and s: "client_ok pcm C cap q s" and b: "proper_buffer b"
  shows "\<exists>app b'. on_process (th_app s) (Some b) = Some (app, Some b') \<and>
    b_data b' = Some (concat (map (stream_frame pcm C) (take (frames_wanted C b) q)) @
      replicate ((frames_wanted C b - length q) * C) 0 @ drop (frames_wanted C b * C) (the (b_data b))) \<and>
    client_ok pcm C cap (drop (frames_wanted C b) q) (s\<lparr>th_app := app\<rparr>) \<and>
    pw_wpos (pw_ring app) = pw_wpos (pw_ring (th_app s))"
proof -
  obtain data where d: "b_data b = Some data" "b_n_datas b \<noteq> 0" "b_has_chunk b" "length data = unat (b_maxsize b) div 4"
    using b by (auto simp: proper_buffer_def split: option.splits)
  have ok: "app_ok (th_app s)" "unat (pw_channels (th_app s)) = C" "pw_fill (pw_ring (th_app s)) = length q"
    using s client_fill[OF s] C(2) by (simp_all add: client_ok_def thread_ok_def unat_of_nat_small)
  from on_process_total[OF ok(1) d] ok(2,3) obtain app b' where
    r: "on_process (th_app s) (Some b) = Some (app, Some b')" "app_ok app" "pw_channels app = pw_channels (th_app s)"
      "pw_ring app = pw_advance (pw_ring (th_app s)) (frames_wanted C b)"
      "pw_frames (pw_ring app) = drop (frames_wanted C b) (pw_frames (pw_ring (th_app s)))"
      "b_data b' = Some (concat (take (frames_wanted C b) (pw_frames (pw_ring (th_app s)))) @
        replicate ((frames_wanted C b - length q) * C) 0 @ drop (frames_wanted C b * C) data)"
    by (auto simp: frames_wanted_def Let_def)
  show ?thesis
    by (intro exI[of _ app] exI[of _ b'])
      (use r s d(1) in \<open>auto simp: client_ok_def thread_ok_def take_map drop_map pw_advance_def\<close>)
qed

lemma client_run:
  assumes C: "even C" "0 < C" "C \<le> 40" and pcm: "pcm_in_range pcm C F"
  shows "client_ok pcm C cap q s \<Longrightarrow> 12 * (p + packets_in ms) \<le> F \<Longrightarrow> \<forall>m \<in> set ms. proper_move m \<Longrightarrow>
    pw_wpos (pw_ring (th_app s)) + 12 * packets_in ms < 2 ^ 64 \<Longrightarrow>
    \<exists>s' bs. run_client (client_events pcm C ms p) s = Some (s', map Some bs) \<and>
      map b_data bs = map Some (queue_outputs pcm C cap ms p q)"
proof (induction ms arbitrary: p q s)
  case (Cons m ms)
  show ?case
  proof (cases m)
    case NextPacket
    with Cons.prems have "12 * p + 12 \<le> F" "pw_wpos (pw_ring (th_app s)) + 12 < 2 ^ 64" by simp_all
    from client_packet[OF C pcm this(1) Cons.prems(1) this(2)] obtain s1 where
      s1: "thread_iteration PollReady (RecvBytes (stream_packet pcm C p)) s = Some s1"
        "client_ok pcm C cap (if length q + 12 \<le> cap then q @ [12 * p..<12 * p + 12] else q) s1"
        "pw_wpos (pw_ring (th_app s1)) \<le> pw_wpos (pw_ring (th_app s)) + 12" by blast
    from Cons.IH[OF s1(2), of "p + 1"] s1(1,3) Cons.prems NextPacket show ?thesis by simp
  next
    case (QuietPass poll recv)
    then have "quiet poll recv" using Cons.prems(3) by simp
    from client_quiet[OF Cons.prems(1) this] obtain s1 where
      s1: "thread_iteration poll recv s = Some s1" "client_ok pcm C cap q s1"
        "pw_wpos (pw_ring (th_app s1)) = pw_wpos (pw_ring (th_app s))" by blast
    from Cons.IH[OF s1(2), of p] s1(1,3) Cons.prems QuietPass show ?thesis by simp
  next
    case (AskFor b)
    then have "proper_buffer b" using Cons.prems(3) by simp
    from client_callback[OF C(2,3) Cons.prems(1) this] obtain app b' where
      r: "on_process (th_app s) (Some b) = Some (app, Some b')"
        "b_data b' = Some (concat (map (stream_frame pcm C) (take (frames_wanted C b) q)) @
          replicate ((frames_wanted C b - length q) * C) 0 @ drop (frames_wanted C b * C) (the (b_data b)))"
        "client_ok pcm C cap (drop (frames_wanted C b) q) (s\<lparr>th_app := app\<rparr>)"
        "pw_wpos (pw_ring app) = pw_wpos (pw_ring (th_app s))" by blast
    from Cons.IH[OF r(3), of p] r(4) Cons.prems AskFor obtain s' bs where
      "run_client (client_events pcm C ms p) (s\<lparr>th_app := app\<rparr>) = Some (s', map Some bs)"
      "map b_data bs = map Some (queue_outputs pcm C cap ms p (drop (frames_wanted C b) q))" by auto
    then show ?thesis using r(1,2) by (intro exI[of _ s'] exI[of _ "b' # bs"]) (simp add: AskFor Let_def)
  qed
qed simp

section \<open>The system\<close>

text \<open>C27. From the sender to PipeWire: the client, started with the sender's channel count, does what a queue of
  two seconds of frames does.  Whatever the order in which packets arrive, \<open>poll\<close> or \<open>recv\<close> fail and
  PipeWire asks for audio, every buffer gets the oldest frames not yet delivered, each sample the
  sender's 24 bit sample divided by \<open>2\<^sup>2\<^sup>3\<close>, then silence for the frames that are missing, and
  keeps what is behind the part asked for.  Frames are only lost as whole packets, when the
  queue has no room for twelve more.\<close>

theorem pw_client_is_a_queue:
  assumes "even C" "0 < C" "C \<le> 40" "pcm_in_range pcm C (12 * packets_in ms)" "12 * packets_in ms < 2 ^ 64" "\<forall>m \<in> set ms. proper_move m"
    "thread_ok s" "pw_channels (th_app s) = of_nat C" "audio_ring_init True (of_nat C) 96000 = (pw_ring (th_app s), 0)"
  shows "\<exists>s' bs. run_client (client_events pcm C ms 0) s = Some (s', map Some bs) \<and>
    map b_data bs = map Some (queue_outputs pcm C 96000 ms 0 [])"
proof -
  have "unat (of_nat C :: u16) \<le> 40" using assms(3) by (simp add: unat_of_nat_small)
  note r = audio_ring_init_ok[OF assms(9) this]
  have "client_ok pcm C 96000 [] s" using assms(7,8) r(2,4) by (simp add: client_ok_def)
  from client_run[OF assms(1-4) this _ assms(6), of 0] r(5) assms(5) show ?thesis by simp
qed

text \<open>Two packets, with a failing \<open>poll\<close> between, and PipeWire asks for three frames and then for all that fit.\<close>

definition sample_moves :: "pw_buffer \<Rightarrow> client_move list" where
  "sample_moves b = [NextPacket, AskFor b, QuietPass PollError RecvError, NextPacket, AskFor (b\<lparr>b_requested := 0\<rparr>)]"

lemma sample_outputs:
  "queue_outputs (\<lambda>ch f. int f - int ch) 2 96000 (sample_moves small_buffer) 0 [] =
     [[0, - 1 / 8388608, 1 / 8388608, 0, 2 / 8388608, 1 / 8388608, 9, 9],
      [3 / 8388608, 2 / 8388608, 4 / 8388608, 3 / 8388608, 5 / 8388608, 4 / 8388608, 6 / 8388608, 5 / 8388608]]"
  by (simp add: sample_moves_def small_buffer_def frames_wanted_def Let_def) code_simp

lemma pw_client_is_a_queue_witness:
  "\<exists>r s' b1 b2. audio_ring_init True 2 96000 = (r, 0) \<and>
     run_client (client_events (\<lambda>ch f. int f - int ch) 2 (sample_moves small_buffer) 0)
       (small_thread\<lparr>th_app := (th_app small_thread)\<lparr>pw_ring := r\<rparr>\<rparr>) = Some (s', [Some b1, Some b2]) \<and>
     b_data b1 = Some [0, - 1 / 8388608, 1 / 8388608, 0, 2 / 8388608, 1 / 8388608, 9, 9] \<and>
     b_data b2 = Some [3 / 8388608, 2 / 8388608, 4 / 8388608, 3 / 8388608, 5 / 8388608, 4 / 8388608, 6 / 8388608, 5 / 8388608]"
proof -
  obtain r :: "rat AudioRing" where r: "audio_ring_init True 2 96000 = (r, 0)" by (auto simp: audio_ring_init_def)
  let ?s = "small_thread\<lparr>th_app := (th_app small_thread)\<lparr>pw_ring := r\<rparr>\<rparr>" and ?ms = "sample_moves small_buffer"
  have s: "thread_ok ?s" "pw_channels (th_app ?s) = of_nat 2" "audio_ring_init True (of_nat 2) 96000 = (pw_ring (th_app ?s), 0)"
    using small_thread_facts(1,4) audio_ring_init_ok(1,3)[OF r] r by (simp_all add: thread_ok_def app_ok_def)
  have m: "packets_in ?ms = 2" "\<forall>m \<in> set ?ms. proper_move m"
    by (simp_all add: sample_moves_def small_buffer_def proper_buffer_def)
  have p: "pcm_in_range (\<lambda>ch f. int f - int ch) 2 (12 * packets_in ?ms)" by (auto simp: pcm_in_range_def m(1))
  have "12 * packets_in ?ms < 2 ^ 64" by (simp add: m(1))
  from pw_client_is_a_queue[OF _ _ _ p this m(2) s] obtain s' bs where
    b: "run_client (client_events (\<lambda>ch f. int f - int ch) 2 ?ms 0) ?s = Some (s', map Some bs)"
      "map b_data bs = map Some (queue_outputs (\<lambda>ch f. int f - int ch) 2 96000 ?ms 0 [])" by auto
  from b(2) obtain b1 b2 where "bs = [b1, b2]" unfolding sample_outputs by (auto simp: map_eq_Cons_conv)
  with r b show ?thesis unfolding sample_outputs by simp
qed

end
