(* ===== verification/Reacjackctl.thy ===== *)
theory Reacjackctl
  imports SharedClock SharedAudioShm
begin

text \<open>
  The status tool \<open>src/reacjackctl.c\<close>: its command line, the report on a ring and the main program,
  which prints one report, or with \<open>-w\<close> one report a second until it is interrupted.
\<close>

section \<open>The report\<close>

text \<open>A printed line: a label and the text or number behind it.\<close>

datatype ctl_line =
    TextLine string string
  | NumberLine string nat
  | EmptyLine

definition print_ring :: "SharedAudio \<Rightarrow> 'a shared_ring \<Rightarrow> ctl_line list" where
  "print_ring ring mem =
     (let header = header mem in
      [TextLine ''ring'' (sa_name ring),
       NumberLine ''abi_version'' (unat (h_abi_version header)),
       NumberLine ''sample_rate'' (unat (h_sample_rate header)),
       NumberLine ''channels'' (unat (h_channels header)),
       NumberLine ''capacity_frames'' (unat (h_capacity_frames header)),
       NumberLine ''fill_frames'' (unat (shared_audio_readable_frames mem)),
       NumberLine ''write_pos'' (unat (h_write_pos header)),
       NumberLine ''read_pos'' (unat (h_read_pos header)),
       NumberLine ''underruns'' (unat (h_underruns header)),
       NumberLine ''overruns'' (unat (h_overruns header)),
       NumberLine ''dropped_packets'' (unat (h_dropped_packets header)),
       NumberLine ''resets'' (unat (h_resets header)),
       NumberLine ''drift_inserted_frames'' (unat (h_inserted_frames header)),
       NumberLine ''drift_dropped_frames'' (unat (h_dropped_frames header))] @
      (case shared_audio_get_clock mem of
         Some (clock_host_time, clock_sample_pos) \<Rightarrow>
           [NumberLine ''clock_host_time'' (unat clock_host_time),
            NumberLine ''clock_sample_pos'' (unat clock_sample_pos)]
       | None \<Rightarrow> [TextLine ''clock'' ''not published'']))"

section \<open>The program\<close>

text \<open>The loop over the arguments; \<^term>\<open>None\<close> is the usage message and exit status 1.\<close>

fun ctl_arguments :: "string list \<Rightarrow> string \<times> bool \<Rightarrow> (string \<times> bool) option" where
  "ctl_arguments [] (ring_name, watch) = Some (ring_name, watch)"
| "ctl_arguments (a # as) (ring_name, watch) =
     (if a = ''-n'' \<and> as \<noteq> [] then ctl_arguments (tl as) (hd as, watch)
      else if a = ''-w'' then ctl_arguments as (ring_name, True)
      else None)"

text \<open>
  A run of the program ends with an exit status, or, while it watches, with the signal that
  interrupts it.
\<close>

datatype ctl_end = Exit int | Interrupted

text \<open>
  \<open>later\<close> is the memory at each second until the interruption; the watch loop itself does not end.
\<close>

definition ctl_main ::
  "failures \<Rightarrow> SharedAudio \<Rightarrow> 'a os \<Rightarrow> 'a os list \<Rightarrow> string list \<Rightarrow> (ctl_line list \<times> 'a os \<times> ctl_end) option" where
  "ctl_main fails ring os later argv =
     (case ctl_arguments (tl argv) (''/reacjack-audio'', False) of
        None \<Rightarrow> Some ([], os, Exit 1)
      | Some (ring_name, watch) \<Rightarrow>
          let (os1, ring, rc) = shared_audio_open fails os ring (Some ring_name)
          in if rc \<noteq> 0 then Some ([], os1, Exit 1)
             else do {
               mem \<leftarrow> ring_at os1 ring;
               if watch then do {
                 rings \<leftarrow> those (map (\<lambda>os. ring_at os ring) later);
                 Some (print_ring ring mem @ concat (map (\<lambda>mem. EmptyLine # print_ring ring mem) rings),
                       last (os1 # later), Interrupted) }
               else Some (print_ring ring mem, fst (shared_audio_close os1 ring), Exit 0) })"

section \<open>Properties\<close>

lemma open_keeps_names:
  assumes "shared_audio_open fails os audio (Some n) = (os', audio', 0)"
  shows "sa_name audio' = n"
  using assms unfolding shared_audio_open_def
  by (auto simp: os_defs init_handle_def shared_audio_close_def fstat_size_def Let_def split: if_splits option.splits)

text \<open>A single report observes and leaves no trace: with arguments that name a ring and do not ask
  for watching, the tool fails with status 1 and prints nothing exactly when the ring cannot be
  opened; otherwise it exits with status 0 after printing the ring's header, and for a
  well-formed ring the printed fill is the number of frames in it; the memory, the mappings and
  the descriptors are as before.\<close>

theorem ctl_reports_ring:
  assumes "ctl_arguments (tl argv) (''/reacjack-audio'', False) = Some (n, False)"
    "shared_audio_open fails os ring (Some n) = (os1, ring1, rc)"
  shows "\<exists>lines os' code. ctl_main fails ring os later argv = Some (lines, os', Exit code) \<and>
    os_objects os' = os_objects os \<and> os_maps os' = os_maps os \<and> os_fds os' = os_fds os \<and>
    (if rc \<noteq> 0 then code = 1 \<and> lines = []
     else code = 0 \<and> (\<exists>mem. ring_at os1 ring1 = Some mem \<and> lines = print_ring ring1 mem \<and>
       TextLine ''ring'' n \<in> set lines \<and>
       (ring_ok mem \<longrightarrow> NumberLine ''fill_frames'' (length (ring_frames mem)) \<in> set lines)))"
proof (cases "rc = 0")
  case False
  have "os_objects os1 = os_objects os"
    using assms(2) unfolding shared_audio_open_def
    by (auto simp: os_defs init_handle_def shared_audio_close_def fstat_size_def Let_def split: if_splits option.splits)
  then show ?thesis using assms False open_resources[OF assms(2)] by (simp add: ctl_main_def)
next
  case True
  note op = assms(2) [unfolded True]
  from open_accepted[OF op] obtain i obj where
    i: "sa_header ring1 = Some i" "os_objects os1 i = Some obj" "os_objects os1 = os_objects os" by blast
  have at: "ring_at os1 ring1 = Some (o_ring obj)" using i by (simp add: ring_at_def)
  have run: "ctl_main fails ring os later argv =
      Some (print_ring ring1 (o_ring obj), fst (shared_audio_close os1 ring1), Exit 0)"
    using assms True at by (simp add: ctl_main_def)
  have "TextLine ''ring'' n \<in> set (print_ring ring1 (o_ring obj))"
    "ring_ok (o_ring obj) \<Longrightarrow> NumberLine ''fill_frames'' (length (ring_frames (o_ring obj))) \<in> set (print_ring ring1 (o_ring obj))"
    using open_keeps_names[OF op] by (simp_all add: print_ring_def Let_def readable_frames_nat length_ring_frames)
  then show ?thesis
    using run True at i open_resources(1,3)[OF op] by (simp add: shared_audio_close_def munmap_def)
qed

theorem ctl_reports_ring_witness:
  "\<exists>os'. ctl_main (\<lambda>_. False) no_handle empty_os [] [''reacjackctl'', ''-n'', ''/reac''] = Some ([], os', Exit 1)"
proof -
  have a: "ctl_arguments (tl [''reacjackctl'', ''-n'', ''/reac'']) (''/reacjack-audio'', False) = Some (''/reac'', False)"
    by simp
  obtain os1 ring1 where "shared_audio_open (\<lambda>_. False) empty_os no_handle (Some ''/reac'') = (os1, ring1, - 1)"
    by (simp add: shared_audio_open_def init_handle_def shm_open_old_def empty_os_def)
  from ctl_reports_ring[OF a this, of "[]"] show ?thesis by auto
qed

end
