(* ===== verification/HalProperties.thy ===== *)
theory HalProperties
  imports FloatModel
begin

text \<open>
  The objects and properties that the CoreAudio plug-in \<open>src/coreaudio/ReacJackDriver.c\<close>
  publishes: the tables of properties of the plug-in, the device and its input stream, and the
  handlers with which the host asks whether a property exists, how large it is, what it holds
  and whether it can be set.  The headers of CoreAudio are not part of the sources: its
  enumerations are datatypes with one constructor for each name that the driver mentions, and
  the sizes of its structures are a parameter of the handlers.
\<close>

section \<open>Names from the CoreAudio headers\<close>

datatype OSStatus =
    kAudioHardwareNoError
  | kAudioHardwareBadObjectError
  | kAudioHardwareUnknownPropertyError
  | kAudioHardwareBadPropertySizeError
  | kAudioHardwareIllegalOperationError
  | kAudioHardwareUnsupportedOperationError
  | kAudioDeviceUnsupportedFormatError

datatype AudioObjectPropertySelector =
    kAudioObjectPropertyBaseClass
  | kAudioObjectPropertyClass
  | kAudioObjectPropertyOwner
  | kAudioObjectPropertyName
  | kAudioObjectPropertyManufacturer
  | kAudioObjectPropertyOwnedObjects
  | kAudioObjectPropertyControlList
  | kAudioPlugInPropertyDeviceList
  | kAudioPlugInPropertyTranslateUIDToDevice
  | kAudioPlugInPropertyResourceBundle
  | kAudioDevicePropertyDeviceUID
  | kAudioDevicePropertyModelUID
  | kAudioDevicePropertyTransportType
  | kAudioDevicePropertyRelatedDevices
  | kAudioDevicePropertyClockDomain
  | kAudioDevicePropertyDeviceIsAlive
  | kAudioDevicePropertyDeviceIsRunning
  | kAudioDevicePropertyDeviceCanBeDefaultDevice
  | kAudioDevicePropertyDeviceCanBeDefaultSystemDevice
  | kAudioDevicePropertyLatency
  | kAudioDevicePropertyStreams
  | kAudioDevicePropertySafetyOffset
  | kAudioDevicePropertyNominalSampleRate
  | kAudioDevicePropertyAvailableNominalSampleRates
  | kAudioDevicePropertyIsHidden
  | kAudioDevicePropertyZeroTimeStampPeriod
  | kAudioDevicePropertyPreferredChannelsForStereo
  | kAudioDevicePropertyPreferredChannelLayout
  | kAudioStreamPropertyIsActive
  | kAudioStreamPropertyDirection
  | kAudioStreamPropertyTerminalType
  | kAudioStreamPropertyStartingChannel
  | kAudioStreamPropertyLatency
  | kAudioStreamPropertyVirtualFormat
  | kAudioStreamPropertyPhysicalFormat
  | kAudioStreamPropertyAvailableVirtualFormats
  | kAudioStreamPropertyAvailablePhysicalFormats
  | OtherSelector u32

datatype AudioObjectPropertyScope =
    kAudioObjectPropertyScopeGlobal
  | kAudioObjectPropertyScopeInput
  | kAudioObjectPropertyScopeOutput
  | OtherScope u32

record AudioObjectPropertyAddress =
  mSelector :: AudioObjectPropertySelector
  mScope :: AudioObjectPropertyScope

datatype AudioFormatID = kAudioFormatLinearPCM | OtherFormat u32

datatype AudioFormatFlags = kAudioFormatFlagsNativeFloatPacked | OtherFlags u32

text \<open>A \<open>Float64\<close> that comes from a client may be a NaN, \<^term>\<open>None\<close>.\<close>

record AudioStreamBasicDescription =
  mSampleRate :: "rat option"
  mFormatID :: AudioFormatID
  mFormatFlags :: AudioFormatFlags
  mBytesPerPacket :: u32
  mFramesPerPacket :: u32
  mBytesPerFrame :: u32
  mChannelsPerFrame :: u32
  mBitsPerChannel :: u32

datatype AudioClassID = kAudioObjectClassID | kAudioPlugInClassID | kAudioDeviceClassID | kAudioStreamClassID

text \<open>A channel description: the label is an offset from \<open>kAudioChannelLabel_Discrete_0\<close>.\<close>

record AudioChannelDescription =
  discrete_label :: u32
  mChannelFlags :: u32
  mCoordinates :: "rat list"

record AudioChannelLayout =
  uses_descriptions :: bool
  mChannelBitmap :: u32
  mNumberChannelDescriptions :: u32
  mChannelDescriptions :: "AudioChannelDescription list"

text \<open>The sizes of the types that the CoreAudio and CoreFoundation headers define.\<close>

record ca_sizes =
  sz_AudioClassID :: u32
  sz_AudioObjectID :: u32
  sz_CFStringRef :: u32
  sz_AudioValueRange :: u32
  sz_AudioStreamBasicDescription :: u32
  sz_AudioStreamRangedDescription :: u32
  sz_AudioChannelDescription :: u32
  offset_mChannelDescriptions :: u32

section \<open>The driver's objects and constants\<close>

text \<open>The plug-in object, the device (2) and the input stream (3), and the identifiers they are told
  apart from.\<close>

datatype AudioObjectID =
    kAudioObjectUnknown
  | kObjectID_PlugIn
  | kObjectID_Device
  | kObjectID_Stream_Input
  | OtherObject u32

datatype driver_ref = gDriverRef | OtherDriver nat

abbreviation (input) kDevice_Name :: string where "kDevice_Name \<equiv> ''ReacJack REAC''"
abbreviation (input) kDevice_Manufacturer :: string where "kDevice_Manufacturer \<equiv> ''ReacJack''"
abbreviation (input) kDevice_UID :: string where "kDevice_UID \<equiv> ''ReacJackDevice_UID''"
abbreviation (input) kDevice_ModelUID :: string where "kDevice_ModelUID \<equiv> ''ReacJackDevice_ModelUID''"
abbreviation (input) kDevice_ChannelCount :: u32 where "kDevice_ChannelCount \<equiv> 40"
abbreviation (input) kDevice_BytesPerFrame :: u32 where "kDevice_BytesPerFrame \<equiv> 160"
abbreviation (input) kDevice_RingFrames :: u32 where "kDevice_RingFrames \<equiv> 8192"
abbreviation (input) kDevice_SampleRate :: rat where "kDevice_SampleRate \<equiv> 48000"

definition device_stream_format :: AudioStreamBasicDescription where
  "device_stream_format =
     \<lparr>mSampleRate = Some kDevice_SampleRate, mFormatID = kAudioFormatLinearPCM,
      mFormatFlags = kAudioFormatFlagsNativeFloatPacked, mBytesPerPacket = kDevice_BytesPerFrame,
      mFramesPerPacket = 1, mBytesPerFrame = kDevice_BytesPerFrame,
      mChannelsPerFrame = kDevice_ChannelCount, mBitsPerChannel = 32\<rparr>"

definition float_eq :: "rat option \<Rightarrow> rat option \<Rightarrow> bool" where
  "float_eq x y \<longleftrightarrow> x \<noteq> None \<and> x = y"

definition formats_equal :: "AudioStreamBasicDescription \<Rightarrow> AudioStreamBasicDescription \<Rightarrow> bool" where
  "formats_equal a b \<longleftrightarrow>
     float_eq (mSampleRate a) (mSampleRate b) \<and> mFormatID a = mFormatID b \<and>
     mFormatFlags a = mFormatFlags b \<and> mBytesPerPacket a = mBytesPerPacket b \<and>
     mFramesPerPacket a = mFramesPerPacket b \<and> mBytesPerFrame a = mBytesPerFrame b \<and>
     mChannelsPerFrame a = mChannelsPerFrame b \<and> mBitsPerChannel a = mBitsPerChannel b"

definition channel_layout_size :: "ca_sizes \<Rightarrow> u32" where
  "channel_layout_size ca = offset_mChannelDescriptions ca + kDevice_ChannelCount * sz_AudioChannelDescription ca"

section \<open>Property tables\<close>

definition plugin_has_property :: "AudioObjectPropertyAddress \<Rightarrow> bool" where
  "plugin_has_property address = (case mSelector address of
       kAudioObjectPropertyBaseClass \<Rightarrow> True
     | kAudioObjectPropertyClass \<Rightarrow> True
     | kAudioObjectPropertyOwner \<Rightarrow> True
     | kAudioObjectPropertyManufacturer \<Rightarrow> True
     | kAudioObjectPropertyOwnedObjects \<Rightarrow> True
     | kAudioPlugInPropertyDeviceList \<Rightarrow> True
     | kAudioPlugInPropertyTranslateUIDToDevice \<Rightarrow> True
     | kAudioPlugInPropertyResourceBundle \<Rightarrow> True
     | _ \<Rightarrow> False)"

definition device_has_property :: "AudioObjectPropertyAddress \<Rightarrow> bool" where
  "device_has_property address = (case mSelector address of
       kAudioObjectPropertyBaseClass \<Rightarrow> True
     | kAudioObjectPropertyClass \<Rightarrow> True
     | kAudioObjectPropertyOwner \<Rightarrow> True
     | kAudioObjectPropertyName \<Rightarrow> True
     | kAudioObjectPropertyManufacturer \<Rightarrow> True
     | kAudioObjectPropertyOwnedObjects \<Rightarrow> True
     | kAudioObjectPropertyControlList \<Rightarrow> True
     | kAudioDevicePropertyDeviceUID \<Rightarrow> True
     | kAudioDevicePropertyModelUID \<Rightarrow> True
     | kAudioDevicePropertyTransportType \<Rightarrow> True
     | kAudioDevicePropertyRelatedDevices \<Rightarrow> True
     | kAudioDevicePropertyClockDomain \<Rightarrow> True
     | kAudioDevicePropertyDeviceIsAlive \<Rightarrow> True
     | kAudioDevicePropertyDeviceIsRunning \<Rightarrow> True
     | kAudioDevicePropertyDeviceCanBeDefaultDevice \<Rightarrow> True
     | kAudioDevicePropertyDeviceCanBeDefaultSystemDevice \<Rightarrow> True
     | kAudioDevicePropertyLatency \<Rightarrow> True
     | kAudioDevicePropertyStreams \<Rightarrow> True
     | kAudioDevicePropertySafetyOffset \<Rightarrow> True
     | kAudioDevicePropertyNominalSampleRate \<Rightarrow> True
     | kAudioDevicePropertyAvailableNominalSampleRates \<Rightarrow> True
     | kAudioDevicePropertyIsHidden \<Rightarrow> True
     | kAudioDevicePropertyZeroTimeStampPeriod \<Rightarrow> True
     | kAudioDevicePropertyPreferredChannelsForStereo \<Rightarrow>
         mScope address = kAudioObjectPropertyScopeInput \<or> mScope address = kAudioObjectPropertyScopeGlobal
     | kAudioDevicePropertyPreferredChannelLayout \<Rightarrow>
         mScope address = kAudioObjectPropertyScopeInput \<or> mScope address = kAudioObjectPropertyScopeGlobal
     | _ \<Rightarrow> False)"

definition stream_has_property :: "AudioObjectPropertyAddress \<Rightarrow> bool" where
  "stream_has_property address = (case mSelector address of
       kAudioObjectPropertyBaseClass \<Rightarrow> True
     | kAudioObjectPropertyClass \<Rightarrow> True
     | kAudioObjectPropertyOwner \<Rightarrow> True
     | kAudioStreamPropertyIsActive \<Rightarrow> True
     | kAudioStreamPropertyDirection \<Rightarrow> True
     | kAudioStreamPropertyTerminalType \<Rightarrow> True
     | kAudioStreamPropertyStartingChannel \<Rightarrow> True
     | kAudioStreamPropertyLatency \<Rightarrow> True
     | kAudioStreamPropertyVirtualFormat \<Rightarrow> True
     | kAudioStreamPropertyPhysicalFormat \<Rightarrow> True
     | kAudioStreamPropertyAvailableVirtualFormats \<Rightarrow> True
     | kAudioStreamPropertyAvailablePhysicalFormats \<Rightarrow> True
     | _ \<Rightarrow> False)"

text \<open>The pointer to the address may be null, \<^term>\<open>None\<close>.\<close>

definition ReacJack_HasProperty :: "driver_ref \<Rightarrow> AudioObjectID \<Rightarrow> AudioObjectPropertyAddress option \<Rightarrow> bool" where
  "ReacJack_HasProperty inDriver inObjectID inAddress =
     (if inDriver \<noteq> gDriverRef then False
      else case inAddress of
        None \<Rightarrow> False
      | Some address \<Rightarrow> (case inObjectID of
            kObjectID_PlugIn \<Rightarrow> plugin_has_property address
          | kObjectID_Device \<Rightarrow> device_has_property address
          | kObjectID_Stream_Input \<Rightarrow> stream_has_property address
          | _ \<Rightarrow> False))"

text \<open>
  Handlers return their status and what they store through an output pointer, if anything; an
  output pointer that may be null is a flag that says whether it is there.
\<close>

definition ReacJack_IsPropertySettable ::
  "driver_ref \<Rightarrow> AudioObjectID \<Rightarrow> AudioObjectPropertyAddress option \<Rightarrow> bool \<Rightarrow> OSStatus \<times> bool option" where
  "ReacJack_IsPropertySettable inDriver inObjectID inAddress has_out =
     (if inDriver \<noteq> gDriverRef \<or> inAddress = None \<or> \<not> has_out then (kAudioHardwareBadObjectError, None)
      else if \<not> ReacJack_HasProperty inDriver inObjectID inAddress then (kAudioHardwareUnknownPropertyError, None)
      else let sel = mSelector (the inAddress);
               settable = False;
               settable = (if inObjectID = kObjectID_Device \<and> sel = kAudioDevicePropertyNominalSampleRate
                           then True else settable);
               settable = (if inObjectID = kObjectID_Stream_Input \<and>
                              (sel = kAudioStreamPropertyVirtualFormat \<or> sel = kAudioStreamPropertyPhysicalFormat)
                           then True else settable)
           in (kAudioHardwareNoError, Some settable))"

section \<open>Property sizes\<close>

definition plugin_property_size :: "ca_sizes \<Rightarrow> AudioObjectPropertyAddress \<Rightarrow> OSStatus \<times> u32 option" where
  "plugin_property_size ca address = (case mSelector address of
       kAudioObjectPropertyBaseClass \<Rightarrow> (kAudioHardwareNoError, Some (sz_AudioClassID ca))
     | kAudioObjectPropertyClass \<Rightarrow> (kAudioHardwareNoError, Some (sz_AudioClassID ca))
     | kAudioObjectPropertyOwner \<Rightarrow> (kAudioHardwareNoError, Some (sz_AudioObjectID ca))
     | kAudioObjectPropertyManufacturer \<Rightarrow> (kAudioHardwareNoError, Some (sz_CFStringRef ca))
     | kAudioPlugInPropertyResourceBundle \<Rightarrow> (kAudioHardwareNoError, Some (sz_CFStringRef ca))
     | kAudioObjectPropertyOwnedObjects \<Rightarrow> (kAudioHardwareNoError, Some (sz_AudioObjectID ca))
     | kAudioPlugInPropertyDeviceList \<Rightarrow> (kAudioHardwareNoError, Some (sz_AudioObjectID ca))
     | kAudioPlugInPropertyTranslateUIDToDevice \<Rightarrow> (kAudioHardwareNoError, Some (sz_AudioObjectID ca))
     | _ \<Rightarrow> (kAudioHardwareUnknownPropertyError, None))"

definition device_property_size :: "ca_sizes \<Rightarrow> AudioObjectPropertyAddress \<Rightarrow> OSStatus \<times> u32 option" where
  "device_property_size ca address = (case mSelector address of
       kAudioObjectPropertyBaseClass \<Rightarrow> (kAudioHardwareNoError, Some (sz_AudioClassID ca))
     | kAudioObjectPropertyClass \<Rightarrow> (kAudioHardwareNoError, Some (sz_AudioClassID ca))
     | kAudioObjectPropertyOwner \<Rightarrow> (kAudioHardwareNoError, Some (sz_AudioObjectID ca))
     | kAudioObjectPropertyName \<Rightarrow> (kAudioHardwareNoError, Some (sz_CFStringRef ca))
     | kAudioObjectPropertyManufacturer \<Rightarrow> (kAudioHardwareNoError, Some (sz_CFStringRef ca))
     | kAudioDevicePropertyDeviceUID \<Rightarrow> (kAudioHardwareNoError, Some (sz_CFStringRef ca))
     | kAudioDevicePropertyModelUID \<Rightarrow> (kAudioHardwareNoError, Some (sz_CFStringRef ca))
     | kAudioObjectPropertyOwnedObjects \<Rightarrow> (kAudioHardwareNoError, Some (sz_AudioObjectID ca))
     | kAudioObjectPropertyControlList \<Rightarrow> (kAudioHardwareNoError, Some (0))
     | kAudioDevicePropertyTransportType \<Rightarrow> (kAudioHardwareNoError, Some (4))
     | kAudioDevicePropertyClockDomain \<Rightarrow> (kAudioHardwareNoError, Some (4))
     | kAudioDevicePropertyDeviceIsAlive \<Rightarrow> (kAudioHardwareNoError, Some (4))
     | kAudioDevicePropertyDeviceIsRunning \<Rightarrow> (kAudioHardwareNoError, Some (4))
     | kAudioDevicePropertyDeviceCanBeDefaultDevice \<Rightarrow> (kAudioHardwareNoError, Some (4))
     | kAudioDevicePropertyDeviceCanBeDefaultSystemDevice \<Rightarrow> (kAudioHardwareNoError, Some (4))
     | kAudioDevicePropertyLatency \<Rightarrow> (kAudioHardwareNoError, Some (4))
     | kAudioDevicePropertySafetyOffset \<Rightarrow> (kAudioHardwareNoError, Some (4))
     | kAudioDevicePropertyIsHidden \<Rightarrow> (kAudioHardwareNoError, Some (4))
     | kAudioDevicePropertyZeroTimeStampPeriod \<Rightarrow> (kAudioHardwareNoError, Some (4))
     | kAudioDevicePropertyRelatedDevices \<Rightarrow> (kAudioHardwareNoError, Some (sz_AudioObjectID ca))
     | kAudioDevicePropertyStreams \<Rightarrow> (kAudioHardwareNoError, Some (if mScope address = kAudioObjectPropertyScopeOutput then 0 else sz_AudioObjectID ca))
     | kAudioDevicePropertyNominalSampleRate \<Rightarrow> (kAudioHardwareNoError, Some (8))
     | kAudioDevicePropertyAvailableNominalSampleRates \<Rightarrow> (kAudioHardwareNoError, Some (sz_AudioValueRange ca))
     | kAudioDevicePropertyPreferredChannelsForStereo \<Rightarrow> (kAudioHardwareNoError, Some (2 * 4))
     | kAudioDevicePropertyPreferredChannelLayout \<Rightarrow> (kAudioHardwareNoError, Some (channel_layout_size ca))
     | _ \<Rightarrow> (kAudioHardwareUnknownPropertyError, None))"

definition stream_property_size :: "ca_sizes \<Rightarrow> AudioObjectPropertyAddress \<Rightarrow> OSStatus \<times> u32 option" where
  "stream_property_size ca address = (case mSelector address of
       kAudioObjectPropertyBaseClass \<Rightarrow> (kAudioHardwareNoError, Some (sz_AudioClassID ca))
     | kAudioObjectPropertyClass \<Rightarrow> (kAudioHardwareNoError, Some (sz_AudioClassID ca))
     | kAudioObjectPropertyOwner \<Rightarrow> (kAudioHardwareNoError, Some (sz_AudioObjectID ca))
     | kAudioStreamPropertyIsActive \<Rightarrow> (kAudioHardwareNoError, Some (4))
     | kAudioStreamPropertyDirection \<Rightarrow> (kAudioHardwareNoError, Some (4))
     | kAudioStreamPropertyTerminalType \<Rightarrow> (kAudioHardwareNoError, Some (4))
     | kAudioStreamPropertyStartingChannel \<Rightarrow> (kAudioHardwareNoError, Some (4))
     | kAudioStreamPropertyLatency \<Rightarrow> (kAudioHardwareNoError, Some (4))
     | kAudioStreamPropertyVirtualFormat \<Rightarrow> (kAudioHardwareNoError, Some (sz_AudioStreamBasicDescription ca))
     | kAudioStreamPropertyPhysicalFormat \<Rightarrow> (kAudioHardwareNoError, Some (sz_AudioStreamBasicDescription ca))
     | kAudioStreamPropertyAvailableVirtualFormats \<Rightarrow> (kAudioHardwareNoError, Some (sz_AudioStreamRangedDescription ca))
     | kAudioStreamPropertyAvailablePhysicalFormats \<Rightarrow> (kAudioHardwareNoError, Some (sz_AudioStreamRangedDescription ca))
     | _ \<Rightarrow> (kAudioHardwareUnknownPropertyError, None))"

definition ReacJack_GetPropertyDataSize ::
  "ca_sizes \<Rightarrow> driver_ref \<Rightarrow> AudioObjectID \<Rightarrow> AudioObjectPropertyAddress option \<Rightarrow> bool \<Rightarrow> OSStatus \<times> u32 option" where
  "ReacJack_GetPropertyDataSize ca inDriver inObjectID inAddress has_out =
     (if inDriver \<noteq> gDriverRef \<or> inAddress = None \<or> \<not> has_out then (kAudioHardwareBadObjectError, None)
      else case inObjectID of
          kObjectID_PlugIn \<Rightarrow> plugin_property_size ca (the inAddress)
        | kObjectID_Device \<Rightarrow> device_property_size ca (the inAddress)
        | kObjectID_Stream_Input \<Rightarrow> stream_property_size ca (the inAddress)
        | _ \<Rightarrow> (kAudioHardwareBadObjectError, None))"

section \<open>Property data\<close>

text \<open>The C values that the handlers store through \<open>outData\<close>.\<close>

datatype property_value =
    UInt32Value u32
  | ClassIDValue AudioClassID
  | TransportTypeVirtual
  | TerminalTypeLine
  | ObjectIDValue AudioObjectID
  | StringValue string
  | Float64Value rat
  | RangeValue rat rat
  | StereoChannels u32 u32
  | LayoutValue AudioChannelLayout
  | FormatValue AudioStreamBasicDescription
  | RangedFormatValue AudioStreamBasicDescription rat rat

text \<open>A status, the store to \<open>outDataSize\<close> and the store to \<open>outData\<close>.\<close>

type_synonym property_result = "OSStatus \<times> u32 option \<times> property_value option"

definition write_uint32 :: "u32 \<Rightarrow> property_value \<Rightarrow> property_result" where
  "write_uint32 inDataSize value =
     (if inDataSize < 4 then (kAudioHardwareBadPropertySizeError, None, None)
      else (kAudioHardwareNoError, Some 4, Some value))"

definition write_object_id :: "ca_sizes \<Rightarrow> u32 \<Rightarrow> AudioObjectID \<Rightarrow> property_result" where
  "write_object_id ca inDataSize value =
     (if inDataSize < sz_AudioObjectID ca then (kAudioHardwareBadPropertySizeError, None, None)
      else (kAudioHardwareNoError, Some (sz_AudioObjectID ca), Some (ObjectIDValue value)))"

definition write_string :: "ca_sizes \<Rightarrow> u32 \<Rightarrow> string \<Rightarrow> property_result" where
  "write_string ca inDataSize value =
     (if inDataSize < sz_CFStringRef ca then (kAudioHardwareBadPropertySizeError, None, None)
      else (kAudioHardwareNoError, Some (sz_CFStringRef ca), Some (StringValue value)))"

text \<open>
  The qualifier of \<open>TranslateUIDToDevice\<close> points to a string reference, which may be null;
  \<open>string_equal\<close> is the comparison of CoreFoundation.
\<close>

definition translate_uid ::
  "ca_sizes \<Rightarrow> (string \<Rightarrow> string \<Rightarrow> bool) \<Rightarrow> u32 \<Rightarrow> string option option \<Rightarrow> u32 \<Rightarrow> property_result" where
  "translate_uid ca string_equal inQualifierDataSize inQualifierData inDataSize =
     (if inQualifierDataSize \<noteq> sz_CFStringRef ca \<or> inQualifierData = None
      then (kAudioHardwareBadPropertySizeError, None, None)
      else let found = (case the inQualifierData of
                          None \<Rightarrow> kAudioObjectUnknown
                        | Some uid \<Rightarrow> if string_equal uid kDevice_UID then kObjectID_Device else kAudioObjectUnknown)
           in write_object_id ca inDataSize found)"

definition plugin_property_data ::
  "ca_sizes \<Rightarrow> (string \<Rightarrow> string \<Rightarrow> bool) \<Rightarrow> AudioObjectPropertyAddress \<Rightarrow> u32 \<Rightarrow> string option option \<Rightarrow> u32 \<Rightarrow>
   property_result" where
  "plugin_property_data ca string_equal address inQualifierDataSize inQualifierData inDataSize =
     (case mSelector address of
       kAudioObjectPropertyBaseClass \<Rightarrow> write_uint32 inDataSize (ClassIDValue kAudioObjectClassID)
     | kAudioObjectPropertyClass \<Rightarrow> write_uint32 inDataSize (ClassIDValue kAudioPlugInClassID)
     | kAudioObjectPropertyOwner \<Rightarrow> write_object_id ca inDataSize kAudioObjectUnknown
     | kAudioObjectPropertyManufacturer \<Rightarrow> write_string ca inDataSize kDevice_Manufacturer
     | kAudioPlugInPropertyResourceBundle \<Rightarrow> write_string ca inDataSize ''''
     | kAudioObjectPropertyOwnedObjects \<Rightarrow> (if inDataSize < sz_AudioObjectID ca then (kAudioHardwareNoError, Some 0, None) else write_object_id ca inDataSize kObjectID_Device)
     | kAudioPlugInPropertyDeviceList \<Rightarrow> (if inDataSize < sz_AudioObjectID ca then (kAudioHardwareNoError, Some 0, None) else write_object_id ca inDataSize kObjectID_Device)
     | kAudioPlugInPropertyTranslateUIDToDevice \<Rightarrow> translate_uid ca string_equal inQualifierDataSize inQualifierData inDataSize
     | _ \<Rightarrow> (kAudioHardwareUnknownPropertyError, None, None))"

text \<open>The loop that fills the channel descriptions.\<close>

definition device_channel_layout :: AudioChannelLayout where
  "device_channel_layout =
     \<lparr>uses_descriptions = True, mChannelBitmap = 0, mNumberChannelDescriptions = kDevice_ChannelCount,
      mChannelDescriptions =
        map (\<lambda>i. \<lparr>discrete_label = of_nat i, mChannelFlags = 0, mCoordinates = [0, 0, 0]\<rparr>)
          [0..<unat kDevice_ChannelCount]\<rparr>"

text \<open>The device reports whether it runs from the counter of clients, \<open>gDevice_IOIsRunning\<close>.\<close>

definition device_property_data ::
  "ca_sizes \<Rightarrow> u64 \<Rightarrow> AudioObjectPropertyAddress \<Rightarrow> u32 \<Rightarrow> property_result" where
  "device_property_data ca io_is_running address inDataSize = (case mSelector address of
       kAudioObjectPropertyBaseClass \<Rightarrow> write_uint32 inDataSize (ClassIDValue kAudioObjectClassID)
     | kAudioObjectPropertyClass \<Rightarrow> write_uint32 inDataSize (ClassIDValue kAudioDeviceClassID)
     | kAudioObjectPropertyOwner \<Rightarrow> write_object_id ca inDataSize kObjectID_PlugIn
     | kAudioObjectPropertyName \<Rightarrow> write_string ca inDataSize kDevice_Name
     | kAudioObjectPropertyManufacturer \<Rightarrow> write_string ca inDataSize kDevice_Manufacturer
     | kAudioDevicePropertyDeviceUID \<Rightarrow> write_string ca inDataSize kDevice_UID
     | kAudioDevicePropertyModelUID \<Rightarrow> write_string ca inDataSize kDevice_ModelUID
     | kAudioObjectPropertyOwnedObjects \<Rightarrow> write_object_id ca inDataSize kObjectID_Stream_Input
     | kAudioObjectPropertyControlList \<Rightarrow> (kAudioHardwareNoError, Some 0, None)
     | kAudioDevicePropertyTransportType \<Rightarrow> write_uint32 inDataSize (TransportTypeVirtual)
     | kAudioDevicePropertyRelatedDevices \<Rightarrow> write_object_id ca inDataSize kObjectID_Device
     | kAudioDevicePropertyClockDomain \<Rightarrow> write_uint32 inDataSize (UInt32Value 0)
     | kAudioDevicePropertyDeviceIsAlive \<Rightarrow> write_uint32 inDataSize (UInt32Value 1)
     | kAudioDevicePropertyDeviceIsRunning \<Rightarrow> write_uint32 inDataSize (UInt32Value (if io_is_running > 0 then 1 else 0))
     | kAudioDevicePropertyDeviceCanBeDefaultDevice \<Rightarrow> write_uint32 inDataSize (UInt32Value 1)
     | kAudioDevicePropertyDeviceCanBeDefaultSystemDevice \<Rightarrow> write_uint32 inDataSize (UInt32Value 0)
     | kAudioDevicePropertyLatency \<Rightarrow> write_uint32 inDataSize (UInt32Value 0)
     | kAudioDevicePropertySafetyOffset \<Rightarrow> write_uint32 inDataSize (UInt32Value 0)
     | kAudioDevicePropertyIsHidden \<Rightarrow> write_uint32 inDataSize (UInt32Value 0)
     | kAudioDevicePropertyZeroTimeStampPeriod \<Rightarrow> write_uint32 inDataSize (UInt32Value kDevice_RingFrames)
     | kAudioDevicePropertyStreams \<Rightarrow> 
         (if mScope address = kAudioObjectPropertyScopeOutput \<or> inDataSize < sz_AudioObjectID ca then (kAudioHardwareNoError, Some 0, None)
          else write_object_id ca inDataSize kObjectID_Stream_Input)
     | kAudioDevicePropertyNominalSampleRate \<Rightarrow> 
         (if inDataSize < 8 then (kAudioHardwareBadPropertySizeError, None, None)
          else (kAudioHardwareNoError, Some 8, Some (Float64Value kDevice_SampleRate)))
     | kAudioDevicePropertyAvailableNominalSampleRates \<Rightarrow> 
         (if inDataSize < sz_AudioValueRange ca then (kAudioHardwareNoError, Some 0, None)
          else (kAudioHardwareNoError, Some (sz_AudioValueRange ca), Some (RangeValue kDevice_SampleRate kDevice_SampleRate)))
     | kAudioDevicePropertyPreferredChannelsForStereo \<Rightarrow> 
         (if inDataSize < 2 * 4 then (kAudioHardwareBadPropertySizeError, None, None)
          else (kAudioHardwareNoError, Some (2 * 4), Some (StereoChannels 1 2)))
     | kAudioDevicePropertyPreferredChannelLayout \<Rightarrow> 
         (if inDataSize < channel_layout_size ca then (kAudioHardwareBadPropertySizeError, None, None)
          else (kAudioHardwareNoError, Some (channel_layout_size ca), Some (LayoutValue device_channel_layout)))
     | _ \<Rightarrow> (kAudioHardwareUnknownPropertyError, None, None))"

definition stream_property_data :: "ca_sizes \<Rightarrow> AudioObjectPropertyAddress \<Rightarrow> u32 \<Rightarrow> property_result" where
  "stream_property_data ca address inDataSize = (case mSelector address of
       kAudioObjectPropertyBaseClass \<Rightarrow> write_uint32 inDataSize (ClassIDValue kAudioObjectClassID)
     | kAudioObjectPropertyClass \<Rightarrow> write_uint32 inDataSize (ClassIDValue kAudioStreamClassID)
     | kAudioObjectPropertyOwner \<Rightarrow> write_object_id ca inDataSize kObjectID_Device
     | kAudioStreamPropertyIsActive \<Rightarrow> write_uint32 inDataSize (UInt32Value 1)
     | kAudioStreamPropertyDirection \<Rightarrow> write_uint32 inDataSize (UInt32Value 1)
     | kAudioStreamPropertyTerminalType \<Rightarrow> write_uint32 inDataSize (TerminalTypeLine)
     | kAudioStreamPropertyStartingChannel \<Rightarrow> write_uint32 inDataSize (UInt32Value 1)
     | kAudioStreamPropertyLatency \<Rightarrow> write_uint32 inDataSize (UInt32Value 0)
     | kAudioStreamPropertyVirtualFormat \<Rightarrow> 
         (if inDataSize < sz_AudioStreamBasicDescription ca then (kAudioHardwareBadPropertySizeError, None, None)
          else (kAudioHardwareNoError, Some (sz_AudioStreamBasicDescription ca), Some (FormatValue device_stream_format)))
     | kAudioStreamPropertyPhysicalFormat \<Rightarrow> 
         (if inDataSize < sz_AudioStreamBasicDescription ca then (kAudioHardwareBadPropertySizeError, None, None)
          else (kAudioHardwareNoError, Some (sz_AudioStreamBasicDescription ca), Some (FormatValue device_stream_format)))
     | kAudioStreamPropertyAvailableVirtualFormats \<Rightarrow> 
         (if inDataSize < sz_AudioStreamRangedDescription ca then (kAudioHardwareNoError, Some 0, None)
          else (kAudioHardwareNoError, Some (sz_AudioStreamRangedDescription ca),
                Some (RangedFormatValue device_stream_format kDevice_SampleRate kDevice_SampleRate)))
     | kAudioStreamPropertyAvailablePhysicalFormats \<Rightarrow> 
         (if inDataSize < sz_AudioStreamRangedDescription ca then (kAudioHardwareNoError, Some 0, None)
          else (kAudioHardwareNoError, Some (sz_AudioStreamRangedDescription ca),
                Some (RangedFormatValue device_stream_format kDevice_SampleRate kDevice_SampleRate)))
     | _ \<Rightarrow> (kAudioHardwareUnknownPropertyError, None, None))"

text \<open>The qualifier, the sizes and the flag for the two output pointers are gathered in a record.\<close>

record property_request =
  req_qualifier_size :: u32
  req_qualifier :: "string option option"
  req_data_size :: u32
  has_outputs :: bool

definition ReacJack_GetPropertyData ::
  "ca_sizes \<Rightarrow> (string \<Rightarrow> string \<Rightarrow> bool) \<Rightarrow> u64 \<Rightarrow> driver_ref \<Rightarrow> AudioObjectID \<Rightarrow> AudioObjectPropertyAddress option \<Rightarrow>
   property_request \<Rightarrow> property_result" where
  "ReacJack_GetPropertyData ca string_equal io_is_running inDriver inObjectID inAddress r =
     (if inDriver \<noteq> gDriverRef \<or> inAddress = None \<or> \<not> has_outputs r then (kAudioHardwareBadObjectError, None, None)
      else case inObjectID of
          kObjectID_PlugIn \<Rightarrow> plugin_property_data ca string_equal (the inAddress) (req_qualifier_size r)
                                (req_qualifier r) (req_data_size r)
        | kObjectID_Device \<Rightarrow> device_property_data ca io_is_running (the inAddress) (req_data_size r)
        | kObjectID_Stream_Input \<Rightarrow> stream_property_data ca (the inAddress) (req_data_size r)
        | _ \<Rightarrow> (kAudioHardwareBadObjectError, None, None))"

text \<open>The two ways in which the driver reads the bytes behind \<open>inData\<close>.\<close>

record property_input =
  as_Float64 :: "rat option"
  as_Format :: AudioStreamBasicDescription

definition ReacJack_SetPropertyData ::
  "ca_sizes \<Rightarrow> driver_ref \<Rightarrow> AudioObjectID \<Rightarrow> AudioObjectPropertyAddress option \<Rightarrow> u32 \<Rightarrow> property_input option \<Rightarrow>
   OSStatus" where
  "ReacJack_SetPropertyData ca inDriver inObjectID inAddress inDataSize inData =
     (if inDriver \<noteq> gDriverRef \<or> inAddress = None \<or> inData = None then kAudioHardwareBadObjectError
      else let sel = mSelector (the inAddress) in
      if inObjectID = kObjectID_Device \<and> sel = kAudioDevicePropertyNominalSampleRate then
        (if inDataSize \<noteq> 8 then kAudioHardwareBadPropertySizeError
         else if float_eq (as_Float64 (the inData)) (Some kDevice_SampleRate) then kAudioHardwareNoError
         else kAudioDeviceUnsupportedFormatError)
      else if inObjectID = kObjectID_Stream_Input \<and>
              (sel = kAudioStreamPropertyVirtualFormat \<or> sel = kAudioStreamPropertyPhysicalFormat) then
        (if inDataSize \<noteq> sz_AudioStreamBasicDescription ca then kAudioHardwareBadPropertySizeError
         else if formats_equal (as_Format (the inData)) device_stream_format then kAudioHardwareNoError
         else kAudioDeviceUnsupportedFormatError)
      else kAudioHardwareUnknownPropertyError)"

section \<open>Lemmas\<close>

text \<open>
  The number of bytes a value occupies in the caller's buffer; a channel layout takes its fixed part and
  each of the descriptions that are written.  Sizes are 32 bit words, as in the code.
\<close>

fun value_bytes :: "ca_sizes \<Rightarrow> property_value \<Rightarrow> u32" where
  "value_bytes ca (ObjectIDValue v) = sz_AudioObjectID ca"
| "value_bytes ca (StringValue v) = sz_CFStringRef ca"
| "value_bytes ca (Float64Value v) = 8"
| "value_bytes ca (RangeValue lo hi) = sz_AudioValueRange ca"
| "value_bytes ca (StereoChannels l r) = 2 * 4"
| "value_bytes ca (LayoutValue v) =
     offset_mChannelDescriptions ca + of_nat (length (mChannelDescriptions v)) * sz_AudioChannelDescription ca"
| "value_bytes ca (FormatValue v) = sz_AudioStreamBasicDescription ca"
| "value_bytes ca (RangedFormatValue v lo hi) = sz_AudioStreamRangedDescription ca"
| "value_bytes ca v = 4"

definition stored_bytes :: "ca_sizes \<Rightarrow> property_value option \<Rightarrow> u32" where
  "stored_bytes ca v = (case v of None \<Rightarrow> 0 | Some v \<Rightarrow> value_bytes ca v)"

text \<open>
  A result keeps to a buffer: what is stored fits, the stored size is what was stored, and an
  error stores nothing.
\<close>

definition result_fits :: "ca_sizes \<Rightarrow> u32 \<Rightarrow> property_result \<Rightarrow> bool" where
  "result_fits ca inDataSize res = (case res of (status, n, v) \<Rightarrow>
     stored_bytes ca v \<le> inDataSize \<and>
     (if status = kAudioHardwareNoError then n = Some (stored_bytes ca v) else n = None \<and> v = None))"

lemma write_uint32_fits:
  "value_bytes ca v = 4 \<Longrightarrow> result_fits ca m (write_uint32 m v)"
  by (auto simp: result_fits_def write_uint32_def stored_bytes_def not_less)

lemma write_object_id_fits: "result_fits ca m (write_object_id ca m v)"
  by (auto simp: result_fits_def write_object_id_def stored_bytes_def not_less)

lemma write_string_fits: "result_fits ca m (write_string ca m v)"
  by (auto simp: result_fits_def write_string_def stored_bytes_def not_less)

lemma nothing_fits:
  "result_fits ca m (kAudioHardwareNoError, Some 0, None)"
  "status \<noteq> kAudioHardwareNoError \<Longrightarrow> result_fits ca m (status, None, None)"
  by (auto simp: result_fits_def stored_bytes_def)

lemma sized_value_fits:
  "\<not> m < n \<Longrightarrow> value_bytes ca v = n \<Longrightarrow> result_fits ca m (kAudioHardwareNoError, Some n, Some v)"
  by (auto simp: result_fits_def stored_bytes_def)

lemma layout_bytes: "value_bytes ca (LayoutValue device_channel_layout) = channel_layout_size ca"
  by (simp add: device_channel_layout_def channel_layout_size_def del: upt_rec_numeral)

lemmas result_fits_intros = write_uint32_fits write_object_id_fits write_string_fits nothing_fits sized_value_fits

lemma property_data_fits:
  "result_fits ca m (plugin_property_data ca eq address qs q m)"
  "result_fits ca m (device_property_data ca running address m)"
  "result_fits ca m (stream_property_data ca address m)"
  unfolding plugin_property_data_def device_property_data_def stream_property_data_def translate_uid_def Let_def
  by (cases "mSelector address"; simp add: result_fits_intros layout_bytes del: value_bytes.simps(6))+

text \<open>The tables of names, sizes and data have the same entries.\<close>

definition table_agrees :: "u32 \<Rightarrow> property_result \<Rightarrow> bool" where
  "table_agrees n res \<longleftrightarrow> fst res = kAudioHardwareNoError \<and> fst (snd res) = Some n"

lemma write_agrees:
  "\<not> m < 4 \<Longrightarrow> table_agrees 4 (write_uint32 m v)"
  "\<not> m < sz_AudioObjectID ca \<Longrightarrow> table_agrees (sz_AudioObjectID ca) (write_object_id ca m i)"
  "\<not> m < sz_CFStringRef ca \<Longrightarrow> table_agrees (sz_CFStringRef ca) (write_string ca m s)"
  "table_agrees n (kAudioHardwareNoError, Some n, w)"
  by (auto simp: table_agrees_def write_uint32_def write_object_id_def write_string_def)

lemma plugin_tables:
  assumes "plugin_has_property address" "sz_AudioClassID ca = 4"
  shows "\<exists>n. plugin_property_size ca address = (kAudioHardwareNoError, Some n) \<and>
    (\<not> m < n \<and> (mSelector address = kAudioPlugInPropertyTranslateUIDToDevice \<longrightarrow> qs = sz_CFStringRef ca \<and> q \<noteq> None) \<longrightarrow>
      table_agrees n (plugin_property_data ca eq address qs q m))"
  using assms unfolding plugin_has_property_def plugin_property_size_def plugin_property_data_def
  by (cases "mSelector address"; simp add: write_agrees translate_uid_def Let_def)

lemma device_tables:
  assumes "device_has_property address" "sz_AudioClassID ca = 4"
  shows "\<exists>n. device_property_size ca address = (kAudioHardwareNoError, Some n) \<and>
    (\<not> m < n \<longrightarrow> table_agrees n (device_property_data ca running address m))"
  using assms unfolding device_has_property_def device_property_size_def device_property_data_def
  by (cases "mSelector address"; simp add: write_agrees)

lemma stream_tables:
  assumes "stream_has_property address" "sz_AudioClassID ca = 4"
  shows "\<exists>n. stream_property_size ca address = (kAudioHardwareNoError, Some n) \<and>
    (\<not> m < n \<longrightarrow> table_agrees n (stream_property_data ca address m))"
  using assms unfolding stream_has_property_def stream_property_size_def stream_property_data_def
  by (cases "mSelector address"; simp add: write_agrees)

text \<open>Where a size is given, and what reading an existing property does.\<close>

lemma plugin_sizes: "(\<exists>n. plugin_property_size ca address = (kAudioHardwareNoError, Some n)) \<longleftrightarrow> plugin_has_property address"
  unfolding plugin_has_property_def plugin_property_size_def by (cases "mSelector address"; simp)

lemma stream_sizes: "(\<exists>n. stream_property_size ca address = (kAudioHardwareNoError, Some n)) \<longleftrightarrow> stream_has_property address"
  unfolding stream_has_property_def stream_property_size_def by (cases "mSelector address"; simp)

lemma device_sizes:
  "(\<exists>n. device_property_size ca address = (kAudioHardwareNoError, Some n)) \<longleftrightarrow> device_has_property address \<or>
     (mSelector address = kAudioDevicePropertyPreferredChannelsForStereo \<or> mSelector address = kAudioDevicePropertyPreferredChannelLayout) \<and>
     mScope address \<noteq> kAudioObjectPropertyScopeInput \<and> mScope address \<noteq> kAudioObjectPropertyScopeGlobal"
  unfolding device_has_property_def device_property_size_def by (cases "mSelector address"; simp; blast)

lemma sizes_exist:
  "(\<exists>n. ReacJack_GetPropertyDataSize ca gDriverRef obj (Some address) True = (kAudioHardwareNoError, Some n)) \<longleftrightarrow>
     ReacJack_HasProperty gDriverRef obj (Some address) \<or> obj = kObjectID_Device \<and>
       (mSelector address = kAudioDevicePropertyPreferredChannelsForStereo \<or> mSelector address = kAudioDevicePropertyPreferredChannelLayout) \<and>
       mScope address \<noteq> kAudioObjectPropertyScopeInput \<and> mScope address \<noteq> kAudioObjectPropertyScopeGlobal"
  by (cases obj) (simp_all add: ReacJack_GetPropertyDataSize_def ReacJack_HasProperty_def plugin_sizes device_sizes stream_sizes)

lemma existing_read:
  assumes "ReacJack_HasProperty gDriverRef obj (Some address)" "sz_AudioClassID ca = 4"
  shows "\<exists>n. ReacJack_GetPropertyDataSize ca gDriverRef obj (Some address) True = (kAudioHardwareNoError, Some n) \<and>
    (\<forall>r. has_outputs r \<and> n \<le> req_data_size r \<and>
       (mSelector address = kAudioPlugInPropertyTranslateUIDToDevice \<longrightarrow>
          req_qualifier_size r = sz_CFStringRef ca \<and> req_qualifier r \<noteq> None) \<longrightarrow>
     (\<exists>v. ReacJack_GetPropertyData ca string_equal io_is_running gDriverRef obj (Some address) r =
        (kAudioHardwareNoError, Some n, v) \<and> stored_bytes ca v = n))"
proof -
  let ?get = "ReacJack_GetPropertyData ca string_equal io_is_running gDriverRef obj (Some address)"
  have n: "\<exists>n. ReacJack_GetPropertyDataSize ca gDriverRef obj (Some address) True = (kAudioHardwareNoError, Some n) \<and>
    (has_outputs r \<and> n \<le> req_data_size r \<and> (mSelector address = kAudioPlugInPropertyTranslateUIDToDevice \<longrightarrow>
          req_qualifier_size r = sz_CFStringRef ca \<and> req_qualifier r \<noteq> None) \<longrightarrow> table_agrees n (?get r))" for r
    using assms plugin_tables[of address ca "req_data_size r" "req_qualifier_size r" "req_qualifier r" string_equal]
      device_tables[of address ca "req_data_size r" io_is_running] stream_tables[of address ca "req_data_size r"]
    by (cases obj) (auto simp: ReacJack_HasProperty_def ReacJack_GetPropertyDataSize_def ReacJack_GetPropertyData_def)
  then obtain n where size: "ReacJack_GetPropertyDataSize ca gDriverRef obj (Some address) True = (kAudioHardwareNoError, Some n)"
    by blast
  have "\<exists>v. ?get r = (kAudioHardwareNoError, Some n, v) \<and> stored_bytes ca v = n"
    if "has_outputs r \<and> n \<le> req_data_size r \<and> (mSelector address = kAudioPlugInPropertyTranslateUIDToDevice \<longrightarrow>
          req_qualifier_size r = sz_CFStringRef ca \<and> req_qualifier r \<noteq> None)" for r
  proof -
    have "table_agrees n (?get r)" using n[of r] size that by auto
    moreover have "result_fits ca (req_data_size r) (?get r)"
      unfolding ReacJack_GetPropertyData_def by (cases obj) (simp_all add: property_data_fits nothing_fits)
    ultimately show ?thesis by (auto simp: table_agrees_def result_fits_def split: prod.splits)
  qed
  with size show ?thesis by blast
qed

section \<open>Properties\<close>

text \<open>C34. Reading a property never writes past the caller's buffer: whatever object, selector, scope,
  qualifier and buffer size the host passes, the bytes stored fit into \<open>inDataSize\<close>, a
  successful call reports exactly the bytes it stored, and a failing call stores nothing.  For the channel
  layout, the only value of variable length, the bytes are those of the descriptions that its loop writes.\<close>

theorem hal_get_property_fits:
  "result_fits ca (req_data_size r)
     (ReacJack_GetPropertyData ca string_equal io_is_running inDriver inObjectID inAddress r)"
  unfolding ReacJack_GetPropertyData_def
  by (cases inObjectID) (simp_all add: property_data_fits nothing_fits)

text \<open>C33. The three property tables agree but for one gap.  A property has a size exactly when the object says it
  has the property, except that the device gives a size for its preferred stereo channels and channel
  layout in every scope, while it says it has them in the input and global scopes only.  Reading a
  property that exists into a buffer of at least its size succeeds, stores exactly that many bytes
  and reports them.  The qualifier of the translation of a device UID must be a string reference,
  and class identifiers are assumed to be 32 bits wide.\<close>

theorem hal_property_tables_agree:
  assumes "sz_AudioClassID ca = 4"
  shows "((\<exists>n. ReacJack_GetPropertyDataSize ca gDriverRef obj (Some address) True = (kAudioHardwareNoError, Some n)) \<longleftrightarrow>
      ReacJack_HasProperty gDriverRef obj (Some address) \<or> obj = kObjectID_Device \<and>
        (mSelector address = kAudioDevicePropertyPreferredChannelsForStereo \<or> mSelector address = kAudioDevicePropertyPreferredChannelLayout) \<and>
        mScope address \<noteq> kAudioObjectPropertyScopeInput \<and> mScope address \<noteq> kAudioObjectPropertyScopeGlobal) \<and>
    (ReacJack_HasProperty gDriverRef obj (Some address) \<longrightarrow>
      (\<exists>n. ReacJack_GetPropertyDataSize ca gDriverRef obj (Some address) True = (kAudioHardwareNoError, Some n) \<and>
        (\<forall>r. has_outputs r \<and> n \<le> req_data_size r \<and>
           (mSelector address = kAudioPlugInPropertyTranslateUIDToDevice \<longrightarrow>
              req_qualifier_size r = sz_CFStringRef ca \<and> req_qualifier r \<noteq> None) \<longrightarrow>
         (\<exists>v. ReacJack_GetPropertyData ca string_equal io_is_running gDriverRef obj (Some address) r =
            (kAudioHardwareNoError, Some n, v) \<and> stored_bytes ca v = n))))"
  using sizes_exist[of ca obj address] existing_read[OF _ assms] by blast

definition lp64_sizes :: ca_sizes where
  "lp64_sizes = \<lparr>sz_AudioClassID = 4, sz_AudioObjectID = 4, sz_CFStringRef = 8, sz_AudioValueRange = 16,
     sz_AudioStreamBasicDescription = 40, sz_AudioStreamRangedDescription = 56, sz_AudioChannelDescription = 20,
     offset_mChannelDescriptions = 12\<rparr>"

theorem hal_property_tables_agree_witness:
  "\<exists>v. ReacJack_GetPropertyData lp64_sizes (=) 0 gDriverRef kObjectID_Device
      (Some \<lparr>mSelector = kAudioDevicePropertyPreferredChannelLayout, mScope = kAudioObjectPropertyScopeInput\<rparr>)
      \<lparr>req_qualifier_size = 0, req_qualifier = None, req_data_size = 900, has_outputs = True\<rparr> =
      (kAudioHardwareNoError, Some 812, v) \<and> stored_bytes lp64_sizes v = 812"
proof -
  let ?a = "\<lparr>mSelector = kAudioDevicePropertyPreferredChannelLayout, mScope = kAudioObjectPropertyScopeInput\<rparr>"
  have h: "ReacJack_HasProperty gDriverRef kObjectID_Device (Some ?a)"
    by (simp add: ReacJack_HasProperty_def device_has_property_def)
  have s: "ReacJack_GetPropertyDataSize lp64_sizes gDriverRef kObjectID_Device (Some ?a) True =
      (kAudioHardwareNoError, Some 812)"
    by (simp add: ReacJack_GetPropertyDataSize_def device_property_size_def channel_layout_size_def lp64_sizes_def)
  have "sz_AudioClassID lp64_sizes = 4" by (simp add: lp64_sizes_def)
  from hal_property_tables_agree[OF this, of kObjectID_Device ?a "(=)" 0] h s show ?thesis by simp
qed

text \<open>A property is settable exactly where setting it is handled, and setting it never changes
  the device: the only value that is accepted, in exactly its size, is the one that reading the
  property returns; every other value is refused as unsupported.\<close>

theorem hal_set_property_only_current:
  assumes "ReacJack_IsPropertySettable gDriverRef obj (Some address) True = (kAudioHardwareNoError, Some settable)"
  shows "settable = (ReacJack_SetPropertyData ca gDriverRef obj (Some address) n (Some x) \<noteq> kAudioHardwareUnknownPropertyError) \<and>
    (settable \<longrightarrow> (\<exists>v. ReacJack_GetPropertyData ca string_equal io_is_running gDriverRef obj (Some address)
         \<lparr>req_qualifier_size = 0, req_qualifier = None, req_data_size = value_bytes ca v, has_outputs = True\<rparr> =
         (kAudioHardwareNoError, Some (value_bytes ca v), Some v) \<and>
       ReacJack_SetPropertyData ca gDriverRef obj (Some address) n (Some x) =
         (if n \<noteq> value_bytes ca v then kAudioHardwareBadPropertySizeError
          else if v = Float64Value (the (as_Float64 x)) \<and> as_Float64 x \<noteq> None \<or> v = FormatValue (as_Format x)
          then kAudioHardwareNoError else kAudioDeviceUnsupportedFormatError)))"
proof -
  let ?rate = "obj = kObjectID_Device \<and> mSelector address = kAudioDevicePropertyNominalSampleRate"
  let ?fmt = "obj = kObjectID_Stream_Input \<and>
    (mSelector address = kAudioStreamPropertyVirtualFormat \<or> mSelector address = kAudioStreamPropertyPhysicalFormat)"
  have s: "settable \<longleftrightarrow> ?rate \<or> ?fmt"
    using assms by (auto simp: ReacJack_IsPropertySettable_def Let_def split: if_splits)
  have fe: "formats_equal f device_stream_format \<longleftrightarrow> device_stream_format = f" for f
    by (cases f) (auto simp: formats_equal_def device_stream_format_def float_eq_def)
  consider (rate) ?rate | (fmt) ?fmt | (none) "\<not> ?rate" "\<not> ?fmt" by blast
  then show ?thesis
  proof cases
    case rate
    with s show ?thesis
      by (intro conjI impI exI [of _ "Float64Value 48000"])
        (auto simp: ReacJack_SetPropertyData_def ReacJack_GetPropertyData_def device_property_data_def float_eq_def Let_def)
  next
    case fmt
    with s show ?thesis
      by (intro conjI impI exI [of _ "FormatValue device_stream_format"])
        (auto simp: ReacJack_SetPropertyData_def ReacJack_GetPropertyData_def stream_property_data_def fe Let_def)
  next
    case none
    with s show ?thesis by (auto simp: ReacJack_SetPropertyData_def Let_def)
  qed
qed

theorem hal_set_property_only_current_witness:
  "ReacJack_SetPropertyData lp64_sizes gDriverRef kObjectID_Device
     (Some \<lparr>mSelector = kAudioDevicePropertyNominalSampleRate, mScope = kAudioObjectPropertyScopeGlobal\<rparr>) 8
     (Some \<lparr>as_Float64 = Some 44100, as_Format = device_stream_format\<rparr>) \<noteq> kAudioHardwareUnknownPropertyError"
proof -
  let ?a = "\<lparr>mSelector = kAudioDevicePropertyNominalSampleRate, mScope = kAudioObjectPropertyScopeGlobal\<rparr>"
  have "ReacJack_IsPropertySettable gDriverRef kObjectID_Device (Some ?a) True = (kAudioHardwareNoError, Some True)"
    by (simp add: ReacJack_IsPropertySettable_def ReacJack_HasProperty_def device_has_property_def)
  from hal_set_property_only_current[OF this, of lp64_sizes 8 "\<lparr>as_Float64 = Some 44100, as_Format = device_stream_format\<rparr>"]
  show ?thesis by simp
qed

end
