(* ===== verification/HalDevice.thy ===== *)
theory HalDevice
  imports HalProperties SharedRegulation SharedClock SharedAudioShm
begin

text \<open>
  The state and the operations of the CoreAudio plug-in \<open>src/coreaudio/ReacJackDriver.c\<close>:
  reference counting, initialisation, the start and stop of I/O with the mapping of the ring, the
  clock that follows the daemon, the zero time stamps and the transfer of audio.  Every handler
  that changes the state holds a mutex for its whole body, so these handlers are atomic
  operations on the state; \<open>ReacJack_DoIOOperation\<close> takes no mutex and only reads it.  The host's
  absolute time and the time base are arguments.
\<close>

section \<open>State\<close>

text \<open>The file scope variables of the driver; its floating point variables are rational numbers.\<close>

record hal_state =
  gPlugIn_RefCount :: u32
  gPlugIn_Host :: "nat option"
  gDevice_IOIsRunning :: u64
  gDevice_HostTicksPerFrame :: rat
  gDevice_AnchorHostTime :: u64
  gDevice_AnchorSampleTime :: rat
  gDevice_LastHostTime :: u64
  gDevice_LastSampleTime :: rat
  gDevice_TimelineSeed :: u64
  gDevice_SlavedTicksPerFrame :: rat
  gDevice_ClockRefValid :: bool
  gDevice_ClockRefHostTime :: u64
  gDevice_ClockRefSamplePos :: u64
  gDevice_Ring :: SharedAudio
  gDevice_RingIsOpen :: bool

definition hal_init :: hal_state where
  "hal_init =
     \<lparr>gPlugIn_RefCount = 0, gPlugIn_Host = None, gDevice_IOIsRunning = 0, gDevice_HostTicksPerFrame = 0,
      gDevice_AnchorHostTime = 0, gDevice_AnchorSampleTime = 0, gDevice_LastHostTime = 0,
      gDevice_LastSampleTime = 0, gDevice_TimelineSeed = 1, gDevice_SlavedTicksPerFrame = 0,
      gDevice_ClockRefValid = False, gDevice_ClockRefHostTime = 0, gDevice_ClockRefSamplePos = 0,
      gDevice_Ring = \<lparr>sa_header = None, sa_samples = None, sa_mapped_bytes = 0, sa_owner = 0, sa_name = []\<rparr>,
      gDevice_RingIsOpen = False\<rparr>"

abbreviation (input) kDevice_RingName :: string where "kDevice_RingName \<equiv> ''/reacjack-audio''"
abbreviation (input) kDevice_TargetFill :: u32 where "kDevice_TargetFill \<equiv> 4800"
abbreviation (input) kDevice_FillTolerance :: u32 where "kDevice_FillTolerance \<equiv> 2400"
abbreviation (input) kClock_MinObservedFrames :: u64 where "kClock_MinObservedFrames \<equiv> 24000"

definition kClock_MaxRateSkew :: rat where
  "kClock_MaxRateSkew = f64 (1 / 100)"

section \<open>Reference counting\<close>

text \<open>The interface identifiers that the driver distinguishes, and results of the COM calls.\<close>

datatype interface_uuid = IUnknownUUID | kAudioServerPlugInDriverInterfaceUUID | OtherUUID nat

datatype com_result = S_OK | E_NOINTERFACE | ComError OSStatus

text \<open>\<open>uuid\<close> is what \<open>CFUUIDCreateFromUUIDBytes\<close> returns, null on failure.\<close>

definition ReacJack_QueryInterface ::
  "hal_state \<Rightarrow> driver_ref \<Rightarrow> interface_uuid option \<Rightarrow> bool \<Rightarrow> com_result \<times> driver_ref option \<times> hal_state" where
  "ReacJack_QueryInterface st inDriver uuid has_out =
     (if inDriver \<noteq> gDriverRef \<or> \<not> has_out then (ComError kAudioHardwareIllegalOperationError, None, st)
      else case uuid of
        None \<Rightarrow> (ComError kAudioHardwareIllegalOperationError, None, st)
      | Some uuid \<Rightarrow>
          if \<not> (uuid = IUnknownUUID \<or> uuid = kAudioServerPlugInDriverInterfaceUUID) then (E_NOINTERFACE, None, st)
          else (S_OK, Some gDriverRef, st\<lparr>gPlugIn_RefCount := gPlugIn_RefCount st + 1\<rparr>))"

definition ReacJack_AddRef :: "hal_state \<Rightarrow> driver_ref \<Rightarrow> u32 \<times> hal_state" where
  "ReacJack_AddRef st inDriver =
     (if inDriver \<noteq> gDriverRef then (0, st)
      else let count = gPlugIn_RefCount st + 1 in (count, st\<lparr>gPlugIn_RefCount := count\<rparr>))"

definition ReacJack_Release :: "hal_state \<Rightarrow> driver_ref \<Rightarrow> u32 \<times> hal_state" where
  "ReacJack_Release st inDriver =
     (if inDriver \<noteq> gDriverRef then (0, st)
      else if gPlugIn_RefCount st > 0
      then let count = gPlugIn_RefCount st - 1 in (count, st\<lparr>gPlugIn_RefCount := count\<rparr>)
      else (0, st))"

text \<open>The factory: \<open>type_matches\<close> is the comparison with the plug-in type, of a UUID that may be null.\<close>

definition ReacJack_Create :: "bool option \<Rightarrow> driver_ref option" where
  "ReacJack_Create type_matches =
     (if type_matches = None \<or> type_matches = Some False then None else Some gDriverRef)"

section \<open>Lifecycle\<close>

text \<open>\<open>numer\<close> and \<open>denom\<close> are the two fields of \<open>mach_timebase_info\<close>.\<close>

definition ReacJack_Initialize :: "hal_state \<Rightarrow> u32 \<Rightarrow> u32 \<Rightarrow> driver_ref \<Rightarrow> nat \<Rightarrow> OSStatus \<times> hal_state" where
  "ReacJack_Initialize st numer denom inDriver inHost =
     (if inDriver \<noteq> gDriverRef then (kAudioHardwareBadObjectError, st)
      else let ticks_per_second = f64 (f64 (1000000000 * of_nat (unat denom)) / of_nat (unat numer))
           in (kAudioHardwareNoError,
               st\<lparr>gDevice_HostTicksPerFrame := f64 (ticks_per_second / kDevice_SampleRate),
                  gPlugIn_Host := Some inHost\<rparr>))"

definition ReacJack_CreateDevice :: "driver_ref \<Rightarrow> OSStatus" where
  "ReacJack_CreateDevice inDriver = kAudioHardwareUnsupportedOperationError"

definition ReacJack_DestroyDevice :: "driver_ref \<Rightarrow> AudioObjectID \<Rightarrow> OSStatus" where
  "ReacJack_DestroyDevice inDriver inDeviceObjectID = kAudioHardwareUnsupportedOperationError"

definition device_check :: "driver_ref \<Rightarrow> AudioObjectID \<Rightarrow> OSStatus" where
  "device_check inDriver inDeviceObjectID =
     (if inDriver \<noteq> gDriverRef \<or> inDeviceObjectID \<noteq> kObjectID_Device then kAudioHardwareBadObjectError
      else kAudioHardwareNoError)"

definition ReacJack_AddDeviceClient :: "driver_ref \<Rightarrow> AudioObjectID \<Rightarrow> OSStatus" where
  "ReacJack_AddDeviceClient inDriver inDeviceObjectID = device_check inDriver inDeviceObjectID"

definition ReacJack_RemoveDeviceClient :: "driver_ref \<Rightarrow> AudioObjectID \<Rightarrow> OSStatus" where
  "ReacJack_RemoveDeviceClient inDriver inDeviceObjectID = device_check inDriver inDeviceObjectID"

definition ReacJack_PerformDeviceConfigurationChange :: "driver_ref \<Rightarrow> AudioObjectID \<Rightarrow> OSStatus" where
  "ReacJack_PerformDeviceConfigurationChange inDriver inDeviceObjectID = device_check inDriver inDeviceObjectID"

definition ReacJack_AbortDeviceConfigurationChange :: "driver_ref \<Rightarrow> AudioObjectID \<Rightarrow> OSStatus" where
  "ReacJack_AbortDeviceConfigurationChange inDriver inDeviceObjectID = device_check inDriver inDeviceObjectID"

section \<open>Start and stop\<close>

text \<open>The part of \<open>ReacJack_StartIO\<close> that the first client runs.\<close>

definition start_first ::
  "failures \<Rightarrow> 'a os \<Rightarrow> u64 \<Rightarrow> hal_state \<Rightarrow> ('a os \<times> hal_state) option" where
  "start_first fails os now st =
     (let st1 = st\<lparr>gDevice_AnchorHostTime := now, gDevice_AnchorSampleTime := 0, gDevice_LastHostTime := now,
                   gDevice_LastSampleTime := 0, gDevice_SlavedTicksPerFrame := gDevice_HostTicksPerFrame st,
                   gDevice_ClockRefValid := False\<rparr>;
          (os1, ring, rc) = shared_audio_open fails os (gDevice_Ring st1) (Some kDevice_RingName);
          st2 = st1\<lparr>gDevice_Ring := ring, gDevice_RingIsOpen := (rc = 0)\<rparr>
      in if rc = 0
         then do { mem \<leftarrow> ring_at os1 ring;
                   Some (put_ring os1 ring (fst (shared_audio_seek_to_fill mem kDevice_TargetFill)), st2) }
         else Some (os1, st2))"

definition ReacJack_StartIO ::
  "failures \<Rightarrow> 'a os \<Rightarrow> u64 \<Rightarrow> hal_state \<Rightarrow> driver_ref \<Rightarrow> AudioObjectID \<Rightarrow> (OSStatus \<times> 'a os \<times> hal_state) option" where
  "ReacJack_StartIO fails os now st inDriver inDeviceObjectID =
     (if inDriver \<noteq> gDriverRef \<or> inDeviceObjectID \<noteq> kObjectID_Device
      then Some (kAudioHardwareBadObjectError, os, st)
      else if gDevice_IOIsRunning st = - 1 then Some (kAudioHardwareIllegalOperationError, os, st)
      else do {
        (os1, st1) \<leftarrow> (if gDevice_IOIsRunning st = 0 then start_first fails os now st else Some (os, st));
        Some (kAudioHardwareNoError, os1, st1\<lparr>gDevice_IOIsRunning := gDevice_IOIsRunning st1 + 1\<rparr>) })"

definition ReacJack_StopIO ::
  "'a os \<Rightarrow> hal_state \<Rightarrow> driver_ref \<Rightarrow> AudioObjectID \<Rightarrow> OSStatus \<times> 'a os \<times> hal_state" where
  "ReacJack_StopIO os st inDriver inDeviceObjectID =
     (if inDriver \<noteq> gDriverRef \<or> inDeviceObjectID \<noteq> kObjectID_Device then (kAudioHardwareBadObjectError, os, st)
      else if gDevice_IOIsRunning st = 0 then (kAudioHardwareIllegalOperationError, os, st)
      else let st1 = st\<lparr>gDevice_IOIsRunning := gDevice_IOIsRunning st - 1\<rparr>
           in if gDevice_IOIsRunning st1 = 0 \<and> gDevice_RingIsOpen st1
              then let (os1, ring) = shared_audio_close os (gDevice_Ring st1)
                   in (kAudioHardwareNoError, os1, st1\<lparr>gDevice_Ring := ring, gDevice_RingIsOpen := False\<rparr>)
              else (kAudioHardwareNoError, os, st1))"

section \<open>The device clock\<close>

text \<open>The limits of the slaved rate and the observed rate brought between them.\<close>

definition rate_low :: "rat \<Rightarrow> rat" where
  "rate_low ticks_per_frame = f64 (ticks_per_frame * f64 (1 - kClock_MaxRateSkew))"

definition rate_high :: "rat \<Rightarrow> rat" where
  "rate_high ticks_per_frame = f64 (ticks_per_frame * f64 (1 + kClock_MaxRateSkew))"

definition rate_estimate :: "rat \<Rightarrow> u64 \<Rightarrow> u64 \<Rightarrow> rat" where
  "rate_estimate ticks_per_frame window_ticks window_frames =
     (let estimate = f64 (f64 (of_nat (unat window_ticks)) / f64 (of_nat (unat window_frames)));
          low = rate_low ticks_per_frame;
          high = rate_high ticks_per_frame
      in if estimate < low then low else if estimate > high then high else estimate)"

definition below_2ppm :: "rat \<Rightarrow> rat \<Rightarrow> bool" where
  "below_2ppm estimate slaved \<longleftrightarrow> \<bar>f64 (estimate - slaved)\<bar> \<le> f64 (slaved * f64 (2 / 1000000))"

definition update_clock_estimate :: "'a os \<Rightarrow> hal_state \<Rightarrow> hal_state option" where
  "update_clock_estimate os st =
     (if \<not> gDevice_RingIsOpen st then Some st
      else do {
        mem \<leftarrow> ring_at os (gDevice_Ring st);
        case shared_audio_get_clock mem of
          None \<Rightarrow> Some st
        | Some (observed_time, observed_pos) \<Rightarrow>
            if \<not> gDevice_ClockRefValid st \<or> observed_pos < gDevice_ClockRefSamplePos st
            then Some (st\<lparr>gDevice_ClockRefHostTime := observed_time, gDevice_ClockRefSamplePos := observed_pos,
                          gDevice_ClockRefValid := True\<rparr>)
            else
              let window_frames = observed_pos - gDevice_ClockRefSamplePos st
              in if window_frames < kClock_MinObservedFrames then Some st
                 else
                   let estimate = rate_estimate (gDevice_HostTicksPerFrame st)
                         (observed_time - gDevice_ClockRefHostTime st) window_frames
                   in if below_2ppm estimate (gDevice_SlavedTicksPerFrame st) then Some st
                      else Some (st\<lparr>gDevice_AnchorHostTime := gDevice_LastHostTime st,
                                    gDevice_AnchorSampleTime := gDevice_LastSampleTime st,
                                    gDevice_SlavedTicksPerFrame := estimate,
                                    gDevice_TimelineSeed := gDevice_TimelineSeed st + 1\<rparr>) })"

text \<open>The conversion of a floating point number to \<open>UInt64\<close>, undefined outside its range.\<close>

definition to_u64 :: "rat \<Rightarrow> u64 option" where
  "to_u64 x = (if - 1 < x \<and> x < 2 ^ 64 then Some (of_int (if x < 0 then 0 else \<lfloor>x\<rfloor>)) else None)"

text \<open>
  The time stamp of the current period.  The quotient by a period of no ticks is infinite or no
  number, and its conversion is undefined.
\<close>

definition zero_time_stamp :: "hal_state \<Rightarrow> u64 \<Rightarrow> (rat \<times> u64) option" where
  "zero_time_stamp st current_host_time =
     (let ticks_per_period = f64 (gDevice_SlavedTicksPerFrame st * of_nat (unat kDevice_RingFrames));
          elapsed_ticks = current_host_time - gDevice_AnchorHostTime st
      in if ticks_per_period = 0 then None
         else do {
           periods \<leftarrow> to_u64 (f64 (f64 (of_nat (unat elapsed_ticks)) / ticks_per_period));
           ticks \<leftarrow> to_u64 (f64 (f64 (of_nat (unat periods)) * ticks_per_period));
           Some (f64 (gDevice_AnchorSampleTime st + f64 (of_nat (unat (periods * 8192)))),
                 gDevice_AnchorHostTime st + ticks) })"

definition ReacJack_GetZeroTimeStamp ::
  "'a os \<Rightarrow> u64 \<Rightarrow> hal_state \<Rightarrow> driver_ref \<Rightarrow> AudioObjectID \<Rightarrow> bool \<Rightarrow>
   (OSStatus \<times> (rat \<times> u64 \<times> u64) option \<times> hal_state) option" where
  "ReacJack_GetZeroTimeStamp os now st inDriver inDeviceObjectID has_out =
     (if inDriver \<noteq> gDriverRef \<or> inDeviceObjectID \<noteq> kObjectID_Device \<or> \<not> has_out
      then Some (kAudioHardwareBadObjectError, None, st)
      else do {
        st1 \<leftarrow> update_clock_estimate os st;
        (sample_time, host_time) \<leftarrow> zero_time_stamp st1 now;
        let (sample_time, host_time) =
              (if host_time < gDevice_LastHostTime st1
               then (gDevice_LastSampleTime st1, gDevice_LastHostTime st1) else (sample_time, host_time))
        in Some (kAudioHardwareNoError, Some (sample_time, host_time, gDevice_TimelineSeed st1),
                 st1\<lparr>gDevice_LastHostTime := host_time, gDevice_LastSampleTime := sample_time\<rparr>) })"

section \<open>Audio\<close>

datatype io_operation = kAudioServerPlugInIOOperationReadInput | OtherOperation u32

definition ReacJack_WillDoIOOperation ::
  "driver_ref \<Rightarrow> AudioObjectID \<Rightarrow> io_operation \<Rightarrow> bool \<Rightarrow> OSStatus \<times> (bool \<times> bool) option" where
  "ReacJack_WillDoIOOperation inDriver inDeviceObjectID inOperationID has_out =
     (if inDriver \<noteq> gDriverRef \<or> inDeviceObjectID \<noteq> kObjectID_Device \<or> \<not> has_out
      then (kAudioHardwareBadObjectError, None)
      else (kAudioHardwareNoError, Some (inOperationID = kAudioServerPlugInIOOperationReadInput, True)))"

definition ReacJack_BeginIOOperation :: "driver_ref \<Rightarrow> AudioObjectID \<Rightarrow> OSStatus" where
  "ReacJack_BeginIOOperation inDriver inDeviceObjectID = device_check inDriver inDeviceObjectID"

definition ReacJack_EndIOOperation :: "driver_ref \<Rightarrow> AudioObjectID \<Rightarrow> OSStatus" where
  "ReacJack_EndIOOperation inDriver inDeviceObjectID = device_check inDriver inDeviceObjectID"

text \<open>
  \<open>ioMainBuffer\<close> is the host's buffer, a list of samples of four bytes each, or null when it is
  \<^term>\<open>None\<close>.
\<close>

definition ReacJack_DoIOOperation ::
  "('a::zero) os \<Rightarrow> hal_state \<Rightarrow> driver_ref \<Rightarrow> AudioObjectID \<Rightarrow> io_operation \<Rightarrow> u32 \<Rightarrow> 'a list option \<Rightarrow>
   (OSStatus \<times> 'a os \<times> 'a list option) option" where
  "ReacJack_DoIOOperation os st inDriver inDeviceObjectID inOperationID inIOBufferFrameSize ioMainBuffer =
     (if inDriver \<noteq> gDriverRef \<or> inDeviceObjectID \<noteq> kObjectID_Device
      then Some (kAudioHardwareBadObjectError, os, ioMainBuffer)
      else case (inOperationID, ioMainBuffer) of
        (kAudioServerPlugInIOOperationReadInput, Some buffer) \<Rightarrow>
          if gDevice_RingIsOpen st
          then do { mem \<leftarrow> ring_at os (gDevice_Ring st);
                    (mem', buffer', got) \<leftarrow> shared_audio_read_interleaved_regulated mem buffer 40
                       inIOBufferFrameSize kDevice_TargetFill kDevice_FillTolerance;
                    Some (kAudioHardwareNoError, put_ring os (gDevice_Ring st) mem', Some buffer') }
          else do { buffer' \<leftarrow> memset buffer 0 0 (unat inIOBufferFrameSize * 40);
                    Some (kAudioHardwareNoError, os, Some buffer') }
      | _ \<Rightarrow> Some (kAudioHardwareNoError, os, ioMainBuffer))"

end
