(* ===== verification/HalClock.thy ===== *)
theory HalClock
  imports HalDevice
begin

text \<open>
  The zero time stamps of the CoreAudio plug-in: for every sequence of calls after I/O has been
  started, whatever the daemon publishes in between, the stamps never run backwards, never lie
  in the future, lag by at most about one period, and fall on whole periods; and the rate that
  the device clock follows stays within one percent of the nominal one.
\<close>

section \<open>Periods in floating point\<close>

text \<open>
  The number of periods of \<open>T\<close> ticks in \<open>e\<close> elapsed ticks and the ticks at which the last of
  them began, as the driver computes them.
\<close>

definition periods_in :: "rat \<Rightarrow> nat \<Rightarrow> nat" where
  "periods_in T e = nat \<lfloor>f64 (of_nat e / T)\<rfloor>"

definition ticks_at :: "rat \<Rightarrow> nat \<Rightarrow> nat" where
  "ticks_at T e = nat \<lfloor>f64 (of_nat (periods_in T e) * T)\<rfloor>"

lemma f64_nat: "n < 2 ^ 53 \<Longrightarrow> f64 (of_nat n) = of_nat n"
  using round_to_int[of "int n" 53] by simp

lemma nat_floor_le: "0 \<le> x \<Longrightarrow> of_nat (nat \<lfloor>x\<rfloor>) \<le> (x :: rat)"
  by (simp add: of_nat_nat floor_correct)

lemma less_nat_floor: "(x :: rat) < of_nat (nat \<lfloor>x\<rfloor>) + 1"
  using floor_correct[of x] of_int_le_iff[of "\<lfloor>x\<rfloor>" "int (nat \<lfloor>x\<rfloor>)", where 'a = rat] by simp

lemma nat_floor_ge: "of_nat n \<le> (x :: rat) \<Longrightarrow> n \<le> nat \<lfloor>x\<rfloor>"
proof -
  assume "of_nat n \<le> x"
  then have "int n \<le> \<lfloor>x\<rfloor>" by (simp add: le_floor_iff)
  then show ?thesis by simp
qed

lemma periods_mono:
  assumes "0 < T" "e \<le> e'"
  shows "periods_in T e \<le> periods_in T e'"
  unfolding periods_in_def using assms
  by (intro nat_mono floor_mono round_to_mono divide_right_mono) simp_all

lemma ticks_mono:
  assumes "0 < T" "e \<le> e'"
  shows "ticks_at T e \<le> ticks_at T e'"
  unfolding ticks_at_def using assms periods_mono[OF assms]
  by (intro nat_mono floor_mono round_to_mono mult_right_mono) simp_all

lemma periods_0 [simp]: "periods_in T 0 = 0" "ticks_at T 0 = 0"
  by (simp_all add: periods_in_def ticks_at_def)

lemma periods_times_le:
  assumes "0 < T"
  shows "of_nat (periods_in T e) * T \<le> of_nat e + of_nat e / 2 ^ 53"
proof -
  have "of_nat (periods_in T e) \<le> f64 (of_nat e / T)"
    unfolding periods_in_def using assms by (intro nat_floor_le round_to_nonneg) simp_all
  also have "\<dots> \<le> of_nat e / T + of_nat e / T / 2 ^ 53" using assms by (intro round_to_le) simp_all
  finally have "of_nat (periods_in T e) * T \<le> (of_nat e / T + of_nat e / T / 2 ^ 53) * T"
    using assms by (intro mult_right_mono) simp_all
  then show ?thesis using assms by (simp add: distrib_right)
qed

lemma elapsed_less:
  assumes "0 < T"
  shows "of_nat e - of_nat e / 2 ^ 53 < (of_nat (periods_in T e) + 1) * T"
proof -
  have "of_nat e / T - of_nat e / T / 2 ^ 53 \<le> f64 (of_nat e / T)"
    using assms by (intro round_to_ge) simp_all
  also have "\<dots> < of_nat (periods_in T e) + 1" unfolding periods_in_def by (rule less_nat_floor)
  finally have "(of_nat e / T - of_nat e / T / 2 ^ 53) * T < (of_nat (periods_in T e) + 1) * T"
    using assms by (intro mult_strict_right_mono) simp_all
  then show ?thesis using assms by (simp add: left_diff_distrib)
qed

text \<open>For up to \<open>2\<^sup>5\<^sup>1\<close> ticks the two roundings are too small to reach the next integer.\<close>

lemma two_roundings:
  fixes x E :: rat
  assumes "x \<le> E + E / 2 ^ 53" "E < 2 ^ 51"
  shows "x + x / 2 ^ 53 < E + 1"
  using assms by simp

lemma lag_rounding:
  fixes x E h T :: rat
  assumes "E - E / 2 ^ 53 < x + T" "x - x / 2 ^ 53 < h + 1" "x \<le> E + E / 2 ^ 53" "E < 2 ^ 51"
  shows "E < h + T + 3"
  using assms by simp

lemma ticks_bounds:
  assumes T: "8192 \<le> T" and e: "e < 2 ^ 51"
  shows "periods_in T e * 8192 \<le> ticks_at T e" "ticks_at T e \<le> e"
    "of_nat e < of_nat (ticks_at T e) + T + 3"
proof -
  let ?P = "of_nat (periods_in T e) :: rat"
  have pos: "0 < T" using T by simp
  have e': "of_nat e < (2 :: rat) ^ 51" using e by (metis of_nat_less_iff of_nat_numeral of_nat_power)
  note le = periods_times_le[OF pos, of e]
  have nn: "0 \<le> ?P * T" using pos by simp
  have "?P * 8192 \<le> ?P * T" using T by (intro mult_left_mono) simp_all
  also have "\<dots> < 2 ^ 53" using le e' by simp
  finally have "of_nat (periods_in T e * 8192) < (of_nat (2 ^ 53) :: rat)" by simp
  then have small: "periods_in T e * 8192 < 2 ^ 53" by (simp only: of_nat_less_iff)
  have "f64 (of_nat (periods_in T e * 8192)) \<le> f64 (?P * T)"
    using \<open>?P * 8192 \<le> ?P * T\<close> by (intro round_to_mono) simp_all
  then have "of_nat (periods_in T e * 8192) \<le> f64 (?P * T)" by (simp only: f64_nat[OF small])
  then show "periods_in T e * 8192 \<le> ticks_at T e" unfolding ticks_at_def by (rule nat_floor_ge)
  have up: "f64 (?P * T) \<le> ?P * T + ?P * T / 2 ^ 53" by (rule round_to_le[OF nn]) simp
  also have "\<dots> < of_nat e + 1" by (rule two_roundings[OF le e'])
  finally have "of_nat (ticks_at T e) < (of_nat e + 1 :: rat)"
    unfolding ticks_at_def by (intro le_less_trans[OF nat_floor_le]) (simp_all only: round_to_nonneg[OF nn] zero_less_numeral)
  then have "of_nat (ticks_at T e) < (of_nat (e + 1) :: rat)" by simp
  then show "ticks_at T e \<le> e" by (simp only: of_nat_less_iff)
  have "?P * T - ?P * T / 2 ^ 53 \<le> f64 (?P * T)" by (rule round_to_ge[OF nn]) simp
  also have "\<dots> < of_nat (ticks_at T e) + 1" unfolding ticks_at_def by (rule less_nat_floor)
  finally show "of_nat e < of_nat (ticks_at T e) + T + 3"
    using lag_rounding[OF _ _ le e'] elapsed_less[OF pos, of e] by (simp add: distrib_right)
qed

section \<open>The slaved rate\<close>

text \<open>
  The nominal rate of the host clock lies between two ticks a frame and \<open>2\<^sup>3\<^sup>0\<close>; the hardware's
  time bases give 500 or about 20833.
\<close>

definition ticks_ok :: "rat \<Rightarrow> bool" where
  "ticks_ok t \<longleftrightarrow> 2 \<le> t \<and> t \<le> 2 ^ 30 \<and> f64 t = t"

definition rate_ok :: "hal_state \<Rightarrow> bool" where
  "rate_ok st \<longleftrightarrow> ticks_ok (gDevice_HostTicksPerFrame st) \<and>
     rate_low (gDevice_HostTicksPerFrame st) \<le> gDevice_SlavedTicksPerFrame st \<and>
     gDevice_SlavedTicksPerFrame st \<le> rate_high (gDevice_HostTicksPerFrame st)"

lemma skew_factors:
  "f64 (1 - kClock_MaxRateSkew) \<le> 1" "1 \<le> f64 (1 + kClock_MaxRateSkew)"
  "1 / 2 \<le> f64 (1 - kClock_MaxRateSkew)" "f64 (1 + kClock_MaxRateSkew) \<le> 2"
  by code_simp+

lemma rate_limits:
  assumes "ticks_ok t"
  shows "rate_low t \<le> t" "t \<le> rate_high t" "1 \<le> rate_low t" "rate_high t \<le> 2 ^ 31"
proof -
  have t: "2 \<le> t" "t \<le> 2 ^ 30" "f64 t = t" using assms by (simp_all add: ticks_ok_def)
  have "f64 (t * f64 (1 - kClock_MaxRateSkew)) \<le> f64 (t * 1)"
    using t skew_factors(1) by (intro round_to_mono mult_left_mono) simp_all
  then show "rate_low t \<le> t" by (simp add: rate_low_def t)
  have "f64 (t * 1) \<le> f64 (t * f64 (1 + kClock_MaxRateSkew))"
    using t skew_factors(2) by (intro round_to_mono mult_left_mono) simp_all
  then show "t \<le> rate_high t" by (simp add: rate_high_def t)
  have "2 * (1 / 2) \<le> t * f64 (1 - kClock_MaxRateSkew)"
    using t skew_factors(3) by (intro mult_mono) simp_all
  then have "f64 (of_nat 1) \<le> f64 (t * f64 (1 - kClock_MaxRateSkew))" by (intro round_to_mono) simp_all
  then show "1 \<le> rate_low t" unfolding rate_low_def by (subst (asm) f64_nat) simp_all
  have "t * f64 (1 + kClock_MaxRateSkew) \<le> 2 ^ 30 * 2"
    using t skew_factors(2,4) by (intro mult_mono) simp_all
  then have "f64 (t * f64 (1 + kClock_MaxRateSkew)) \<le> f64 (of_nat (2 ^ 31))" by (intro round_to_mono) simp_all
  then show "rate_high t \<le> 2 ^ 31" unfolding rate_high_def by (subst (asm) f64_nat) simp_all
qed

lemma estimate_in_limits:
  assumes "ticks_ok t"
  shows "rate_low t \<le> rate_estimate t w n" "rate_estimate t w n \<le> rate_high t"
  using rate_limits(1,2)[OF assms] by (auto simp: rate_estimate_def Let_def)

text \<open>Apart from the reference observation, an update either changes nothing or rebases the timeline.\<close>

lemma update_clock_cases:
  assumes "gDevice_RingIsOpen st \<longrightarrow> ring_at os (gDevice_Ring st) \<noteq> None"
  obtains st' where "update_clock_estimate os st = Some st'"
    "gDevice_RingIsOpen st' = gDevice_RingIsOpen st" "gDevice_Ring st' = gDevice_Ring st"
    "gDevice_HostTicksPerFrame st' = gDevice_HostTicksPerFrame st"
    "gDevice_LastHostTime st' = gDevice_LastHostTime st" "gDevice_LastSampleTime st' = gDevice_LastSampleTime st"
    "gDevice_AnchorHostTime st' = gDevice_AnchorHostTime st \<and> gDevice_AnchorSampleTime st' = gDevice_AnchorSampleTime st \<and>
       gDevice_SlavedTicksPerFrame st' = gDevice_SlavedTicksPerFrame st \<and> gDevice_TimelineSeed st' = gDevice_TimelineSeed st \<or>
     gDevice_AnchorHostTime st' = gDevice_LastHostTime st \<and> gDevice_AnchorSampleTime st' = gDevice_LastSampleTime st \<and>
       (\<exists>w n. gDevice_SlavedTicksPerFrame st' = rate_estimate (gDevice_HostTicksPerFrame st) w n) \<and>
       gDevice_TimelineSeed st' = gDevice_TimelineSeed st + 1"
proof -
  show thesis
  proof (cases "gDevice_RingIsOpen st")
    case False
    then show thesis using that[of st] by (simp add: update_clock_estimate_def)
  next
    case True
    then obtain mem where mem: "ring_at os (gDevice_Ring st) = Some mem" using assms by auto
    show thesis
    proof (cases "shared_audio_get_clock mem")
      case None
      then show thesis using that[of st] mem by (simp add: update_clock_estimate_def)
    next
      case (Some obs)
      define t p where "t = fst obs" and "p = snd obs"
      have obs: "shared_audio_get_clock mem = Some (t, p)" using Some by (simp add: t_def p_def)
      let ?est = "rate_estimate (gDevice_HostTicksPerFrame st) (t - gDevice_ClockRefHostTime st) (p - gDevice_ClockRefSamplePos st)"
      consider (ref) "\<not> gDevice_ClockRefValid st \<or> p < gDevice_ClockRefSamplePos st"
        | (same) "\<not> (\<not> gDevice_ClockRefValid st \<or> p < gDevice_ClockRefSamplePos st)"
            "p - gDevice_ClockRefSamplePos st < 24000 \<or> below_2ppm ?est (gDevice_SlavedTicksPerFrame st)"
        | (rebase) "\<not> (\<not> gDevice_ClockRefValid st \<or> p < gDevice_ClockRefSamplePos st)"
            "\<not> p - gDevice_ClockRefSamplePos st < 24000" "\<not> below_2ppm ?est (gDevice_SlavedTicksPerFrame st)"
        by blast
      then show thesis
      proof cases
        case ref
        then show thesis
          by (intro that[of "st\<lparr>gDevice_ClockRefHostTime := t, gDevice_ClockRefSamplePos := p, gDevice_ClockRefValid := True\<rparr>"])
            (simp_all add: update_clock_estimate_def True mem obs)
      next
        case same
        then show thesis using True mem obs by (intro that[of st]) (auto simp: update_clock_estimate_def Let_def)
      next
        case rebase
        then show thesis using True mem obs
          by (intro that[of "st\<lparr>gDevice_AnchorHostTime := gDevice_LastHostTime st,
            gDevice_AnchorSampleTime := gDevice_LastSampleTime st, gDevice_SlavedTicksPerFrame := ?est,
            gDevice_TimelineSeed := gDevice_TimelineSeed st + 1\<rparr>"])
            (simp_all add: update_clock_estimate_def Let_def, blast)
      qed
    qed
  qed
qed

section \<open>The timeline\<close>

abbreviation period_ticks :: "hal_state \<Rightarrow> rat" where
  "period_ticks st \<equiv> f64 (gDevice_SlavedTicksPerFrame st * of_nat (unat (8192 :: u32)))"

text \<open>
  The timeline of a device started at \<open>start\<close> whose last stamp was asked for not after \<open>now\<close>:
  anchor and last stamp lie between the two, the sample time of the anchor is a whole number of
  periods that does not exceed the ticks gone by, and the last stamp is the one that the
  current anchor and rate give for some earlier time.
\<close>

definition timeline_ok :: "nat \<Rightarrow> nat \<Rightarrow> hal_state \<Rightarrow> bool" where
  "timeline_ok start now st \<longleftrightarrow> rate_ok st \<and> now - start < 2 ^ 51 \<and> now < 2 ^ 64 \<and>
     start \<le> unat (gDevice_AnchorHostTime st) \<and> unat (gDevice_AnchorHostTime st) \<le> now \<and>
     (\<exists>k. gDevice_AnchorSampleTime st = of_nat (8192 * k) \<and> 8192 * k \<le> unat (gDevice_AnchorHostTime st) - start) \<and>
     (\<exists>e \<le> now - unat (gDevice_AnchorHostTime st).
        unat (gDevice_LastHostTime st) = unat (gDevice_AnchorHostTime st) + ticks_at (period_ticks st) e \<and>
        gDevice_LastSampleTime st = gDevice_AnchorSampleTime st + of_nat (8192 * periods_in (period_ticks st) e))"

lemma period_ge:
  assumes "rate_ok st"
  shows "8192 \<le> period_ticks st"
proof -
  have "1 \<le> gDevice_SlavedTicksPerFrame st"
    using assms rate_limits(3)[of "gDevice_HostTicksPerFrame st"] unfolding rate_ok_def by linarith
  then have "f64 (of_nat 8192) \<le> period_ticks st" by (intro round_to_mono) simp_all
  then show ?thesis by (subst (asm) f64_nat) simp_all
qed

lemma to_u64_nat_floor:
  assumes "0 \<le> x" "nat \<lfloor>x\<rfloor> < 2 ^ 51"
  shows "to_u64 x = Some (of_nat (nat \<lfloor>x\<rfloor>))"
proof -
  have "x < of_nat (nat \<lfloor>x\<rfloor>) + 1" by (rule less_nat_floor)
  moreover have "of_nat (nat \<lfloor>x\<rfloor>) < (of_nat (2 ^ 51) :: rat)" using assms(2) by (subst of_nat_less_iff)
  ultimately have "x < 2 ^ 64" by simp
  with assms(1) show ?thesis by (simp add: to_u64_def)
qed

text \<open>The stamp that an anchor gives.\<close>

lemma zero_time_stamp_value:
  assumes ok: "rate_ok st" and anchor: "unat (gDevice_AnchorHostTime st) \<le> unat now"
    and s: "gDevice_AnchorSampleTime st = of_nat s" "s \<le> unat (gDevice_AnchorHostTime st) - start"
      "start \<le> unat (gDevice_AnchorHostTime st)" and now: "unat now - start < 2 ^ 51"
  defines "e \<equiv> unat now - unat (gDevice_AnchorHostTime st)"
  shows "\<exists>h. zero_time_stamp st now = Some (of_nat (s + 8192 * periods_in (period_ticks st) e), h) \<and>
    unat h = unat (gDevice_AnchorHostTime st) + ticks_at (period_ticks st) e"
proof -
  let ?T = "period_ticks st"
  have e: "e < 2 ^ 51" using now s(3) anchor by (simp add: e_def)
  note T = period_ge[OF ok] and b = ticks_bounds[OF period_ge[OF ok] e]
  have el: "unat (now - gDevice_AnchorHostTime st) = e" using anchor by (simp add: e_def word_nat_simps)
  have fe: "f64 (of_nat e) = of_nat e" using e by (intro f64_nat) simp
  have P: "periods_in ?T e * 8192 < 2 ^ 51" using b(1,2) e by linarith
  have p: "to_u64 (f64 (of_nat e / ?T)) = Some (of_nat (periods_in ?T e))"
    unfolding periods_in_def using T P by (intro to_u64_nat_floor round_to_nonneg) (simp_all add: periods_in_def)
  have up': "unat (of_nat (periods_in ?T e) :: u64) = periods_in ?T e" using P by (intro unat_of_nat_small) simp
  have fp: "f64 (of_nat (periods_in ?T e)) = of_nat (periods_in ?T e)" using P by (intro f64_nat) simp
  let ?x = "f64 (of_nat (periods_in ?T e) * ?T)"
  have h: "to_u64 ?x = Some (of_nat (ticks_at ?T e))"
    unfolding ticks_at_def using T b(2) e by (intro to_u64_nat_floor round_to_nonneg) (simp_all add: ticks_at_def)
  have ut: "unat (of_nat (ticks_at ?T e) :: u64) = ticks_at ?T e" using b(2) e by (intro unat_of_nat_small) simp
  have ps: "unat (of_nat (periods_in ?T e) * 8192 :: u64) = periods_in ?T e * 8192"
    using unat_of_nat_small[of "periods_in ?T e * 8192", where 'a = 64] P by simp
  have fs: "f64 (of_nat (periods_in ?T e * 8192)) = of_nat (periods_in ?T e * 8192)" using P by (intro f64_nat) simp
  have sum: "f64 (of_nat s + of_nat (periods_in ?T e * 8192)) = of_nat (s + 8192 * periods_in ?T e)"
    using f64_nat[of "s + periods_in ?T e * 8192"] P s(2) now anchor b(1,2) by (simp add: mult.commute)
  have "unat (gDevice_AnchorHostTime st + of_nat (ticks_at ?T e)) = unat (gDevice_AnchorHostTime st) + ticks_at ?T e"
  proof -
    have "unat (gDevice_AnchorHostTime st) + ticks_at ?T e \<le> unat now" using b(2) anchor by (simp add: e_def)
    from le_less_trans[OF this unat_u64_bound] show ?thesis by (subst unat_add_nowrap) (simp_all only: ut, simp)
  qed
  moreover have "zero_time_stamp st now =
      Some (of_nat (s + 8192 * periods_in ?T e), gDevice_AnchorHostTime st + of_nat (ticks_at ?T e))"
    using T by (simp only: zero_time_stamp_def Let_def el fe p up' fp h bind.bind_lunit ps fs s(1) sum split: if_splits) simp
  ultimately show ?thesis by blast
qed

text \<open>A rebase at the last stamp keeps the timeline, and an unchanged rate keeps it at later times.\<close>

lemma timeline_later:
  assumes ok: "timeline_ok start t0 st" and t: "t0 \<le> t" "t - start < 2 ^ 51" "t < 2 ^ 64"
    and eqs: "gDevice_HostTicksPerFrame st' = gDevice_HostTicksPerFrame st"
      "gDevice_LastHostTime st' = gDevice_LastHostTime st" "gDevice_LastSampleTime st' = gDevice_LastSampleTime st"
    and how: "gDevice_AnchorHostTime st' = gDevice_AnchorHostTime st \<and> gDevice_AnchorSampleTime st' = gDevice_AnchorSampleTime st \<and>
       gDevice_SlavedTicksPerFrame st' = gDevice_SlavedTicksPerFrame st \<or>
     gDevice_AnchorHostTime st' = gDevice_LastHostTime st \<and> gDevice_AnchorSampleTime st' = gDevice_LastSampleTime st \<and>
       (\<exists>w n. gDevice_SlavedTicksPerFrame st' = rate_estimate (gDevice_HostTicksPerFrame st) w n)"
  shows "timeline_ok start t st'"
  using how
proof
  let ?A = "unat (gDevice_AnchorHostTime st)" and ?T = "period_ticks st"
  assume same: "gDevice_AnchorHostTime st' = gDevice_AnchorHostTime st \<and>
    gDevice_AnchorSampleTime st' = gDevice_AnchorSampleTime st \<and>
    gDevice_SlavedTicksPerFrame st' = gDevice_SlavedTicksPerFrame st"
  from ok obtain e where "e \<le> t0 - ?A" "unat (gDevice_LastHostTime st) = ?A + ticks_at ?T e"
    "gDevice_LastSampleTime st = gDevice_AnchorSampleTime st + of_nat (8192 * periods_in ?T e)"
    unfolding timeline_ok_def by blast
  moreover have "e \<le> t - ?A" using \<open>e \<le> t0 - ?A\<close> t(1) by linarith
  ultimately have "\<exists>e \<le> t - ?A. unat (gDevice_LastHostTime st) = ?A + ticks_at ?T e \<and>
    gDevice_LastSampleTime st = gDevice_AnchorSampleTime st + of_nat (8192 * periods_in ?T e)" by blast
  then show ?thesis using ok same eqs t by (simp add: timeline_ok_def rate_ok_def)
next
  let ?A = "unat (gDevice_AnchorHostTime st)" and ?T = "period_ticks st"
  assume rebase: "gDevice_AnchorHostTime st' = gDevice_LastHostTime st \<and>
    gDevice_AnchorSampleTime st' = gDevice_LastSampleTime st \<and>
    (\<exists>w n. gDevice_SlavedTicksPerFrame st' = rate_estimate (gDevice_HostTicksPerFrame st) w n)"
  from ok obtain e k where e: "e \<le> t0 - ?A" "unat (gDevice_LastHostTime st) = ?A + ticks_at ?T e"
    "gDevice_LastSampleTime st = gDevice_AnchorSampleTime st + of_nat (8192 * periods_in ?T e)"
    and k: "gDevice_AnchorSampleTime st = of_nat (8192 * k)" "8192 * k \<le> ?A - start"
    and r: "rate_ok st" "start \<le> ?A" "?A \<le> t0" "t0 - start < 2 ^ 51"
    unfolding timeline_ok_def by blast
  have "e < 2 ^ 51" using e(1) r by linarith
  note b = ticks_bounds[OF period_ge[OF r(1)] this]
  have s: "gDevice_LastSampleTime st = of_nat (8192 * (k + periods_in ?T e))"
    "8192 * (k + periods_in ?T e) \<le> unat (gDevice_LastHostTime st) - start"
    using e k b r by (simp_all add: algebra_simps)
  then have "\<exists>k. gDevice_LastSampleTime st = of_nat (8192 * k) \<and> 8192 * k \<le> unat (gDevice_LastHostTime st) - start"
    by blast
  moreover have "rate_ok st'"
    using rebase r(1) eqs(1) estimate_in_limits by (auto simp: rate_ok_def)
  moreover have "\<exists>e' \<le> t - unat (gDevice_LastHostTime st).
      unat (gDevice_LastHostTime st) = unat (gDevice_LastHostTime st) + ticks_at (period_ticks st') e' \<and>
      gDevice_LastSampleTime st = gDevice_LastSampleTime st + of_nat (8192 * periods_in (period_ticks st') e')"
    by (intro exI [of _ 0]) simp
  moreover have "start \<le> unat (gDevice_LastHostTime st)" "unat (gDevice_LastHostTime st) \<le> t"
    using e(1,2) b(2) r t(1) by linarith+
  ultimately show ?thesis using rebase eqs t(2,3) unfolding timeline_ok_def by simp
qed

text \<open>One call.\<close>

lemma stamp_step:
  assumes ok: "timeline_ok start t0 st" and now: "t0 \<le> unat now" "unat now - start < 2 ^ 51"
    and ring: "gDevice_RingIsOpen st \<longrightarrow> ring_at os (gDevice_Ring st) \<noteq> None"
  shows "\<exists>s h seed st'. ReacJack_GetZeroTimeStamp os now st gDriverRef kObjectID_Device True =
      Some (kAudioHardwareNoError, Some (s, h, seed), st') \<and> timeline_ok start (unat now) st' \<and>
    gDevice_LastHostTime st \<le> h \<and> gDevice_LastSampleTime st \<le> s \<and> h \<le> now \<and> (\<exists>k. s = of_nat (8192 * k)) \<and>
    of_nat (unat now) < of_nat (unat h) + f64 (rate_high (gDevice_HostTicksPerFrame st) * 8192) + 3 \<and>
    gDevice_LastHostTime st' = h \<and> gDevice_LastSampleTime st' = s \<and>
    gDevice_RingIsOpen st' = gDevice_RingIsOpen st \<and> gDevice_Ring st' = gDevice_Ring st \<and>
    gDevice_HostTicksPerFrame st' = gDevice_HostTicksPerFrame st"
proof -
  have "unat now < 2 ^ 64" using unat_u64_bound[of now] by simp
  note later = timeline_later[OF ok now this]
  obtain st1 where u: "update_clock_estimate os st = Some st1"
    "gDevice_RingIsOpen st1 = gDevice_RingIsOpen st" "gDevice_Ring st1 = gDevice_Ring st"
    "gDevice_HostTicksPerFrame st1 = gDevice_HostTicksPerFrame st"
    "gDevice_LastHostTime st1 = gDevice_LastHostTime st" "gDevice_LastSampleTime st1 = gDevice_LastSampleTime st"
    and ok1: "timeline_ok start (unat now) st1"
    by (rule update_clock_cases[OF ring]) (use later in blast)
  let ?A = "unat (gDevice_AnchorHostTime st1)" and ?T = "period_ticks st1"
  let ?e = "unat now - ?A"
  from ok1 obtain e k where r: "rate_ok st1" "start \<le> ?A" "?A \<le> unat now"
    and k: "gDevice_AnchorSampleTime st1 = of_nat (8192 * k)" "8192 * k \<le> ?A - start"
    and e: "e \<le> ?e" "unat (gDevice_LastHostTime st1) = ?A + ticks_at ?T e"
      "gDevice_LastSampleTime st1 = gDevice_AnchorSampleTime st1 + of_nat (8192 * periods_in ?T e)"
    unfolding timeline_ok_def by blast
  from zero_time_stamp_value[OF r(1,3) k r(2) now(2)] obtain h where
    z: "zero_time_stamp st1 now = Some (of_nat (8192 * k + 8192 * periods_in ?T ?e), h)"
       "unat h = ?A + ticks_at ?T ?e" by blast
  have T: "0 < ?T" "8192 \<le> ?T" using period_ge[OF r(1)] by simp_all
  have e51: "?e < 2 ^ 51" using now(2) r(2) by linarith
  note b = ticks_bounds[OF T(2) e51]
  have mono: "gDevice_LastHostTime st1 \<le> h" "gDevice_LastSampleTime st1 \<le> of_nat (8192 * k + 8192 * periods_in ?T ?e)"
    using ticks_mono[OF T(1) e(1)] periods_mono[OF T(1) e(1)] e(2,3) z(2) k(1) by (simp_all add: word_le_nat_alt)
  define st' where "st' = st1\<lparr>gDevice_LastHostTime := h, gDevice_LastSampleTime := of_nat (8192 * k + 8192 * periods_in ?T ?e)\<rparr>"
  have call: "ReacJack_GetZeroTimeStamp os now st gDriverRef kObjectID_Device True = Some (kAudioHardwareNoError,
      Some (of_nat (8192 * k + 8192 * periods_in ?T ?e), h, gDevice_TimelineSeed st1), st')"
  proof -
    have "\<not> h < gDevice_LastHostTime st1" using mono(1) by (simp only: not_less)
    then show ?thesis using u(1) z(1) by (simp add: ReacJack_GetZeroTimeStamp_def st'_def)
  qed
  have "\<exists>e' \<le> ?e. unat h = ?A + ticks_at ?T e' \<and>
      of_nat (8192 * k + 8192 * periods_in ?T ?e) = gDevice_AnchorSampleTime st1 + of_nat (8192 * periods_in ?T e')"
    using z(2) k(1) by (intro exI [of _ ?e]) simp
  then have ok': "timeline_ok start (unat now) st'"
    using ok1 by (simp add: timeline_ok_def rate_ok_def st'_def)
  have "?T \<le> f64 (rate_high (gDevice_HostTicksPerFrame st) * 8192)"
    using r(1) u(4) by (intro round_to_mono) (simp_all add: rate_ok_def)
  moreover have "of_nat (unat now) = (of_nat ?A + of_nat ?e :: rat)" using r(3) by simp
  ultimately have lag: "of_nat (unat now) < of_nat (unat h) + f64 (rate_high (gDevice_HostTicksPerFrame st) * 8192) + (3 :: rat)"
    using b(3) z(2) by simp
  have hnow: "h \<le> now" using b(2) z(2) r(3) by (simp add: word_le_nat_alt)
  have mult: "of_nat (8192 * k + 8192 * periods_in ?T ?e) = (of_nat (8192 * (k + periods_in ?T ?e)) :: rat)" by simp
  show ?thesis
    using call ok' mono hnow lag u(2-6) mult unfolding st'_def by (intro exI conjI) (assumption | simp)+
qed

section \<open>Sequences of calls\<close>

text \<open>The time stamps that the host gets at a sequence of times, each with the memory as it is then.\<close>

fun time_stamps :: "hal_state \<Rightarrow> ('a os \<times> u64) list \<Rightarrow> ((rat \<times> u64 \<times> u64) list \<times> hal_state) option" where
  "time_stamps st [] = Some ([], st)"
| "time_stamps st ((os, now) # calls) =
     do { (status, stamp, st1) \<leftarrow> ReacJack_GetZeroTimeStamp os now st gDriverRef kObjectID_Device True;
          first \<leftarrow> stamp;
          (rest, st2) \<leftarrow> time_stamps st1 calls;
          Some (first # rest, st2) }"

definition mapped_in :: "hal_state \<Rightarrow> 'a os \<Rightarrow> bool" where
  "mapped_in st os \<longleftrightarrow> (gDevice_RingIsOpen st \<longrightarrow> ring_at os (gDevice_Ring st) \<noteq> None)"

text \<open>A stamp is timely for a call at \<open>now\<close> when it is on a period, not late and not in the future.\<close>

definition timely :: "rat \<Rightarrow> u64 \<Rightarrow> rat \<times> u64 \<times> u64 \<Rightarrow> bool" where
  "timely nominal now stamp = (case stamp of (s, h, seed) \<Rightarrow> h \<le> now \<and> (\<exists>k. s = of_nat (8192 * k)) \<and>
     of_nat (unat now) < of_nat (unat h) + f64 (rate_high nominal * 8192) + 3)"

lemma time_stamps_spec:
  assumes "timeline_ok start t0 st" "sorted (t0 # map (unat \<circ> snd) calls)"
    "\<forall>(os, now) \<in> set calls. unat now - start < 2 ^ 51 \<and> mapped_in st os"
  shows "\<exists>ts st'. time_stamps st calls = Some (ts, st') \<and> rate_ok st' \<and>
    list_all2 (timely (gDevice_HostTicksPerFrame st)) (map snd calls) ts \<and>
    sorted (gDevice_LastHostTime st # map (fst \<circ> snd) ts) \<and> sorted (gDevice_LastSampleTime st # map fst ts)"
  using assms
proof (induction calls arbitrary: st t0)
  case Nil
  then show ?case by (simp add: timeline_ok_def)
next
  case (Cons c calls)
  obtain os now where c: "c = (os, now)" by fastforce
  have now: "t0 \<le> unat now" "unat now - start < 2 ^ 51"
    "gDevice_RingIsOpen st \<longrightarrow> ring_at os (gDevice_Ring st) \<noteq> None"
    using Cons.prems by (auto simp: c mapped_in_def)
  from stamp_step[OF Cons.prems(1) now] obtain s h seed st1 where
    s: "ReacJack_GetZeroTimeStamp os now st gDriverRef kObjectID_Device True =
      Some (kAudioHardwareNoError, Some (s, h, seed), st1)" and ok1: "timeline_ok start (unat now) st1"
    and b: "gDevice_LastHostTime st \<le> h" "gDevice_LastSampleTime st \<le> s"
    and timely: "timely (gDevice_HostTicksPerFrame st) now (s, h, seed)"
    and eq: "gDevice_LastHostTime st1 = h" "gDevice_LastSampleTime st1 = s"
      "gDevice_RingIsOpen st1 = gDevice_RingIsOpen st" "gDevice_Ring st1 = gDevice_Ring st"
      "gDevice_HostTicksPerFrame st1 = gDevice_HostTicksPerFrame st"
    unfolding timely_def by blast
  have "sorted (unat now # map (unat \<circ> snd) calls)"
    "\<forall>(os, now) \<in> set calls. unat now - start < 2 ^ 51 \<and> mapped_in st1 os"
    using Cons.prems(2,3) by (auto simp: c mapped_in_def eq comp_def)
  from Cons.IH[OF ok1 this] obtain ts st' where rest: "time_stamps st1 calls = Some (ts, st')" "rate_ok st'"
    "list_all2 (timely (gDevice_HostTicksPerFrame st)) (map snd calls) ts"
    "sorted (h # map (fst \<circ> snd) ts)" "sorted (s # map fst ts)" unfolding eq by blast
  have "sorted (gDevice_LastHostTime st # map (fst \<circ> snd) ((s, h, seed) # ts))"
    "sorted (gDevice_LastSampleTime st # map fst ((s, h, seed) # ts))"
    using rest(4,5) b order_trans[OF b(1)] order_trans[OF b(2)] by auto
  then show ?case using s rest(1-3) timely by (intro exI [of _ "(s, h, seed) # ts"] exI [of _ st']) (simp add: c comp_def)
qed

text \<open>Starting the device starts a timeline.\<close>

lemma start_timeline:
  assumes "ReacJack_StartIO fails os now st gDriverRef kObjectID_Device = Some (kAudioHardwareNoError, os1, st1)"
    "gDevice_IOIsRunning st = 0" "ticks_ok (gDevice_HostTicksPerFrame st)"
  shows "timeline_ok (unat now) (unat now) st1" "gDevice_HostTicksPerFrame st1 = gDevice_HostTicksPerFrame st"
proof -
  from assms(1,2) obtain st2 where s: "start_first fails os now st = Some (os1, st2)"
    "st1 = st2\<lparr>gDevice_IOIsRunning := gDevice_IOIsRunning st2 + 1\<rparr>"
    by (auto simp: ReacJack_StartIO_def split: bind_splits)
  have st2: "gDevice_AnchorHostTime st2 = now \<and> gDevice_AnchorSampleTime st2 = 0 \<and> gDevice_LastHostTime st2 = now \<and>
    gDevice_LastSampleTime st2 = 0 \<and> gDevice_SlavedTicksPerFrame st2 = gDevice_HostTicksPerFrame st \<and>
    gDevice_HostTicksPerFrame st2 = gDevice_HostTicksPerFrame st"
    using s(1) by (auto simp: start_first_def Let_def split: prod.splits if_splits bind_splits)
  then show "gDevice_HostTicksPerFrame st1 = gDevice_HostTicksPerFrame st" by (simp add: s(2))
  show "timeline_ok (unat now) (unat now) st1"
    using st2 assms(3) rate_limits(1,2)[OF assms(3)] unat_u64_bound[of now]
    by (simp add: timeline_ok_def rate_ok_def s(2))
qed

section \<open>Properties\<close>

text \<open>C11. The device timeline is monotonic: after the first client has started I/O, for every sequence
  of time stamp requests at non-decreasing host times, within \<open>2\<^sup>5\<^sup>1\<close> ticks of the start and
  whatever clock observations the daemon publishes between them, every request succeeds; host
  times and sample times of the stamps never decrease, no stamp lies in the future, every
  sample time is a whole number of periods, and a stamp is less than one period at the slowest
  admissible rate, and three ticks, old; the slaved rate ends within one percent of nominal.\<close>

theorem hal_timestamps_monotonic:
  assumes "ReacJack_StartIO fails os start st gDriverRef kObjectID_Device = Some (kAudioHardwareNoError, os1, st1)"
    "gDevice_IOIsRunning st = 0" "ticks_ok (gDevice_HostTicksPerFrame st)"
    "sorted (unat start # map (unat \<circ> snd) calls)"
    "\<forall>(os, now) \<in> set calls. unat now - unat start < 2 ^ 51 \<and> mapped_in st1 os"
  shows "\<exists>ts st'. time_stamps st1 calls = Some (ts, st') \<and>
    list_all2 (timely (gDevice_HostTicksPerFrame st)) (map snd calls) ts \<and>
    sorted (map (fst \<circ> snd) ts) \<and> sorted (map fst ts) \<and> rate_ok st'"
proof -
  note tl = start_timeline[OF assms(1-3)]
  from time_stamps_spec[OF tl(1) assms(4,5)] obtain ts st' where
    "time_stamps st1 calls = Some (ts, st')" "rate_ok st'"
    "list_all2 (timely (gDevice_HostTicksPerFrame st)) (map snd calls) ts"
    "sorted (gDevice_LastHostTime st1 # map (fst \<circ> snd) ts)" "sorted (gDevice_LastSampleTime st1 # map fst ts)"
    unfolding tl(2) by blast
  then show ?thesis by (intro exI [of _ ts] exI [of _ st']) (simp only: sorted_simps simp_thms)
qed

text \<open>An initialised device on a machine without a running daemon.\<close>

definition idle_device :: hal_state where
  "idle_device = snd (ReacJack_Initialize hal_init 125 3 gDriverRef 7)"

lemma idle_device_facts: "gDevice_HostTicksPerFrame idle_device = 500" "gDevice_IOIsRunning idle_device = 0"
  by code_simp+

definition silent_device :: hal_state where
  "silent_device = idle_device\<lparr>gDevice_AnchorHostTime := 1000, gDevice_LastHostTime := 1000,
     gDevice_SlavedTicksPerFrame := 500, gDevice_IOIsRunning := 1,
     gDevice_Ring := \<lparr>sa_header = None, sa_samples = None, sa_mapped_bytes = 0, sa_owner = 0, sa_name = ''/reacjack-audio''\<rparr>\<rparr>"

lemma silent_device_started:
  "ReacJack_StartIO (\<lambda>_. False) empty_os 1000 idle_device gDriverRef kObjectID_Device =
     Some (kAudioHardwareNoError, empty_os, silent_device)"
  by (simp add: ReacJack_StartIO_def start_first_def shared_audio_open_def init_handle_def shm_open_old_def empty_os_def
      idle_device_def ReacJack_Initialize_def hal_init_def silent_device_def Let_def) code_simp

theorem hal_timestamps_monotonic_witness:
  "\<exists>ts st'. time_stamps silent_device [(empty_os, 5000), (empty_os, 9000000)] = Some (ts, st') \<and>
     sorted (map (fst \<circ> snd) ts) \<and> length ts = 2"
proof -
  have "ticks_ok (gDevice_HostTicksPerFrame idle_device)"
    using f64_nat[of 500] by (simp add: idle_device_facts ticks_ok_def)
  moreover have "sorted (unat (1000 :: u64) # map (unat \<circ> snd) [(empty_os, 5000 :: u64), (empty_os, 9000000)])" by simp
  moreover have "\<forall>(os, now) \<in> set [(empty_os, 5000 :: u64), (empty_os, 9000000)].
      unat now - unat (1000 :: u64) < 2 ^ 51 \<and> mapped_in silent_device os"
    by (simp add: mapped_in_def silent_device_def idle_device_def ReacJack_Initialize_def hal_init_def)
  ultimately obtain ts st' where "time_stamps silent_device [(empty_os, 5000), (empty_os, 9000000)] = Some (ts, st')"
    "list_all2 (timely (gDevice_HostTicksPerFrame idle_device)) (map snd [(empty_os, 5000 :: u64), (empty_os, 9000000)]) ts"
    "sorted (map (fst \<circ> snd) ts)"
    using hal_timestamps_monotonic[OF silent_device_started idle_device_facts(2)] by blast
  then show ?thesis using list_all2_lengthD by fastforce
qed

text \<open>
  What the rate has to follow, in exact numbers: the ticks observed for each frame, brought within one
  percent of the nominal rate.
\<close>

definition rate_target :: "rat \<Rightarrow> nat \<Rightarrow> nat \<Rightarrow> rat" where
  "rate_target nominal ticks frames =
     max (nominal * 99 / 100) (min (nominal * 101 / 100) (of_nat ticks / of_nat frames))"

text \<open>Rounding moves a number by less than one part in \<open>2\<^sup>5\<^sup>3\<close>.\<close>

definition near :: "rat \<Rightarrow> rat \<Rightarrow> rat \<Rightarrow> bool" where
  "near d x y \<longleftrightarrow> x * (1 - d) \<le> y \<and> y \<le> x * (1 + d)"

lemma near_f64: "0 \<le> x \<Longrightarrow> near (1 / 2 ^ 53) x (f64 x)"
  using round_to_le[of x 53] round_to_ge[of x 53] by (simp add: near_def algebra_simps)

lemma near_clamp:
  assumes "near d lo lo'" "near d hi hi'" "near d x x'" "0 \<le> d" "d \<le> 1" "lo \<le> hi" "lo' \<le> hi'"
  shows "near d (max lo (min hi x)) (if x' < lo' then lo' else if x' > hi' then hi' else x')"
proof -
  have c: "(if x' < lo' then lo' else if x' > hi' then hi' else x') = max lo' (min hi' x')" using assms(7) by auto
  have m: "max lo (min hi x) * k = max (lo * k) (min (hi * k) (x * k))" if "0 \<le> k" for k
    using that by (simp add: max_mult_distrib_right min_mult_distrib_right)
  have k: "0 \<le> 1 - d" "0 \<le> 1 + d" using assms(4,5) by simp_all
  show ?thesis unfolding c near_def m[OF k(1)] m[OF k(2)]
    by (intro conjI max.mono min.mono) (use assms(1-3) in \<open>simp_all add: near_def\<close>)
qed

lemma skew_exact: "near (1 / 2 ^ 52) (99 / 100) (f64 (1 - kClock_MaxRateSkew))" "near (1 / 2 ^ 52) (101 / 100) (f64 (1 + kClock_MaxRateSkew))"
  unfolding near_def by code_simp+

lemma near_product:
  assumes "near (1 / 2 ^ 52) c c'" "0 \<le> t" "0 \<le> c" "0 \<le> c'"
  shows "near (1 / 2 ^ 50) (t * c) (f64 (t * c'))"
proof -
  have "near (1 / 2 ^ 53) (t * c') (f64 (t * c'))" using assms(2,4) by (intro near_f64) simp
  moreover have "t * (c * (1 - 1 / 2 ^ 52)) \<le> t * c'" "t * c' \<le> t * (c * (1 + 1 / 2 ^ 52))"
    by (rule mult_left_mono[OF _ assms(2)]; rule assms(1) [unfolded near_def, THEN conjunct1] assms(1) [unfolded near_def, THEN conjunct2])+
  moreover have "0 \<le> t * c" using assms(2,3) by simp
  ultimately show ?thesis unfolding near_def by (simp add: algebra_simps)
qed

lemma near_quotient:
  assumes "0 < n" shows "near (1 / 2 ^ 50) (of_nat m / of_nat n) (f64 (f64 (of_nat m) / f64 (of_nat n)))"
proof -
  let ?u = "1 / 2 ^ 53 :: rat" and ?m = "of_nat m :: rat" and ?n = "of_nat n :: rat"
  have n0: "0 < ?n" using assms by simp
  have fm: "?m * (1 - ?u) \<le> f64 ?m" "f64 ?m \<le> ?m * (1 + ?u)" using near_f64[of ?m] by (simp_all add: near_def)
  have fn: "?n * (1 - ?u) \<le> f64 ?n" "f64 ?n \<le> ?n * (1 + ?u)" using near_f64[of ?n] by (simp_all add: near_def)
  have fn0: "0 < f64 ?n" using n0 by (intro less_le_trans[OF _ fn(1)]) simp
  have q: "?m / ?n * (1 - 3 * ?u) \<le> f64 ?m / f64 ?n" "f64 ?m / f64 ?n \<le> ?m / ?n * (1 + 3 * ?u)"
  proof -
    define r where "r = ?m / ?n"
    have r: "?m = r * ?n" "0 \<le> r" using n0 by (simp_all add: r_def)
    have "r * (1 - 3 * ?u) * f64 ?n \<le> r * (1 - 3 * ?u) * (?n * (1 + ?u))"
      using fn(2) r(2) by (intro mult_left_mono) simp_all
    also have "\<dots> = r * ?n * ((1 - 3 * ?u) * (1 + ?u))" by (simp add: ac_simps)
    also have "\<dots> \<le> r * ?n * (1 - ?u)" using r(2) n0 by (intro mult_left_mono) simp_all
    also have "\<dots> \<le> f64 ?m" using fm(1) r(1) by simp
    finally show "?m / ?n * (1 - 3 * ?u) \<le> f64 ?m / f64 ?n" using fn0 by (simp add: pos_le_divide_eq r_def)
    have "f64 ?m \<le> r * ?n * (1 + ?u)" using fm(2) r(1) by simp
    also have "\<dots> \<le> r * ?n * ((1 + 3 * ?u) * (1 - ?u))" using r(2) n0 by (intro mult_left_mono) simp_all
    also have "\<dots> = r * (1 + 3 * ?u) * (?n * (1 - ?u))" by (simp add: ac_simps)
    also have "\<dots> \<le> r * (1 + 3 * ?u) * f64 ?n" using fn(1) r(2) by (intro mult_left_mono) simp_all
    finally show "f64 ?m / f64 ?n \<le> ?m / ?n * (1 + 3 * ?u)" using fn0 by (simp add: pos_divide_le_eq r_def)
  qed
  have r0: "0 \<le> ?m / ?n" by simp
  then have "0 \<le> ?m / ?n * (1 - 3 * ?u)" by simp
  then have "0 \<le> f64 ?m / f64 ?n" using q(1) by linarith
  from near_f64[OF this] q r0 show ?thesis unfolding near_def by (simp add: algebra_simps)
qed

lemma rate_estimate_near:
  assumes "ticks_ok t" "0 < unat n"
  shows "near (1 / 2 ^ 50) (rate_target t (unat w) (unat n)) (rate_estimate t w n)"
proof -
  have t: "0 \<le> t" using assms(1) by (simp add: ticks_ok_def)
  have lo: "near (1 / 2 ^ 50) (t * 99 / 100) (rate_low t)" unfolding rate_low_def times_divide_eq_right [symmetric]
    using skew_factors(3) by (intro near_product[OF skew_exact(1) t]) simp_all
  have hi: "near (1 / 2 ^ 50) (t * 101 / 100) (rate_high t)" unfolding rate_high_def times_divide_eq_right [symmetric]
    using skew_factors(2) by (intro near_product[OF skew_exact(2) t]) simp_all
  have le: "rate_low t \<le> rate_high t" using rate_limits(1,2)[OF assms(1)] by simp
  have "t * 99 / 100 \<le> t * 101 / 100" "(0 :: rat) \<le> 1 / 2 ^ 50" "(1 / 2 ^ 50 :: rat) \<le> 1" using t by simp_all
  from near_clamp[OF lo hi near_quotient[OF assms(2)] this(2,3,1) le, of "unat w"]
  show ?thesis unfolding rate_target_def rate_estimate_def Let_def .
qed

text \<open>The comparison with two parts per million, in exact numbers.\<close>

lemma abs_triangle:
  "\<bar>b - c\<bar> \<le> \<bar>a - b\<bar> + \<bar>a - c :: rat\<bar>" "\<bar>b\<bar> \<le> \<bar>a\<bar> + \<bar>a - b\<bar>" "\<bar>a\<bar> \<le> \<bar>b\<bar> + \<bar>a - b\<bar>"
  "b - a \<le> \<bar>a - b\<bar>" "a - b \<le> \<bar>a - b\<bar>"
  by (simp_all add: abs_if)

lemma below_2ppm_bounds:
  assumes "0 \<le> slaved"
  shows "below_2ppm e slaved \<Longrightarrow> \<bar>e - slaved\<bar> \<le> slaved * (21 / 10000000)"
    "\<bar>e - slaved\<bar> \<le> slaved * (19 / 10000000) \<Longrightarrow> below_2ppm e slaved"
proof -
  let ?c = "f64 (2 / 1000000)"
  have c: "195 / 100000000 \<le> ?c" "?c \<le> 205 / 100000000" by code_simp+
  have p: "slaved * (195 / 100000000) \<le> slaved * ?c" "slaved * ?c \<le> slaved * (205 / 100000000)"
    using c assms by (intro mult_left_mono; simp)+
  have "0 \<le> slaved * ?c" using p(1) assms by (intro order_trans[OF _ p(1)]) simp
  from near_f64[OF this] have f: "slaved * ?c * (1 - 1 / 2 ^ 53) \<le> f64 (slaved * ?c)" "f64 (slaved * ?c) \<le> slaved * ?c * (1 + 1 / 2 ^ 53)"
    by (simp_all add: near_def)
  have d: "\<bar>f64 (e - slaved) - (e - slaved)\<bar> \<le> \<bar>e - slaved\<bar> / 2 ^ 53" using round_to_error[of 53 "e - slaved"] by simp
  define x y z where "x = f64 (e - slaved)" and "y = f64 (slaved * ?c)" and "z = slaved * ?c"
  note xyz = f [folded y_def z_def] d [folded x_def] p [folded z_def] x_def [symmetric] y_def [symmetric]
  show "\<bar>e - slaved\<bar> \<le> slaved * (21 / 10000000)" if "below_2ppm e slaved"
  proof -
    have "\<bar>x\<bar> \<le> y" using that by (simp only: below_2ppm_def x_def y_def)
    with xyz(2,3,5) assms abs_triangle(2)[of "e - slaved" x] show ?thesis by simp
  qed
  show "below_2ppm e slaved" if "\<bar>e - slaved\<bar> \<le> slaved * (19 / 10000000)"
  proof -
    have "\<bar>x\<bar> \<le> y" using that xyz(1,3,4) assms abs_triangle(3)[of x "e - slaved"] by simp
    then show ?thesis by (simp only: below_2ppm_def x_def y_def)
  qed
qed

text \<open>C17. The device follows the daemon: once half a second of observations (24000 frames) separates the
  published clock from the reference, let the target be the host ticks observed for each frame,
  brought within one percent of the nominal rate, in exact arithmetic.  After the update the rate
  of the device is within three parts per million of the target, so it never leaves the nominal rate by
  more than one percent and four parts per million.  It is left alone, with everything else, when it is within one part per
  million already; and when the timeline is rebased, which the seed shows, the rate is the target
  up to a rounding of less than one part in \<open>2\<^sup>5\<^sup>0\<close> and the new anchor is the last time stamp.\<close>

theorem hal_clock_follows_daemon:
  assumes "gDevice_RingIsOpen st" "ring_at os (gDevice_Ring st) = Some mem"
    "shared_audio_get_clock mem = Some (time, pos)" "gDevice_ClockRefValid st"
    "gDevice_ClockRefSamplePos st \<le> pos" "24000 \<le> pos - gDevice_ClockRefSamplePos st" "rate_ok st"
  defines "target \<equiv> rate_target (gDevice_HostTicksPerFrame st) (unat (time - gDevice_ClockRefHostTime st))
    (unat pos - unat (gDevice_ClockRefSamplePos st))"
  shows "\<exists>st'. update_clock_estimate os st = Some st' \<and>
    \<bar>gDevice_SlavedTicksPerFrame st' - target\<bar> \<le> target * 3 / 1000000 \<and>
    \<bar>gDevice_SlavedTicksPerFrame st' - gDevice_HostTicksPerFrame st\<bar> \<le> gDevice_HostTicksPerFrame st * 10004 / 1000000 \<and>
    (if \<bar>gDevice_SlavedTicksPerFrame st - target\<bar> \<le> target / 1000000 then st' = st else True) \<and>
    (if gDevice_TimelineSeed st' = gDevice_TimelineSeed st then st' = st
     else \<bar>gDevice_SlavedTicksPerFrame st' - target\<bar> \<le> target / 2 ^ 50 \<and>
       gDevice_AnchorHostTime st' = gDevice_LastHostTime st' \<and>
       gDevice_AnchorSampleTime st' = gDevice_LastSampleTime st' \<and> gDevice_LastHostTime st' = gDevice_LastHostTime st \<and>
       gDevice_LastSampleTime st' = gDevice_LastSampleTime st)"
proof -
  let ?t = "gDevice_HostTicksPerFrame st" and ?s = "gDevice_SlavedTicksPerFrame st"
  define est where "est = rate_estimate ?t (time - gDevice_ClockRefHostTime st) (pos - gDevice_ClockRefSamplePos st)"
  have n: "\<not> pos < gDevice_ClockRefSamplePos st" "\<not> pos - gDevice_ClockRefSamplePos st < 24000"
    using assms(5,6) by (simp_all only: not_less)
  have frames: "unat (pos - gDevice_ClockRefSamplePos st) = unat pos - unat (gDevice_ClockRefSamplePos st)"
    using assms(5) by (simp add: unat_sub)
  have "24000 \<le> unat (pos - gDevice_ClockRefSamplePos st)" using assms(6) by (simp add: word_le_nat_alt)
  then have n0: "0 < unat (pos - gDevice_ClockRefSamplePos st)" by simp
  have t: "ticks_ok ?t" "2 \<le> ?t" "1 \<le> ?s" using assms(7) rate_limits(3)[of ?t] by (simp_all add: rate_ok_def ticks_ok_def)
  from rate_estimate_near[OF t(1) n0] have e: "near (1 / 2 ^ 50) target est" by (simp add: est_def target_def frames)
  have tg: "?t * 99 / 100 \<le> target" "target \<le> ?t * 101 / 100" unfolding target_def rate_target_def
    using t(2) by (intro max.cobounded1 max.boundedI min.cobounded1; simp)+
  have tt: "\<bar>target - ?t\<bar> \<le> ?t / 100" using tg by (intro abs_leI; linarith)
  have e': "\<bar>est - target\<bar> \<le> target / 2 ^ 50" using e unfolding near_def abs_le_iff by (simp add: algebra_simps)
  note ppm = below_2ppm_bounds[of ?s est]
  show ?thesis
  proof (cases "below_2ppm est ?s")
    case True
    have "\<bar>?s - target\<bar> \<le> target * 3 / 1000000" using ppm(1) True t(2,3) e' tg abs_triangle(1)[of ?s target est] abs_triangle(4)[of ?s est] abs_triangle(5)[of est target] by simp
    moreover from this have "\<bar>?s - ?t\<bar> \<le> ?t * 10004 / 1000000" using tt t(2) tg abs_triangle(1)[of ?s ?t target] by (simp add: abs_minus_commute)
    ultimately show ?thesis using assms(1-4) n True
      by (intro exI [of _ st]) (simp add: update_clock_estimate_def Let_def est_def)
  next
    case False
    let ?st = "st\<lparr>gDevice_AnchorHostTime := gDevice_LastHostTime st, gDevice_AnchorSampleTime := gDevice_LastSampleTime st,
      gDevice_SlavedTicksPerFrame := est, gDevice_TimelineSeed := gDevice_TimelineSeed st + 1\<rparr>"
    have up: "update_clock_estimate os st = Some ?st" using assms(1-4) n False
      by (simp add: update_clock_estimate_def Let_def est_def)
    have "\<not> \<bar>?s - target\<bar> \<le> target / 1000000" using ppm(2) False t(2,3) e' tg abs_triangle(1)[of est ?s target] abs_triangle(5)[of target ?s] by (auto simp: abs_minus_commute)
    moreover have "\<bar>est - target\<bar> \<le> target * 3 / 1000000" "\<bar>est - ?t\<bar> \<le> ?t * 10004 / 1000000"
      using e' tt tg t(2) abs_triangle(1)[of est ?t target] by (simp_all add: abs_minus_commute)
    ultimately show ?thesis using up e' by (intro exI [of _ ?st]) simp
  qed
qed

definition published_ring :: "int shared_ring" where
  "published_ring = shared_audio_publish_clock sample_ring 24012000 48000"

definition published_os :: "int os" where
  "published_os = empty_os\<lparr>os_objects := [3 \<mapsto> \<lparr>o_size = 160, o_ring = published_ring\<rparr>]\<rparr>"

definition slaved_device :: hal_state where
  "slaved_device = silent_device\<lparr>gDevice_RingIsOpen := True,
     gDevice_Ring := \<lparr>sa_header = Some 3, sa_samples = Some 3, sa_mapped_bytes = 160, sa_owner = 0, sa_name = ''/reacjack-audio''\<rparr>,
     gDevice_ClockRefValid := True\<rparr>"

lemma published_clock: "shared_audio_get_clock published_ring = Some (24012000, 48000)"
  unfolding published_ring_def sample_ring_def by code_simp

theorem hal_clock_follows_daemon_witness:
  "\<exists>st'. update_clock_estimate published_os slaved_device = Some st' \<and>
     \<bar>gDevice_SlavedTicksPerFrame st' - 24012000 / 48000\<bar> \<le> 24012000 / 48000 * 3 / 1000000 \<and>
     gDevice_SlavedTicksPerFrame slaved_device = 500"
proof -
  have f: "gDevice_RingIsOpen slaved_device" "gDevice_ClockRefValid slaved_device"
    "gDevice_ClockRefSamplePos slaved_device = 0" "gDevice_ClockRefHostTime slaved_device = 0"
    "gDevice_HostTicksPerFrame slaved_device = 500" "gDevice_SlavedTicksPerFrame slaved_device = 500"
    by (simp_all add: slaved_device_def silent_device_def idle_device_facts(1))
      (simp_all add: idle_device_def ReacJack_Initialize_def hal_init_def)
  have r: "ring_at published_os (gDevice_Ring slaved_device) = Some published_ring"
    by (simp add: ring_at_def published_os_def slaved_device_def)
  have "ticks_ok 500" using f64_nat[of 500] by (simp add: ticks_ok_def)
  with rate_limits(1,2)[of 500] have "rate_ok slaved_device" by (simp add: rate_ok_def f)
  moreover have "(0 :: u64) \<le> 48000" "(24000 :: u64) \<le> 48000" by simp_all
  moreover have target: "rate_target 500 (unat (24012000 :: u64)) (unat (48000 :: u64) - unat (0 :: u64)) = 24012000 / 48000"
    by (simp add: rate_target_def)
  ultimately show ?thesis
    using hal_clock_follows_daemon[OF f(1) r published_clock f(2), unfolded f diff_zero target] f(6) by blast
qed

end
