(* ===== verification/HalIO.thy ===== *)
theory HalIO
  imports HalDevice
begin

text \<open>
  The I/O of the CoreAudio plug-in as a system: the handlers that change its state run in any
  order, interleaved with changes that other processes make to the shared memory.  The mapping
  of the ring exists exactly while a client runs, and the audio that the host reads is the
  audio that the daemon wrote, regulated.
\<close>

section \<open>The system\<close>

text \<open>
  Other processes may create and remove names and objects and change the contents of objects; the
  mappings of this process keep their objects alive.
\<close>

definition others_may :: "'a os \<Rightarrow> 'a os \<Rightarrow> bool" where
  "others_may os os' \<longleftrightarrow> os_maps os' = os_maps os \<and> os_fds os' = os_fds os \<and>
     fst ` set (os_maps os) \<inter> dom (os_objects os) \<subseteq> dom (os_objects os')"

inductive hal_step :: "('a::zero) os \<times> hal_state \<Rightarrow> 'a os \<times> hal_state \<Rightarrow> bool" where
  start_io: "ReacJack_StartIO fails os now st d obj = Some (status, os', st') \<Longrightarrow> hal_step (os, st) (os', st')"
| stop_io: "ReacJack_StopIO os st d obj = (status, os', st') \<Longrightarrow> hal_step (os, st) (os', st')"
| time_stamp: "ReacJack_GetZeroTimeStamp os now st d obj has_out = Some (status, stamp, st') \<Longrightarrow> hal_step (os, st) (os, st')"
| do_io: "ReacJack_DoIOOperation os st d obj opn frames buffer = Some (status, os', buffer') \<Longrightarrow> hal_step (os, st) (os', st)"
| add_ref: "ReacJack_AddRef st d = (n, st') \<Longrightarrow> hal_step (os, st) (os, st')"
| release: "ReacJack_Release st d = (n, st') \<Longrightarrow> hal_step (os, st) (os, st')"
| query: "ReacJack_QueryInterface st d uuid has_out = (res, ref, st') \<Longrightarrow> hal_step (os, st) (os, st')"
| others: "others_may os os' \<Longrightarrow> hal_step (os, st) (os', st)"

inductive hal_reachable :: "('a::zero) os \<times> hal_state \<Rightarrow> 'a os \<times> hal_state \<Rightarrow> bool" for s0 where
  init: "hal_reachable s0 s0"
| step: "hal_reachable s0 s \<Longrightarrow> hal_step s s' \<Longrightarrow> hal_reachable s0 s'"

section \<open>The mapping\<close>

text \<open>The mappings of the process while the driver is in a state, given those that others made.\<close>

definition mapping_ok :: "(nat \<times> u64) list \<Rightarrow> nat list \<Rightarrow> 'a os \<Rightarrow> hal_state \<Rightarrow> bool" where
  "mapping_ok maps fds os st \<longleftrightarrow> os_fds os = fds \<and>
     (if gDevice_RingIsOpen st
      then gDevice_IOIsRunning st \<noteq> 0 \<and>
        (\<exists>i. sa_header (gDevice_Ring st) = Some i \<and> i \<in> dom (os_objects os) \<and>
             os_maps os = (i, sa_mapped_bytes (gDevice_Ring st)) # maps)
      else os_maps os = maps)"

lemma put_ring_sel [simp]:
  "os_maps (put_ring os audio r) = os_maps os" "os_fds (put_ring os audio r) = os_fds os"
  "dom (os_objects (put_ring os audio r)) = dom (os_objects os)"
  by (auto simp: put_ring_def split: option.splits if_splits)

lemma start_first_result:
  assumes "os_fds os = fds" "os_maps os = maps"
  shows "\<exists>os1 st1. start_first fails os now st = Some (os1, st1) \<and> gDevice_IOIsRunning st1 = gDevice_IOIsRunning st \<and>
    os_fds os1 = fds \<and>
    (if gDevice_RingIsOpen st1
     then \<exists>i. sa_header (gDevice_Ring st1) = Some i \<and> i \<in> dom (os_objects os1) \<and>
          os_maps os1 = (i, sa_mapped_bytes (gDevice_Ring st1)) # maps
     else os_maps os1 = maps)"
proof -
  obtain os1 ring rc where op: "shared_audio_open fails os (gDevice_Ring st) (Some ''/reacjack-audio'') = (os1, ring, rc)"
    by (metis prod_cases3)
  note res = open_resources[OF op]
  show ?thesis
  proof (cases "rc = 0")
    case True
    from open_accepted[OF op [unfolded True]] obtain i obj where
      i: "sa_header ring = Some i" "os_objects os1 i = Some obj" by blast
    have "ring_at os1 ring = Some (o_ring obj)" "i \<in> dom (os_objects os1)" using i by (auto simp: ring_at_def)
    then show ?thesis using op True i res(1) res(3)[OF True] assms by (simp add: start_first_def)
  next
    case False
    then show ?thesis using op res(1) res(4)[OF False] assms by (simp add: start_first_def)
  qed
qed

text \<open>A start keeps the mapping invariant; the counter cannot wrap.\<close>

lemma start_mapping:
  assumes ok: "mapping_ok maps fds os st"
  shows "\<exists>status os' st'. ReacJack_StartIO fails os now st d obj = Some (status, os', st') \<and> mapping_ok maps fds os' st'"
proof -
  consider (bad) "d \<noteq> gDriverRef \<or> obj \<noteq> kObjectID_Device" | (full) "d = gDriverRef" "obj = kObjectID_Device" "gDevice_IOIsRunning st = - 1"
    | (first) "d = gDriverRef" "obj = kObjectID_Device" "gDevice_IOIsRunning st = 0"
    | (more) "d = gDriverRef" "obj = kObjectID_Device" "gDevice_IOIsRunning st \<noteq> 0" "gDevice_IOIsRunning st \<noteq> - 1" by blast
  then show ?thesis
  proof cases
    case first
    then have "\<not> gDevice_RingIsOpen st" "os_fds os = fds" "os_maps os = maps"
      using ok by (auto simp: mapping_ok_def split: if_splits)
    from start_first_result[OF this(2,3), of fails now st] first obtain os1 st1 where
      s: "start_first fails os now st = Some (os1, st1)" "gDevice_IOIsRunning st1 = 0" "os_fds os1 = fds"
      "if gDevice_RingIsOpen st1 then \<exists>i. sa_header (gDevice_Ring st1) = Some i \<and> i \<in> dom (os_objects os1) \<and>
          os_maps os1 = (i, sa_mapped_bytes (gDevice_Ring st1)) # maps else os_maps os1 = maps" by auto
    then have "mapping_ok maps fds os1 (st1\<lparr>gDevice_IOIsRunning := 1\<rparr>)" by (simp add: mapping_ok_def)
    with s(1,2) first show ?thesis by (auto simp: ReacJack_StartIO_def)
  next
    case more
    then have "gDevice_IOIsRunning st + 1 \<noteq> 0" by (metis add_eq_0_iff2)
    with more ok show ?thesis by (auto simp: ReacJack_StartIO_def mapping_ok_def)
  qed (use ok in \<open>auto simp: ReacJack_StartIO_def\<close>)
qed

lemma stop_mapping:
  assumes ok: "mapping_ok maps fds os st" and "ReacJack_StopIO os st d obj = (status, os', st')"
  shows "mapping_ok maps fds os' st'"
  using assms by (auto simp: ReacJack_StopIO_def mapping_ok_def Let_def shared_audio_close_def munmap_def split: if_splits)

lemma update_clock_frame:
  assumes "update_clock_estimate os st = Some st'"
  shows "gDevice_RingIsOpen st' = gDevice_RingIsOpen st \<and> gDevice_Ring st' = gDevice_Ring st \<and>
    gDevice_IOIsRunning st' = gDevice_IOIsRunning st"
  using assms by (auto simp: update_clock_estimate_def Let_def split: if_splits bind_splits option.splits prod.splits)

lemma time_stamp_frame:
  assumes "ReacJack_GetZeroTimeStamp os now st d obj has_out = Some (status, stamp, st')"
  shows "gDevice_RingIsOpen st' = gDevice_RingIsOpen st \<and> gDevice_Ring st' = gDevice_Ring st \<and>
    gDevice_IOIsRunning st' = gDevice_IOIsRunning st"
proof (cases "d \<noteq> gDriverRef \<or> obj \<noteq> kObjectID_Device \<or> \<not> has_out")
  case False
  with assms obtain st1 where "update_clock_estimate os st = Some st1"
    "gDevice_RingIsOpen st' = gDevice_RingIsOpen st1 \<and> gDevice_Ring st' = gDevice_Ring st1 \<and>
     gDevice_IOIsRunning st' = gDevice_IOIsRunning st1"
    by (auto simp: ReacJack_GetZeroTimeStamp_def split: bind_splits if_splits prod.splits)
  with update_clock_frame show ?thesis by metis
qed (use assms in \<open>auto simp: ReacJack_GetZeroTimeStamp_def\<close>)

lemma do_io_frame:
  assumes "ReacJack_DoIOOperation os st d obj opn frames buffer = Some (status, os', buffer')"
  shows "os' = os \<or> (\<exists>mem. os' = put_ring os (gDevice_Ring st) mem)"
  using assms by (auto simp: ReacJack_DoIOOperation_def split: if_splits io_operation.splits option.splits bind_splits)

lemma hal_step_mapping:
  assumes "hal_step s s'" "case s of (os, st) \<Rightarrow> mapping_ok maps fds os st"
  shows "case s' of (os, st) \<Rightarrow> mapping_ok maps fds os st"
  using assms
proof (induction rule: hal_step.induct)
  case (start_io fails os now st d obj status os' st')
  then show ?case using start_mapping[of maps fds os st fails now d obj] by auto
next
  case (stop_io os st d obj status os' st')
  then show ?case using stop_mapping by fastforce
next
  case (time_stamp os now st d obj has_out status stamp st')
  then show ?case using time_stamp_frame[OF time_stamp(1)] by (simp add: mapping_ok_def)
next
  case (do_io os st d obj opn frames buffer status os' buffer')
  then show ?case using do_io_frame[OF do_io(1)] by (auto simp: mapping_ok_def)
next
  case (others os os' st)
  then show ?case by (fastforce simp: mapping_ok_def others_may_def split: if_splits)
qed (auto simp: mapping_ok_def ReacJack_AddRef_def ReacJack_Release_def ReacJack_QueryInterface_def Let_def
       split: if_splits option.splits)

lemma hal_reachable_mapping:
  assumes "hal_reachable s0 s" "case s0 of (os, st) \<Rightarrow> mapping_ok maps fds os st"
  shows "case s of (os, st) \<Rightarrow> mapping_ok maps fds os st"
  using assms
proof (induction rule: hal_reachable.induct)
  case (step s s')
  from hal_step_mapping[OF step(2) step.IH[OF step.prems]] show ?case .
qed

section \<open>Reading audio\<close>

text \<open>A read of the device with a mapped ring is a regulated read of the ring.\<close>

lemma do_io_mapped:
  assumes "gDevice_RingIsOpen st" "ring_at os (gDevice_Ring st) = Some mem"
    "shared_audio_read_interleaved_regulated mem buffer 40 frames 4800 2400 = Some (mem', buffer', got)"
  shows "ReacJack_DoIOOperation os st gDriverRef kObjectID_Device kAudioServerPlugInIOOperationReadInput frames (Some buffer) =
    Some (kAudioHardwareNoError, put_ring os (gDevice_Ring st) mem', Some buffer')"
  using assms by (simp add: ReacJack_DoIOOperation_def)

lemma length_pad_frame [simp]: "length (pad_frame oc fs) = oc"
  by (simp add: pad_frame_def)

lemma regulated_output_shape:
  assumes "i \<le> n" "n * oc \<le> length buf"
  shows "length (regulated_output oc fr n d i buf) = length buf"
    "drop (n * oc) (regulated_output oc fr n d i buf) = drop (n * oc) buf"
proof -
  let ?real = "take (n - i) (drop d fr)"
  let ?block = "interleaved oc ?real @ replicate ((n - i - length ?real) * oc) 0 @ concat (replicate i (pad_frame oc ?real))"
  have "length (concat (replicate k (pad_frame oc ?real))) = k * oc" for k by (induction k) simp_all
  then have "length ?block = length ?real * oc + (n - i - length ?real) * oc + i * oc" by simp
  also have "\<dots> = (length ?real + (n - i - length ?real) + i) * oc" by (simp only: distrib_right)
  also have "length ?real + (n - i - length ?real) + i = n" using assms(1) by simp
  finally have len: "length ?block = n * oc" .
  have "regulated_output oc fr n d i buf = ?block @ drop (n * oc) buf" by (simp add: regulated_output_def Let_def)
  with len obtain B where out: "regulated_output oc fr n d i buf = B @ drop (n * oc) buf" "length B = n * oc" by blast
  show "length (regulated_output oc fr n d i buf) = length buf"
    "drop (n * oc) (regulated_output oc fr n d i buf) = drop (n * oc) buf" using out assms(2) by simp_all
qed

text \<open>A period of the system: the daemon writes a block, the host reads one.\<close>

definition device_cycle :: "hal_state \<Rightarrow> ('a::zero) os \<Rightarrow> 'a drift_step \<Rightarrow> 'a os option" where
  "device_cycle st os s =
     do { mem \<leftarrow> ring_at os (gDevice_Ring st);
          (mem1, rc) \<leftarrow> shared_audio_write mem (step_channels s) (step_write s);
          (status, os', buffer) \<leftarrow> ReacJack_DoIOOperation (put_ring os (gDevice_Ring st) mem1) st gDriverRef
             kObjectID_Device kAudioServerPlugInIOOperationReadInput (step_read s)
             (Some (replicate (unat (step_read s) * 40) 0));
          Some os' }"

fun device_run :: "hal_state \<Rightarrow> ('a::zero) os \<Rightarrow> 'a drift_step list \<Rightarrow> 'a os list option" where
  "device_run st os [] = Some []"
| "device_run st os (s # ss) =
     do { os' \<leftarrow> device_cycle st os s;
          rest \<leftarrow> device_run st os' ss;
          Some (os' # rest) }"

lemma device_cycle_refines:
  assumes "gDevice_RingIsOpen st" "ring_at os (gDevice_Ring st) = Some mem" "drift_cycle 40 4800 2400 mem s = Some mem'"
  shows "\<exists>os'. device_cycle st os s = Some os' \<and> ring_at os' (gDevice_Ring st) = Some mem'"
proof -
  from assms(3) obtain mem1 rc out got where
    w: "shared_audio_write mem (step_channels s) (step_write s) = Some (mem1, rc)"
    and r: "shared_audio_read_interleaved_regulated mem1 (replicate (unat (step_read s) * 40) 0) 40 (step_read s) 4800 2400 =
      Some (mem', out, got)"
    by (auto simp: drift_cycle_def split: bind_splits)
  note put = ring_at_put[OF assms(2), of mem1]
  show ?thesis
    using do_io_mapped[OF assms(1) put r] w assms(2) ring_at_put[OF put, of mem'] by (simp add: device_cycle_def)
qed

text \<open>A run of the device is a run of the ring under regulation.\<close>

lemma device_run_refines:
  assumes "gDevice_RingIsOpen st" "ring_at os (gDevice_Ring st) = Some mem" "drift_run 40 4800 2400 mem steps = Some mems"
  shows "\<exists>oss. device_run st os steps = Some oss \<and> map (\<lambda>os. ring_at os (gDevice_Ring st)) oss = map Some mems"
  using assms(2,3)
proof (induction steps arbitrary: os mem mems)
  case (Cons s steps)
  from Cons.prems(2) obtain mem1 rest where
    m: "drift_cycle 40 4800 2400 mem s = Some mem1" "drift_run 40 4800 2400 mem1 steps = Some rest" "mems = mem1 # rest"
    by (auto split: bind_splits)
  from device_cycle_refines[OF assms(1) Cons.prems(1) m(1)] obtain os1 where
    os1: "device_cycle st os s = Some os1" "ring_at os1 (gDevice_Ring st) = Some mem1" by blast
  from Cons.IH[OF os1(2) m(2)] obtain oss where
    "device_run st os1 steps = Some oss" "map (\<lambda>os. ring_at os (gDevice_Ring st)) oss = map Some rest" by blast
  with os1 m(3) show ?case by (intro exI [of _ "os1 # oss"]) simp
qed simp

section \<open>Properties\<close>

text \<open>C18. The ring is mapped exactly while it is in use: from a stopped device, after every sequence of
  starts, stops, time stamps, reads and reference counting, and whatever other processes do to
  the shared memory in between, a start always returns; the driver has leaked no descriptor
  and holds at most one mapping, the one in its handle and only while clients run; once as many
  clients have stopped as have started, all mappings are as they were.\<close>

theorem hal_mapping_balanced:
  assumes "hal_reachable (os0, st0) (os, st)" "\<not> gDevice_RingIsOpen st0"
  shows "mapping_ok (os_maps os0) (os_fds os0) os st \<and>
    (gDevice_IOIsRunning st = 0 \<longrightarrow> os_maps os = os_maps os0 \<and> \<not> gDevice_RingIsOpen st) \<and>
    (\<exists>status os' st'. ReacJack_StartIO fails os now st gDriverRef kObjectID_Device = Some (status, os', st'))"
proof -
  have ok: "mapping_ok (os_maps os0) (os_fds os0) os st"
    using hal_reachable_mapping[OF assms(1), of "os_maps os0" "os_fds os0"] assms(2) by (simp add: mapping_ok_def)
  with start_mapping[OF ok, of fails now gDriverRef kObjectID_Device] show ?thesis
    by (auto simp: mapping_ok_def split: if_splits)
qed

theorem hal_mapping_balanced_witness:
  "\<exists>os st. hal_reachable (empty_os, hal_init) (os, st) \<and> gDevice_IOIsRunning st = 0 \<and> os_maps os = os_maps empty_os"
proof -
  obtain status os1 st1 where s: "ReacJack_StartIO (\<lambda>_. False) empty_os 5 hal_init gDriverRef kObjectID_Device =
      Some (status, os1, st1)" and r1: "gDevice_IOIsRunning st1 = 1"
    by (auto simp: ReacJack_StartIO_def start_first_def shared_audio_open_def init_handle_def shm_open_old_def
        empty_os_def hal_init_def Let_def)
  obtain status' os st where e: "ReacJack_StopIO os1 st1 gDriverRef kObjectID_Device = (status', os, st)"
    by (metis prod_cases3)
  have reach: "hal_reachable (empty_os, hal_init) (os, st)"
    using hal_reachable.step[OF hal_reachable.step[OF hal_reachable.init hal_step.start_io[OF s]] hal_step.stop_io[OF e]] .
  have "gDevice_IOIsRunning st = 0" using e r1 by (auto simp: ReacJack_StopIO_def Let_def split: if_splits prod.splits)
  moreover have "\<not> gDevice_RingIsOpen hal_init" by (simp add: hal_init_def)
  ultimately show ?thesis using hal_mapping_balanced[OF reach] reach by blast
qed

text \<open>The first start aligns the device with the daemon: if the daemon's ring opens, the device maps
  it and keeps its newest frames, at most 100 ms of them, dropping all older ones; later
  starts change nothing but the number of clients.\<close>

theorem hal_start_aligns:
  assumes "shared_audio_open fails os (gDevice_Ring st) (Some kDevice_RingName) = (os1, ring, 0)"
    "ring_at os1 ring = Some mem" "ring_ok mem" "gDevice_IOIsRunning st = 0"
  shows "\<exists>os2 st2 mem'. ReacJack_StartIO fails os now st gDriverRef kObjectID_Device =
      Some (kAudioHardwareNoError, os2, st2) \<and> gDevice_RingIsOpen st2 \<and> gDevice_IOIsRunning st2 = 1 \<and>
    ring_at os2 (gDevice_Ring st2) = Some mem' \<and> ring_ok mem' \<and>
    ring_frames mem' = drop (fill_of mem - 4800) (ring_frames mem) \<and> fill_of mem' = min (fill_of mem) 4800 \<and>
    ReacJack_StartIO fails' os2 later st2 gDriverRef kObjectID_Device =
      Some (kAudioHardwareNoError, os2, st2\<lparr>gDevice_IOIsRunning := 2\<rparr>)"
proof -
  note seek = seek_spec[OF assms(3), of 4800]
  let ?mem = "fst (shared_audio_seek_to_fill mem 4800)"
  note put = ring_at_put[OF assms(2), of ?mem]
  have neq: "(1 :: u64) \<noteq> - 1" by simp
  show ?thesis
    using assms(1,2,4) put seek neq by (simp add: ReacJack_StartIO_def start_first_def)
qed

definition daemon_os :: "int os" where
  "daemon_os = fst (shared_audio_create (\<lambda>_. False) empty_os no_handle (Some kDevice_RingName) 48000 2 4)"

theorem hal_start_aligns_witness:
  "\<exists>os2 st2 mem'. ReacJack_StartIO (\<lambda>_. False) daemon_os 1000 hal_init gDriverRef kObjectID_Device =
      Some (kAudioHardwareNoError, os2, st2) \<and> gDevice_RingIsOpen st2 \<and>
    ring_at os2 (gDevice_Ring st2) = Some mem' \<and> ring_frames mem' = []"
proof -
  obtain audio' where c: "shared_audio_create (\<lambda>_. False) empty_os no_handle (Some kDevice_RingName) 48000 2 4 =
      (daemon_os, audio', 0)"
    by (auto simp: daemon_os_def shared_audio_create_def os_defs init_handle_def empty_os_def Let_def)
  note s = create_success[OF c]
  let ?obj = "\<lparr>o_size = mapping_bytes (ucast (2 :: u16)) 4, o_ring = \<lparr>header = initial_header zero_header 48000 2 4,
      samples = replicate (samples_in (mapping_bytes (ucast (2 :: u16)) 4)) (0 :: int)\<rparr>\<rparr>"
  have op: "shared_audio_open (\<lambda>_. False) daemon_os (gDevice_Ring hal_init) (Some kDevice_RingName) =
    (daemon_os\<lparr>os_maps := (os_next empty_os, o_size ?obj) # os_maps daemon_os\<rparr>,
     \<lparr>sa_header = Some (os_next empty_os), sa_samples = Some (os_next empty_os), sa_mapped_bytes = o_size ?obj,
      sa_owner = 0, sa_name = kDevice_RingName\<rparr>, 0)"
    using s created_header_acceptable(1)[of 2 4 48000] created_header_acceptable(2)[of 2 4] by (intro open_success) auto
  have ok: "ring_ok (o_ring ?obj)" using created_ring[of 4 48000 2] by simp
  have e: "ring_frames (o_ring ?obj) = []"
    using length_ring_frames[of "o_ring ?obj"] by (simp add: fill_of_def initial_header_def zero_header_def)
  have at: "ring_at (daemon_os\<lparr>os_maps := (os_next empty_os, o_size ?obj) # os_maps daemon_os\<rparr>)
     \<lparr>sa_header = Some (os_next empty_os), sa_samples = Some (os_next empty_os), sa_mapped_bytes = o_size ?obj,
      sa_owner = 0, sa_name = kDevice_RingName\<rparr> = Some (o_ring ?obj)"
    using s by (simp add: ring_at_def)
  have "gDevice_IOIsRunning hal_init = 0" by (simp add: hal_init_def)
  from hal_start_aligns[OF op at ok this, of 1000 "\<lambda>_. False" 0] show ?thesis unfolding e drop_Nil by blast
qed

text \<open>C19. A host that reads a block always gets a full block: without a ring it is silence, with a ring it
  is the regulated read of the ring's oldest frames, forty channels a frame, channels that the
  ring lacks silent; the ring loses exactly the frames read and dropped.\<close>

theorem hal_read_fills_block:
  assumes "unat frames * 40 \<le> length buffer"
    "gDevice_RingIsOpen st \<longrightarrow> (\<exists>mem. ring_at os (gDevice_Ring st) = Some mem \<and> ring_ok mem)"
  shows "\<exists>os' buffer'. ReacJack_DoIOOperation os st gDriverRef kObjectID_Device
      kAudioServerPlugInIOOperationReadInput frames (Some buffer) = Some (kAudioHardwareNoError, os', Some buffer') \<and>
    length buffer' = length buffer \<and> drop (unat frames * 40) buffer' = drop (unat frames * 40) buffer \<and>
    (if gDevice_RingIsOpen st
     then \<exists>mem mem' d i. ring_at os (gDevice_Ring st) = Some mem \<and> ring_at os' (gDevice_Ring st) = Some mem' \<and>
       regulation (fill_of mem) 4800 2400 (unat frames) = (d, i) \<and>
       buffer' = regulated_output 40 (ring_frames mem) (unat frames) d i buffer \<and> regulated_effect mem (unat frames) d i mem'
     else os' = os \<and> take (unat frames * 40) buffer' = replicate (unat frames * 40) 0)"
proof (cases "gDevice_RingIsOpen st")
  case True
  then obtain mem where mem: "ring_at os (gDevice_Ring st) = Some mem" "ring_ok mem" using assms(2) by blast
  obtain d i where reg: "regulation (fill_of mem) (unat (4800 :: u32)) (unat (2400 :: u32)) (unat frames) = (d, i)" by fastforce
  have len: "unat frames * unat (40 :: u16) \<le> length buffer" using assms(1) by simp
  from regulated_reference[OF mem(2) len reg] obtain mem' got where
    r: "shared_audio_read_interleaved_regulated mem buffer 40 frames 4800 2400 =
      Some (mem', regulated_output 40 (ring_frames mem) (unat frames) d i buffer, got)"
    and e: "regulated_effect mem (unat frames) d i mem'" by auto
  have "length (regulated_output 40 (ring_frames mem) (unat frames) d i buffer) = length buffer \<and>
      drop (unat frames * 40) (regulated_output 40 (ring_frames mem) (unat frames) d i buffer) = drop (unat frames * 40) buffer"
    using assms(1) regulated_output_shape[of i "unat frames" 40 buffer "ring_frames mem" d] reg
    by (auto simp: regulation_def split: if_splits)
  then show ?thesis
    using do_io_mapped[OF True mem(1) r] True mem(1) ring_at_put[OF mem(1), of mem'] e reg by auto
next
  case False
  then show ?thesis using assms(1)
    by (simp add: ReacJack_DoIOOperation_def mem_simps splice_def)
qed

theorem hal_read_fills_block_witness:
  "\<exists>os' buffer'. ReacJack_DoIOOperation empty_os hal_init gDriverRef kObjectID_Device
      kAudioServerPlugInIOOperationReadInput 1 (Some (replicate 40 7)) = Some (kAudioHardwareNoError, os', Some buffer') \<and>
    take 40 buffer' = replicate 40 0"
proof -
  have "\<not> gDevice_RingIsOpen hal_init" by (simp add: hal_init_def)
  with hal_read_fills_block[of 1 "replicate 40 (7 :: int)" hal_init empty_os] show ?thesis by auto
qed

text \<open>C12. Under drift the device neither starves nor overflows: for every sequence of periods in which the
  daemon's block and the host's block differ by at most eight frames, the host's blocks have at
  most 2400 frames and the ring holds 7200 frames and one block of the daemon, every read
  returns, the fill stays between 2400 frames minus one host block and 7200 frames, no write is
  rejected and no read runs short.\<close>

theorem hal_drift_stable:
  fixes mem :: "('a::zero) shared_ring"
  assumes "gDevice_RingIsOpen st" "ring_at os (gDevice_Ring st) = Some mem" "ring_ok mem"
    "\<forall>s \<in> set steps. drift_step_ok (chans_of mem) N W s" "in_band 4800 2400 N mem" "N \<le> 2400" "7200 + W \<le> cap_of mem"
    "wpos mem + sum_list (map (\<lambda>s. unat (step_write s)) steps) < 2 ^ 64"
  shows "\<exists>oss. device_run st os steps = Some oss \<and> length oss = length steps \<and>
    (\<forall>os' \<in> set oss. \<exists>mem'. ring_at os' (gDevice_Ring st) = Some mem' \<and> in_band 4800 2400 N mem' \<and>
       h_underruns (header mem') = h_underruns (header mem) \<and> h_overruns (header mem') = h_overruns (header mem))"
proof -
  have n: "in_band (unat (4800 :: u32)) (unat (2400 :: u32)) N mem" "7 \<le> unat (2400 :: u32)"
    "unat (2400 :: u32) + N \<le> unat (4800 :: u32)" "unat (4800 :: u32) + unat (2400 :: u32) + W \<le> cap_of mem"
    using assms(5-7) by simp_all
  from drift_run_stable[OF assms(3,4) n assms(8), of 40] obtain mems where
    m: "drift_run 40 4800 2400 mem steps = Some mems" "length mems = length steps"
    "\<forall>a' \<in> set mems. in_band 4800 2400 N a' \<and> h_underruns (header a') = h_underruns (header mem) \<and>
       h_overruns (header a') = h_overruns (header mem)" by auto
  from device_run_refines[OF assms(1,2) m(1)] obtain oss where
    r: "device_run st os steps = Some oss" "map (\<lambda>os. ring_at os (gDevice_Ring st)) oss = map Some mems" by blast
  have "length oss = length steps" using r(2) m(2) by (metis length_map)
  moreover have "\<exists>mem'. ring_at os' (gDevice_Ring st) = Some mem' \<and> mem' \<in> set mems" if "os' \<in> set oss" for os'
  proof -
    have "ring_at os' (gDevice_Ring st) \<in> set (map Some mems)" unfolding r(2) [symmetric] using that by simp
    then show ?thesis by auto
  qed
  ultimately show ?thesis using r(1) m(3) by blast
qed

definition drifting_os :: "int os" where
  "drifting_os = empty_os\<lparr>os_objects := [0 \<mapsto> \<lparr>o_size = 32128, o_ring =
     \<lparr>header = sample_header 1 8000 10 4810, samples = replicate 8000 1\<rparr>\<rparr>]\<rparr>"

definition drifting_device :: hal_state where
  "drifting_device = hal_init\<lparr>gDevice_IOIsRunning := 1, gDevice_RingIsOpen := True,
     gDevice_Ring := \<lparr>sa_header = Some 0, sa_samples = Some 0, sa_mapped_bytes = 32128, sa_owner = 0, sa_name = kDevice_RingName\<rparr>\<rparr>"

theorem hal_drift_stable_witness:
  "\<exists>oss. device_run drifting_device drifting_os
     [\<lparr>step_channels = [[5, 6]], step_write = 2, step_read = 3\<rparr>, \<lparr>step_channels = [[7]], step_write = 1, step_read = 3\<rparr>] =
     Some oss \<and> length oss = 2"
proof -
  let ?mem = "\<lparr>header = sample_header 1 8000 10 4810, samples = replicate 8000 (1 :: int)\<rparr>"
  let ?steps = "[\<lparr>step_channels = [[5, 6]], step_write = 2, step_read = 3\<rparr>,
     \<lparr>step_channels = [[7]], step_write = 1, step_read = 3\<rparr>] :: int drift_step list"
  have "gDevice_RingIsOpen drifting_device" by (simp add: drifting_device_def)
  moreover have "ring_at drifting_os (gDevice_Ring drifting_device) = Some ?mem"
    by (simp add: drifting_device_def drifting_os_def ring_at_def)
  moreover have "ring_ok ?mem" "in_band 4800 2400 3 ?mem" "7200 + 2 \<le> cap_of ?mem"
    "wpos ?mem + sum_list (map (\<lambda>s. unat (step_write s)) ?steps) < 2 ^ 64"
    by (simp_all add: ring_ok_def sample_header_def in_band_def fill_of_def)
  moreover have "\<forall>s \<in> set ?steps. drift_step_ok (chans_of ?mem) 3 2 s"
    by (simp add: drift_step_ok_def buffers_ok_def sample_header_def)
  ultimately show ?thesis
    using hal_drift_stable[of drifting_device drifting_os ?mem ?steps 3 2] by (simp del: device_run.simps add: numeral_2_eq_2) blast
qed

end
