(* ===== verification/JackBridge.thy ===== *)
theory JackBridge
  imports CaptureCommon CaptureLoop PacketLoss
begin

text \<open>
  The JACK bridge \<open>src/reacjack.c\<close>: the capture thread takes Ethernet frames from a memory mapped
  packet socket (the Linux backend) and puts the payload of REAC packets into a byte ring; the
  process callback takes whole periods from the ring, decodes them into the JACK ports and meters
  them.  The byte ring is the one of the JACK library; its operations are a parameter.  JACK
  and the operating system appear as the results of the calls.
\<close>

section \<open>State\<close>

datatype ReacError =
    ERR_OK
  | ERR_CAPTURE
  | ERR_RING_READ
  | ERR_SHORT_PACKET
  | ERR_BAD_PACKET_SIZE
  | ERR_TOO_MANY_CHANNELS
  | ERR_JACK_BUFFER_TOO_LARGE
  | ERR_JACK_PORT

text \<open>The ring buffer operations of the JACK library.\<close>

record 'r ringbuffer_ops =
  rb_write_space :: "'r \<Rightarrow> u64"
  rb_read_space :: "'r \<Rightarrow> u64"
  rb_write :: "'r \<Rightarrow> u8 list \<Rightarrow> 'r \<times> u64"
  rb_read :: "'r \<Rightarrow> u64 \<Rightarrow> 'r \<times> u8 list"
  rb_reset :: "'r \<Rightarrow> 'r"

text \<open>
  A slot of the mapped packet ring: the two status bits the code tests, the length \<open>tp_len\<close> and the
  memory from the first byte of the frame to the end of the slot.
\<close>

record rx_slot =
  slot_user :: bool
  slot_copy :: bool
  slot_len :: u32
  slot_frame :: "u8 list"

text \<open>
  The file scope variables.  The \<open>long\<close> counters are 64 bits wide; floating point variables are
  rational numbers.
\<close>

record 'r jack_state =
  isRunning :: bool
  lostPackages :: u64
  netBufferUnderrun :: u64
  jackBufferUnderrun :: u64
  nonREAC :: u64
  malformedPackets :: u64
  captureErrors :: u64
  ringbuffer :: 'r
  dataSize :: u32
  processBuffer :: "u8 list"
  processBufferBytes :: u64
  currentNumberOfChannels :: u32
  sampleRate :: u32
  currentSamplesPerPeriod :: u32
  jk_error :: ReacError
  active_marks :: string
  doMeasure :: bool
  lastTS :: rat
  lastJackTime :: rat
  receivedPackages :: u64
  processStartTime :: u64
  lastCounter :: u16
  haveLastCounter :: bool
  packetTime :: rat
  spaceAmount :: u64
  dataAmount :: u64
  channelRMS :: "rat list"
  channelPeak :: "rat list"
  meterRMS :: "rat list"
  meterPeak :: "rat list"
  meterIteration :: u32
  rx_ring :: "rx_slot list"
  rxring_offset :: u32

abbreviation (input) NUMBER_OF_CHANNELS :: nat where "NUMBER_OF_CHANNELS \<equiv> 40"
abbreviation (input) METER_ITERATIONS :: nat where "METER_ITERATIONS \<equiv> 400"
abbreviation (input) CONF_RING_FRAMES :: u32 where "CONF_RING_FRAMES \<equiv> 128"

definition request_shutdown :: "'r jack_state \<Rightarrow> 'r jack_state" where
  "request_shutdown s = s\<lparr>isRunning := False\<rparr>"

definition shutdownReac :: "'r jack_state \<Rightarrow> 'r jack_state" where
  "shutdownReac s = s\<lparr>isRunning := False\<rparr>"

section \<open>Capture\<close>

definition note_packet_counter :: "'r jack_state \<Rightarrow> u16 \<Rightarrow> 'r jack_state" where
  "note_packet_counter s counter =
     (let s1 =
        (if haveLastCounter s then
           (let expected = lastCounter s + 1
            in if counter \<noteq> expected
               then (let gap = counter - expected
                     in if gap < 32768 then s\<lparr>lostPackages := lostPackages s + ucast gap\<rparr>
                        else s\<lparr>lostPackages := lostPackages s + 1\<rparr>)
               else s)
         else s)
      in s1\<lparr>lastCounter := counter, haveLastCounter := True\<rparr>)"

text \<open>\<open>payload\<close> is the memory from the pointer on.\<close>

definition write_payload_to_ring ::
  "'r ringbuffer_ops \<Rightarrow> u8 list \<Rightarrow> u64 \<Rightarrow> 'r jack_state \<Rightarrow> ('r jack_state \<times> int) option" where
  "write_payload_to_ring rb payload bytes s =
     (if bytes = 0 then Some (s, - 1)
      else if rb_write_space rb (ringbuffer s) < bytes
      then Some (s\<lparr>netBufferUnderrun := netBufferUnderrun s + 1\<rparr>, - 1)
      else if length payload < unat bytes then None
      else let (ring, written) = rb_write rb (ringbuffer s) (take (unat bytes) payload)
           in Some (s\<lparr>ringbuffer := ring\<rparr>, if written = bytes then 0 else - 1))"

text \<open>
  Waiting for the slot at \<open>rxring_offset\<close>: each evaluation of the loop condition sees the running
  flag and the slots as they are then, and is followed, when the loop goes on, by a \<open>poll\<close>.
\<close>

datatype rx_poll = PollInterrupted | PollFailed | PollReturned

datatype rx_wait = StillWaiting | WaitFailed | WaitDone bool "rx_slot list"

fun rx_wait_loop :: "nat \<Rightarrow> (bool \<times> rx_slot list \<times> rx_poll) list \<Rightarrow> rx_wait option" where
  "rx_wait_loop offset [] = Some StillWaiting"
| "rx_wait_loop offset ((running, slots, poll) # obs) =
     do { slot \<leftarrow> rd slots offset;
          if running \<and> \<not> slot_user slot
          then (case poll of
                  PollInterrupted \<Rightarrow> rx_wait_loop offset obs
                | PollFailed \<Rightarrow> Some WaitFailed
                | PollReturned \<Rightarrow> rx_wait_loop offset obs)
          else Some (WaitDone running slots) }"

text \<open>Handing a slot back to the kernel: its status word becomes 0 and the next slot is current.\<close>

definition rx_release_slot :: "'r jack_state \<Rightarrow> 'r jack_state option" where
  "rx_release_slot s =
     do { slot \<leftarrow> rd (rx_ring s) (unat (rxring_offset s));
          ring \<leftarrow> wr (rx_ring s) (unat (rxring_offset s)) (slot\<lparr>slot_user := False, slot_copy := False\<rparr>);
          Some (s\<lparr>rx_ring := ring, rxring_offset := (rxring_offset s + 1) AND (CONF_RING_FRAMES - 1)\<rparr>) }"

text \<open>
  The result of the capture functions: a frame and its size, a failure, the end, or none yet.
  \<open>still\<close> is the running flag as it is read after the wait.
\<close>

datatype capture_result = Captured "u8 list" int | CaptureFailed | CaptureStopped | CaptureBlocked

definition rx_take :: "'r jack_state \<Rightarrow> ('r jack_state \<times> capture_result) option" where
  "rx_take s =
     (if \<not> isRunning s then Some (s, CaptureFailed)
      else do {
        slot \<leftarrow> rd (rx_ring s) (unat (rxring_offset s));
        if slot_copy slot
        then do { s' \<leftarrow> rx_release_slot (s\<lparr>malformedPackets := malformedPackets s + 1\<rparr>);
                  Some (s', CaptureFailed) }
        else Some (s, Captured (slot_frame slot) (sint (slot_len slot))) })"

definition process_rx ::
  "(bool \<times> rx_slot list \<times> rx_poll) list \<Rightarrow> bool \<Rightarrow> 'r jack_state \<Rightarrow> ('r jack_state \<times> capture_result) option" where
  "process_rx obs still s =
     do { w \<leftarrow> rx_wait_loop (unat (rxring_offset s)) obs;
          case w of
            StillWaiting \<Rightarrow> Some (s, CaptureBlocked)
          | WaitFailed \<Rightarrow> Some (s\<lparr>captureErrors := captureErrors s + 1\<rparr>, CaptureFailed)
          | WaitDone running slots \<Rightarrow> rx_take (s\<lparr>rx_ring := slots, isRunning := running \<and> still\<rparr>) }"

definition capture_next ::
  "(bool \<times> rx_slot list \<times> rx_poll) list \<Rightarrow> bool \<Rightarrow> 'r jack_state \<Rightarrow> ('r jack_state \<times> capture_result) option" where
  "capture_next obs still s =
     do { (s, res) \<leftarrow> process_rx obs still s;
          case res of
            CaptureFailed \<Rightarrow> Some (s, if isRunning s then CaptureFailed else CaptureStopped)
          | _ \<Rightarrow> Some (s, res) }"

definition process_rx_release :: "'r jack_state \<Rightarrow> 'r jack_state option" where
  "process_rx_release s = rx_release_slot s"

definition capture_release :: "'r jack_state \<Rightarrow> 'r jack_state option" where
  "capture_release s = process_rx_release s"

text \<open>The first good packet fixes the size of the payload and the number of channels.\<close>

definition set_format :: "u32 \<Rightarrow> u32 \<Rightarrow> 'r jack_state \<Rightarrow> 'r jack_state" where
  "set_format payloadSize channelCount s =
     s\<lparr>dataSize := payloadSize, currentNumberOfChannels := channelCount,
       active_marks := replicate NUMBER_OF_CHANNELS CHR ''_''\<rparr>"

text \<open>The body of the loop of \<open>copyData\<close> between capturing and releasing a frame.\<close>

definition copy_frame :: "'r ringbuffer_ops \<Rightarrow> u8 list \<Rightarrow> int \<Rightarrow> 'r jack_state \<Rightarrow> 'r jack_state option" where
  "copy_frame rb data sz s =
     do { (parseStatus, view_ptr) \<leftarrow>
            reac_parse_packet (Some data) (if sz < 0 then 0 else word_of_int sz) (Some empty_view);
          if parseStatus = REAC_STATUS_NOT_REAC then Some (s\<lparr>nonREAC := nonREAC s + 1\<rparr>)
          else if parseStatus \<noteq> REAC_STATUS_OK
          then Some (s\<lparr>malformedPackets := malformedPackets s + 1,
                       jk_error := (if parseStatus = REAC_STATUS_SHORT_PACKET then ERR_SHORT_PACKET else ERR_BAD_PACKET_SIZE)\<rparr>)
          else do {
            packet \<leftarrow> view_ptr;
            payload \<leftarrow> pv_payload packet;
            let payloadSize = ucast (pv_payload_size packet) :: u32;
                channelCount = ucast (pv_channels packet) :: u32
            in if dataSize s \<noteq> 0 \<and> dataSize s \<noteq> payloadSize
               then Some (s\<lparr>malformedPackets := malformedPackets s + 1, jk_error := ERR_BAD_PACKET_SIZE\<rparr>)
               else let s = (if dataSize s = 0 then set_format payloadSize channelCount s else s);
                        s = s\<lparr>receivedPackages := receivedPackages s + 1\<rparr>;
                        s = note_packet_counter s (pv_counter packet)
                    in do {
                      (s, rc) \<leftarrow> write_payload_to_ring rb payload (ucast (dataSize s)) s;
                      Some (if rc \<noteq> 0 then s\<lparr>jk_error := ERR_RING_READ\<rparr> else s) } } }"

text \<open>
  One pass of the loop observes the flag \<open>isRunning\<close> as its condition reads it, then what the capture
  functions see.  The body: when the observations end inside the wait, the thread is still in
  that call.
\<close>

record rx_event =
  rxe_alive :: bool
  rxe_polls :: "(bool \<times> rx_slot list \<times> rx_poll) list"
  rxe_still :: bool

definition copy_iteration :: "'r ringbuffer_ops \<Rightarrow> rx_event \<Rightarrow> 'r jack_state \<Rightarrow> ('r jack_state \<times> pass_end) option" where
  "copy_iteration rb ev s =
     do { (s, res) \<leftarrow> capture_next (rxe_polls ev) (rxe_still ev) s;
          case res of
            CaptureStopped \<Rightarrow> Some (s, LeaveLoop)
          | CaptureBlocked \<Rightarrow> Some (s, InCall)
          | CaptureFailed \<Rightarrow> Some (s\<lparr>jk_error := ERR_CAPTURE\<rparr>, NextPass)
          | Captured data sz \<Rightarrow> do {
              s \<leftarrow> copy_frame rb data sz s;
              s \<leftarrow> capture_release s;
              Some (s, NextPass) } }"

definition copy_pass :: "'r ringbuffer_ops \<Rightarrow> rx_event \<Rightarrow> 'r jack_state \<Rightarrow> ('r jack_state \<times> pass_end) option" where
  "copy_pass rb ev s =
     (let s = s\<lparr>isRunning := rxe_alive ev\<rparr>
      in if isRunning s then copy_iteration rb ev s else Some (s, LeaveLoop))"

fun copyData :: "'r ringbuffer_ops \<Rightarrow> rx_event list \<Rightarrow> 'r jack_state \<Rightarrow> ('r jack_state, unit) loop_end option" where
  "copyData rb [] s = Some (Running s)"
| "copyData rb (ev # evs) s =
     do { (s', how) \<leftarrow> copy_pass rb ev s;
          case how of
            NextPass \<Rightarrow> copyData rb evs s'
          | LeaveLoop \<Rightarrow> Some (Returned s' ())
          | InCall \<Rightarrow> Some (Running s') }"

section \<open>The process callback\<close>

text \<open>
  An output port: null when it is not registered, otherwise the buffer that
  \<open>jack_port_get_buffer\<close> returns, which may be null.
\<close>

type_synonym port = "rat list option option"

definition silence_port :: "u32 \<Rightarrow> nat \<Rightarrow> port list \<Rightarrow> port list option" where
  "silence_port nframes i ports =
     do { p \<leftarrow> rd ports i;
          case p of
            Some (Some out) \<Rightarrow> do { out' \<leftarrow> memset out 0 0 (unat nframes); wr ports i (Some (Some out')) }
          | _ \<Rightarrow> Some ports }"

definition silence_outputs :: "u32 \<Rightarrow> u32 \<Rightarrow> port list \<Rightarrow> port list option" where
  "silence_outputs nframes channels ports =
     (let limit = (if channels = 0 \<or> channels > of_nat NUMBER_OF_CHANNELS then NUMBER_OF_CHANNELS else unat channels)
      in for_each (silence_port nframes) [0..<limit] ports)"

text \<open>
  The buffers of the ports in use, or the value \<open>Some None\<close> when one of them is null; asking an
  unregistered port for its buffer is undefined.
\<close>

fun port_buffers :: "nat list \<Rightarrow> port list \<Rightarrow> rat list list option option" where
  "port_buffers [] ports = Some (Some [])"
| "port_buffers (i # is) ports =
     do { p \<leftarrow> rd ports i;
          b \<leftarrow> p;
          case b of
            None \<Rightarrow> Some None
          | Some buf \<Rightarrow> map_option (map_option ((#) buf)) (port_buffers is ports) }"

text \<open>The loop over frames and channels that measures a period.\<close>

definition measure_sample :: "rat list list \<Rightarrow> nat \<Rightarrow> nat \<Rightarrow> rat list \<times> rat list \<Rightarrow> (rat list \<times> rat list) option" where
  "measure_sample bufs frame ch = (\<lambda>(sqVal, peak).
     do { buf \<leftarrow> rd bufs ch;
          sample \<leftarrow> rd buf frame;
          sq \<leftarrow> rd sqVal ch;
          pk \<leftarrow> rd peak ch;
          sqVal \<leftarrow> wr sqVal ch (f64 (sq + f64 (sample * sample)));
          peak \<leftarrow> (if pk < \<bar>sample\<bar> then wr peak ch \<bar>sample\<bar> else Some peak);
          Some (sqVal, peak) })"

definition measure_period :: "rat list list \<Rightarrow> nat \<Rightarrow> nat \<Rightarrow> (rat list \<times> rat list) option" where
  "measure_period bufs C n =
     for_each (\<lambda>frame. for_each (measure_sample bufs frame) [0..<C]) [0..<n]
       (replicate NUMBER_OF_CHANNELS 0, replicate NUMBER_OF_CHANNELS 0)"

definition store_meter :: "rat list \<Rightarrow> rat list \<Rightarrow> nat \<Rightarrow> nat \<Rightarrow> rat list \<times> rat list \<Rightarrow> (rat list \<times> rat list) option" where
  "store_meter sqVal peak iteration ch = (\<lambda>(mrms, mpeak).
     do { sq \<leftarrow> rd sqVal ch;
          pk \<leftarrow> rd peak ch;
          mrms \<leftarrow> wr mrms (ch * METER_ITERATIONS + iteration) sq;
          mpeak \<leftarrow> wr mpeak (ch * METER_ITERATIONS + iteration) pk;
          Some (mrms, mpeak) })"

text \<open>The sum of squares and the largest peak over the periods that the meters remember.\<close>

definition meter_window :: "rat list \<Rightarrow> rat list \<Rightarrow> nat \<Rightarrow> nat \<Rightarrow> rat \<times> rat \<Rightarrow> (rat \<times> rat) option" where
  "meter_window mrms mpeak ch v = (\<lambda>(rms, peakVal).
     do { r \<leftarrow> rd mrms (ch * METER_ITERATIONS + v);
          p \<leftarrow> rd mpeak (ch * METER_ITERATIONS + v);
          Some (f64 (rms + r), if p > peakVal then p else peakVal) })"

text \<open>
  \<open>c_sqrt\<close> is the square root of the C library; the mean over no samples is no number, and no
  result of the model.
\<close>

definition channel_meter ::
  "(rat \<Rightarrow> rat) \<Rightarrow> u32 \<Rightarrow> rat list \<Rightarrow> rat list \<Rightarrow> nat \<Rightarrow> rat list \<times> rat list \<Rightarrow> (rat list \<times> rat list) option" where
  "channel_meter c_sqrt nframes mrms mpeak ch = (\<lambda>(crms, cpeak).
     do { (rms, peakVal) \<leftarrow> for_each (meter_window mrms mpeak ch) [0..<METER_ITERATIONS] (0, 0);
          if of_nat METER_ITERATIONS * nframes = 0 then None
          else do {
            crms \<leftarrow> wr crms ch (f32 (c_sqrt (f64 (rms / of_nat (unat (of_nat METER_ITERATIONS * nframes))))));
            cpeak \<leftarrow> wr cpeak ch (f32 peakVal);
            Some (crms, cpeak) } })"

definition update_meters ::
  "(rat \<Rightarrow> rat) \<Rightarrow> u32 \<Rightarrow> rat list list \<Rightarrow> 'r jack_state \<Rightarrow> 'r jack_state option" where
  "update_meters c_sqrt nframes bufs s =
     (let C = unat (currentNumberOfChannels s)
      in do {
        (sqVal, peak) \<leftarrow> measure_period bufs C (unat nframes);
        (mrms, mpeak) \<leftarrow> for_each (store_meter sqVal peak (unat (meterIteration s))) [0..<C] (meterRMS s, meterPeak s);
        (crms, cpeak) \<leftarrow> for_each (channel_meter c_sqrt nframes mrms mpeak) [0..<C] (channelRMS s, channelPeak s);
        Some (s\<lparr>meterRMS := mrms, meterPeak := mpeak, meterIteration := (meterIteration s + 1) mod of_nat METER_ITERATIONS,
                channelRMS := crms, channelPeak := cpeak\<rparr>) })"

definition process_silence :: "u32 \<Rightarrow> u32 \<Rightarrow> port list \<Rightarrow> 'r jack_state \<Rightarrow> ('r jack_state \<times> port list) option" where
  "process_silence nframes channels ports s = do { ports \<leftarrow> silence_outputs nframes channels ports; Some (s, ports) }"

text \<open>The bookkeeping of time against the JACK server.\<close>

definition note_time :: "u32 \<Rightarrow> 'r jack_state \<Rightarrow> 'r jack_state" where
  "note_time frame_time s =
     (if processStartTime s = 0 then s\<lparr>processStartTime := ucast frame_time\<rparr>
      else s\<lparr>lastJackTime := f32 (f32 (1000 * f32 (of_nat (unat (ucast frame_time - processStartTime s)))) /
                                  f32 (of_nat (unat (sampleRate s)))),
             lastTS := f32 (f32 (of_int (sint (receivedPackages s))) * packetTime s)\<rparr>)"

text \<open>The part of \<open>process\<close> after a period has been read from the ring.\<close>

definition process_decode ::
  "(rat \<Rightarrow> rat) \<Rightarrow> u32 \<Rightarrow> u64 \<Rightarrow> port list \<Rightarrow> 'r jack_state \<Rightarrow> ('r jack_state \<times> port list) option" where
  "process_decode c_sqrt nframes bytes ports s =
     (let C = currentNumberOfChannels s
      in do {
        found \<leftarrow> port_buffers [0..<unat C] ports;
        case found of
          None \<Rightarrow> process_silence nframes C ports (s\<lparr>jk_error := ERR_JACK_PORT\<rparr>)
        | Some bufs \<Rightarrow> do {
          (decodeStatus, outputs) \<leftarrow> reac_decode_samples_to_channels (Some (processBuffer s)) bytes (ucast C)
              (ucast nframes) (Some (map Some bufs));
          outs \<leftarrow> outputs;
          let ports = map Some outs @ drop (unat C) ports
          in if decodeStatus \<noteq> REAC_STATUS_OK
             then process_silence nframes C ports (s\<lparr>jk_error := ERR_BAD_PACKET_SIZE\<rparr>)
             else do {
               s \<leftarrow> (if doMeasure s then update_meters c_sqrt nframes (map the outs) s else Some s);
               Some (s\<lparr>jk_error := ERR_OK\<rparr>, ports) } } })"

definition process ::
  "'r ringbuffer_ops \<Rightarrow> (rat \<Rightarrow> rat) \<Rightarrow> u32 \<Rightarrow> u32 \<Rightarrow> port list \<Rightarrow> 'r jack_state \<Rightarrow> ('r jack_state \<times> port list) option" where
  "process rb c_sqrt frame_time nframes ports s =
     (let s = s\<lparr>currentSamplesPerPeriod := nframes, dataAmount := rb_read_space rb (ringbuffer s),
                spaceAmount := rb_write_space rb (ringbuffer s)\<rparr>;
          C = currentNumberOfChannels s
      in if C = 0 \<or> dataSize s = 0 then process_silence nframes (of_nat NUMBER_OF_CHANNELS) ports s
         else
           let bufferSize = ucast nframes * ucast C * 3 :: u64
           in if bufferSize > processBufferBytes s
              then process_silence nframes C ports
                     (s\<lparr>jk_error := ERR_JACK_BUFFER_TOO_LARGE, jackBufferUnderrun := jackBufferUnderrun s + 1\<rparr>)
              else
                let s = note_time frame_time s
                in if dataAmount s < bufferSize
                   then process_silence nframes C ports
                          (s\<lparr>jackBufferUnderrun := jackBufferUnderrun s + 1, processStartTime := ucast frame_time,
                             receivedPackages := dataAmount s div ucast (3 * C)\<rparr>)
                   else
                     let (ring, bytes) = rb_read rb (ringbuffer s) bufferSize
                     in do {
                       buffer \<leftarrow> memcpy (processBuffer s) 0 bytes 0 (length bytes);
                       let s = s\<lparr>ringbuffer := ring, processBuffer := buffer\<rparr>;
                           read_bytes = of_nat (length bytes) :: u64
                       in if read_bytes \<noteq> bufferSize
                          then process_silence nframes C ports (s\<lparr>jk_error := ERR_RING_READ\<rparr>)
                          else process_decode c_sqrt nframes read_bytes ports s })"

section \<open>Levels\<close>

text \<open>\<open>log10f\<close> is the logarithm of the C library; a value that is not finite does not occur here.\<close>

definition sample_to_db :: "(rat \<Rightarrow> rat) \<Rightarrow> rat \<Rightarrow> rat" where
  "sample_to_db log10f value = (if value \<le> f32 (1 / 10000000) then - 120 else f32 (20 * log10f value))"

definition level_colour :: "rat \<Rightarrow> int" where
  "level_colour db = (if db > - 6 then 31 else if db > - 12 then 33 else if db > - 60 then 32 else 34)"

text \<open>A line of the display of a channel: its number, and the levels with their colours when active.\<close>

datatype meter_line = IdleLine nat | ActiveLine nat "int \<times> rat" "int \<times> rat" rat

definition display_channel ::
  "(rat \<Rightarrow> rat) \<Rightarrow> 'r jack_state \<Rightarrow> nat \<Rightarrow> string \<Rightarrow> (string \<times> meter_line) option" where
  "display_channel log10f s ch marks =
     do { rms \<leftarrow> rd (channelRMS s) ch;
          peak \<leftarrow> rd (channelPeak s) ch;
          let rmsDb = sample_to_db log10f rms;
              peakDb = sample_to_db log10f peak;
              mark = (if rmsDb < - 80 then CHR ''_'' else CHR ''*'')
          in do {
            marks' \<leftarrow> wr marks ch mark;
            Some (marks',
              if mark = CHR ''*''
              then ActiveLine (ch + 1) (level_colour rmsDb, rmsDb) (level_colour peakDb, peakDb) (f32 (peakDb - rmsDb))
              else IdleLine (ch + 1)) } }"

section \<open>Setup and shutdown\<close>

definition chooseInterfaces :: "ifaddr list option \<Rightarrow> int option \<Rightarrow> nat \<Rightarrow> string option" where
  "chooseInterfaces ifs input name_size =
     (case ifs of
        None \<Rightarrow> None
      | Some ifs \<Rightarrow>
          let shown = int (length (shown_interfaces ifs))
          in if shown = 0 then None
             else (case input of
                     None \<Rightarrow> None
                   | Some selectedIndex \<Rightarrow>
                       if selectedIndex < 1 \<or> selectedIndex > shown then None
                       else map_option (take (name_size - 1)) (find_interface selectedIndex 0 ifs)))"

datatype jack_resource = PacketSocket | PacketRing | JackClient | ProcessBuffer | RingBuffer | CaptureThread

text \<open>Which of the calls of the program succeed.\<close>

record jack_env =
  j_interfaces :: "ifaddr list option"
  j_input :: "int option"
  j_socket :: bool
  j_rx_ring :: bool
  j_mmap :: bool
  j_ifindex :: bool
  j_bind :: bool
  j_client :: bool
  j_ports :: "bool list"
  j_malloc :: bool
  j_ringbuffer :: bool
  j_activate :: bool
  j_thread :: bool

text \<open>\<open>init_packetsock_ring\<close>: whether the ring is mapped.\<close>

definition init_packetsock_ring :: "jack_env \<Rightarrow> bool" where
  "init_packetsock_ring env \<longleftrightarrow> j_rx_ring env \<and> j_mmap env"

text \<open>\<open>init_packetsock\<close>: whether a descriptor is returned, and the resources held afterwards.\<close>

definition init_packetsock :: "jack_env \<Rightarrow> bool \<times> jack_resource list" where
  "init_packetsock env =
     (if \<not> j_socket env then (False, [])
      else if \<not> init_packetsock_ring env then (False, remove1 PacketSocket [PacketSocket])
      else (True, [PacketRing, PacketSocket]))"

definition jack_capture_open :: "jack_env \<Rightarrow> bool \<times> jack_resource list" where
  "jack_capture_open env =
     (let (fd, held) = init_packetsock env
      in if \<not> fd then (False, held)
         else if \<not> j_ifindex env then (False, held)
         else if \<not> j_bind env then (False, held)
         else (True, held))"

text \<open>\<open>exit_packetsock\<close> unmaps the ring if there is one and closes the descriptor if there is one.\<close>

definition jack_capture_close :: "jack_resource list \<Rightarrow> jack_resource list" where
  "jack_capture_close held = remove1 PacketSocket (remove1 PacketRing held)"

text \<open>
  The end of \<open>main\<close> after the display loop: joining a thread that was never created is undefined,
  then everything is released.
\<close>

definition jack_shutdown :: "bool \<Rightarrow> jack_resource list \<Rightarrow> (int \<times> jack_resource list) option" where
  "jack_shutdown thread held =
     (if \<not> thread then None
      else let held = remove1 CaptureThread held;
               held = remove1 JackClient (remove1 RingBuffer held)
           in Some (0, remove1 ProcessBuffer (jack_capture_close held)))"

text \<open>
  \<open>main\<close>: the exit status and the resources held at the end, or \<^term>\<open>None\<close> where the behaviour is
  undefined.  The loops run until a signal or the JACK server stops them.
\<close>

definition jack_main :: "jack_env \<Rightarrow> (int \<times> jack_resource list) option" where
  "jack_main env =
     (case chooseInterfaces (j_interfaces env) (j_input env) 16 of
        None \<Rightarrow> Some (1, [])
      | Some interface \<Rightarrow>
          let (opened, held) = jack_capture_open env
          in if \<not> opened then Some (1, jack_capture_close held)
             else if \<not> j_client env then Some (1, jack_capture_close held)
             else let held = JackClient # held
                  in if \<not> list_all id (j_ports env) then Some (1, jack_capture_close (remove1 JackClient held))
                     else if \<not> j_malloc env then Some (1, jack_capture_close (remove1 JackClient held))
                     else let held = ProcessBuffer # held
                          in if \<not> j_ringbuffer env
                             then Some (1, jack_capture_close (remove1 JackClient (remove1 ProcessBuffer held)))
                             else let held = RingBuffer # held
                                  in if \<not> j_activate env
                                     then Some (1, jack_capture_close (remove1 JackClient (remove1 ProcessBuffer (remove1 RingBuffer held))))
                                     else jack_shutdown (j_thread env) (if j_thread env then CaptureThread # held else held))"

text \<open>What \<open>main\<close> clears two seconds after the start, and the values it takes from the JACK server.\<close>

definition reset_counters :: "'r ringbuffer_ops \<Rightarrow> 'r jack_state \<Rightarrow> 'r jack_state" where
  "reset_counters rb s =
     s\<lparr>ringbuffer := rb_reset rb (ringbuffer s), lostPackages := 0, netBufferUnderrun := 0, jackBufferUnderrun := 0,
       malformedPackets := 0, captureErrors := 0, receivedPackages := 0, jk_error := ERR_OK, processStartTime := 0,
       haveLastCounter := False\<rparr>"

definition setup_buffers :: "u32 \<Rightarrow> u32 \<Rightarrow> 'r jack_state \<Rightarrow> 'r jack_state" where
  "setup_buffers rate jackBufferFrames s =
     (let bytes = ucast jackBufferFrames * of_nat NUMBER_OF_CHANNELS * 3 :: u64
      in s\<lparr>sampleRate := rate, packetTime := f32 (f32 (1000 * 12) / f32 (of_nat (unat rate))),
           processBufferBytes := bytes, processBuffer := replicate (unat bytes) 0\<rparr>)"

end
