(* ===== verification/JackCapture.thy ===== *)
theory JackCapture
  imports JackBridge
begin

text \<open>
  The capture side of the JACK bridge: what a captured frame does to the byte ring and to the
  counters, that every captured slot goes back to the kernel exactly once and in order, and that
  lost packets are counted exactly.
\<close>

section \<open>The ring buffer of JACK\<close>

text \<open>
  The documented behaviour of the library's ring buffer, for a buffer that holds up to \<open>cap\<close>
  bytes: the spaces add up to the capacity, a write that fits appends, a read that is covered
  takes from the front, and a reset empties.
\<close>

definition ringbuffer_laws :: "'r ringbuffer_ops \<Rightarrow> ('r \<Rightarrow> u8 list) \<Rightarrow> nat \<Rightarrow> bool" where
  "ringbuffer_laws rb content cap \<longleftrightarrow> cap < 2 ^ 32 \<and>
     (\<forall>r. length (content r) \<le> cap \<and> unat (rb_read_space rb r) = length (content r) \<and>
        unat (rb_write_space rb r) = cap - length (content r) \<and> content (rb_reset rb r) = [] \<and>
        (\<forall>bs. length bs \<le> cap - length (content r) \<longrightarrow>
           snd (rb_write rb r bs) = of_nat (length bs) \<and> content (fst (rb_write rb r bs)) = content r @ bs) \<and>
        (\<forall>n. unat n \<le> length (content r) \<longrightarrow>
           snd (rb_read rb r n) = take (unat n) (content r) \<and> content (fst (rb_read rb r n)) = drop (unat n) (content r)))"

text \<open>A bounded list behaves like that.\<close>

definition list_ringbuffer :: "nat \<Rightarrow> u8 list ringbuffer_ops" where
  "list_ringbuffer cap =
     \<lparr>rb_write_space = \<lambda>r. of_nat (cap - length (take cap r)),
      rb_read_space = \<lambda>r. of_nat (length (take cap r)),
      rb_write = \<lambda>r bs. (take cap r @ bs, of_nat (length bs)),
      rb_read = \<lambda>r n. (drop (unat n) (take cap r), take (unat n) (take cap r)),
      rb_reset = \<lambda>r. []\<rparr>"

lemma list_ringbuffer_laws:
  assumes "cap < 2 ^ 32" shows "ringbuffer_laws (list_ringbuffer cap) (take cap) cap"
proof -
  have u: "unat (of_nat n :: u64) = n" if "n \<le> cap" for n
    using that assms by (intro unat_of_nat_small) simp
  show ?thesis using assms by (auto simp: ringbuffer_laws_def list_ringbuffer_def u min_def simp del: of_nat_diff)
qed

section \<open>The state of the bridge\<close>

definition format_ok :: "'r jack_state \<Rightarrow> bool" where
  "format_ok s \<longleftrightarrow> (if dataSize s = 0 then currentNumberOfChannels s = 0
     else even (unat (currentNumberOfChannels s)) \<and> 2 \<le> unat (currentNumberOfChannels s) \<and>
       unat (currentNumberOfChannels s) \<le> 40 \<and> unat (dataSize s) = 36 * unat (currentNumberOfChannels s))"

definition rx_ok :: "'r jack_state \<Rightarrow> bool" where
  "rx_ok s \<longleftrightarrow> length (rx_ring s) = 128 \<and> unat (rxring_offset s) < 128"

definition frames_counted :: "'r jack_state \<Rightarrow> u64" where
  "frames_counted s = receivedPackages s + nonREAC s + malformedPackets s"

definition jack_seen :: "'r jack_state \<Rightarrow> u16 option" where
  "jack_seen s = (if haveLastCounter s then Some (lastCounter s) else None)"

interpretation jack_loss: loss_counter note_packet_counter lostPackages jack_seen
  by unfold_locales (auto simp: note_packet_counter_def jack_seen_def lost_between_def Let_def)

lemma note_packet_counter_sel [simp]:
  "isRunning (note_packet_counter s c) = isRunning s" "ringbuffer (note_packet_counter s c) = ringbuffer s"
  "dataSize (note_packet_counter s c) = dataSize s" "rx_ring (note_packet_counter s c) = rx_ring s"
  "rxring_offset (note_packet_counter s c) = rxring_offset s"
  "currentNumberOfChannels (note_packet_counter s c) = currentNumberOfChannels s"
  "receivedPackages (note_packet_counter s c) = receivedPackages s" "nonREAC (note_packet_counter s c) = nonREAC s"
  "malformedPackets (note_packet_counter s c) = malformedPackets s"
  "netBufferUnderrun (note_packet_counter s c) = netBufferUnderrun s"
  "jk_error (note_packet_counter s c) = jk_error s" "captureErrors (note_packet_counter s c) = captureErrors s"
  by (simp_all add: note_packet_counter_def Let_def)

section \<open>A captured frame\<close>

text \<open>The write of a payload: all of it or nothing.\<close>

lemma write_payload_spec:
  fixes s :: "'r jack_state"
  assumes laws: "ringbuffer_laws rb content cap" and n: "bytes \<noteq> 0" "unat bytes \<le> length payload"
  defines "fits \<equiv> length (content (ringbuffer s)) + unat bytes \<le> cap"
  shows "\<exists>r. write_payload_to_ring rb payload bytes s =
      Some (if fits then s\<lparr>ringbuffer := r\<rparr> else s\<lparr>netBufferUnderrun := netBufferUnderrun s + 1\<rparr>, if fits then 0 else - 1) \<and>
    (fits \<longrightarrow> content r = content (ringbuffer s) @ take (unat bytes) payload)"
proof -
  let ?r = "ringbuffer s" and ?bs = "take (unat bytes) payload"
  have sp: "length (content ?r) \<le> cap" "unat (rb_write_space rb ?r) = cap - length (content ?r)"
    using laws by (simp_all add: ringbuffer_laws_def)
  have fits: "rb_write_space rb ?r < bytes \<longleftrightarrow> \<not> fits"
    using sp unfolding fits_def word_less_nat_alt sp(2) by linarith
  show ?thesis
  proof (cases fits)
    case True
    then have "length ?bs \<le> cap - length (content ?r)" using n(2) sp(1) by (simp add: fits_def)
    then have w: "snd (rb_write rb ?r ?bs) = of_nat (length ?bs)" "content (fst (rb_write rb ?r ?bs)) = content ?r @ ?bs"
      using laws by (simp_all add: ringbuffer_laws_def)
    obtain r written where rw: "rb_write rb ?r ?bs = (r, written)" by fastforce
    have "written = bytes" "content r = content ?r @ ?bs" using w n(2) rw by simp_all
    moreover have "write_payload_to_ring rb payload bytes s = Some (s\<lparr>ringbuffer := r\<rparr>, if written = bytes then 0 else - 1)"
      unfolding write_payload_to_ring_def using fits True n rw by (simp del: take_all_iff)
    ultimately show ?thesis using True by (intro exI [of _ r]) simp
  next
    case False
    with fits n show ?thesis by (simp add: write_payload_to_ring_def)
  qed
qed

text \<open>The effect of an accepted packet of the stream's format.\<close>

definition packet_effect :: "('r \<Rightarrow> u8 list) \<Rightarrow> nat \<Rightarrow> ReacPacketView \<Rightarrow> u8 list \<Rightarrow> 'r jack_state \<Rightarrow> 'r jack_state \<Rightarrow> bool" where
  "packet_effect content cap view data s s' \<longleftrightarrow>
     (let n = 36 * unat (pv_channels view); fits = length (content (ringbuffer s)) + n \<le> cap in
      unat (currentNumberOfChannels s') = unat (pv_channels view) \<and> unat (dataSize s') = n \<and>
      content (ringbuffer s') = content (ringbuffer s) @ (if fits then take n (drop 50 data) else []) \<and>
      receivedPackages s' = receivedPackages s + 1 \<and> nonREAC s' = nonREAC s \<and> malformedPackets s' = malformedPackets s \<and>
      netBufferUnderrun s' = netBufferUnderrun s + (if fits then 0 else 1) \<and>
      lostPackages s' = lostPackages (note_packet_counter s (pv_counter view)) \<and>
      jack_seen s' = Some (pv_counter view) \<and> jk_error s' = (if fits then jk_error s else ERR_RING_READ))"

text \<open>What only the process callback changes.\<close>

definition same_process :: "'r jack_state \<Rightarrow> 'r jack_state \<Rightarrow> bool" where
  "same_process s s' \<longleftrightarrow> processBuffer s' = processBuffer s \<and> processBufferBytes s' = processBufferBytes s \<and>
     meterRMS s' = meterRMS s \<and> meterPeak s' = meterPeak s \<and> channelRMS s' = channelRMS s \<and>
     channelPeak s' = channelPeak s \<and> meterIteration s' = meterIteration s"

lemma same_process_note [simp]: "same_process s (note_packet_counter s' c) = same_process s s'"
  by (simp add: same_process_def note_packet_counter_def Let_def)

lemma copy_frame_good:
  assumes laws: "ringbuffer_laws rb content cap" and s: "format_ok s" and sz: "0 \<le> sz" "nat sz \<le> length data" "sz < 2 ^ 31"
    and parse: "reac_parse_packet (Some data) (word_of_int sz) (Some empty_view) = Some (REAC_STATUS_OK, Some view)"
    and fmt: "dataSize s = 0 \<or> unat (dataSize s) = 36 * unat (pv_channels view)"
  shows "\<exists>s'. copy_frame rb data sz s = Some s' \<and> packet_effect content cap view data s s' \<and> format_ok s' \<and>
    same_process s s' \<and> isRunning s' = isRunning s \<and> rx_ring s' = rx_ring s \<and> rxring_offset s' = rxring_offset s \<and>
    captureErrors s' = captureErrors s"
proof -
  have "unat (word_of_int sz :: u64) = nat sz" using sz unat_of_nat_small[of "nat sz", where 'a = 64] by simp
  with accepted_packet_shape[OF _ parse] sz(2) have
    sh: "even (unat (pv_channels view))" "2 \<le> unat (pv_channels view)" "unat (pv_channels view) \<le> 40"
      "unat (pv_payload_size view) = 36 * unat (pv_channels view)" "pv_payload view = Some (drop 50 data)"
      "unat (pv_payload_size view) + 2 \<le> length (drop 50 data)" by auto
  let ?n = "36 * unat (pv_channels view)" and ?ps = "ucast (pv_payload_size view) :: u32" and ?cc = "ucast (pv_channels view) :: u32"
  have ps: "unat ?ps = ?n" using sh(3,4) by (subst unat_u32_of_u64) simp_all
  have ps0: "?ps \<noteq> 0" using ps sh(2) by (auto simp: word_unat_eq_iff)
  have keep: "\<not> (dataSize s \<noteq> 0 \<and> dataSize s \<noteq> ?ps)" using fmt ps by (auto simp: word_unat_eq_iff)
  define s0 where "s0 = (if dataSize s = 0 then set_format ?ps ?cc s else s)"
  define s1 where "s1 = note_packet_counter (s0\<lparr>receivedPackages := receivedPackages s0 + 1\<rparr>) (pv_counter view)"
  have d1: "dataSize s1 = ?ps" using keep by (auto simp: s1_def s0_def set_format_def)
  have c1: "unat (currentNumberOfChannels s1) = unat (pv_channels view)"
    using s sh(2,3) fmt by (auto simp: s1_def s0_def set_format_def format_ok_def split: if_splits)
  have b: "(ucast (dataSize s1) :: u64) \<noteq> 0" "unat (ucast (dataSize s1) :: u64) = ?n"
    using ps ps0 by (simp_all add: d1 word_unat_eq_iff)
  have r1: "ringbuffer s1 = ringbuffer s" by (simp add: s1_def s0_def set_format_def)
  have len: "unat (ucast (dataSize s1) :: u64) \<le> length (drop 50 data)" using sh(4,6) b(2) by linarith
  define fits where "fits = (length (content (ringbuffer s)) + ?n \<le> cap)"
  from write_payload_spec[OF laws b(1) len, of s1] obtain r where
    w: "write_payload_to_ring rb (drop 50 data) (ucast (dataSize s1)) s1 =
      Some (if fits then s1\<lparr>ringbuffer := r\<rparr> else s1\<lparr>netBufferUnderrun := netBufferUnderrun s1 + 1\<rparr>, if fits then 0 else - 1)"
    "fits \<longrightarrow> content r = content (ringbuffer s) @ take ?n (drop 50 data)"
    unfolding b(2) r1 fits_def by blast
  define s2 where "s2 = (if fits then s1\<lparr>ringbuffer := r\<rparr>
    else s1\<lparr>netBufferUnderrun := netBufferUnderrun s1 + 1, jk_error := ERR_RING_READ\<rparr>)"
  have "copy_frame rb data sz s = write_payload_to_ring rb (drop 50 data) (ucast (dataSize s1)) s1 \<bind>
      (\<lambda>(s, rc). Some (if rc \<noteq> 0 then s\<lparr>jk_error := ERR_RING_READ\<rparr> else s))"
    using parse sz(1) sh(5) keep unfolding s1_def s0_def copy_frame_def Let_def by simp blast
  then have "copy_frame rb data sz s = Some s2" using w(1) by (simp add: s2_def)
  moreover have sel: "lostPackages s1 = lostPackages (note_packet_counter s (pv_counter view))" "haveLastCounter s1"
    "lastCounter s1 = pv_counter view" "receivedPackages s1 = receivedPackages s + 1" "nonREAC s1 = nonREAC s"
    "malformedPackets s1 = malformedPackets s" "netBufferUnderrun s1 = netBufferUnderrun s" "jk_error s1 = jk_error s"
    "isRunning s1 = isRunning s" "rx_ring s1 = rx_ring s" "rxring_offset s1 = rxring_offset s" "captureErrors s1 = captureErrors s"
    by (simp_all add: s1_def s0_def set_format_def note_packet_counter_def Let_def)
  then have "packet_effect content cap view data s s2"
    using w(2) c1 d1 ps r1 unfolding packet_effect_def Let_def fits_def [symmetric]
    by (cases fits) (simp_all add: s2_def jack_seen_def)
  moreover have "format_ok s2" using d1 c1 ps ps0 sh(1-3) by (simp add: format_ok_def s2_def)
  moreover have "isRunning s2 = isRunning s \<and> rx_ring s2 = rx_ring s \<and> rxring_offset s2 = rxring_offset s \<and> captureErrors s2 = captureErrors s"
    by (simp add: s2_def sel)
  moreover have "same_process s s1" by (simp add: s1_def) (simp add: s0_def set_format_def same_process_def)
  then have "same_process s s2" by (simp add: s2_def same_process_def)
  ultimately show ?thesis by blast
qed

text \<open>
  Every captured frame is counted exactly once, whatever it holds, provided the bytes up to its
  length are there or it is of another Ethernet type, which is all that is read then.
\<close>

definition foreign_frame :: "u8 list \<Rightarrow> bool" where
  "foreign_frame data \<longleftrightarrow> 14 \<le> length data \<and> \<not> (data ! 12 = 0x88 \<and> data ! 13 = 0x19)"

lemma read_ethertype:
  assumes "14 \<le> length data"
  shows "\<exists>e. read_be16 data 12 = Some e \<and> (e = 0x8819 \<longleftrightarrow> data ! 12 = 0x88 \<and> data ! 13 = 0x19)"
  using assms be16_eq_ethertype[of "data ! 12" "data ! 13"] by (simp add: read_be16_def mem_simps)

lemma copy_frame_foreign:
  assumes "foreign_frame data"
  shows "\<exists>s'. copy_frame rb data sz s = Some s' \<and> (s' = s\<lparr>nonREAC := nonREAC s + 1\<rparr> \<or>
    s' = s\<lparr>malformedPackets := malformedPackets s + 1, jk_error := ERR_SHORT_PACKET\<rparr>)"
proof -
  from assms read_ethertype[of data] obtain e where "read_be16 data 12 = Some e" "e \<noteq> 0x8819"
    by (auto simp: foreign_frame_def)
  then show ?thesis by (simp add: copy_frame_def reac_parse_packet_def Let_def)
qed

text \<open>A frame of the protocol's type that is longer than the memory it lies in: the end marker is
  looked for outside.\<close>

lemma copy_frame_outside:
  assumes "14 \<le> length data" "\<not> foreign_frame data" "52 \<le> sz" "int (length data) < sz" "sz < 2 ^ 31"
  shows "copy_frame rb data sz s = None"
proof -
  from assms read_ethertype[of data] have e: "read_be16 data 12 = Some 0x8819" by (auto simp: foreign_frame_def)
  have u: "unat (word_of_int sz :: u64) = nat sz" using assms(3,5) unat_of_nat_small[of "nat sz", where 'a = 64] by simp
  then have "52 \<le> unat (word_of_int sz :: u64)" using assms(3) by simp
  then have long: "\<not> (word_of_int sz :: u64) < 52" and "unat ((word_of_int sz :: u64) - 1) = nat sz - 1"
    using u by (simp_all add: word_less_nat_alt unat_sub word_le_nat_alt)
  then have "rd data (unat ((word_of_int sz :: u64) - 1)) = None" using assms(3,4) by (simp add: rd_def)
  with long e assms(3) show ?thesis
    by (auto simp: copy_frame_def reac_parse_packet_def reac_packet_overhead_def Let_def split: bind_splits)
qed

lemma copy_frame_negative: "sz < 0 \<Longrightarrow> copy_frame rb data sz s = copy_frame rb data 0 s"
  by (simp add: copy_frame_def)

lemma copy_frame_fits:
  assumes laws: "ringbuffer_laws rb content cap" and s: "format_ok s"
    and sz: "0 \<le> sz" "nat sz \<le> length data" "sz < 2 ^ 31"
  shows "\<exists>s'. copy_frame rb data sz s = Some s' \<and> format_ok s' \<and> frames_counted s' = frames_counted s + 1 \<and>
    isRunning s' = isRunning s \<and> rx_ring s' = rx_ring s \<and> rxring_offset s' = rxring_offset s \<and> captureErrors s' = captureErrors s"
proof -
  have u: "unat (word_of_int sz :: u64) = nat sz" using sz unat_of_nat_small[of "nat sz", where 'a = 64] by simp
  then have le: "unat (word_of_int sz :: u64) \<le> length data" using sz(2) by simp
  obtain st view where parse: "reac_parse_packet (Some data) (word_of_int sz) (Some empty_view) = Some (st, Some view)"
    using parse_reference[OF le, of empty_view] by auto
  show ?thesis
  proof (cases "st = REAC_STATUS_OK \<and> (dataSize s = 0 \<or> unat (dataSize s) = 36 * unat (pv_channels view))")
    case True
    then have "reac_parse_packet (Some data) (word_of_int sz) (Some empty_view) = Some (REAC_STATUS_OK, Some view)"
      "dataSize s = 0 \<or> unat (dataSize s) = 36 * unat (pv_channels view)" using parse by auto
    from copy_frame_good[OF laws s sz this] show ?thesis
      by (auto simp: frames_counted_def packet_effect_def Let_def)
  next
    case False
    consider (other) "st \<noteq> REAC_STATUS_OK" | (size) "st = REAC_STATUS_OK" "dataSize s \<noteq> 0"
        "unat (dataSize s) \<noteq> 36 * unat (pv_channels view)" using False by blast
    then show ?thesis
    proof cases
      case other
      with parse sz(1) s show ?thesis by (auto simp: copy_frame_def frames_counted_def format_ok_def)
    next
      case size
      note sh = accepted_packet_shape[OF le parse [unfolded size(1)]]
      have "unat (ucast (pv_payload_size view) :: u32) = 36 * unat (pv_channels view)"
        using sh by (subst unat_u32_of_u64) simp_all
      then have "dataSize s \<noteq> ucast (pv_payload_size view)" using size(3) by auto
      with size parse sz(1) s sh show ?thesis by (auto simp: copy_frame_def frames_counted_def format_ok_def Let_def)
    qed
  qed
qed

lemma copy_frame_total:
  assumes laws: "ringbuffer_laws rb content cap" and s: "format_ok s"
    and sz: "sz \<le> int (length data) \<or> foreign_frame data" "sz < 2 ^ 31"
  shows "\<exists>s'. copy_frame rb data sz s = Some s' \<and> format_ok s' \<and> frames_counted s' = frames_counted s + 1 \<and>
    isRunning s' = isRunning s \<and> rx_ring s' = rx_ring s \<and> rxring_offset s' = rxring_offset s \<and> captureErrors s' = captureErrors s"
proof -
  consider (negative) "sz < 0" | (inside) "0 \<le> sz" "nat sz \<le> length data" | (foreign) "foreign_frame data" using sz(1) by linarith
  then show ?thesis
  proof cases
    case negative
    from copy_frame_fits[OF laws s, of 0 data] show ?thesis by (simp add: copy_frame_negative[OF negative])
  next
    case inside
    from copy_frame_fits[OF laws s inside sz(2)] show ?thesis .
  next
    case foreign
    from copy_frame_foreign[OF this, of rb sz s] s show ?thesis by (auto simp: format_ok_def frames_counted_def)
  qed
qed

section \<open>The packet ring\<close>

lemma next_offset:
  assumes "unat (k :: u32) < 128"
  shows "unat ((k + 1) AND 127) = (unat k + 1) mod 128"
proof -
  have m: "(127 :: u32) = mask 7" by (simp add: mask_eq_exp_minus_1)
  have "unat ((k + 1) AND 127) = unat (take_bit 7 (k + 1))" by (simp only: m take_bit_eq_mask)
  also have "\<dots> = unat (k + 1) mod 128" by (simp only: unsigned_take_bit_eq) (simp add: take_bit_eq_mod)
  also have "unat (k + 1) = unat k + 1" using assms by (subst unat_add_nowrap) simp_all
  finally show ?thesis .
qed

lemma rx_release_spec:
  assumes "rx_ok s"
  shows "\<exists>off. rx_release_slot s = Some (s\<lparr>rx_ring := (rx_ring s)[unat (rxring_offset s) :=
      (rx_ring s ! unat (rxring_offset s))\<lparr>slot_user := False, slot_copy := False\<rparr>], rxring_offset := off\<rparr>) \<and>
    unat off = (unat (rxring_offset s) + 1) mod 128"
  using assms next_offset[of "rxring_offset s"]
  by (intro exI [of _ "(rxring_offset s + 1) AND 127"]) (simp add: rx_release_slot_def rx_ok_def mem_simps)

text \<open>
  What is assumed of the slots: their number, and that a frame of the protocol's Ethernet type is not
  longer than its slot.  The code takes \<open>tp_len\<close>, the length of the frame on the wire, and does not
  compare it with the length that was captured; nothing is assumed of other frames.
\<close>

definition slot_fits :: "rx_slot \<Rightarrow> bool" where
  "slot_fits slot \<longleftrightarrow> sint (slot_len slot) \<le> int (length (slot_frame slot)) \<or> foreign_frame (slot_frame slot)"

definition slots_ok :: "rx_slot list \<Rightarrow> bool" where
  "slots_ok slots \<longleftrightarrow> length slots = 128 \<and> list_all slot_fits slots"

definition event_ok :: "rx_event \<Rightarrow> bool" where
  "event_ok ev \<longleftrightarrow> list_all (\<lambda>(running, slots, poll). slots_ok slots) (rxe_polls ev)"

text \<open>
  What a pass has to come to, by its observations: the first one that finds the slot filled or the
  flag cleared ends the wait, and the frame is taken if the flag is set then and after.
\<close>

fun wait_outcome :: "nat \<Rightarrow> bool \<Rightarrow> (bool \<times> rx_slot list \<times> rx_poll) list \<Rightarrow> outcome" where
  "wait_outcome k still [] = Waits"
| "wait_outcome k still ((running, slots, poll) # obs) =
     (if \<not> running then Stops
      else if slot_user (slots ! k) then (if still then Takes else Stops)
      else if poll = PollFailed then Fails
      else wait_outcome k still obs)"

definition rx_outcome :: "nat \<Rightarrow> rx_event \<Rightarrow> outcome" where
  "rx_outcome k ev = (if rxe_alive ev then wait_outcome k (rxe_still ev) (rxe_polls ev) else Stops)"

lemma rx_wait_outcome:
  assumes "list_all (\<lambda>(running, slots, poll). slots_ok slots) obs" "k < 128"
  shows "\<exists>w. rx_wait_loop k obs = Some w \<and> wait_outcome k still obs =
      (case w of StillWaiting \<Rightarrow> Waits | WaitFailed \<Rightarrow> Fails
       | WaitDone running slots \<Rightarrow> if running \<and> still then Takes else Stops) \<and>
    (\<forall>running slots. w = WaitDone running slots \<longrightarrow> slots_ok slots)"
  using assms
proof (induction obs)
  case (Cons ob obs)
  obtain running slots poll where ob: "ob = (running, slots, poll)" by (metis prod_cases3)
  from Cons.prems ob have "slots_ok slots" by simp
  then have "rd slots k = Some (slots ! k)" using Cons.prems(2) by (simp add: slots_ok_def mem_simps)
  with Cons ob \<open>slots_ok slots\<close> show ?case by (cases poll) auto
qed simp

text \<open>Handing back a slot, a cut off frame, and a frame that is taken: each moves on by one slot.\<close>

definition next_slot :: "nat \<Rightarrow> nat" where
  "next_slot k = (k + 1) mod 128"

definition one_slot :: "'r jack_state \<Rightarrow> u64 \<Rightarrow> 'r jack_state \<Rightarrow> bool" where
  "one_slot s n s' \<longleftrightarrow> format_ok s' \<and> rx_ok s' \<and> isRunning s' = isRunning s \<and> frames_counted s' = frames_counted s + n \<and>
     captureErrors s' = captureErrors s \<and> unat (rxring_offset s') = next_slot (unat (rxring_offset s))"

lemma release_slot:
  assumes "format_ok s" "rx_ok s"
  shows "\<exists>s'. rx_release_slot s = Some s' \<and> one_slot s 0 s'"
  using rx_release_spec[OF assms(2)] assms by (auto simp: one_slot_def format_ok_def rx_ok_def frames_counted_def next_slot_def)

lemma rx_take_cut:
  assumes "format_ok s" "rx_ok s" "isRunning s" "slot_copy (rx_ring s ! unat (rxring_offset s))"
  shows "\<exists>s'. rx_take s = Some (s', CaptureFailed) \<and> one_slot s 1 s'"
proof -
  let ?s = "s\<lparr>malformedPackets := malformedPackets s + 1\<rparr>"
  have "format_ok ?s" "rx_ok ?s" "frames_counted ?s = frames_counted s + 1"
    using assms(1,2) by (simp_all add: format_ok_def rx_ok_def frames_counted_def add.assoc)
  with release_slot[of ?s] assms show ?thesis by (auto simp: rx_take_def rx_ok_def one_slot_def mem_simps)
qed

lemma slot_frame_taken:
  assumes laws: "ringbuffer_laws rb content cap" and s: "format_ok s" "rx_ok s" "slots_ok (rx_ring s)"
  defines "slot \<equiv> rx_ring s ! unat (rxring_offset s)"
  shows "\<exists>s1 s'. copy_frame rb (slot_frame slot) (sint (slot_len slot)) s = Some s1 \<and> capture_release s1 = Some s' \<and> one_slot s 1 s'"
proof -
  have len: "sint (slot_len slot) \<le> int (length (slot_frame slot)) \<or> foreign_frame (slot_frame slot)"
    using s(2,3) by (simp add: slot_def slots_ok_def rx_ok_def list_all_length slot_fits_def)
  have "sint (slot_len slot) < 2 ^ 31" using sint_lt[of "slot_len slot"] by simp
  from copy_frame_total[OF laws s(1) len this] obtain s1 where
    c: "copy_frame rb (slot_frame slot) (sint (slot_len slot)) s = Some s1" "format_ok s1" "frames_counted s1 = frames_counted s + 1"
      "isRunning s1 = isRunning s" "rx_ring s1 = rx_ring s" "rxring_offset s1 = rxring_offset s" "captureErrors s1 = captureErrors s" by blast
  have "rx_ok s1" using s(2) c(5,6) by (simp add: rx_ok_def)
  from release_slot[OF c(2) this] c show ?thesis
    by (auto simp: capture_release_def process_rx_release_def one_slot_def)
qed

text \<open>After the wait, with the flag still set, a frame is taken from the ring and its slot handed back.\<close>

lemma copy_iteration_takes:
  assumes laws: "ringbuffer_laws rb content cap" and s: "format_ok s" "rx_ok s" and slots: "slots_ok slots"
    and w: "rx_wait_loop (unat (rxring_offset s)) (rxe_polls ev) = Some (WaitDone True slots)" "rxe_still ev"
  shows "\<exists>s'. copy_iteration rb ev s = Some (s', NextPass) \<and> format_ok s' \<and> rx_ok s' \<and>
    frames_counted s' = frames_counted s + 1 \<and> captureErrors s' = captureErrors s \<and>
    unat (rxring_offset s') = next_slot (unat (rxring_offset s))"
proof -
  define s1 where "s1 = s\<lparr>rx_ring := slots, isRunning := True\<rparr>"
  have s1: "format_ok s1" "rx_ok s1" "slots_ok (rx_ring s1)" "isRunning s1" "frames_counted s1 = frames_counted s"
    "rxring_offset s1 = rxring_offset s" "captureErrors s1 = captureErrors s"
    using s slots by (simp_all add: s1_def format_ok_def rx_ok_def slots_ok_def frames_counted_def)
  have run: "capture_next (rxe_polls ev) (rxe_still ev) s = rx_take s1 \<bind>
      (\<lambda>(s, res). case res of CaptureFailed \<Rightarrow> Some (s, if isRunning s then CaptureFailed else CaptureStopped) | _ \<Rightarrow> Some (s, res))"
    using w by (simp add: capture_next_def process_rx_def s1_def)
  show ?thesis
  proof (cases "slot_copy (rx_ring s1 ! unat (rxring_offset s1))")
    case True
    from rx_take_cut[OF s1(1,2,4) this] obtain s' where "rx_take s1 = Some (s', CaptureFailed)" "one_slot s1 1 s'" by blast
    with s1 show ?thesis
      by (intro exI [of _ "s'\<lparr>jk_error := ERR_CAPTURE\<rparr>"])
        (simp add: copy_iteration_def run one_slot_def format_ok_def rx_ok_def frames_counted_def)
  next
    case False
    let ?slot = "rx_ring s1 ! unat (rxring_offset s1)"
    from slot_frame_taken[OF laws s1(1-3)] obtain s2 s' where
      "copy_frame rb (slot_frame ?slot) (sint (slot_len ?slot)) s1 = Some s2" "capture_release s2 = Some s'" "one_slot s1 1 s'" by blast
    moreover have "rx_take s1 = Some (s1, Captured (slot_frame ?slot) (sint (slot_len ?slot)))"
      using False s1(2,4) by (simp add: rx_take_def rx_ok_def mem_simps)
    ultimately show ?thesis using s1(5-7) by (simp add: copy_iteration_def run one_slot_def)
  qed
qed

lemma copy_pass_spec:
  assumes laws: "ringbuffer_laws rb content cap" and s: "format_ok s" "rx_ok s" and ev: "event_ok ev"
  defines "oc \<equiv> rx_outcome (unat (rxring_offset s)) ev"
  shows "\<exists>s'. copy_pass rb ev s = Some (s', case oc of Stops \<Rightarrow> LeaveLoop | Waits \<Rightarrow> InCall | _ \<Rightarrow> NextPass) \<and> format_ok s' \<and> rx_ok s' \<and>
    frames_counted s' = frames_counted s + (if oc = Takes then 1 else 0) \<and>
    captureErrors s' = captureErrors s + (if oc = Fails then 1 else 0) \<and>
    unat (rxring_offset s') = (if oc = Takes then next_slot (unat (rxring_offset s)) else unat (rxring_offset s))"
proof (cases "rxe_alive ev")
  case False
  with s show ?thesis by (simp add: oc_def rx_outcome_def copy_pass_def format_ok_def rx_ok_def frames_counted_def)
next
  case True
  define s0 where "s0 = s\<lparr>isRunning := True\<rparr>"
  have s0: "format_ok s0" "rx_ok s0" "frames_counted s0 = frames_counted s" "captureErrors s0 = captureErrors s"
    "rxring_offset s0 = rxring_offset s" using s by (simp_all add: s0_def format_ok_def rx_ok_def frames_counted_def)
  have pass: "copy_pass rb ev s = copy_iteration rb ev s0" using True by (simp add: copy_pass_def s0_def)
  have off: "unat (rxring_offset s) < 128" using s(2) by (simp add: rx_ok_def)
  from ev have "list_all (\<lambda>(running, slots, poll). slots_ok slots) (rxe_polls ev)" by (simp add: event_ok_def)
  from rx_wait_outcome[OF this off, of "rxe_still ev"] True obtain w where
    w: "rx_wait_loop (unat (rxring_offset s)) (rxe_polls ev) = Some w"
      "oc = (case w of StillWaiting \<Rightarrow> Waits | WaitFailed \<Rightarrow> Fails | WaitDone running slots \<Rightarrow> if running \<and> rxe_still ev then Takes else Stops)"
      "\<And>running slots. w = WaitDone running slots \<Longrightarrow> slots_ok slots"
    by (auto simp: oc_def rx_outcome_def)
  note body = copy_iteration_def capture_next_def process_rx_def s0(5) w(1)
  show ?thesis
  proof (cases w)
    case StillWaiting
    with w s0 show ?thesis by (simp add: pass body)
  next
    case WaitFailed
    have "format_ok (s0\<lparr>captureErrors := x, jk_error := y\<rparr>) = format_ok s0" "rx_ok (s0\<lparr>captureErrors := x, jk_error := y\<rparr>) = rx_ok s0"
      "frames_counted (s0\<lparr>captureErrors := x, jk_error := y\<rparr>) = frames_counted s0" for x y
      by (simp_all add: format_ok_def rx_ok_def frames_counted_def)
    moreover have "isRunning s0" by (simp add: s0_def)
    ultimately show ?thesis using WaitFailed w(2) s0 by (simp add: pass body)
  next
    case (WaitDone running slots)
    show ?thesis
    proof (cases "running \<and> rxe_still ev")
      case True
      with copy_iteration_takes[OF laws s0(1,2) w(3)[OF WaitDone], of ev] w(1,2) WaitDone s0 show ?thesis by (simp add: pass)
    next
      case False
      let ?s = "s0\<lparr>rx_ring := slots, isRunning := False\<rparr>"
      have "format_ok ?s" "rx_ok ?s" "frames_counted ?s = frames_counted s" using s0 w(3)[OF WaitDone]
        by (simp_all add: format_ok_def rx_ok_def frames_counted_def slots_ok_def)
      moreover have stop: "(running \<and> rxe_still ev) = False" using False by blast
      ultimately show ?thesis using w(2) WaitDone s0 by (simp add: pass body rx_take_def stop)
    qed
  qed
qed

interpretation jack_rx: capture_thread "copy_pass rb" "copyData rb"
  "\<lambda>s. ringbuffer_laws rb content cap \<and> format_ok s \<and> rx_ok s" event_ok rx_outcome
  "\<lambda>s. unat (rxring_offset s)" next_slot frames_counted captureErrors
  for rb content cap
proof unfold_locales
  fix s :: "'a jack_state" and e
  assume "ringbuffer_laws rb content cap \<and> format_ok s \<and> rx_ok s" "event_ok e"
  then show "\<exists>s'. (ringbuffer_laws rb content cap \<and> format_ok s' \<and> rx_ok s') \<and>
      copy_pass rb e s = Some (s', case rx_outcome (unat (rxring_offset s)) e of Stops \<Rightarrow> LeaveLoop | Waits \<Rightarrow> InCall | _ \<Rightarrow> NextPass) \<and>
      frames_counted s' = frames_counted s + (if rx_outcome (unat (rxring_offset s)) e = Takes then 1 else 0) \<and>
      captureErrors s' = captureErrors s + (if rx_outcome (unat (rxring_offset s)) e = Fails then 1 else 0) \<and>
      unat (rxring_offset s') = (if rx_outcome (unat (rxring_offset s)) e = Takes then next_slot (unat (rxring_offset s)) else unat (rxring_offset s))"
    using copy_pass_spec[of rb content cap s e] by blast
qed simp_all

lemma next_slot_iterate: "(next_slot ^^ k) j mod 128 = (j + k) mod 128"
proof (induction k)
  case (Suc k)
  have "((next_slot ^^ k) j + 1) mod 128 = ((next_slot ^^ k) j mod 128 + 1) mod 128" by presburger
  then show ?case unfolding Suc by (simp add: next_slot_def [of "(next_slot ^^ k) j"] mod_Suc_eq)
qed simp

section \<open>Properties\<close>

text \<open>A packet of the stream reaches the JACK ring: the payload of an accepted packet of the stream's
  size, or of the first packet, which fixes the size and the channel count, is appended to the
  ring in full when it fits; when it does not, nothing is written and the overrun is counted.
  In both cases the packet is counted as received and its counter is noted.  The ring buffer
  is assumed to behave as the JACK library documents it.\<close>

theorem jack_packet_reaches_ring:
  assumes "ringbuffer_laws rb content cap" "format_ok s" "0 \<le> sz" "nat sz \<le> length data" "sz < 2 ^ 31"
    "reac_parse_packet (Some data) (word_of_int sz) (Some empty_view) = Some (REAC_STATUS_OK, Some view)"
    "dataSize s = 0 \<or> unat (dataSize s) = 36 * unat (pv_channels view)"
  shows "\<exists>s'. copy_frame rb data sz s = Some s' \<and> packet_effect content cap view data s s' \<and> format_ok s'"
  using copy_frame_good[OF assms] by blast

definition fresh_bridge :: "u8 list jack_state" where
  "fresh_bridge =
     \<lparr>isRunning = True, lostPackages = 0, netBufferUnderrun = 0, jackBufferUnderrun = 0, nonREAC = 0, malformedPackets = 0,
      captureErrors = 0, ringbuffer = [], dataSize = 0, processBuffer = replicate 7680 0, processBufferBytes = 7680,
      currentNumberOfChannels = 0, sampleRate = 48000, currentSamplesPerPeriod = 0, jk_error = ERR_OK, active_marks = [],
      doMeasure = True, lastTS = 0, lastJackTime = 0, receivedPackages = 0, processStartTime = 0, lastCounter = 0,
      haveLastCounter = False, packetTime = 1 / 4, spaceAmount = 0, dataAmount = 0, channelRMS = replicate 40 0,
      channelPeak = replicate 40 0, meterRMS = replicate 16000 0, meterPeak = replicate 16000 0, meterIteration = 0,
      rx_ring = replicate 128 \<lparr>slot_user = False, slot_copy = False, slot_len = 0, slot_frame = []\<rparr>, rxring_offset = 0\<rparr>"

lemma fresh_bridge_ok: "format_ok fresh_bridge" "rx_ok fresh_bridge" "dataSize fresh_bridge = 0" "ringbuffer fresh_bridge = []"
  by (simp_all add: fresh_bridge_def format_ok_def rx_ok_def)

theorem jack_packet_reaches_ring_witness:
  "\<exists>s'. copy_frame (list_ringbuffer 131071) silent_packet 124 fresh_bridge = Some s' \<and> format_ok s' \<and>
     take 131071 (ringbuffer s') = take 72 (drop 50 silent_packet)"
proof -
  have l: "ringbuffer_laws (list_ringbuffer 131071) (take 131071) 131071" by (intro list_ringbuffer_laws) simp
  have len: "length silent_packet = 124" by (simp add: silent_packet_def length_make_packet)
  have p: "reac_parse_packet (Some silent_packet) (word_of_int 124) (Some empty_view) =
      Some (REAC_STATUS_OK, Some (packet_view silent_packet 124))"
    using parse_reference[of 124 silent_packet empty_view] silent_packet_status len by simp
  have c: "unat (pv_channels (packet_view silent_packet 124)) = 2" by (simp add: packet_view_def)
  from jack_packet_reaches_ring[OF l fresh_bridge_ok(1) _ _ _ p] obtain s' where
    "copy_frame (list_ringbuffer 131071) silent_packet 124 fresh_bridge = Some s'" "format_ok s'"
    "packet_effect (take 131071) 131071 (packet_view silent_packet 124) silent_packet fresh_bridge s'"
    by (auto simp: len fresh_bridge_ok(3))
  then show ?thesis by (auto simp: packet_effect_def c fresh_bridge_ok(4) len)
qed



text \<open>
  Where that assumption fails: a frame of the protocol's type that is longer than its slot, a jumbo
  frame on the wire, makes the thread look for the end marker outside the slot.
\<close>

theorem long_frame_leaves_slot:
  assumes "rx_ok s" "length slots = 128" "rxe_alive ev" "rxe_still ev"
    "rxe_polls ev = [(True, slots, poll)]" "slots ! unat (rxring_offset s) = slot"
    "slot_user slot" "\<not> slot_copy slot" "14 \<le> length (slot_frame slot)" "\<not> foreign_frame (slot_frame slot)"
    "52 \<le> sint (slot_len slot)" "int (length (slot_frame slot)) < sint (slot_len slot)"
  shows "copyData rb [ev] s = None"
proof -
  have k: "unat (rxring_offset s) < 128" using assms(1) by (simp add: rx_ok_def)
  have "sint (slot_len slot) < 2 ^ 31" using sint_lt[of "slot_len slot"] by simp
  from copy_frame_outside[OF assms(9-12) this, of rb "s\<lparr>rx_ring := slots, isRunning := True\<rparr>"] assms k show ?thesis
    by (simp add: copy_pass_def copy_iteration_def capture_next_def process_rx_def rx_take_def mem_simps)
qed

theorem long_frame_leaves_slot_witness:
  "copyData (list_ringbuffer 131071)
     [\<lparr>rxe_alive = True, rxe_polls = [(True, replicate 128
        \<lparr>slot_user = True, slot_copy = False, slot_len = 9000, slot_frame = take 52 silent_packet\<rparr>, PollReturned)], rxe_still = True\<rparr>]
     fresh_bridge = None"
proof -
  let ?slot = "\<lparr>slot_user = True, slot_copy = False, slot_len = 9000, slot_frame = take 52 silent_packet\<rparr> :: rx_slot"
  let ?ev = "\<lparr>rxe_alive = True, rxe_polls = [(True, replicate 128 ?slot, PollReturned)], rxe_still = True\<rparr>"
  have f: "take 52 silent_packet ! 12 = 0x88 \<and> take 52 silent_packet ! 13 = 0x19" "length (take 52 silent_packet) = 52"
    by (simp_all add: silent_packet_def length_make_packet make_packet_def nth_append)
  have at: "replicate 128 ?slot ! unat (rxring_offset fresh_bridge) = ?slot"
    by (rule nth_replicate) (simp add: fresh_bridge_def)
  show ?thesis
    by (rule long_frame_leaves_slot[OF fresh_bridge_ok(2) _ _ _ _ at, of ?ev]) (use f in \<open>simp_all add: foreign_frame_def\<close>)
qed

text \<open>Lost packets are counted exactly: for packets that arrive in order with fewer than 32768 missing
  in a row, the loss counter grows by exactly the number of packets that did not arrive.\<close>

theorem jack_counts_losses_exactly:
  assumes "arrivals_ok ns" "\<not> haveLastCounter s"
  shows "lostPackages (foldl note_packet_counter s (map of_nat ns)) = lostPackages s + of_nat (missing ns)"
  using assms by (intro jack_loss.note_all_exact) (simp_all add: jack_seen_def)

theorem jack_counts_losses_exactly_witness:
  "lostPackages (foldl note_packet_counter fresh_bridge (map of_nat [65534, 65535, 65539, 65540])) = 3"
  using jack_counts_losses_exactly[of "[65534, 65535, 65539, 65540]" fresh_bridge]
  by (simp add: fresh_bridge_def missing_def)

end
