(* ===== verification/JackPcap.thy ===== *)
theory JackPcap
  imports JackCapture
begin

text \<open>
  The second capture backend of \<open>src/reacjack.c\<close>, for macOS: frames come from libpcap instead of a
  mapped packet socket.  The capture thread is the same program over other capture functions, and
  has the same accounting.
\<close>

section \<open>Capture functions\<close>

text \<open>\<open>capture_open\<close>: whether it succeeds, and whether the handle is left open; \<open>pcap_close\<close> follows an
  error.\<close>

definition pcap_capture_open :: "pcap_setup \<Rightarrow> bool \<times> bool" where
  "pcap_capture_open p =
     (if \<not> pcap_create_ok p then (False, False)
      else if pcap_activate_rc p < 0 then (False, False)
      else if \<not> pcap_is_ethernet p then (False, False)
      else (True, True))"

text \<open>\<open>capture_next\<close>: each pass of its loop reads the running flag, then asks libpcap.\<close>

fun pcap_capture_next :: "(bool \<times> pcap_result) list \<Rightarrow> 'r jack_state \<Rightarrow> 'r jack_state \<times> capture_result" where
  "pcap_capture_next [] s = (s, CaptureBlocked)"
| "pcap_capture_next ((running, res) # obs) s =
     (if \<not> running then (s\<lparr>isRunning := False\<rparr>, CaptureStopped)
      else case res of
             PcapPacket packet \<Rightarrow> (s, Captured packet (int (length packet)))
           | PcapTimeout \<Rightarrow> pcap_capture_next obs s
           | PcapBreak \<Rightarrow> (s, CaptureStopped)
           | PcapError \<Rightarrow> (s\<lparr>captureErrors := captureErrors s + 1\<rparr>, CaptureFailed))"

definition pcap_capture_release :: "'r jack_state \<Rightarrow> 'r jack_state" where
  "pcap_capture_release s = s"

definition pcap_capture_close :: "bool \<Rightarrow> bool" where
  "pcap_capture_close handle = (if handle then False else handle)"

text \<open>The capture thread over these functions; a pass observes the flag as the loop condition reads it, too.\<close>

definition pcap_copy_iteration ::
  "'r ringbuffer_ops \<Rightarrow> (bool \<times> pcap_result) list \<Rightarrow> 'r jack_state \<Rightarrow> ('r jack_state \<times> pass_end) option" where
  "pcap_copy_iteration rb obs s =
     (let (s, res) = pcap_capture_next obs s
      in case res of
           CaptureStopped \<Rightarrow> Some (s, LeaveLoop)
         | CaptureBlocked \<Rightarrow> Some (s, InCall)
         | CaptureFailed \<Rightarrow> Some (s\<lparr>jk_error := ERR_CAPTURE\<rparr>, NextPass)
         | Captured data sz \<Rightarrow> do { s \<leftarrow> copy_frame rb data sz s; Some (pcap_capture_release s, NextPass) })"

definition pcap_copy_pass ::
  "'r ringbuffer_ops \<Rightarrow> bool \<times> (bool \<times> pcap_result) list \<Rightarrow> 'r jack_state \<Rightarrow> ('r jack_state \<times> pass_end) option" where
  "pcap_copy_pass rb ev s =
     (let s = s\<lparr>isRunning := fst ev\<rparr>
      in if isRunning s then pcap_copy_iteration rb (snd ev) s else Some (s, LeaveLoop))"

fun pcap_copyData ::
  "'r ringbuffer_ops \<Rightarrow> (bool \<times> (bool \<times> pcap_result) list) list \<Rightarrow> 'r jack_state \<Rightarrow> ('r jack_state, unit) loop_end option" where
  "pcap_copyData rb [] s = Some (Running s)"
| "pcap_copyData rb (ev # evs) s =
     do { (s', how) \<leftarrow> pcap_copy_pass rb ev s;
          case how of
            NextPass \<Rightarrow> pcap_copyData rb evs s'
          | LeaveLoop \<Rightarrow> Some (Returned s' ())
          | InCall \<Rightarrow> Some (Running s') }"

section \<open>Accounting\<close>

definition frame_sizes_ok :: "bool \<times> (bool \<times> pcap_result) list \<Rightarrow> bool" where
  "frame_sizes_ok ev \<longleftrightarrow> list_all (\<lambda>(running, res). case res of PcapPacket packet \<Rightarrow> length packet < 2 ^ 31 | _ \<Rightarrow> True) (snd ev)"

text \<open>What a pass has to come to, by its observations: the first one that is not a time-out decides.\<close>

fun pcap_next_outcome :: "(bool \<times> pcap_result) list \<Rightarrow> outcome" where
  "pcap_next_outcome [] = Waits"
| "pcap_next_outcome ((running, res) # obs) =
     (if \<not> running then Stops
      else case res of PcapPacket _ \<Rightarrow> Takes | PcapTimeout \<Rightarrow> pcap_next_outcome obs | PcapBreak \<Rightarrow> Stops | PcapError \<Rightarrow> Fails)"

definition pcap_outcome :: "unit \<Rightarrow> bool \<times> (bool \<times> pcap_result) list \<Rightarrow> outcome" where
  "pcap_outcome u ev = (if fst ev then pcap_next_outcome (snd ev) else Stops)"

lemma pcap_iteration_spec:
  assumes laws: "ringbuffer_laws rb content cap" and s: "format_ok s" and obs: "frame_sizes_ok (running, obs)"
  defines "oc \<equiv> pcap_next_outcome obs"
  shows "\<exists>s'. pcap_copy_iteration rb obs s = Some (s', case oc of Stops \<Rightarrow> LeaveLoop | Waits \<Rightarrow> InCall | _ \<Rightarrow> NextPass) \<and> format_ok s' \<and>
    frames_counted s' = frames_counted s + (if oc = Takes then 1 else 0) \<and>
    captureErrors s' = captureErrors s + (if oc = Fails then 1 else 0)"
  using obs unfolding oc_def
proof (induction obs)
  case Nil
  with s show ?case by (simp add: pcap_copy_iteration_def)
next
  case (Cons o1 obs)
  obtain live res where o1: "o1 = (live, res)" by fastforce
  show ?case
  proof (cases "live")
    case False
    with o1 s show ?thesis by (simp add: pcap_copy_iteration_def format_ok_def frames_counted_def)
  next
    case True
    show ?thesis
    proof (cases res)
      case (PcapPacket packet)
      have "int (length packet) < 2 ^ 31" using Cons.prems o1 PcapPacket by (simp add: frame_sizes_ok_def)
      from copy_frame_total[OF laws s _ this, of packet] obtain s' where
        "copy_frame rb packet (int (length packet)) s = Some s'" "format_ok s'" "frames_counted s' = frames_counted s + 1"
        "captureErrors s' = captureErrors s" by auto
      with o1 True PcapPacket show ?thesis by (simp add: pcap_copy_iteration_def pcap_capture_release_def)
    next
      case PcapTimeout
      moreover have "frame_sizes_ok (running, obs)" using Cons.prems by (simp add: frame_sizes_ok_def)
      moreover have "pcap_copy_iteration rb ((True, PcapTimeout) # obs) s = pcap_copy_iteration rb obs s"
        by (simp add: pcap_copy_iteration_def)
      ultimately show ?thesis using Cons.IH o1 True by simp
    qed (use o1 True s in \<open>simp_all add: pcap_copy_iteration_def format_ok_def frames_counted_def\<close>)
  qed
qed

lemma pcap_pass_spec:
  assumes laws: "ringbuffer_laws rb content cap" and s: "format_ok s" and ev: "frame_sizes_ok ev"
  shows "\<exists>s'. (ringbuffer_laws rb content cap \<and> format_ok s') \<and>
    pcap_copy_pass rb ev s = Some (s', case pcap_outcome u ev of Stops \<Rightarrow> LeaveLoop | Waits \<Rightarrow> InCall | _ \<Rightarrow> NextPass) \<and>
    frames_counted s' = frames_counted s + (if pcap_outcome u ev = Takes then 1 else 0) \<and>
    captureErrors s' = captureErrors s + (if pcap_outcome u ev = Fails then 1 else 0)"
proof -
  let ?s = "s\<lparr>isRunning := fst ev\<rparr>"
  have k: "format_ok ?s" "frames_counted ?s = frames_counted s" "captureErrors ?s = captureErrors s"
    using s by (simp_all add: format_ok_def frames_counted_def)
  show ?thesis
  proof (cases "fst ev")
    case False
    with k laws show ?thesis by (simp add: pcap_copy_pass_def pcap_outcome_def)
  next
    case True
    have "frame_sizes_ok (fst ev, snd ev)" using ev by simp
    from pcap_iteration_spec[OF laws k(1) this] k True laws show ?thesis
      unfolding pcap_copy_pass_def pcap_outcome_def by (simp add: conj_commute conj_left_commute)
  qed
qed

interpretation jack_pcap: capture_thread "pcap_copy_pass rb" "pcap_copyData rb"
  "\<lambda>s. ringbuffer_laws rb content cap \<and> format_ok s" frame_sizes_ok pcap_outcome
  "\<lambda>s. ()" "\<lambda>u. u" frames_counted captureErrors
  for rb content cap
proof unfold_locales
  fix s :: "'a jack_state" and e
  assume "ringbuffer_laws rb content cap \<and> format_ok s" "frame_sizes_ok e"
  then show "\<exists>s'. (ringbuffer_laws rb content cap \<and> format_ok s') \<and>
      pcap_copy_pass rb e s = Some (s', case pcap_outcome () e of Stops \<Rightarrow> LeaveLoop | Waits \<Rightarrow> InCall | _ \<Rightarrow> NextPass) \<and>
      frames_counted s' = frames_counted s + (if pcap_outcome () e = Takes then 1 else 0) \<and>
      captureErrors s' = captureErrors s + (if pcap_outcome () e = Fails then 1 else 0) \<and>
      () = (if pcap_outcome () e = Takes then () else ())"
    using pcap_pass_spec[of rb content cap s e "()"] by simp
qed simp_all

text \<open>The thread over libpcap has the same account: it returns exactly when the flag is read as cleared or the
  capture is broken off, counts each packet once and each error, and waits on when the capture
  times out.\<close>

theorem jack_pcap_accounts:
  assumes "ringbuffer_laws rb content cap" "format_ok s" "list_all frame_sizes_ok evs"
    "account pcap_outcome (\<lambda>u. u) () evs = (returned, taken, failed)"
  shows "\<exists>s'. pcap_copyData rb evs s = Some (if returned then Returned s' () else Running s') \<and> format_ok s' \<and>
    frames_counted s' = frames_counted s + of_nat taken \<and> captureErrors s' = captureErrors s + of_nat failed"
  using jack_pcap.loop_account[of rb content cap s evs returned taken failed] assms by blast

end
