(* ===== verification/JackProcess.thy ===== *)
theory JackProcess
  imports JackCapture SenderStream
begin

text \<open>
  The process callback of the JACK bridge: it delivers the oldest period of the ring to the ports,
  decoded, or silence, and meters what it delivers.
\<close>

section \<open>Silence\<close>

definition port_fits :: "nat \<Rightarrow> port \<Rightarrow> bool" where
  "port_fits n p = (case p of Some (Some b) \<Rightarrow> n \<le> length b | _ \<Rightarrow> True)"

definition silenced :: "nat \<Rightarrow> port \<Rightarrow> port" where
  "silenced n p = (case p of Some (Some b) \<Rightarrow> Some (Some (replicate n 0 @ drop n b)) | _ \<Rightarrow> p)"

lemma silence_loop:
  assumes "k \<le> length ports" "list_all (port_fits (unat n)) ports"
  shows "for_each (silence_port n) [0..<k] ports = Some (map (silenced (unat n)) (take k ports) @ drop k ports)"
proof -
  let ?st = "\<lambda>i. map (silenced (unat n)) (take i ports) @ drop i ports"
  have "\<exists>s. for_each (silence_port n) [0..<k] ports = Some s \<and> s = ?st k"
  proof (rule for_each_range [where I = "\<lambda>i s. s = ?st i"])
    fix i s assume i: "i < k" and s: "s = ?st i"
    have il: "i < length ports" using i assms(1) by simp
    have fit: "port_fits (unat n) (ports ! i)" using assms(2) il by (simp add: list_all_length)
    have at: "rd s i = Some (ports ! i)" using il by (simp add: s rd_def nth_append)
    have nxt: "s[i := silenced (unat n) (ports ! i)] = ?st (Suc i)"
      using il by (simp add: s list_update_append take_Suc_conv_app_nth Cons_nth_drop_Suc [symmetric] del: Cons_nth_drop_Suc)
    have len: "i < length s" using il by (simp add: s)
    have same: "s[i := ports ! i] = s" using at by (metis list_update_id rd_eq_Some_iff)
    consider (buf) b where "ports ! i = Some (Some b)" | (none) "silenced (unat n) (ports ! i) = ports ! i"
      "\<And>b. ports ! i \<noteq> Some (Some b)" by (cases "ports ! i"; cases "the (ports ! i)") (auto simp: silenced_def)
    then show "\<exists>s'. silence_port n i s = Some s' \<and> s' = ?st (Suc i)"
    proof cases
      case buf
      then show ?thesis using at fit len nxt by (simp add: silence_port_def port_fits_def silenced_def mem_simps splice_def)
    next
      case none
      then have "silence_port n i s = Some s" using at by (auto simp: silence_port_def split: option.splits)
      moreover have "s = ?st (Suc i)" using nxt same none(1) by simp
      ultimately show ?thesis by blast
    qed
  qed simp_all
  then show ?thesis by blast
qed

definition silence_limit :: "u32 \<Rightarrow> nat" where
  "silence_limit c = (if c = 0 \<or> c > 40 then 40 else unat c)"

lemma silence_outputs_spec:
  assumes "length ports = 40" "list_all (port_fits (unat n)) ports"
  shows "silence_outputs n c ports = Some (map (silenced (unat n)) (take (silence_limit c) ports) @ drop (silence_limit c) ports)"
proof -
  have "silence_limit c \<le> length ports" using assms(1) by (auto simp: silence_limit_def word_less_nat_alt not_less)
  from silence_loop[OF this assms(2)] show ?thesis by (simp add: silence_outputs_def silence_limit_def Let_def)
qed

section \<open>Decoding a period\<close>

lemma decoded_sample_prefix:
  assumes "even C" "ch < C" "f < n" "take (3 * C * n) mem = take (3 * C * n) mem'"
  shows "decoded_sample mem C ch f = decoded_sample mem' C ch f"
proof -
  have "3 * C * f + 6 * (ch div 2) + 5 < 3 * C * n"
  proof -
    obtain b where b: "C = 2 * b" using assms(1) by blast
    then have "ch div 2 + 1 \<le> b" using assms(2) by simp
    then have "6 * (ch div 2) + 5 < 3 * C" unfolding b by linarith
    moreover have "3 * C * Suc f \<le> 3 * C * n" using assms(3) by (intro mult_le_mono2) simp
    ultimately show ?thesis by simp
  qed
  then have "mem ! (3 * C * f + 6 * (ch div 2) + r) = mem' ! (3 * C * f + 6 * (ch div 2) + r)" if "r \<le> 5" for r
    using arg_cong [where f = "\<lambda>l. l ! (3 * C * f + 6 * (ch div 2) + r)", OF assms(4)] that by simp
  from this[of 0] this[of 1] this[of 2] this[of 3] this[of 4] this[of 5] show ?thesis
    by (simp add: decoded_sample_def sample_word_def Let_def)
qed

text \<open>All ports in use have buffers for a period.\<close>

definition ports_ready :: "nat \<Rightarrow> nat \<Rightarrow> port list \<Rightarrow> bool" where
  "ports_ready C n ports \<longleftrightarrow> length ports = 40 \<and> C \<le> 40 \<and> (\<forall>i < C. \<exists>b. ports ! i = Some (Some b) \<and> n \<le> length b)"

abbreviation port_buffer :: "port list \<Rightarrow> nat \<Rightarrow> rat list" where
  "port_buffer ports i \<equiv> the (the (ports ! i))"

lemma port_buffers_ready:
  assumes "ports_ready C n ports"
  shows "port_buffers [0..<C] ports = Some (Some (map (port_buffer ports) [0..<C]))"
proof -
  have "port_buffers is ports = Some (Some (map (port_buffer ports) is))" if "\<forall>i \<in> set is. i < C" for "is"
    using that
  proof (induction "is")
    case (Cons i "is")
    then obtain b where "ports ! i = Some (Some b)" "i < length ports" using assms by (auto simp: ports_ready_def)
    with Cons show ?case by (simp add: rd_def)
  qed simp
  then show ?thesis by simp
qed

definition delivered :: "(nat \<Rightarrow> nat \<Rightarrow> rat) \<Rightarrow> nat \<Rightarrow> nat \<Rightarrow> port list \<Rightarrow> port list" where
  "delivered sv C n ports =
     map (\<lambda>ch. Some (Some (map (sv ch) [0..<n] @ drop n (port_buffer ports ch)))) [0..<C] @ drop C ports"

lemma decode_period:
  assumes C: "even (unat C)" "0 < unat C" and ready: "ports_ready (unat C) (unat n) ports"
    and bytes: "unat bytes = 3 * unat C * unat n" "unat bytes \<le> length mem"
  shows "reac_decode_samples_to_channels (Some mem) bytes (ucast (C :: u32)) (ucast (n :: u32))
      (Some (map Some (map (port_buffer ports) [0..<unat C]))) = Some (REAC_STATUS_OK, Some (map Some
        (map (\<lambda>ch. map (decoded_sample mem (unat C) ch) [0..<unat n] @ drop (unat n) (port_buffer ports ch)) [0..<unat C])))"
proof -
  have c40: "unat C \<le> 40" using ready by (simp add: ports_ready_def)
  have cu: "unat (ucast C :: u16) = unat C" using c40 by (simp add: unsigned_ucast_eq take_bit_nat_eq_self)
  have nu: "unat (ucast n :: u64) = unat n" by simp
  have size: "unat (ucast C :: u16) * unat (ucast n :: u64) * 3 < 2 ^ 64"
    unfolding cu nu using bytes(1) unat_u64_bound[of bytes] by (simp add: ac_simps)
  let ?bufs = "map Some (map (port_buffer ports) [0..<unat C])"
  have good: "good_outputs ?bufs (unat (ucast C :: u16)) (unat (ucast n :: u64))"
    using ready unfolding cu nu by (fastforce simp: good_outputs_def ports_ready_def)
  have outs: "decoded_outputs (decoded_sample mem (unat C)) (unat C) (\<lambda>_. unat n) ?bufs =
      map Some (map (\<lambda>ch. map (decoded_sample mem (unat C) ch) [0..<unat n] @ drop (unat n) (port_buffer ports ch)) [0..<unat C])"
    by (simp add: decoded_outputs_def decoded_buffer_def)
  note dec = decode_correct[of "ucast C" "ucast n" bytes mem ?bufs, unfolded cu nu outs]
  show ?thesis by (rule dec) (use C c40 size bytes good in \<open>simp_all only: cu nu\<close>)
qed

section \<open>Meters\<close>

text \<open>The largest absolute value of a list of samples, 0 for none.\<close>

fun peak_of :: "rat list \<Rightarrow> rat" where
  "peak_of [] = 0"
| "peak_of (x # xs) = max \<bar>x\<bar> (peak_of xs)"

lemma peak_of_append: "peak_of (xs @ ys) = max (peak_of xs) (peak_of ys)"
proof -
  have nn: "0 \<le> peak_of zs" for zs by (induction zs) auto
  show ?thesis by (induction xs) (use nn[of ys] in \<open>auto simp: max_def\<close>)
qed

lemma peak_of_bound: "0 \<le> peak_of xs" "\<forall>x \<in> set xs. \<bar>x\<bar> \<le> b \<Longrightarrow> 0 \<le> b \<Longrightarrow> peak_of xs \<le> b"
  by (induction xs) auto

lemma measure_period_spec:
  assumes "C \<le> 40" "C \<le> length bufs" "\<forall>ch < C. n \<le> length (bufs ! ch)"
  shows "\<exists>sq pk. measure_period bufs C n = Some (sq, pk) \<and> length sq = 40 \<and> length pk = 40 \<and>
    (\<forall>ch < C. pk ! ch = peak_of (take n (bufs ! ch)))"
proof -
  define I where "I f st \<longleftrightarrow> length (fst st) = 40 \<and> length (snd st) = 40 \<and> (\<forall>ch < C. snd st ! ch = peak_of (take f (bufs ! ch)))"
    for f and st :: "rat list \<times> rat list"
  have inner: "\<exists>st'. for_each (measure_sample bufs f) [0..<C] st = Some st' \<and> I (Suc f) st'" if f: "f < n" and st: "I f st" for f st
  proof -
    define J where "J c st \<longleftrightarrow> length (fst st) = 40 \<and> length (snd st) = 40 \<and>
      (\<forall>ch < C. snd st ! ch = peak_of (take (if ch < c then Suc f else f) (bufs ! ch)))" for c and st :: "rat list \<times> rat list"
    have "\<exists>st'. for_each (measure_sample bufs f) [0..<C] st = Some st' \<and> J C st'"
    proof (rule for_each_range [where I = J])
      show "J 0 st" using st by (simp add: I_def J_def)
    next
      fix c st assume c: "c < C" and st: "J c st"
      obtain sq pk where e: "st = (sq, pk)" by fastforce
      let ?x = "bufs ! c ! f"
      have len: "c < length bufs" "f < length (bufs ! c)" "c < length sq" "c < length pk"
        using c assms f st by (auto simp: J_def e intro: less_le_trans)
      have pk: "pk ! c = peak_of (take f (bufs ! c))" using st c by (simp add: J_def e)
      have nx: "peak_of (take (Suc f) (bufs ! c)) = (if pk ! c < \<bar>?x\<bar> then \<bar>?x\<bar> else pk ! c)"
        using len(2) peak_of_bound(1)[of "take f (bufs ! c)"] by (auto simp: take_Suc_conv_app_nth peak_of_append pk max_def)
      let ?st = "(sq[c := f64 (sq ! c + f64 (?x * ?x))], if pk ! c < \<bar>?x\<bar> then pk[c := \<bar>?x\<bar>] else pk)"
      have "measure_sample bufs f c st = Some ?st" using len by (simp add: measure_sample_def e mem_simps)
      moreover have "J (Suc c) ?st" using st nx len c by (auto simp: J_def e nth_list_update less_Suc_eq)
      ultimately show "\<exists>st'. measure_sample bufs f c st = Some st' \<and> J (Suc c) st'" by blast
    qed simp
    then show ?thesis by (auto simp: I_def J_def)
  qed
  have "\<exists>st. measure_period bufs C n = Some st \<and> I n st"
    unfolding measure_period_def by (rule for_each_range [where I = I]) (use assms(1) inner in \<open>auto simp: I_def\<close>)
  then show ?thesis by (auto simp: I_def)
qed

text \<open>The meter arrays, with peaks between silence and full scale.\<close>

definition meters_ok :: "'r jack_state \<Rightarrow> bool" where
  "meters_ok s \<longleftrightarrow> length (meterRMS s) = 16000 \<and> length (meterPeak s) = 16000 \<and> length (channelRMS s) = 40 \<and>
     length (channelPeak s) = 40 \<and> unat (meterIteration s) < 400 \<and> (\<forall>p \<in> set (meterPeak s). 0 \<le> p \<and> p \<le> 1)"

lemma meter_slot: "ch < 40 \<Longrightarrow> v < 400 \<Longrightarrow> ch * 400 + v < (16000 :: nat)"
  using block_index_less[of v 400 ch 40] by (simp add: ac_simps)

lemma store_meter_spec:
  assumes "C \<le> 40" "length sq = 40" "length pk = 40" "it < 400" "length mrms = 16000" "length mpeak = 16000"
    "\<forall>p \<in> set mpeak. 0 \<le> p \<and> p \<le> 1" "\<forall>ch < C. 0 \<le> pk ! ch \<and> pk ! ch \<le> 1"
  shows "\<exists>mrms' mpeak'. for_each (store_meter sq pk it) [0..<C] (mrms, mpeak) = Some (mrms', mpeak') \<and>
    length mrms' = 16000 \<and> length mpeak' = 16000 \<and> (\<forall>p \<in> set mpeak'. 0 \<le> p \<and> p \<le> 1) \<and>
    (\<forall>ch < C. mpeak' ! (ch * 400 + it) = pk ! ch)"
proof -
  define I where "I c st \<longleftrightarrow> length (fst st) = 16000 \<and> length (snd st) = 16000 \<and> (\<forall>p \<in> set (snd st). 0 \<le> p \<and> p \<le> 1) \<and>
    (\<forall>ch < c. snd st ! (ch * 400 + it) = pk ! ch)" for c and st :: "rat list \<times> rat list"
  have "\<exists>st. for_each (store_meter sq pk it) [0..<C] (mrms, mpeak) = Some st \<and> I C st"
  proof (rule for_each_range [where I = I])
    fix c st assume c: "c < C" and st: "I c st"
    obtain a b where e: "st = (a, b)" by fastforce
    let ?k = "c * 400 + it"
    have k: "?k < 16000" "c < 40" using c assms(1,4) by (simp_all add: meter_slot)
    let ?st = "(a[?k := sq ! c], b[?k := pk ! c])"
    have "store_meter sq pk it c st = Some ?st"
      using st k assms(2,3) by (simp add: store_meter_def e I_def mem_simps)
    moreover have "I (Suc c) ?st"
      using st k assms(8) c by (auto simp: I_def e nth_list_update less_Suc_eq dest: subsetD[OF set_update_subset_insert])
    ultimately show "\<exists>st'. store_meter sq pk it c st = Some st' \<and> I (Suc c) st'" by blast
  qed (use assms in \<open>simp_all add: I_def\<close>)
  then show ?thesis by (auto simp: I_def)
qed

lemma meter_window_spec:
  assumes "ch < 40" "length mrms = 16000" "length mpeak = 16000" "\<forall>p \<in> set mpeak. 0 \<le> p \<and> p \<le> 1"
  shows "\<exists>rms peakVal. for_each (meter_window mrms mpeak ch) [0..<400] (0, 0) = Some (rms, peakVal) \<and>
    0 \<le> peakVal \<and> peakVal \<le> 1 \<and> (\<forall>v < 400. mpeak ! (ch * 400 + v) \<le> peakVal)"
proof -
  define I where "I k st \<longleftrightarrow> 0 \<le> snd st \<and> snd st \<le> 1 \<and> (\<forall>v < k. mpeak ! (ch * 400 + v) \<le> snd st)"
    for k and st :: "rat \<times> rat"
  have "\<exists>st. for_each (meter_window mrms mpeak ch) [0..<400] (0, 0) = Some st \<and> I 400 st"
  proof (rule for_each_range [where I = I])
    fix v st assume v: "v < 400" and st: "I v st"
    obtain r p where e: "st = (r, p)" by fastforce
    let ?k = "ch * 400 + v"
    have k: "?k < 16000" using assms(1) v by (rule meter_slot)
    then have q: "0 \<le> mpeak ! ?k" "mpeak ! ?k \<le> 1" using assms(3,4) by auto
    have "meter_window mrms mpeak ch v st = Some (f64 (r + mrms ! ?k), if mpeak ! ?k > p then mpeak ! ?k else p)"
      using k assms(2,3) by (simp add: meter_window_def e mem_simps)
    moreover have "I (Suc v) (f64 (r + mrms ! ?k), if mpeak ! ?k > p then mpeak ! ?k else p)"
      using st q by (fastforce simp: I_def e less_Suc_eq)
    ultimately show "\<exists>st'. meter_window mrms mpeak ch v st = Some st' \<and> I (Suc v) st'" by blast
  qed (simp_all add: I_def)
  then show ?thesis by (auto simp: I_def)
qed

lemma channel_meter_spec:
  assumes "C \<le> 40" "length mrms = 16000" "length mpeak = 16000" "\<forall>p \<in> set mpeak. 0 \<le> p \<and> p \<le> 1"
    "length crms = 40" "length cpeak = 40" "(400 :: u32) * n \<noteq> 0"
  shows "\<exists>crms' cpeak'. for_each (channel_meter c_sqrt n mrms mpeak) [0..<C] (crms, cpeak) = Some (crms', cpeak') \<and>
    length crms' = 40 \<and> length cpeak' = 40 \<and>
    (\<forall>ch < C. cpeak' ! ch \<le> 1 \<and> (\<forall>v < 400. f32 (mpeak ! (ch * 400 + v)) \<le> cpeak' ! ch))"
proof -
  define I where "I c st \<longleftrightarrow> length (fst st) = 40 \<and> length (snd st) = 40 \<and>
    (\<forall>ch < c. snd st ! ch \<le> 1 \<and> (\<forall>v < 400. f32 (mpeak ! (ch * 400 + v)) \<le> snd st ! ch))" for c and st :: "rat list \<times> rat list"
  have "\<exists>st. for_each (channel_meter c_sqrt n mrms mpeak) [0..<C] (crms, cpeak) = Some st \<and> I C st"
  proof (rule for_each_range [where I = I])
    fix c st assume c: "c < C" and st: "I c st"
    obtain a b where e: "st = (a, b)" by fastforce
    have c40: "c < 40" using c assms(1) by simp
    from meter_window_spec[OF this assms(2-4)] obtain rms pv where
      w: "for_each (meter_window mrms mpeak c) [0..<400] (0, 0) = Some (rms, pv)" "0 \<le> pv" "pv \<le> 1"
        "\<forall>v < 400. mpeak ! (c * 400 + v) \<le> pv" by blast
    have one: "f32 pv \<le> 1" using round_to_mono[OF w(3), of 24] round_to_int[of 1 24] by simp
    have cover: "\<forall>v < 400. f32 (mpeak ! (c * 400 + v)) \<le> f32 pv" using w(4) by (auto intro: round_to_mono)
    let ?x = "f32 (c_sqrt (f64 (rms / of_nat (unat (400 * n)))))"
    have "channel_meter c_sqrt n mrms mpeak c st = Some (a[c := ?x], b[c := f32 pv])"
      using st w(1) c40 assms(7) by (simp add: channel_meter_def e I_def mem_simps del: upt_rec_numeral)
    moreover have "I (Suc c) (a[c := ?x], b[c := f32 pv])"
      using st one cover c40 by (auto simp: I_def e nth_list_update less_Suc_eq)
    ultimately show "\<exists>st'. channel_meter c_sqrt n mrms mpeak c st = Some st' \<and> I (Suc c) st'" by blast
  qed (use assms in \<open>simp_all add: I_def\<close>)
  then show ?thesis by (auto simp: I_def)
qed

text \<open>After a period the peak of every channel covers the samples of the period.\<close>

lemma update_meters_spec:
  assumes ok: "meters_ok s" and C: "unat (currentNumberOfChannels s) \<le> 40" "unat (currentNumberOfChannels s) \<le> length bufs"
    and n: "\<forall>ch < unat (currentNumberOfChannels s). unat n \<le> length (bufs ! ch)" "(400 :: u32) * n \<noteq> 0"
    and unit: "\<forall>ch < unat (currentNumberOfChannels s). \<forall>x \<in> set (take (unat n) (bufs ! ch)). \<bar>x\<bar> \<le> 1 \<and> f32 x = x"
  shows "\<exists>mr mp it cr cp. update_meters c_sqrt n bufs s =
      Some (s\<lparr>meterRMS := mr, meterPeak := mp, meterIteration := it, channelRMS := cr, channelPeak := cp\<rparr>) \<and>
    meters_ok (s\<lparr>meterRMS := mr, meterPeak := mp, meterIteration := it, channelRMS := cr, channelPeak := cp\<rparr>) \<and>
    (\<forall>ch < unat (currentNumberOfChannels s). cp ! ch \<le> 1 \<and> (\<forall>x \<in> set (take (unat n) (bufs ! ch)). \<bar>x\<bar> \<le> cp ! ch))"
proof -
  let ?C = "unat (currentNumberOfChannels s)" and ?it = "unat (meterIteration s)"
  note m = ok [unfolded meters_ok_def]
  from measure_period_spec[OF C n(1)] obtain sq pk where
    p: "measure_period bufs ?C (unat n) = Some (sq, pk)" "length sq = 40" "length pk = 40"
      "\<forall>ch < ?C. pk ! ch = peak_of (take (unat n) (bufs ! ch))" by blast
  have pk: "\<forall>ch < ?C. 0 \<le> pk ! ch \<and> pk ! ch \<le> 1" using p(4) unit by (auto intro!: peak_of_bound)
  from store_meter_spec[OF C(1) p(2,3) _ _ _ _ pk, of ?it "meterRMS s" "meterPeak s"] m obtain mr mp where
    st: "for_each (store_meter sq pk ?it) [0..<?C] (meterRMS s, meterPeak s) = Some (mr, mp)" "length mr = 16000"
      "length mp = 16000" "\<forall>p \<in> set mp. 0 \<le> p \<and> p \<le> 1" "\<forall>ch < ?C. mp ! (ch * 400 + ?it) = pk ! ch" by auto
  from channel_meter_spec[OF C(1) st(2-4) _ _ n(2), of "channelRMS s" "channelPeak s" c_sqrt] m obtain cr cp where
    cm: "for_each (channel_meter c_sqrt n mr mp) [0..<?C] (channelRMS s, channelPeak s) = Some (cr, cp)"
      "length cr = 40" "length cp = 40" "\<forall>ch < ?C. cp ! ch \<le> 1 \<and> (\<forall>v < 400. f32 (mp ! (ch * 400 + v)) \<le> cp ! ch)" by auto
  let ?s = "s\<lparr>meterRMS := mr, meterPeak := mp, meterIteration := (meterIteration s + 1) mod 400, channelRMS := cr, channelPeak := cp\<rparr>"
  have "unat ((meterIteration s + 1) mod 400) < 400" by (simp add: unat_mod)
  then have "meters_ok ?s" using st(2-4) cm(2,3) by (simp add: meters_ok_def)
  moreover have "update_meters c_sqrt n bufs s = Some ?s"
    using p(1) st(1) cm(1) by (simp add: update_meters_def)
  moreover have "\<bar>x\<bar> \<le> cp ! ch" if ch: "ch < ?C" and x: "x \<in> set (take (unat n) (bufs ! ch))" for ch x
  proof -
    have le: "\<bar>y\<bar> \<le> peak_of ys" if "y \<in> set ys" for y ys using that by (induction ys) auto
    have "f32 \<bar>x\<bar> \<le> f32 (mp ! (ch * 400 + ?it))" using le[OF x] p(4) st(5) ch by (intro round_to_mono) simp_all
    also have "\<dots> \<le> cp ! ch" using cm(4) ch m by simp
    moreover have "f32 \<bar>x\<bar> = \<bar>x\<bar>" using unit ch x by (auto simp: abs_if round_to_uminus)
    ultimately show ?thesis by simp
  qed
  ultimately show ?thesis using cm(4) by (intro exI) blast
qed

section \<open>A period\<close>

lemma invariants_upd [simp]:
  "meters_ok (s\<lparr>ringbuffer := r, processBuffer := b\<rparr>) = meters_ok s" "format_ok (s\<lparr>ringbuffer := r, processBuffer := b\<rparr>) = format_ok s"
  by (simp_all add: meters_ok_def format_ok_def)

definition bridge_ok :: "'r jack_state \<Rightarrow> bool" where
  "bridge_ok s \<longleftrightarrow> format_ok s \<and> meters_ok s \<and> length (processBuffer s) = unat (processBufferBytes s)"

text \<open>The state after the first assignments of \<open>process\<close>, and when it compares the amount of data.\<close>

definition noted :: "'r ringbuffer_ops \<Rightarrow> u32 \<Rightarrow> 'r jack_state \<Rightarrow> 'r jack_state" where
  "noted rb n s = s\<lparr>currentSamplesPerPeriod := n, dataAmount := rb_read_space rb (ringbuffer s),
     spaceAmount := rb_write_space rb (ringbuffer s)\<rparr>"

definition at_period :: "'r ringbuffer_ops \<Rightarrow> u32 \<Rightarrow> u32 \<Rightarrow> 'r jack_state \<Rightarrow> 'r jack_state" where
  "at_period rb frame_time n s = note_time frame_time (noted rb n s)"

lemma noted_sel [simp]:
  "ringbuffer (noted rb n s) = ringbuffer s" "dataSize (noted rb n s) = dataSize s"
  "currentNumberOfChannels (noted rb n s) = currentNumberOfChannels s" "processBufferBytes (noted rb n s) = processBufferBytes s"
  by (simp_all add: noted_def)

lemma at_period_sel [simp]:
  "ringbuffer (at_period rb t n s) = ringbuffer s" "dataSize (at_period rb t n s) = dataSize s"
  "currentNumberOfChannels (at_period rb t n s) = currentNumberOfChannels s"
  "dataAmount (at_period rb t n s) = rb_read_space rb (ringbuffer s)"
  "processBuffer (at_period rb t n s) = processBuffer s" "processBufferBytes (at_period rb t n s) = processBufferBytes s"
  "jackBufferUnderrun (at_period rb t n s) = jackBufferUnderrun s" "doMeasure (at_period rb t n s) = doMeasure s"
  "meters_ok (at_period rb t n s) = meters_ok s" "format_ok (at_period rb t n s) = format_ok s"
  by (simp_all add: at_period_def noted_def note_time_def meters_ok_def format_ok_def)

lemma of_nat_unat_id: "of_nat (unat (x :: u64)) = x"
  using unat_u64_bound[of x] by (simp add: word_unat_eq_iff unat_of_nat_small del: unat_u64_bound)

lemma period_size:
  fixes n C :: u32
  assumes "unat C \<le> 40"
  shows "unat (ucast n * ucast C * 3 :: u64) = 3 * unat C * unat n"
proof -
  have "unat n * unat C \<le> 4294967296 * 40" using assms by (intro mult_le_mono) (simp_all add: less_imp_le)
  then have "unat n * unat C * 3 < 18446744073709551616" by linarith
  then have "(unat n * unat C * 3) mod 18446744073709551616 = unat n * unat C * 3" by (rule mod_less)
  then have "unat (ucast n * ucast C * 3 :: u64) = unat n * unat C * 3" by (simp add: unat_word_ariths mod_simps)
  then show ?thesis by (simp only: mult.commute mult.left_commute)
qed

lemma decoded_sample_f32: "\<bar>decoded_sample mem C ch f\<bar> \<le> 1" "f32 (decoded_sample mem C ch f) = decoded_sample mem C ch f"
proof -
  show "\<bar>decoded_sample mem C ch f\<bar> \<le> 1" using decoded_sample_range[of mem C ch f] by (simp only: abs_le_iff) linarith
  show "f32 (decoded_sample mem C ch f) = decoded_sample mem C ch f"
    unfolding decoded_sample_def sample24_to_float_def by (rule round_to_idem) simp
qed

text \<open>Decoding and metering a period that is in the process buffer.\<close>

lemma process_decode_run:
  assumes "port_buffers [0..<unat (currentNumberOfChannels s)] ports = Some (Some bufs)"
    "reac_decode_samples_to_channels (Some (processBuffer s)) bytes (ucast (currentNumberOfChannels s)) (ucast n)
      (Some (map Some bufs)) = Some (REAC_STATUS_OK, Some outs)"
    "(if doMeasure s then update_meters c_sqrt n (map the outs) s else Some s) = Some s'"
  shows "process_decode c_sqrt n bytes ports s =
    Some (s'\<lparr>jk_error := ERR_OK\<rparr>, map Some outs @ drop (unat (currentNumberOfChannels s)) ports)"
  by (simp only: process_decode_def Let_def assms bind.bind_lunit option.case prod.case simp_thms if_False)

lemma process_decode_spec:
  fixes s :: "'r jack_state" and n :: u32
  defines "C \<equiv> unat (currentNumberOfChannels s)"
  assumes ok: "meters_ok s" and c: "even C" "2 \<le> C" and ready: "ports_ready C (unat n) ports"
    and n: "(400 :: u32) * n \<noteq> 0" and bytes: "unat bytes = 3 * C * unat n" "unat bytes \<le> length (processBuffer s)"
  shows "\<exists>mr mp it cr cp. process_decode c_sqrt n bytes ports s =
      Some (s\<lparr>meterRMS := mr, meterPeak := mp, meterIteration := it, channelRMS := cr, channelPeak := cp, jk_error := ERR_OK\<rparr>,
            delivered (decoded_sample (processBuffer s) C) C (unat n) ports) \<and>
    meters_ok (s\<lparr>meterRMS := mr, meterPeak := mp, meterIteration := it, channelRMS := cr, channelPeak := cp\<rparr>) \<and>
    (doMeasure s \<longrightarrow> (\<forall>ch < C. cp ! ch \<le> 1 \<and> (\<forall>f < unat n. \<bar>decoded_sample (processBuffer s) C ch f\<bar> \<le> cp ! ch)))"
proof -
  let ?mem = "processBuffer s" and ?n = "unat n"
  define outs where "outs = map (\<lambda>ch. map (decoded_sample ?mem C ch) [0..<?n] @ drop ?n (port_buffer ports ch)) [0..<C]"
  have c40: "C \<le> 40" using ready by (simp add: ports_ready_def)
  have dec: "reac_decode_samples_to_channels (Some ?mem) bytes (ucast (currentNumberOfChannels s)) (ucast n)
      (Some (map Some (map (port_buffer ports) [0..<C]))) = Some (REAC_STATUS_OK, Some (map Some outs))"
    unfolding outs_def C_def by (rule decode_period) (use c ready bytes in \<open>simp_all add: C_def\<close>)
  have tk: "take ?n (outs ! ch) = map (decoded_sample ?mem C ch) [0..<?n]" if "ch < C" for ch using that by (simp add: outs_def)
  have ports: "map Some (map Some outs) @ drop C ports = delivered (decoded_sample ?mem C) C ?n ports"
    by (simp add: delivered_def outs_def)
  have the_outs: "map the (map Some outs) = outs" by (simp add: comp_def)
  note run = process_decode_run[OF port_buffers_ready[OF ready, unfolded C_def] dec [unfolded C_def],
      unfolded C_def [symmetric], unfolded the_outs ports, of c_sqrt]
  have "\<exists>mr mp it cr cp. (if doMeasure s then update_meters c_sqrt n outs s else Some s) =
      Some (s\<lparr>meterRMS := mr, meterPeak := mp, meterIteration := it, channelRMS := cr, channelPeak := cp\<rparr>) \<and>
    meters_ok (s\<lparr>meterRMS := mr, meterPeak := mp, meterIteration := it, channelRMS := cr, channelPeak := cp\<rparr>) \<and>
    (doMeasure s \<longrightarrow> (\<forall>ch < C. cp ! ch \<le> 1 \<and> (\<forall>x \<in> set (take ?n (outs ! ch)). \<bar>x\<bar> \<le> cp ! ch)))"
  proof (cases "doMeasure s")
    case True
    have "\<exists>mr mp it cr cp. update_meters c_sqrt n outs s =
        Some (s\<lparr>meterRMS := mr, meterPeak := mp, meterIteration := it, channelRMS := cr, channelPeak := cp\<rparr>) \<and>
      meters_ok (s\<lparr>meterRMS := mr, meterPeak := mp, meterIteration := it, channelRMS := cr, channelPeak := cp\<rparr>) \<and>
      (\<forall>ch < C. cp ! ch \<le> 1 \<and> (\<forall>x \<in> set (take ?n (outs ! ch)). \<bar>x\<bar> \<le> cp ! ch))"
      unfolding C_def
      by (rule update_meters_spec[OF ok _ _ _ n]; unfold C_def [symmetric])
        (use c40 in \<open>simp_all add: tk decoded_sample_f32\<close>, simp_all add: outs_def decoded_sample_f32)
    with True show ?thesis by simp
  next
    case False
    have "s = s\<lparr>meterRMS := meterRMS s, meterPeak := meterPeak s, meterIteration := meterIteration s,
        channelRMS := channelRMS s, channelPeak := channelPeak s\<rparr>" by simp
    with False ok show ?thesis by (metis (no_types))
  qed
  then obtain mr mp it cr cp where
    u: "(if doMeasure s then update_meters c_sqrt n outs s else Some s) =
      Some (s\<lparr>meterRMS := mr, meterPeak := mp, meterIteration := it, channelRMS := cr, channelPeak := cp\<rparr>)"
    "meters_ok (s\<lparr>meterRMS := mr, meterPeak := mp, meterIteration := it, channelRMS := cr, channelPeak := cp\<rparr>)"
    "doMeasure s \<longrightarrow> (\<forall>ch < C. cp ! ch \<le> 1 \<and> (\<forall>x \<in> set (take ?n (outs ! ch)). \<bar>x\<bar> \<le> cp ! ch))" by blast
  have "doMeasure s \<longrightarrow> (\<forall>ch < C. cp ! ch \<le> 1 \<and> (\<forall>f < ?n. \<bar>decoded_sample ?mem C ch f\<bar> \<le> cp ! ch))"
    using u(3) tk by simp
  with run[OF u(1)] u(2) show ?thesis by blast
qed

text \<open>The two outcomes of a period in a running stream.\<close>

lemma process_enough:
  fixes s :: "'r jack_state" and n :: u32
  assumes laws: "ringbuffer_laws rb content cap" and ok: "format_ok s" "dataSize s \<noteq> 0"
    and size: "3 * unat (currentNumberOfChannels s) * unat n \<le> unat (processBufferBytes s)"
      "length (processBuffer s) = unat (processBufferBytes s)"
    and enough: "3 * unat (currentNumberOfChannels s) * unat n \<le> length (content (ringbuffer s))"
  defines "k \<equiv> 3 * unat (currentNumberOfChannels s) * unat n"
  shows "\<exists>r bytes. process rb c_sqrt frame_time n ports s = process_decode c_sqrt n bytes ports
      ((at_period rb frame_time n s)\<lparr>ringbuffer := r, processBuffer := take k (content (ringbuffer s)) @ drop k (processBuffer s)\<rparr>) \<and>
    content r = drop k (content (ringbuffer s)) \<and> unat bytes = k"
proof -
  let ?C = "currentNumberOfChannels s"
  let ?b = "ucast n * ucast ?C * 3 :: u64" and ?s = "at_period rb frame_time n s"
  have c: "?C \<noteq> 0" "unat ?C \<le> 40" using ok by (auto simp: format_ok_def word_unat_eq_iff split: if_splits)
  have b: "unat ?b = k" using period_size[OF c(2), of n] by (simp only: k_def)
  have sp: "unat (rb_read_space rb (ringbuffer s)) = length (content (ringbuffer s))" using laws by (simp add: ringbuffer_laws_def)
  have g: "\<not> ?b > processBufferBytes s" "\<not> rb_read_space rb (ringbuffer s) < ?b"
    using size(1) enough b sp by (simp_all add: word_less_nat_alt not_less k_def)
  have kc: "k \<le> length (content (ringbuffer s))" using enough by (simp add: k_def)
  have "snd (rb_read rb (ringbuffer s) ?b) = take k (content (ringbuffer s))"
    "content (fst (rb_read rb (ringbuffer s) ?b)) = drop k (content (ringbuffer s))"
    using laws kc b unfolding ringbuffer_laws_def by metis+
  then obtain r where rd: "rb_read rb (ringbuffer s) ?b = (r, take k (content (ringbuffer s)))"
    "content r = drop k (content (ringbuffer s))" by (metis prod.collapse)
  have len: "length (take k (content (ringbuffer s))) = k" using kc by simp
  have cp: "memcpy (processBuffer s) 0 (take k (content (ringbuffer s))) 0 (length (take k (content (ringbuffer s)))) =
      Some (take k (content (ringbuffer s)) @ drop k (processBuffer s))"
    using size len by (subst memcpy_Some) (simp_all add: splice_def k_def)
  have ob: "of_nat (length (take k (content (ringbuffer s)))) = ?b" unfolding len using of_nat_unat_id[of ?b] b by simp
  have "process rb c_sqrt frame_time n ports s = process_decode c_sqrt n ?b ports
      (?s\<lparr>ringbuffer := r, processBuffer := take k (content (ringbuffer s)) @ drop k (processBuffer s)\<rparr>)"
    unfolding process_def Let_def noted_def [symmetric] at_period_def [symmetric]
    by (simp only: at_period_sel noted_sel c(1) ok(2) g rd cp ob simp_thms if_False prod.case bind.bind_lunit)
  with rd(2) b show ?thesis by blast
qed

lemma process_starved:
  fixes s :: "'r jack_state" and n :: u32
  assumes laws: "ringbuffer_laws rb content cap" and ok: "format_ok s" "dataSize s \<noteq> 0"
    and size: "3 * unat (currentNumberOfChannels s) * unat n \<le> unat (processBufferBytes s)"
    and short: "length (content (ringbuffer s)) < 3 * unat (currentNumberOfChannels s) * unat n"
  shows "process rb c_sqrt frame_time n ports s = process_silence n (currentNumberOfChannels s) ports
      ((at_period rb frame_time n s)\<lparr>jackBufferUnderrun := jackBufferUnderrun s + 1, processStartTime := ucast frame_time,
        receivedPackages := of_nat (length (content (ringbuffer s)) div (3 * unat (currentNumberOfChannels s)))\<rparr>)"
proof -
  let ?C = "currentNumberOfChannels s"
  let ?b = "ucast n * ucast ?C * 3 :: u64" and ?s = "at_period rb frame_time n s"
  have c: "?C \<noteq> 0" "unat ?C \<le> 40" using ok by (auto simp: format_ok_def word_unat_eq_iff split: if_splits)
  have b: "unat ?b = 3 * unat ?C * unat n" by (rule period_size[OF c(2)])
  have sp: "unat (rb_read_space rb (ringbuffer s)) = length (content (ringbuffer s))" using laws by (simp add: ringbuffer_laws_def)
  have g: "\<not> ?b > processBufferBytes s" "rb_read_space rb (ringbuffer s) < ?b"
    using size short b sp by (simp_all add: word_less_nat_alt not_less)
  have "unat (3 * ?C) = 3 * unat ?C" using c(2) by (simp add: unat_word_ariths)
  then have "unat (rb_read_space rb (ringbuffer s) div ucast (3 * ?C)) = length (content (ringbuffer s)) div (3 * unat ?C)"
    by (simp add: unat_div sp)
  then have d: "rb_read_space rb (ringbuffer s) div ucast (3 * ?C) = of_nat (length (content (ringbuffer s)) div (3 * unat ?C))"
    by (metis of_nat_unat_id)
  show ?thesis
    unfolding process_def Let_def noted_def [symmetric] at_period_def [symmetric]
    by (simp only: at_period_sel noted_sel c(1) ok(2) g d simp_thms if_False if_True)
qed

lemma jack_process_run:
  fixes s :: "'r jack_state" and n :: u32
  assumes laws: "ringbuffer_laws rb content cap" and ok: "bridge_ok s" "dataSize s \<noteq> 0"
    and C: "C = unat (currentNumberOfChannels s)" and size: "3 * C * unat n \<le> unat (processBufferBytes s)"
    and enough: "3 * C * unat n \<le> length (content (ringbuffer s))" and n: "(400 :: u32) * n \<noteq> 0"
    and ready: "ports_ready C (unat n) ports"
  shows "\<exists>s'. process rb c_sqrt frame_time n ports s =
      Some (s', delivered (decoded_sample (content (ringbuffer s)) C) C (unat n) ports) \<and> bridge_ok s' \<and>
    content (ringbuffer s') = drop (3 * C * unat n) (content (ringbuffer s)) \<and> jk_error s' = ERR_OK \<and>
    jackBufferUnderrun s' = jackBufferUnderrun s \<and>
    (doMeasure s \<longrightarrow> (\<forall>ch < C. channelPeak s' ! ch \<le> 1 \<and>
       (\<forall>f < unat n. \<bar>decoded_sample (content (ringbuffer s)) C ch f\<bar> \<le> channelPeak s' ! ch)))"
proof -
  let ?k = "3 * C * unat n"
  let ?mem = "take ?k (content (ringbuffer s)) @ drop ?k (processBuffer s)"
  have f: "format_ok s" "meters_ok s" "length (processBuffer s) = unat (processBufferBytes s)"
    using ok(1) by (simp_all add: bridge_ok_def)
  have c: "even C" "2 \<le> C" using f(1) ok(2) by (simp_all add: format_ok_def C)
  from process_enough[OF laws f(1) ok(2) size [unfolded C] f(3) enough [unfolded C]] obtain r bytes where
    run: "process rb c_sqrt frame_time n ports s = process_decode c_sqrt n bytes ports
      ((at_period rb frame_time n s)\<lparr>ringbuffer := r, processBuffer := ?mem\<rparr>)"
    and r: "content r = drop ?k (content (ringbuffer s))" "unat bytes = ?k" unfolding C by blast
  define s1 where "s1 = (at_period rb frame_time n s)\<lparr>ringbuffer := r, processBuffer := ?mem\<rparr>"
  have sel: "currentNumberOfChannels s1 = currentNumberOfChannels s" "processBuffer s1 = ?mem" "meters_ok s1" "format_ok s1"
    "doMeasure s1 = doMeasure s" "processBufferBytes s1 = processBufferBytes s" "ringbuffer s1 = r" "dataSize s1 = dataSize s"
    "jackBufferUnderrun s1 = jackBufferUnderrun s"
    using f(1,2) by (simp_all add: s1_def)
  have len: "length ?mem = unat (processBufferBytes s)" using f(3) size enough by simp
  have b: "unat bytes = 3 * unat (currentNumberOfChannels s1) * unat n" "unat bytes \<le> length (processBuffer s1)"
    using r(2) len size unfolding sel(1,2) by (simp_all add: C)
  have ready1: "ports_ready (unat (currentNumberOfChannels s1)) (unat n) ports" using ready by (simp add: sel(1) C)
  have c1: "even (unat (currentNumberOfChannels s1))" "2 \<le> unat (currentNumberOfChannels s1)" using c by (simp_all add: sel(1) C)
  have samp: "decoded_sample ?mem C ch f = decoded_sample (content (ringbuffer s)) C ch f" if "ch < C" "f < unat n" for ch f
    by (rule decoded_sample_prefix[OF c(1) that]) (use enough in simp)
  then have ports: "delivered (decoded_sample ?mem C) C (unat n) ports = delivered (decoded_sample (content (ringbuffer s)) C) C (unat n) ports"
    by (simp add: delivered_def)
  from process_decode_spec[OF sel(3) c1 ready1 n b, of c_sqrt, unfolded sel(1,2,5) C [symmetric]] obtain mr mp it cr cp where
    d: "process_decode c_sqrt n bytes ports s1 = Some (s1\<lparr>meterRMS := mr, meterPeak := mp, meterIteration := it,
        channelRMS := cr, channelPeak := cp, jk_error := ERR_OK\<rparr>, delivered (decoded_sample ?mem C) C (unat n) ports)"
      "meters_ok (s1\<lparr>meterRMS := mr, meterPeak := mp, meterIteration := it, channelRMS := cr, channelPeak := cp\<rparr>)"
      "doMeasure s \<longrightarrow> (\<forall>ch < C. cp ! ch \<le> 1 \<and> (\<forall>f < unat n. \<bar>decoded_sample ?mem C ch f\<bar> \<le> cp ! ch))" by blast
  let ?s = "s1\<lparr>meterRMS := mr, meterPeak := mp, meterIteration := it, channelRMS := cr, channelPeak := cp, jk_error := ERR_OK\<rparr>"
  have "bridge_ok ?s"
    using d(2) f(1) len by (simp add: bridge_ok_def format_ok_def meters_ok_def sel)
  moreover have "process rb c_sqrt frame_time n ports s =
      Some (?s, delivered (decoded_sample (content (ringbuffer s)) C) C (unat n) ports)"
    using run d(1) ports by (simp only: s1_def)
  moreover have "doMeasure s \<longrightarrow> (\<forall>ch < C. cp ! ch \<le> 1 \<and>
      (\<forall>f < unat n. \<bar>decoded_sample (content (ringbuffer s)) C ch f\<bar> \<le> cp ! ch))" using d(3) samp by simp
  ultimately show ?thesis using r(1) sel by (intro exI [of _ ?s]) simp
qed

section \<open>Properties\<close>

text \<open>C24. A period that the ring covers is delivered: each port in use gets the decoded samples of its
  channel from the oldest frames of the ring, in order, and the rest of its buffer is left
  alone; exactly these frames leave the ring; no underrun is counted; and when metering is on,
  the peak of a channel is at most full scale and no delivered sample exceeds it.\<close>

theorem jack_process_delivers:
  fixes s :: "'r jack_state" and n :: u32
  assumes laws: "ringbuffer_laws rb content cap" and ok: "bridge_ok s" "dataSize s \<noteq> 0"
    and C: "C = unat (currentNumberOfChannels s)" and size: "3 * C * unat n \<le> unat (processBufferBytes s)"
    and enough: "3 * C * unat n \<le> length (content (ringbuffer s))" and n: "(400 :: u32) * n \<noteq> 0"
    and ready: "ports_ready C (unat n) ports"
  shows "\<exists>s'. process rb c_sqrt frame_time n ports s =
      Some (s', delivered (decoded_sample (content (ringbuffer s)) C) C (unat n) ports) \<and> bridge_ok s' \<and>
    content (ringbuffer s') = drop (3 * C * unat n) (content (ringbuffer s)) \<and> jk_error s' = ERR_OK \<and>
    jackBufferUnderrun s' = jackBufferUnderrun s \<and>
    (doMeasure s \<longrightarrow> (\<forall>ch < C. channelPeak s' ! ch \<le> 1 \<and>
       (\<forall>f < unat n. \<bar>decoded_sample (content (ringbuffer s)) C ch f\<bar> \<le> channelPeak s' ! ch)))"
  using jack_process_run[OF assms] .

lemma fresh_bridge_meters: "meters_ok fresh_bridge"
  unfolding meters_ok_def fresh_bridge_def by simp

definition playing_bridge :: "u8 list jack_state" where
  "playing_bridge = fresh_bridge\<lparr>dataSize := 72, currentNumberOfChannels := 2, ringbuffer := replicate 72 0\<rparr>"

lemma playing_bridge_ok: "bridge_ok playing_bridge" "dataSize playing_bridge \<noteq> 0" "currentNumberOfChannels playing_bridge = 2"
  "unat (processBufferBytes playing_bridge) = 7680" "length (take 131071 (ringbuffer playing_bridge)) = 72"
  "jackBufferUnderrun playing_bridge = 0"
proof -
  have "meters_ok playing_bridge" using fresh_bridge_meters by (simp add: playing_bridge_def meters_ok_def)
  then show "bridge_ok playing_bridge" by (simp add: bridge_ok_def format_ok_def playing_bridge_def fresh_bridge_def)
qed (simp_all add: playing_bridge_def fresh_bridge_def)

definition jack_ports :: "port list" where
  "jack_ports = replicate 40 (Some (Some (replicate 64 1)))"

lemma jack_ports_ok: "ports_ready 2 8 jack_ports" "length jack_ports = 40" "list_all (port_fits 64) jack_ports"
  by (simp_all add: jack_ports_def ports_ready_def port_fits_def list_all_length)

theorem jack_process_delivers_witness:
  "\<exists>s' ports. process (list_ringbuffer 131071) id 1000 8 jack_ports playing_bridge = Some (s', ports) \<and>
     length (take 131071 (ringbuffer s')) = 24 \<and> jk_error s' = ERR_OK"
proof -
  have l: "ringbuffer_laws (list_ringbuffer 131071) (take 131071) 131071" by (intro list_ringbuffer_laws) simp
  have C: "2 = unat (currentNumberOfChannels playing_bridge)" by (simp add: playing_bridge_ok)
  have s: "3 * 2 * unat (8 :: u32) \<le> unat (processBufferBytes playing_bridge)" by (simp add: playing_bridge_ok)
  have e: "3 * 2 * unat (8 :: u32) \<le> length (take 131071 (ringbuffer playing_bridge))" unfolding playing_bridge_ok(5) by simp
  have n: "(400 :: u32) * 8 \<noteq> 0" by simp
  have r: "ports_ready 2 (unat (8 :: u32)) jack_ports" using jack_ports_ok(1) by simp
  from jack_process_delivers[OF l playing_bridge_ok(1,2) C s e n r, of id 1000] obtain s' ports where
    p: "process (list_ringbuffer 131071) id 1000 8 jack_ports playing_bridge = Some (s', ports)"
    "take 131071 (ringbuffer s') = drop (3 * 2 * unat (8 :: u32)) (take 131071 (ringbuffer playing_bridge))" "jk_error s' = ERR_OK"
    by blast
  have "length (take 131071 (ringbuffer s')) = 24" unfolding p(2) length_drop playing_bridge_ok(5) by simp
  with p show ?thesis by blast
qed

text \<open>C25. Otherwise the bridge plays silence and keeps the audio: before the first packet, for a period larger
  than the process buffer, and for a period that the ring does not cover, every port in use that
  has a buffer is filled with zeros, nothing is taken from the ring, and an underrun is counted
  unless the stream has not begun.\<close>

theorem jack_process_silence:
  fixes s :: "'r jack_state" and n :: u32
  assumes laws: "ringbuffer_laws rb content cap" and ok: "format_ok s" and C: "C = unat (currentNumberOfChannels s)"
    and ports: "length ports = 40" "list_all (port_fits (unat n)) ports"
    and why: "dataSize s = 0 \<or> unat (processBufferBytes s) < 3 * C * unat n \<or> length (content (ringbuffer s)) < 3 * C * unat n"
  defines "L \<equiv> if dataSize s = 0 then 40 else C"
  shows "\<exists>s'. process rb c_sqrt frame_time n ports s = Some (s', map (silenced (unat n)) (take L ports) @ drop L ports) \<and>
    format_ok s' \<and> ringbuffer s' = ringbuffer s \<and>
    jackBufferUnderrun s' = jackBufferUnderrun s + (if dataSize s = 0 then 0 else 1)"
proof -
  have sil: "process_silence n c ports t = Some (t, map (silenced (unat n)) (take (silence_limit c) ports) @ drop (silence_limit c) ports)"
    for c and t :: "'r jack_state" using silence_outputs_spec[OF ports, of c] by (simp add: process_silence_def)
  show ?thesis
  proof (cases "dataSize s = 0")
    case True
    have "silence_limit 40 = 40" by (simp add: silence_limit_def)
    moreover have "process rb c_sqrt frame_time n ports s = process_silence n 40 ports (noted rb n s)"
      unfolding process_def Let_def noted_def [symmetric] using True by simp
    ultimately show ?thesis using sil[of 40 "noted rb n s"] True ok
      by (simp add: L_def noted_def format_ok_def)
  next
    case False
    then have c: "C \<le> 40" "2 \<le> C" "currentNumberOfChannels s \<noteq> 0" using ok by (auto simp: format_ok_def C split: if_splits)
    then have lim: "silence_limit (currentNumberOfChannels s) = C"
      by (auto simp: silence_limit_def C word_less_nat_alt)
    show ?thesis
    proof (cases "unat (processBufferBytes s) < 3 * C * unat n")
      case True
      have "processBufferBytes s < ucast n * ucast (currentNumberOfChannels s) * 3"
        using period_size[of "currentNumberOfChannels s" n] c(1) True by (simp add: word_less_nat_alt C)
      then have "process rb c_sqrt frame_time n ports s = process_silence n (currentNumberOfChannels s) ports
          ((noted rb n s)\<lparr>jk_error := ERR_JACK_BUFFER_TOO_LARGE, jackBufferUnderrun := jackBufferUnderrun (noted rb n s) + 1\<rparr>)"
        unfolding process_def Let_def noted_def [symmetric] using False c(3) by simp
      with sil lim False ok show ?thesis by (simp add: L_def noted_def format_ok_def)
    next
      case size: False
      then have sz: "3 * unat (currentNumberOfChannels s) * unat n \<le> unat (processBufferBytes s)"
        "length (content (ringbuffer s)) < 3 * unat (currentNumberOfChannels s) * unat n" using why False by (simp_all add: C)
      from process_starved[OF laws ok False sz] sil lim False ok show ?thesis
        by (simp add: L_def at_period_def noted_def note_time_def format_ok_def)
    qed
  qed
qed

theorem jack_process_silence_witness:
  "\<exists>s'. process (list_ringbuffer 131071) id 1000 64 jack_ports playing_bridge =
     Some (s', map (silenced 64) (take 2 jack_ports) @ drop 2 jack_ports) \<and> jackBufferUnderrun s' = 1"
proof -
  have l: "ringbuffer_laws (list_ringbuffer 131071) (take 131071) 131071" by (intro list_ringbuffer_laws) simp
  have f: "format_ok playing_bridge" using playing_bridge_ok(1) by (simp add: bridge_ok_def)
  have C: "2 = unat (currentNumberOfChannels playing_bridge)" by (simp add: playing_bridge_ok)
  have p: "list_all (port_fits (unat (64 :: u32))) jack_ports" using jack_ports_ok(3) by simp
  have "length (take 131071 (ringbuffer playing_bridge)) < 3 * 2 * unat (64 :: u32)" unfolding playing_bridge_ok(5) by simp
  then have why: "dataSize playing_bridge = 0 \<or> unat (processBufferBytes playing_bridge) < 3 * 2 * unat (64 :: u32) \<or>
    length (take 131071 (ringbuffer playing_bridge)) < 3 * 2 * unat (64 :: u32)" by blast
  from jack_process_silence[OF l f C jack_ports_ok(2) p why, of id 1000] playing_bridge_ok(2,6) show ?thesis by auto
qed

text \<open>
  After an underrun the number of received packages is set to the number of frames in the ring,
  not of packages of twelve frames; \<open>process\<close> multiplies it by the duration of a package.
\<close>

theorem jack_underrun_counts_frames:
  fixes s :: "'r jack_state" and n :: u32
  assumes "ringbuffer_laws rb content cap" "format_ok s" "dataSize s \<noteq> 0" "length ports = 40" "list_all (port_fits (unat n)) ports"
    "3 * unat (currentNumberOfChannels s) * unat n \<le> unat (processBufferBytes s)"
    "length (content (ringbuffer s)) < 3 * unat (currentNumberOfChannels s) * unat n"
    "length (content (ringbuffer s)) = p * unat (dataSize s)"
  shows "\<exists>s' ports'. process rb c_sqrt frame_time n ports s = Some (s', ports') \<and> receivedPackages s' = of_nat (12 * p)"
proof -
  have "unat (dataSize s) = 36 * unat (currentNumberOfChannels s)" "0 < unat (currentNumberOfChannels s)"
    using assms(2,3) by (simp_all add: format_ok_def)
  then have "length (content (ringbuffer s)) = (12 * p) * (3 * unat (currentNumberOfChannels s))" using assms(8) by simp
  then have "length (content (ringbuffer s)) div (3 * unat (currentNumberOfChannels s)) = 12 * p"
    using \<open>0 < unat (currentNumberOfChannels s)\<close> by (simp only:) simp
  with process_starved[OF assms(1-3,6,7)] silence_outputs_spec[OF assms(4,5)] show ?thesis
    by (simp add: process_silence_def)
qed

section \<open>The stream as a whole\<close>

fun copy_frames :: "'r ringbuffer_ops \<Rightarrow> u8 list list \<Rightarrow> 'r jack_state \<Rightarrow> 'r jack_state option" where
  "copy_frames rb [] s = Some s"
| "copy_frames rb (d # ds) s = copy_frame rb d (int (length d)) s \<bind> copy_frames rb ds"

lemma copy_frames_append: "copy_frames rb (xs @ ys) s = copy_frames rb xs s \<bind> copy_frames rb ys"
proof (induction xs arbitrary: s)
  case (Cons x xs)
  then show ?case by (cases "copy_frame rb x (int (length x)) s") simp_all
qed simp

lemma copy_stream:
  assumes laws: "ringbuffer_laws rb content cap" and C: "even C" "0 < C" "C \<le> 40" and s: "bridge_ok s" "dataSize s = 0"
    "content (ringbuffer s) = []" and fits: "36 * C * P \<le> cap"
  shows "\<exists>s'. copy_frames rb (map (stream_packet pcm C) [0..<P]) s = Some s' \<and> bridge_ok s' \<and>
    processBufferBytes s' = processBufferBytes s \<and> content (ringbuffer s') = encode_payload pcm C (12 * P) \<and>
    (0 < P \<longrightarrow> unat (dataSize s') = 36 * C \<and> unat (currentNumberOfChannels s') = C) \<and> (P = 0 \<longrightarrow> dataSize s' = 0)"
  using fits
proof (induction P)
  case 0
  then show ?case using s by (simp add: bridge_ok_def encode_payload_def)
next
  case (Suc P)
  have "36 * C * P \<le> cap" using Suc.prems by simp
  from Suc.IH[OF this] obtain s1 where s1: "copy_frames rb (map (stream_packet pcm C) [0..<P]) s = Some s1"
    and ok1: "bridge_ok s1" "processBufferBytes s1 = processBufferBytes s"
    and c1: "content (ringbuffer s1) = encode_payload pcm C (12 * P)"
    and d1: "0 < P \<longrightarrow> unat (dataSize s1) = 36 * C" "P = 0 \<longrightarrow> dataSize s1 = 0" by blast
  have f1: "format_ok s1" using ok1(1) by (simp add: bridge_ok_def)
  note v = stream_packet_view[OF C, of pcm P]
  from v(1) obtain view where view: "reac_parse_packet (Some (stream_packet pcm C P))
      (word_of_int (int (length (stream_packet pcm C P)))) (Some empty_view) = Some (REAC_STATUS_OK, Some view)"
    "unat (pv_channels view) = C" by blast
  have fmt: "dataSize s1 = 0 \<or> unat (dataSize s1) = 36 * unat (pv_channels view)" using d1 view(2) by (cases "P = 0") simp_all
  from copy_frame_good[OF laws f1 _ _ v(3) view(1) fmt] obtain s2 where
    s2: "copy_frame rb (stream_packet pcm C P) (int (length (stream_packet pcm C P))) s1 = Some s2" "format_ok s2"
      "packet_effect content cap view (stream_packet pcm C P) s1 s2" "same_process s1 s2" by auto
  have len: "length (encode_payload pcm C (12 * P)) = 36 * C * P"
    unfolding length_encode_payload using C(1) by (elim evenE) simp
  have "length (content (ringbuffer s1)) + 36 * C \<le> cap" unfolding c1 len using Suc.prems by simp
  then have e: "content (ringbuffer s2) = encode_payload pcm C (12 * P) @ encode_payload (\<lambda>ch f. pcm ch (12 * P + f)) C 12"
    "unat (dataSize s2) = 36 * C" "unat (currentNumberOfChannels s2) = C"
    using s2(3) unfolding packet_effect_def Let_def view(2) v(2) c1 by simp_all
  have "12 * Suc P = 12 * P + 12" by simp
  then have "content (ringbuffer s2) = encode_payload pcm C (12 * Suc P)"
    unfolding e(1) by (simp only: encode_payload_add)
  moreover have "bridge_ok s2" "processBufferBytes s2 = processBufferBytes s"
    using s2(2,4) ok1 by (simp_all add: bridge_ok_def same_process_def meters_ok_def)
  moreover have "copy_frames rb (map (stream_packet pcm C) [0..<Suc P]) s = Some s2"
    using s1 s2(1) by (simp add: copy_frames_append)
  ultimately show ?case using e(2,3) by (intro exI [of _ s2]) (simp only: simp_thms zero_less_Suc nat.simps)
qed

text \<open>C10. From the wire to the ports without loss: whatever 24 bit audio a sender packs into consecutive
  packets, the bridge that receives them into an empty ring with room for them and then plays a
  period of at most the frames received puts exactly these samples, divided by \<open>2\<^sup>2\<^sup>3\<close>, into
  the ports, channel by channel and frame by frame, also across packet boundaries.\<close>

theorem jack_wire_to_ports:
  fixes n :: u32 and s :: "'r jack_state"
  assumes laws: "ringbuffer_laws rb content cap" and C: "even C" "0 < C" "C \<le> 40"
    and s: "bridge_ok s" "dataSize s = 0" "content (ringbuffer s) = []"
    and fits: "36 * C * P \<le> cap" and pcm: "pcm_in_range pcm C (12 * P)"
    and n: "(400 :: u32) * n \<noteq> 0" "unat n \<le> 12 * P" "3 * C * unat n \<le> unat (processBufferBytes s)"
    and ready: "ports_ready C (unat n) ports"
  shows "\<exists>s1 s2. copy_frames rb (map (stream_packet pcm C) [0..<P]) s = Some s1 \<and>
    process rb c_sqrt frame_time n ports s1 = Some (s2, delivered (\<lambda>ch f. of_int (pcm ch f) / 8388608) C (unat n) ports) \<and>
    content (ringbuffer s2) = drop (3 * C * unat n) (encode_payload pcm C (12 * P))"
proof -
  have "n \<noteq> 0" using n(1) by auto
  then have "0 < unat n" by (simp add: unat_gt_0)
  then have P: "0 < P" using n(2) by auto
  from copy_stream[OF laws C s fits, of pcm] P obtain s1 where
    s1: "copy_frames rb (map (stream_packet pcm C) [0..<P]) s = Some s1" "bridge_ok s1" "processBufferBytes s1 = processBufferBytes s"
      "content (ringbuffer s1) = encode_payload pcm C (12 * P)" "unat (dataSize s1) = 36 * C" "C = unat (currentNumberOfChannels s1)"
    by auto
  have d: "dataSize s1 \<noteq> 0" using s1(5) C(2) by auto
  have "length (encode_payload pcm C (12 * P)) = 3 * C * (12 * P)"
    unfolding length_encode_payload using C(1) by (elim evenE) simp
  then have e: "3 * C * unat n \<le> length (content (ringbuffer s1))" unfolding s1(4) using n(2) by (simp only: mult_le_mono2)
  have sz: "3 * C * unat n \<le> unat (processBufferBytes s1)" using n(3) s1(3) by simp
  have samp: "decoded_sample (content (ringbuffer s1)) C ch f = of_int (pcm ch f) / 8388608" if "ch < C" "f < unat n" for ch f
    unfolding s1(4) using decoded_sample_encoded[OF C(1) that(1) less_le_trans[OF that(2) n(2)] pcm, of "[]"] by simp
  have "delivered (decoded_sample (content (ringbuffer s1)) C) C (unat n) ports =
      delivered (\<lambda>ch f. of_int (pcm ch f) / 8388608) C (unat n) ports"
    using samp by (simp add: delivered_def)
  with jack_process_run[OF laws s1(2) d s1(6) sz e n(1) ready, of c_sqrt frame_time] s1(1,4) show ?thesis by auto
qed

theorem jack_wire_to_ports_witness:
  "\<exists>s1 s2. copy_frames (list_ringbuffer 131071) (map (stream_packet (\<lambda>ch f. int f - int ch) 2) [0..<3]) fresh_bridge = Some s1 \<and>
    process (list_ringbuffer 131071) id 1000 16 jack_ports s1 =
      Some (s2, delivered (\<lambda>ch f. of_int (int f - int ch) / 8388608) 2 16 jack_ports)"
proof -
  have l: "ringbuffer_laws (list_ringbuffer 131071) (take 131071) 131071" by (intro list_ringbuffer_laws) simp
  have ok: "bridge_ok fresh_bridge" using fresh_bridge_meters fresh_bridge_ok(1) by (simp add: bridge_ok_def fresh_bridge_def)
  have p: "pcm_in_range (\<lambda>ch f. int f - int ch) 2 (12 * 3)" by (auto simp: pcm_in_range_def)
  have b: "3 * 2 * unat (16 :: u32) \<le> unat (processBufferBytes fresh_bridge)" by (simp add: fresh_bridge_def)
  have r: "ports_ready 2 (unat (16 :: u32)) jack_ports" by (simp add: jack_ports_def ports_ready_def)
  have e: "take 131071 (ringbuffer fresh_bridge) = []" by (simp add: fresh_bridge_ok(4))
  from jack_wire_to_ports[OF l _ _ _ ok fresh_bridge_ok(3) e _ p _ _ b r, of id 1000] show ?thesis
    by (auto simp del: upt_rec_numeral copy_frames.simps)
qed

end
