(* ===== verification/JackMain.thy ===== *)
theory JackMain
  imports JackProcess
begin

text \<open>
  The main program of the JACK bridge around its capture thread and its process callback: the
  initial values of the file scope variables, what \<open>main\<close> sets up before it activates the client,
  the choice of the interface, and the resources on every exit path.  The setup establishes the invariant
  under which the callback and the capture thread are proved correct.
\<close>

section \<open>Initial state\<close>

text \<open>\<open>slots\<close> are the slots of the packet ring as the kernel hands them over, \<open>ring\<close> the new byte ring.\<close>

definition jack_initial :: "rx_slot list \<Rightarrow> 'r \<Rightarrow> 'r jack_state" where
  "jack_initial slots ring =
     \<lparr>isRunning = True, lostPackages = 0, netBufferUnderrun = 0, jackBufferUnderrun = 0, nonREAC = 0, malformedPackets = 0,
      captureErrors = 0, ringbuffer = ring, dataSize = 0, processBuffer = [], processBufferBytes = 0,
      currentNumberOfChannels = 0, sampleRate = 48000, currentSamplesPerPeriod = 0, jk_error = ERR_OK, active_marks = [],
      doMeasure = True, lastTS = 0, lastJackTime = 0, receivedPackages = 0, processStartTime = 0, lastCounter = 0,
      haveLastCounter = False, packetTime = f32 (f32 12000 / 48000), spaceAmount = 0, dataAmount = 0,
      channelRMS = replicate NUMBER_OF_CHANNELS 0, channelPeak = replicate NUMBER_OF_CHANNELS 0,
      meterRMS = replicate (NUMBER_OF_CHANNELS * METER_ITERATIONS) 0,
      meterPeak = replicate (NUMBER_OF_CHANNELS * METER_ITERATIONS) 0, meterIteration = 0,
      rx_ring = slots, rxring_offset = 0\<rparr>"

text \<open>The arguments: any of them may switch the meters off.\<close>

definition jack_arguments :: "string list \<Rightarrow> 'r jack_state \<Rightarrow> 'r jack_state" where
  "jack_arguments args s = (if ''-silent'' \<in> set args then s\<lparr>doMeasure := False\<rparr> else s)"

text \<open>The state in which \<open>main\<close> activates the client.\<close>

definition jack_setup :: "string list \<Rightarrow> u32 \<Rightarrow> u32 \<Rightarrow> rx_slot list \<Rightarrow> 'r \<Rightarrow> 'r jack_state" where
  "jack_setup args rate frames slots ring = setup_buffers rate frames (jack_arguments args (jack_initial slots ring))"

lemma jack_initial_invariant: "length slots = 128 \<Longrightarrow> bridge_ok (jack_initial slots ring) \<and> rx_ok (jack_initial slots ring)"
  by (simp add: jack_initial_def bridge_ok_def format_ok_def meters_ok_def rx_ok_def)

lemma jack_arguments_invariant: "bridge_ok (jack_arguments args s) = bridge_ok s" "rx_ok (jack_arguments args s) = rx_ok s"
  by (simp_all add: jack_arguments_def bridge_ok_def format_ok_def meters_ok_def rx_ok_def)

lemma period_bytes: "unat (ucast (n :: u32) * of_nat 40 * 3 :: u64) = 120 * unat n"
  using period_size[of 40 n] by simp

text \<open>C40. Setup: whatever the arguments and whatever rate and period the server reports, the client is
  activated with the format unset, the meters cleared and inside their arrays, and a process buffer
  that holds a period of any supported number of channels without a wrap-around of its size, so that
  the invariant of the callback and of the capture thread holds from the start.  The reset two
  seconds later keeps it.\<close>

theorem jack_setup_ready:
  assumes "length slots = 128" and s: "s = jack_setup args rate frames slots ring"
  shows "bridge_ok s \<and> rx_ok s \<and> dataSize s = 0 \<and> doMeasure s = (''-silent'' \<notin> set args) \<and>
    (\<forall>C n. C \<le> 40 \<and> n \<le> unat frames \<longrightarrow> 3 * C * n \<le> unat (processBufferBytes s)) \<and>
    bridge_ok (reset_counters rb s) \<and> rx_ok (reset_counters rb s)"
proof -
  define s0 where "s0 = jack_arguments args (jack_initial slots ring)"
  have s0: "bridge_ok s0" "rx_ok s0"
    using jack_initial_invariant[OF assms(1), of ring] by (simp_all add: s0_def jack_arguments_invariant)
  have s0': "dataSize s0 = 0" "doMeasure s0 = (''-silent'' \<notin> set args)"
    by (simp_all add: s0_def jack_arguments_def jack_initial_def)
  have s1: "s = setup_buffers rate frames s0" by (simp add: s jack_setup_def s0_def)
  have b: "unat (processBufferBytes s) = 120 * unat frames"
    by (simp add: s1 setup_buffers_def Let_def period_bytes del: of_nat_numeral)
  have "3 * C * n \<le> 120 * unat frames" if "C \<le> 40" "n \<le> unat frames" for C n
    using mult_le_mono[of "3 * C" 120 n "unat frames"] that by simp
  moreover have "bridge_ok s" "rx_ok s" using s0
    by (simp_all add: s1 setup_buffers_def Let_def bridge_ok_def rx_ok_def format_ok_def meters_ok_def)
  ultimately show ?thesis using s0' b
    by (simp add: s1 setup_buffers_def reset_counters_def Let_def bridge_ok_def rx_ok_def format_ok_def meters_ok_def)
qed

theorem jack_setup_ready_witness:
  "let s = jack_setup [''-silent''] 48000 128 (replicate 128 \<lparr>slot_user = False, slot_copy = False, slot_len = 0, slot_frame = []\<rparr>) ([] :: u8 list)
   in bridge_ok s \<and> rx_ok s \<and> \<not> doMeasure s \<and> 3 * 40 * 128 \<le> unat (processBufferBytes s)"
proof -
  note r = jack_setup_ready[OF _ refl, where slots = "replicate 128 \<lparr>slot_user = False, slot_copy = False, slot_len = 0, slot_frame = []\<rparr>"
        and args = "[''-silent'']" and rate = 48000 and frames = 128 and ring = "[]" and rb = "list_ringbuffer 131071"]
  then have "\<And>C n. C \<le> 40 \<and> n \<le> unat (128 :: u32) \<longrightarrow> 3 * C * n \<le> unat (processBufferBytes
      (jack_setup [''-silent''] 48000 128 (replicate 128 \<lparr>slot_user = False, slot_copy = False, slot_len = 0, slot_frame = []\<rparr>) ([] :: u8 list)))"
    by simp
  from this[of 40 128] r show ?thesis by (simp add: Let_def)
qed

section \<open>Choice of the interface, and exit paths\<close>

theorem chooseInterfaces_selects:
  "chooseInterfaces (Some ifs) (Some k) 16 =
     (if 1 \<le> k \<and> k \<le> int (length (shown_interfaces ifs))
      then Some (take 15 (shown_interfaces ifs ! nat (k - 1))) else None)"
  using find_interface_nth[of 0 k ifs] by (auto simp: chooseInterfaces_def Let_def)

definition activated :: "jack_env \<Rightarrow> bool" where
  "activated env \<longleftrightarrow> chooseInterfaces (j_interfaces env) (j_input env) 16 \<noteq> None \<and> j_socket env \<and> j_rx_ring env \<and>
     j_mmap env \<and> j_ifindex env \<and> j_bind env \<and> j_client env \<and> list_all id (j_ports env) \<and> j_malloc env \<and>
     j_ringbuffer env \<and> j_activate env"

text \<open>C38. Exit paths of \<open>main\<close>: whichever call fails, the program ends with status 1 and nothing of the
  socket, the mapped packet ring, the client, the process buffer and the byte ring is left; after a
  full run it ends with status 0 and the same holds.  One path has no defined outcome: when the
  capture thread cannot be created, the uninitialised thread handle is joined.\<close>

theorem jack_main_releases:
  "jack_main env =
     (if \<not> activated env then Some (1, []) else if j_thread env then Some (0, []) else None)"
proof (cases "chooseInterfaces (j_interfaces env) (j_input env) 16")
  case None
  then show ?thesis by (simp add: jack_main_def activated_def)
next
  case (Some interface)
  have "jack_capture_open env =
      (if j_socket env \<and> j_rx_ring env \<and> j_mmap env then (j_ifindex env \<and> j_bind env, [PacketRing, PacketSocket]) else (False, []))"
    by (simp add: jack_capture_open_def init_packetsock_def init_packetsock_ring_def)
  with Some show ?thesis by (simp add: jack_main_def jack_shutdown_def activated_def jack_capture_close_def Let_def)
qed

end
