(* ===== verification/TextBuffer.thy ===== *)
theory TextBuffer
  imports FloatModel ReacPrelude
begin

text \<open>
  Formatted text: the conversions of \<open>printf\<close> that the programs use, and a text that is built up in a
  buffer of fixed size by \<open>offset += snprintf (values + offset, sizeof (values) - offset, ...)\<close>, where
  \<open>snprintf\<close> cuts the text to the size but returns its whole length.
\<close>

section \<open>Conversions\<close>

abbreviation NUL :: char where "NUL \<equiv> CHR 0x00"

definition digit :: "nat \<Rightarrow> char" where
  "digit d = ''0123456789'' ! d"

fun decimal :: "nat \<Rightarrow> string" where
  "decimal n = (if n < 10 then [digit n] else decimal (n div 10) @ [digit (n mod 10)])"

declare decimal.simps [simp del]

definition show_signed :: "int \<Rightarrow> string" where
  "show_signed i = (if i < 0 then ''-'' else []) @ decimal (nat \<bar>i\<bar>)"

text \<open>\<open>%.kf\<close>: rounded to \<open>k\<close> decimals, to even when two are equally near.\<close>

definition show_fixed :: "nat \<Rightarrow> rat \<Rightarrow> string" where
  "show_fixed k x =
     (let n = nat (round_half_even (\<bar>x\<bar> * 10 ^ k))
      in (if x < 0 then ''-'' else []) @ decimal (n div 10 ^ k) @ ''.'' @ tl (decimal (10 ^ k + n mod 10 ^ k)))"

lemma show_examples:
  "decimal 0 = ''0''" "decimal 48000 = ''48000''" "show_signed (- 5) = ''-5''"
  "show_fixed 3 (1 / 4) = ''0.250''" "show_fixed 1 (- 61 / 20) = ''-3.0''" "show_fixed 1 (- 120) = ''-120.0''"
proof -
  have "round_half_even (61 / 2) = 30" by code_simp
  then show "decimal 0 = ''0''" "decimal 48000 = ''48000''" "show_signed (- 5) = ''-5''"
    "show_fixed 3 (1 / 4) = ''0.250''" "show_fixed 1 (- 61 / 20) = ''-3.0''" "show_fixed 1 (- 120) = ''-120.0''"
    by (simp_all add: decimal.simps digit_def show_signed_def show_fixed_def round_half_even_of_int[of "250", simplified]
        round_half_even_of_int[of "1200", simplified])
qed

text \<open>A string of C ends before its first null character.\<close>

definition c_string :: "string \<Rightarrow> string" where
  "c_string s = takeWhile (\<lambda>c. c \<noteq> NUL) s"

lemma c_string_plain: "NUL \<notin> set s \<Longrightarrow> c_string s = s"
  unfolding c_string_def takeWhile_eq_all_conv by auto

lemma c_string_ends: "NUL \<notin> set s \<Longrightarrow> c_string (s @ NUL # t) = s"
  unfolding c_string_def by (subst takeWhile_append2) auto

lemma digit_not_NUL: assumes "d < 10" shows "digit d \<noteq> NUL"
proof -
  have "''0123456789'' ! d \<in> set ''0123456789''" using assms by (intro nth_mem) simp
  moreover have "NUL \<notin> set ''0123456789''" by simp
  ultimately show ?thesis unfolding digit_def by metis
qed

lemma decimal_no_NUL [simp]: "NUL \<notin> set (decimal n)"
proof (induction n rule: decimal.induct)
  case (1 n)
  show ?case by (subst decimal.simps) (use 1 digit_not_NUL[of n] digit_not_NUL[of "n mod 10"] in auto)
qed

lemma length_decimal: "n < 10 ^ Suc k \<Longrightarrow> length (decimal n) \<le> Suc k"
proof (induction k arbitrary: n)
  case (Suc k)
  then have "n div 10 < 10 ^ Suc k" by (simp add: div_less_iff_less_mult)
  with Suc.IH show ?case by (subst decimal.simps) auto
qed (simp add: decimal.simps)

lemma show_no_NUL [simp]: "NUL \<notin> set (show_signed i)" "NUL \<notin> set (show_fixed k x)"
proof -
  have "NUL \<notin> set (tl (decimal n))" for n using decimal_no_NUL[of n] by (cases "decimal n") simp_all
  then show "NUL \<notin> set (show_signed i)" "NUL \<notin> set (show_fixed k x)" by (simp_all add: show_signed_def show_fixed_def Let_def)
qed

lemma length_show_signed: "\<bar>i\<bar> < 10 ^ Suc k \<Longrightarrow> length (show_signed i) \<le> k + 2"
  using length_decimal[of "nat \<bar>i\<bar>" k] by (cases "i < 0") (simp_all add: show_signed_def nat_less_iff del: power_Suc)

lemma length_show_fixed:
  assumes "\<bar>x\<bar> \<le> 10 ^ m" shows "length (show_fixed k x) \<le> m + k + 3"
proof -
  define n where "n = nat (round_half_even (\<bar>x\<bar> * 10 ^ k))"
  have "round_half_even (\<bar>x\<bar> * 10 ^ k) \<le> round_half_even (of_int (10 ^ m * 10 ^ k))"
    using assms by (intro round_half_even_mono) (simp add: mult_right_mono)
  then have "n \<le> 10 ^ m * 10 ^ k" unfolding n_def round_half_even_of_int by (simp add: nat_le_iff)
  then have "n div 10 ^ k \<le> 10 ^ m" using div_le_mono[of n "10 ^ m * 10 ^ k" "10 ^ k"] by simp
  then have "n div 10 ^ k < 10 ^ Suc m" by (rule le_less_trans) simp
  from length_decimal[OF this] have "length (decimal (n div 10 ^ k)) \<le> m + 1" by simp
  moreover have "n mod 10 ^ k < 10 ^ k" by simp
  then have "10 ^ k + n mod 10 ^ k < 10 ^ Suc k" unfolding power_Suc by linarith
  from length_decimal[OF this] have "length (decimal (10 ^ k + n mod 10 ^ k)) \<le> k + 1" by simp
  ultimately show ?thesis unfolding show_fixed_def n_def[symmetric] Let_def by (cases "x < 0") simp_all
qed

section \<open>The buffer\<close>

text \<open>\<open>snprintf buf pos n text\<close> writes at the pointer \<open>buf + pos\<close>.\<close>

definition snprintf :: "string \<Rightarrow> nat \<Rightarrow> u64 \<Rightarrow> string \<Rightarrow> string option" where
  "snprintf buf pos n text =
     (if n = 0 then Some buf
      else let out = take (unat n - 1) text @ [NUL]
           in if pos + length out \<le> length buf then Some (splice buf pos out) else None)"

text \<open>
  The size is computed in 64 bits and wraps when the offset is too large; a pointer behind the end of
  the buffer and an overflow of the offset, an \<open>int\<close>, are undefined.
\<close>

definition append_text :: "nat \<Rightarrow> string \<Rightarrow> string \<times> int \<Rightarrow> (string \<times> int) option" where
  "append_text room text vo =
     (case vo of (values, offset) \<Rightarrow>
        if offset < 0 \<or> int room < offset then None
        else do {
          values \<leftarrow> snprintf values (nat offset) (of_nat room - word_of_int offset) text;
          let offset = offset + int (length text)
          in if offset < 2 ^ 31 then Some (values, offset) else None })"

text \<open>While the offset is inside the buffer, the text is appended and cut; the buffer then ends with a null.\<close>

lemma append_text_cuts:
  assumes "length values = room" "length done < room" "room < 2 ^ 31" "take (length done) values = done"
    "length done + length text < 2 ^ 31"
  shows "\<exists>values' rest. append_text room text (values, int (length done)) = Some (values', int (length (done @ text))) \<and>
    length values' = room \<and> values' = take (room - 1) (done @ text) @ NUL # rest"
proof -
  let ?k = "length done" and ?size = "of_nat room - word_of_int (int (length done)) :: u64"
  have "?size = of_nat (room - ?k)" using assms(2) by (simp add: of_nat_diff)
  then have size: "unat ?size = room - ?k" using assms(3) by (simp add: unat_of_nat_small)
  then have nz: "?size \<noteq> 0" using assms(2) by (auto simp: word_unat_eq_iff)
  define out where "out = take (room - ?k - 1) text @ [NUL]"
  have fits: "?k + length out \<le> length values" using assms(1,2) by (auto simp: out_def)
  have "snprintf values ?k ?size text = Some (splice values ?k out)"
    using nz fits unfolding snprintf_def size out_def Let_def by simp
  then have "append_text room text (values, int ?k) = Some (splice values ?k out, int (length (done @ text)))"
    using assms(2,5) by (simp add: append_text_def)
  moreover have "splice values ?k out = take (room - 1) (done @ text) @ NUL # drop (?k + length out) values"
    using assms(2,4) by (simp add: splice_def out_def diff_commute)
  moreover have "length (splice values ?k out) = room" using fits assms(1) by simp
  ultimately show ?thesis by blast
qed

end
