(* ===== verification/JackScreen.thy ===== *)
theory JackScreen
  imports JackMain TextBuffer
begin

text \<open>
  The status screen of the JACK bridge \<open>src/reacjack.c\<close>: each round of the display loop of \<open>main\<close> builds a text in
  a buffer of 8192 bytes, first the time and the counters, then one line for each channel, and prints
  it.  Only the start of a line checks that the buffer is not full.
\<close>

section \<open>The texts\<close>

abbreviation newline :: string where "newline \<equiv> [CHR 0x0A]"
abbreviation tab :: string where "tab \<equiv> [CHR 0x09]"
abbreviation escape :: string where "escape \<equiv> [CHR 0x1B]"

fun error_code :: "ReacError \<Rightarrow> int" where
  "error_code ERR_OK = 0"
| "error_code ERR_CAPTURE = - 1"
| "error_code ERR_RING_READ = - 2"
| "error_code ERR_SHORT_PACKET = - 3"
| "error_code ERR_BAD_PACKET_SIZE = - 4"
| "error_code ERR_TOO_MANY_CHANNELS = - 5"
| "error_code ERR_JACK_BUFFER_TOO_LARGE = - 6"
| "error_code ERR_JACK_PORT = - 7"

definition show_long :: "u64 \<Rightarrow> string" where
  "show_long w = show_signed (sint w)"

definition status_text :: "'r jack_state \<Rightarrow> string" where
  "status_text s =
     newline @ ''** REAC, error: '' @ show_signed (error_code (jk_error s)) @ '' **'' @ newline @
     ''channels: '' @ decimal (unat (currentNumberOfChannels s)) @ '', s.p.f. = '' @ decimal (unat (currentSamplesPerPeriod s)) @ newline @
     ''lost packages: '' @ show_long (lostPackages s) @ newline @
     ''underrun, net: '' @ show_long (netBufferUnderrun s) @ '', jack: '' @ show_long (jackBufferUnderrun s) @ newline @
     ''malformed: '' @ show_long (malformedPackets s) @ '', capture errors: '' @ show_long (captureErrors s) @ newline @
     ''Non REAC: '' @ show_long (nonREAC s) @ newline @
     ''Last ts: '' @ show_fixed 3 (lastTS s) @ '' ms'' @ newline @
     ''Jack time: '' @ show_fixed 3 (lastJackTime s) @ '' ms -> diff = '' @ show_fixed 3 (f32 (lastTS s - lastJackTime s)) @ '' ms'' @ newline @
     newline @ ''Space: |'' @ decimal (unat (spaceAmount s)) @ ''|'' @ newline @ ''Data: '' @ decimal (unat (dataAmount s)) @ newline"

definition heading_text :: "string \<Rightarrow> string" where
  "heading_text active =
     newline @ ''Active: |'' @ c_string active @ ''|'' @ newline @ newline @
     tab @ ''RMS'' @ tab @ ''PEAK'' @ tab @ ''DYN'' @ tab @ ''(in db)'' @ newline"

fun level_text :: "int \<times> rat \<Rightarrow> string" where
  "level_text (colour, db) = escape @ ''[1;'' @ show_signed colour @ ''m'' @ show_fixed 1 db @ escape @ ''[4;0m''"

fun line_text :: "meter_line \<Rightarrow> string" where
  "line_text (IdleLine n) = decimal n @ newline"
| "line_text (ActiveLine n rms peak dyn) =
     decimal n @ tab @ level_text rms @ tab @ level_text peak @ tab @ show_fixed 1 dyn @ newline"

section \<open>A round of the display loop\<close>

fun display_channels ::
  "(rat \<Rightarrow> rat) \<Rightarrow> 'r jack_state \<Rightarrow> nat list \<Rightarrow> string \<Rightarrow> string \<times> int \<Rightarrow> (string \<times> string \<times> int) option" where
  "display_channels log10f s [] active vo = Some (active, vo)"
| "display_channels log10f s (ch # chs) active (values, offset) =
     (if offset < 8192
      then do { (active, line) \<leftarrow> display_channel log10f s ch active;
                vo \<leftarrow> append_text 8192 (line_text line) (values, offset);
                display_channels log10f s chs active vo }
      else Some (active, values, offset))"

text \<open>
  \<open>time_text\<close> is what \<open>strftime\<close> makes of the local time, \<^term>\<open>None\<close> when \<open>localtime\<close> fails; a text that
  does not fit leaves the buffer as it may be.
\<close>

definition time_in_buffer :: "string option \<Rightarrow> string \<Rightarrow> string \<times> int" where
  "time_in_buffer time_text values =
     (case time_text of
        None \<Rightarrow> (values, 0)
      | Some t \<Rightarrow> if length t < 8192 then (splice values 0 (t @ [NUL]), int (length t)) else (values, 0))"

text \<open>The result is the new state and the text that is printed, up to the first null of the buffer.\<close>

definition display_screen ::
  "(rat \<Rightarrow> rat) \<Rightarrow> string option \<Rightarrow> 'r jack_state \<Rightarrow> string \<Rightarrow> ('r jack_state \<times> string) option" where
  "display_screen log10f time_text s values =
     do { (values, offset) \<leftarrow> append_text 8192 (status_text s) (time_in_buffer time_text values);
          (active, values, offset) \<leftarrow>
            (if doMeasure s \<and> offset < 8192
             then do { vo \<leftarrow> append_text 8192 (heading_text (active_marks s)) (values, offset);
                       display_channels log10f s [0..<unat (currentNumberOfChannels s)] (active_marks s) vo }
             else Some (active_marks s, values, offset));
          if NUL \<in> set values then Some (s\<lparr>active_marks := active\<rparr>, escape @ ''[2J'' @ c_string values) else None }"

section \<open>What a round shows\<close>

definition quiet :: "(rat \<Rightarrow> rat) \<Rightarrow> 'r jack_state \<Rightarrow> nat \<Rightarrow> bool" where
  "quiet log10f s ch \<longleftrightarrow> sample_to_db log10f (channelRMS s ! ch) < - 80"

definition shown_line :: "(rat \<Rightarrow> rat) \<Rightarrow> 'r jack_state \<Rightarrow> nat \<Rightarrow> meter_line" where
  "shown_line log10f s ch =
     (let r = sample_to_db log10f (channelRMS s ! ch); p = sample_to_db log10f (channelPeak s ! ch)
      in if quiet log10f s ch then IdleLine (ch + 1)
         else ActiveLine (ch + 1) (level_colour r, r) (level_colour p, p) (f32 (p - r)))"

lemma display_channel_spec:
  assumes "length (channelRMS s) = 40" "length (channelPeak s) = 40" "length marks = 40" "ch < 40"
  shows "display_channel log10f s ch marks =
    Some (marks[ch := (if quiet log10f s ch then CHR ''_'' else CHR ''*'')], shown_line log10f s ch)"
  using assms by (simp add: display_channel_def rd_def wr_def shown_line_def quiet_def Let_def)

text \<open>The whole text of a round, and the marks after the first \<open>k\<close> channels.\<close>

definition mark_of :: "(rat \<Rightarrow> rat) \<Rightarrow> 'r jack_state \<Rightarrow> nat \<Rightarrow> char" where
  "mark_of log10f s ch = (if quiet log10f s ch then CHR ''_'' else CHR ''*'')"

definition marks_after :: "(rat \<Rightarrow> rat) \<Rightarrow> 'r jack_state \<Rightarrow> nat \<Rightarrow> string" where
  "marks_after log10f s k = map (mark_of log10f s) [0..<k] @ drop k (active_marks s)"

definition shown_time :: "string option \<Rightarrow> string" where
  "shown_time time_text = (case time_text of None \<Rightarrow> [] | Some t \<Rightarrow> if length t < 8192 then t else [])"

definition lines_from :: "(rat \<Rightarrow> rat) \<Rightarrow> 'r jack_state \<Rightarrow> nat \<Rightarrow> nat \<Rightarrow> string" where
  "lines_from log10f s k C = concat (map (\<lambda>ch. line_text (shown_line log10f s ch)) [k..<C])"

definition screen_text :: "(rat \<Rightarrow> rat) \<Rightarrow> string option \<Rightarrow> 'r jack_state \<Rightarrow> string" where
  "screen_text log10f time_text s =
     shown_time time_text @ status_text s @
     (if doMeasure s then heading_text (active_marks s) @ lines_from log10f s 0 (unat (currentNumberOfChannels s)) else [])"

text \<open>A buffer that shows a text, cut to its size.\<close>

definition shows_text :: "string \<Rightarrow> string \<times> int \<Rightarrow> bool" where
  "shows_text full vo \<longleftrightarrow>
     length (fst vo) = 8192 \<and> snd vo = int (length full) \<and> (\<exists>rest. fst vo = take 8191 full @ NUL # rest)"

lemma append_shows:
  assumes "shows_text full (values, offset)" "offset < 8192" "length (full @ text) < 2 ^ 31"
  shows "\<exists>vo. append_text 8192 text (values, offset) = Some vo \<and> shows_text (full @ text) vo"
proof -
  have o: "offset = int (length full)" "length full < 8192" "length values = 8192" using assms(1,2) by (auto simp: shows_text_def)
  then have "take (length full) values = full" using assms(1) by (auto simp: shows_text_def)
  with append_text_cuts[of "values" 8192 full "text"] o assms(3) show ?thesis by (auto simp: shows_text_def)
qed

text \<open>What has been cut stays cut.\<close>

lemma shows_more: "shows_text full vo \<Longrightarrow> \<not> snd vo < 8192 \<Longrightarrow> \<exists>rest. fst vo = take 8191 (full @ later) @ NUL # rest"
  by (auto simp: shows_text_def)

lemma marks_after_simps:
  "marks_after log10f s 0 = active_marks s"
  "k \<le> length (active_marks s) \<Longrightarrow> length (marks_after log10f s k) = length (active_marks s)"
  "k < length (active_marks s) \<Longrightarrow> marks_after log10f s (Suc k) = (marks_after log10f s k)[k := mark_of log10f s k]"
  by (simp_all add: marks_after_def list_update_append Cons_nth_drop_Suc[symmetric])

lemma lines_from_simps:
  "lines_from log10f s C C = []"
  "k < C \<Longrightarrow> lines_from log10f s k C = line_text (shown_line log10f s k) @ lines_from log10f s (Suc k) C"
  by (simp_all add: lines_from_def upt_conv_Cons)

lemma display_channels_spec:
  assumes s: "length (channelRMS s) = 40" "length (channelPeak s) = 40" "C \<le> 40" "0 < C \<Longrightarrow> length (active_marks s) = 40"
    and "shows_text full (values, offset)" "k \<le> C" "length (full @ lines_from log10f s k C) < 2 ^ 31"
  shows "\<exists>j values' offset' rest. k \<le> j \<and> j \<le> C \<and>
    display_channels log10f s [k..<C] (marks_after log10f s k) (values, offset) = Some (marks_after log10f s j, values', offset') \<and>
    values' = take 8191 (full @ lines_from log10f s k C) @ NUL # rest \<and>
    (length (full @ lines_from log10f s k C) < 8192 \<longrightarrow> j = C)"
  using assms(5-)
proof (induction "C - k" arbitrary: k full "values" offset)
  case 0
  then show ?case by (auto simp: shows_text_def lines_from_simps)
next
  case (Suc n)
  then have k: "k < C" "[k..<C] = k # [Suc k..<C]" by (auto simp: upt_conv_Cons)
  let ?line = "line_text (shown_line log10f s k)"
  note more = lines_from_simps(2)[OF k(1), of log10f s]
  show ?case
  proof (cases "offset < 8192")
    case True
    have "length (full @ ?line) < 2 ^ 31" using Suc.prems(3) by (simp add: more)
    from append_shows[OF Suc.prems(1) True this] obtain values1 offset1 where
      v: "append_text 8192 ?line (values, offset) = Some (values1, offset1)" "shows_text (full @ ?line) (values1, offset1)" by fastforce
    have "n = C - Suc k" "Suc k \<le> C" "length ((full @ ?line) @ lines_from log10f s (Suc k) C) < 2 ^ 31"
      using Suc.hyps(2) k(1) Suc.prems(3) by (simp_all add: more)
    from Suc.hyps(1)[OF this(1) v(2) this(2,3)] obtain j values' offset' rest where
      j: "Suc k \<le> j" "j \<le> C" "display_channels log10f s [Suc k..<C] (marks_after log10f s (Suc k)) (values1, offset1) =
        Some (marks_after log10f s j, values', offset')" "values' = take 8191 (full @ lines_from log10f s k C) @ NUL # rest"
        "length (full @ lines_from log10f s k C) < 8192 \<longrightarrow> j = C" by (auto simp: more)
    have a: "length (active_marks s) = 40" "k < 40" using s(3,4) k(1) by auto
    have "display_channel log10f s k (marks_after log10f s k) = Some (marks_after log10f s (Suc k), shown_line log10f s k)"
      using display_channel_spec[OF s(1,2) _ a(2), of "marks_after log10f s k"] a by (simp add: marks_after_simps mark_of_def)
    then have "display_channels log10f s [k..<C] (marks_after log10f s k) (values, offset) = Some (marks_after log10f s j, values', offset')"
      using True v(1) j(3) by (simp add: k(2))
    with j show ?thesis by (intro exI[of _ j]) auto
  next
    case False
    with Suc.prems(1) have "8192 \<le> length full" by (simp add: shows_text_def)
    with shows_more[OF Suc.prems(1), of "lines_from log10f s k C"] False show ?thesis
      by (intro exI[of _ k]) (use k in auto)
  qed
qed

lemma c_string_no_NUL [simp]: "NUL \<notin> set (c_string a)"
  by (auto simp: c_string_def dest: set_takeWhileD)

lemma screen_texts_no_NUL:
  "NUL \<notin> set (status_text s)" "NUL \<notin> set (heading_text active)" "NUL \<notin> set (line_text line)"
proof -
  show "NUL \<notin> set (status_text s)" unfolding status_text_def show_long_def by simp
  show "NUL \<notin> set (heading_text active)" unfolding heading_text_def by simp
  have "NUL \<notin> set (level_text x)" for x by (cases x) simp
  then show "NUL \<notin> set (line_text line)" by (cases line) simp_all
qed

lemma screen_text_no_NUL:
  assumes "\<forall>t. time_text = Some t \<longrightarrow> NUL \<notin> set t" shows "NUL \<notin> set (screen_text log10f time_text s)"
  using assms by (auto simp: screen_text_def shown_time_def lines_from_def screen_texts_no_NUL split: option.splits if_splits)

lemma time_shown:
  assumes "length values = 8192" "length (shown_time time_text @ text) < 2 ^ 31"
  shows "\<exists>vo. append_text 8192 text (time_in_buffer time_text values) = Some vo \<and> shows_text (shown_time time_text @ text) vo"
proof -
  obtain vs offset where t: "time_in_buffer time_text values = (vs, offset)" by fastforce
  then have "length vs = 8192" "offset = int (length (shown_time time_text))" "length (shown_time time_text) < 8192"
    "take (length (shown_time time_text)) vs = shown_time time_text"
    using assms(1) by (auto simp: time_in_buffer_def shown_time_def splice_def split: option.splits if_splits)
  with append_text_cuts[of vs 8192 "shown_time time_text" "text"] assms(2) t show ?thesis by (auto simp: shows_text_def)
qed

text \<open>Finite \<open>float\<close> values are below \<open>10\<^sup>3\<^sup>9\<close>, and levels in dB below a thousand: then nothing is cut.\<close>

lemma length_show_long: "length (show_long w) \<le> 20"
proof -
  have "- (2 ^ 63) \<le> sint w \<and> sint w < 2 ^ 63" using sint_ge[of w] sint_lt[of w] by simp
  then have "\<bar>sint w\<bar> < 10 ^ Suc 18" by (simp add: abs_less_iff)
  from length_show_signed[OF this] show ?thesis by (simp add: show_long_def)
qed

lemma length_decimal_word:
  "length (decimal (unat (w :: u32))) \<le> 10" "length (decimal (unat (v :: u64))) \<le> 20"
proof -
  have "unat w < 10 ^ Suc 9" "unat v < 10 ^ Suc 19" by (rule less_le_trans[OF unat_u32_bound], simp) (rule less_le_trans[OF unat_u64_bound], simp)
  from this[THEN length_decimal] show "length (decimal (unat w)) \<le> 10" "length (decimal (unat v)) \<le> 20" by simp_all
qed

definition finite_float :: "rat \<Rightarrow> bool" where
  "finite_float x \<longleftrightarrow> \<bar>x\<bar> \<le> 10 ^ 39"

lemma length_status_text:
  assumes "finite_float (lastTS s)" "finite_float (lastJackTime s)" "finite_float (f32 (lastTS s - lastJackTime s))"
  shows "length (status_text s) \<le> 600"
proof -
  have e: "length (show_signed (error_code (jk_error s))) \<le> 2" by (cases "jk_error s") (simp_all add: show_signed_def decimal.simps)
  note f = assms[unfolded finite_float_def, THEN length_show_fixed, of 3]
  show ?thesis
    using e f length_decimal_word(1)[of "currentNumberOfChannels s"] length_decimal_word(1)[of "currentSamplesPerPeriod s"]
      length_decimal_word(2)[of "spaceAmount s"] length_decimal_word(2)[of "dataAmount s"]
      length_show_long[of "lostPackages s"] length_show_long[of "netBufferUnderrun s"] length_show_long[of "jackBufferUnderrun s"]
      length_show_long[of "malformedPackets s"] length_show_long[of "captureErrors s"] length_show_long[of "nonREAC s"]
    by (simp add: status_text_def)
qed

definition small_level :: "(rat \<Rightarrow> rat) \<Rightarrow> 'r jack_state \<Rightarrow> nat \<Rightarrow> bool" where
  "small_level log10f s ch \<longleftrightarrow>
     (let r = sample_to_db log10f (channelRMS s ! ch); p = sample_to_db log10f (channelPeak s ! ch)
      in \<bar>r\<bar> \<le> 10 ^ 3 \<and> \<bar>p\<bar> \<le> 10 ^ 3 \<and> \<bar>f32 (p - r)\<bar> \<le> 10 ^ 4)"

lemma length_line_text:
  assumes "small_level log10f s ch" "ch < 40"
  shows "length (line_text (shown_line log10f s ch)) \<le> 100"
proof -
  have d: "length (decimal (ch + 1)) \<le> 2" using length_decimal[of "ch + 1" 1] assms(2) by simp
  have l: "length (level_text (level_colour db, db)) \<le> 30" if "\<bar>db\<bar> \<le> 10 ^ 3" for db
  proof -
    have "\<bar>level_colour db\<bar> < 10 ^ Suc 1" by (simp add: level_colour_def)
    from length_show_signed[OF this] length_show_fixed[OF that, of 1] show ?thesis by simp
  qed
  let ?r = "sample_to_db log10f (channelRMS s ! ch)" and ?p = "sample_to_db log10f (channelPeak s ! ch)"
  have "length (level_text (level_colour ?r, ?r)) \<le> 30" "length (level_text (level_colour ?p, ?p)) \<le> 30"
    "length (show_fixed 1 (f32 (?p - ?r))) \<le> 8"
    using assms(1) l length_show_fixed[of "f32 (?p - ?r)" 4 1] by (auto simp: small_level_def Let_def)
  then show ?thesis using d by (auto simp: shown_line_def Let_def)
qed

theorem jack_screen_fits:
  assumes "\<forall>t. time_text = Some t \<longrightarrow> length t \<le> 100" "length (active_marks s) \<le> 40" "unat (currentNumberOfChannels s) \<le> 40"
    "finite_float (lastTS s)" "finite_float (lastJackTime s)" "finite_float (f32 (lastTS s - lastJackTime s))"
    "\<forall>ch < unat (currentNumberOfChannels s). small_level log10f s ch"
  shows "length (screen_text log10f time_text s) < 8192"
proof -
  let ?C = "unat (currentNumberOfChannels s)"
  have "length (lines_from log10f s 0 ?C) \<le> 100 * ?C"
  proof -
    have "length (concat (map (\<lambda>ch. line_text (shown_line log10f s ch)) [0..<n])) \<le> 100 * n" if "n \<le> ?C" for n
      using that
    proof (induction n)
      case (Suc n)
      then have "length (line_text (shown_line log10f s n)) \<le> 100" using assms(3,7) by (intro length_line_text) auto
      with Suc show ?case by simp
    qed simp
    then show ?thesis by (simp add: lines_from_def)
  qed
  moreover have "length (c_string (active_marks s)) \<le> 40"
    using assms(2) length_takeWhile_le[of "\<lambda>c. c \<noteq> NUL" "active_marks s"] by (simp add: c_string_def)
  then have "length (heading_text (active_marks s)) \<le> 100" by (simp add: heading_text_def)
  moreover have "length (shown_time time_text) \<le> 100" using assms(1) by (auto simp: shown_time_def split: option.splits)
  moreover note length_status_text[OF assms(4-6)]
  ultimately show ?thesis using assms(3) by (simp add: screen_text_def)
qed

section \<open>Properties\<close>

text \<open>C31. The status screen stays inside its buffer: whatever the values and however long their texts, no
  text is written outside the 8192 bytes, although nothing but the check at the start of each line
  keeps the computed size from wrapping around.  What is printed is the
  time, the counters, and, unless the meters are off, the marks of the round before and a line for each channel, cut
  to 8191 characters; when that is not cut, all channels have new marks, a star for those at or above -80 dB.\<close>

theorem jack_screen_in_buffer:
  fixes s :: "'r jack_state"
  defines "C \<equiv> unat (currentNumberOfChannels s)"
  assumes "bridge_ok s" "C = 0 \<or> length (active_marks s) = 40" "length values = 8192"
    "\<forall>t. time_text = Some t \<longrightarrow> NUL \<notin> set t" "length (screen_text log10f time_text s) < 2 ^ 31"
  shows "\<exists>k \<le> C. display_screen log10f time_text s values =
      Some (s\<lparr>active_marks := marks_after log10f s k\<rparr>, escape @ ''[2J'' @ take 8191 (screen_text log10f time_text s)) \<and>
    (doMeasure s \<and> length (screen_text log10f time_text s) < 8192 \<longrightarrow> k = C)"
proof -
  let ?done = "shown_time time_text @ status_text s" and ?all = "screen_text log10f time_text s"
  let ?head = "heading_text (active_marks s)"
  have b: "length (channelRMS s) = 40" "length (channelPeak s) = 40" "C \<le> 40" "0 < C \<Longrightarrow> length (active_marks s) = 40"
    using assms(2,3) by (auto simp: C_def bridge_ok_def format_ok_def meters_ok_def split: if_splits)
  have plain: "NUL \<notin> set (take 8191 ?all)" using screen_text_no_NUL[OF assms(5)] by (meson in_set_takeD)
  have all: "?all = ?done @ (if doMeasure s then ?head @ lines_from log10f s 0 C else [])" by (simp add: screen_text_def C_def)
  then have "length ?done < 2 ^ 31" using assms(6) by simp
  from time_shown[OF assms(4) this] obtain v1 o1 where
    v1: "append_text 8192 (status_text s) (time_in_buffer time_text values) = Some (v1, o1)" "shows_text ?done (v1, o1)" by fastforce
  show ?thesis
  proof (cases "doMeasure s \<and> o1 < 8192")
    case True
    have "length (?done @ ?head) < 2 ^ 31" using assms(6) True by (simp add: all)
    from append_shows[OF v1(2) _ this] True obtain v2 o2 where
      v2: "append_text 8192 ?head (v1, o1) = Some (v2, o2)" "shows_text (?done @ ?head) (v2, o2)" by fastforce
    have "length ((?done @ ?head) @ lines_from log10f s 0 C) < 2 ^ 31" using assms(6) True by (simp add: all)
    from display_channels_spec[OF b v2(2) _ this] obtain j v3 o3 rest where
      r: "j \<le> C" "display_channels log10f s [0..<C] (active_marks s) (v2, o2) = Some (marks_after log10f s j, v3, o3)"
        "v3 = take 8191 ?all @ NUL # rest" "length ?all < 8192 \<longrightarrow> j = C"
      using True by (auto simp: all marks_after_simps)
    then show ?thesis using v1(1) v2(1) True c_string_ends[OF plain]
      by (intro exI[of _ j]) (simp add: display_screen_def C_def)
  next
    case False
    have "\<exists>rest. v1 = take 8191 ?all @ NUL # rest"
      using shows_more[OF v1(2), of "?head @ lines_from log10f s 0 C"] v1(2) False by (auto simp: all shows_text_def)
    moreover have "doMeasure s \<longrightarrow> \<not> length ?all < 8192" using False v1(2) by (auto simp: all shows_text_def)
    ultimately show ?thesis using v1(1) False c_string_ends[OF plain]
      by (intro exI[of _ 0]) (auto simp: display_screen_def marks_after_simps)
  qed
qed

text \<open>Two channels, of which the second plays at full scale.\<close>

definition shown_bridge :: "u8 list jack_state" where
  "shown_bridge = playing_bridge\<lparr>active_marks := replicate 40 CHR ''_'', channelRMS := (channelRMS playing_bridge)[1 := 1],
     channelPeak := (channelPeak playing_bridge)[1 := 1], lastTS := 1 / 4\<rparr>"

lemma shown_bridge_facts:
  "bridge_ok shown_bridge" "currentNumberOfChannels shown_bridge = 2" "doMeasure shown_bridge" "active_marks shown_bridge = replicate 40 CHR ''_''"
  "sample_to_db (\<lambda>x. 0) (channelRMS shown_bridge ! 0) = - 120" "sample_to_db (\<lambda>x. 0) (channelRMS shown_bridge ! 1) = 0"
  "sample_to_db (\<lambda>x. 0) (channelPeak shown_bridge ! 0) = - 120" "sample_to_db (\<lambda>x. 0) (channelPeak shown_bridge ! 1) = 0"
proof -
  show "bridge_ok shown_bridge" "currentNumberOfChannels shown_bridge = 2"
    using playing_bridge_ok by (simp_all add: shown_bridge_def bridge_ok_def format_ok_def meters_ok_def)
  show "doMeasure shown_bridge" "active_marks shown_bridge = replicate 40 CHR ''_''"
    by (simp_all add: shown_bridge_def playing_bridge_def fresh_bridge_def)
  have "f32 (1 / 10000000) < 1" "0 \<le> f32 (1 / 10000000)" "f32 0 = 0" by code_simp+
  then show "sample_to_db (\<lambda>x. 0) (channelRMS shown_bridge ! 0) = - 120" "sample_to_db (\<lambda>x. 0) (channelRMS shown_bridge ! 1) = 0"
    "sample_to_db (\<lambda>x. 0) (channelPeak shown_bridge ! 0) = - 120" "sample_to_db (\<lambda>x. 0) (channelPeak shown_bridge ! 1) = 0"
    by (simp_all add: shown_bridge_def playing_bridge_def fresh_bridge_def sample_to_db_def)
qed

lemma shown_lines:
  "lines_from (\<lambda>x. 0) shown_bridge 0 2 =
     ''1'' @ newline @ ''2'' @ tab @ escape @ ''[1;31m0.0'' @ escape @ ''[4;0m'' @ tab @ escape @ ''[1;31m0.0'' @ escape @ ''[4;0m'' @ tab @ ''0.0'' @ newline"
proof -
  have "f32 0 = 0" by code_simp
  then have "shown_line (\<lambda>x. 0) shown_bridge 0 = IdleLine 1" "shown_line (\<lambda>x. 0) shown_bridge 1 = ActiveLine 2 (31, 0) (31, 0) 0"
    using shown_bridge_facts by (simp_all add: shown_line_def quiet_def level_colour_def Let_def)
  moreover have "show_fixed 1 0 = ''0.0''" "show_signed 31 = ''31''" "decimal 1 = ''1''" "decimal 2 = ''2''" by code_simp+
  ultimately show ?thesis by (simp add: lines_from_def upt_rec)
qed

lemma jack_screen_in_buffer_witness:
  "\<exists>before. display_screen (\<lambda>x. 0) (Some (''2026:01:02 03:04:05'' @ newline)) shown_bridge (replicate 8192 CHR ''?'') =
     Some (shown_bridge\<lparr>active_marks := ''_*'' @ replicate 38 CHR ''_''\<rparr>, escape @ ''[2J2026:01:02 03:04:05'' @ newline @ before @
       ''1'' @ newline @ ''2'' @ tab @ escape @ ''[1;31m0.0'' @ escape @ ''[4;0m'' @ tab @ escape @ ''[1;31m0.0'' @ escape @ ''[4;0m'' @ tab @ ''0.0'' @ newline)"
proof -
  let ?s = shown_bridge and ?t = "Some (''2026:01:02 03:04:05'' @ newline)" and ?log = "\<lambda>x :: rat. 0 :: rat"
  note f = shown_bridge_facts
  have z: "f32 0 = 0" "f32 (1 / 4) = 1 / 4" by code_simp+
  have ts: "lastTS ?s = 1 / 4" "lastJackTime ?s = 0" by (simp_all add: shown_bridge_def playing_bridge_def fresh_bridge_def)
  have C: "unat (currentNumberOfChannels ?s) = 2" by (simp add: f(2))
  have two: "ch < 2 \<longleftrightarrow> ch = 0 \<or> ch = 1" for ch :: nat by auto
  have lev: "\<forall>ch < 2. small_level ?log ?s ch" using f(5-8) z unfolding two small_level_def Let_def by auto
  have fits: "length (screen_text ?log ?t ?s) < 8192"
    by (rule jack_screen_fits) (use lev z in \<open>simp_all add: f(4) C ts finite_float_def\<close>)
  then have "length (screen_text ?log ?t ?s) < 2 ^ 31" by simp
  from jack_screen_in_buffer[OF f(1) _ _ _ this, of "replicate 8192 CHR ''?''"] obtain k where
    r: "display_screen ?log ?t ?s (replicate 8192 CHR ''?'') =
      Some (?s\<lparr>active_marks := marks_after ?log ?s k\<rparr>, escape @ ''[2J'' @ take 8191 (screen_text ?log ?t ?s))"
      "doMeasure ?s \<and> length (screen_text ?log ?t ?s) < 8192 \<longrightarrow> k = 2" by (auto simp: f(4) C)
  then have "k = 2" using f(3) fits by simp
  moreover have "marks_after ?log ?s 2 = ''_*'' @ replicate 38 CHR ''_''"
    using f(4-6) by (simp add: marks_after_def mark_of_def quiet_def upt_rec)
  moreover have "screen_text ?log ?t ?s =
      ''2026:01:02 03:04:05'' @ newline @ (status_text ?s @ heading_text (active_marks ?s)) @ lines_from ?log ?s 0 2"
    by (simp add: screen_text_def shown_time_def f(3) C)
  ultimately show ?thesis using r(1) fits unfolding shown_lines
    by (intro exI[of _ "status_text ?s @ heading_text (active_marks ?s)"]) simp
qed

end
