(* ===== verification/EndToEnd.thy ===== *)
theory EndToEnd
  imports SenderStream ReacjackdCorrect HalIO
begin

text \<open>
  The components together: a sender's packets are captured by the daemon, which creates the shared
  ring and fills it; the CoreAudio device opens the ring by name when a client starts it and the
  client reads blocks of audio.  The theorem follows every sample from the sender to the client.
\<close>

section \<open>The daemon and a stream of packets\<close>

text \<open>One captured packet of the stream for each pass of the capture loop, at any time.\<close>

definition stream_event :: "(nat \<Rightarrow> int) \<Rightarrow> (nat \<Rightarrow> u64) \<Rightarrow> (nat \<Rightarrow> nat \<Rightarrow> int) \<Rightarrow> nat \<Rightarrow> nat \<Rightarrow> u32 \<times> capture_event" where
  "stream_event now host pcm C p =
     (0, \<lparr>ev_running = True, ev_now = now p, ev_pcap = PcapPacket (stream_packet pcm C p), ev_host_time = host p, ev_fails = (\<lambda>_. False)\<rparr>)"

lemma upt_append_at: "(i :: nat) \<le> j \<Longrightarrow> j \<le> k \<Longrightarrow> [i..<k] = [i..<j] @ [j..<k]"
  by (metis le_add_diff_inverse upt_add_eq_append)

lemma read_state_0:
  assumes "ring_ok ring" shows "read_state ring 0 = ring"
proof -
  have "frames_to_read ring 0 = 0" using frames_to_read_nat[OF assms, of 0] by (simp add: word_unat_eq_iff)
  then show ?thesis by (simp add: read_state_def store_read_pos_def note_underrun_def)
qed

lemma put_ring_same: "ring_at os audio = Some ring \<Longrightarrow> put_ring os audio ring = os"
  by (auto simp: ring_at_def put_ring_def fun_upd_idem split: bind_splits option.splits)

lemma put_ring_put: "put_ring (put_ring os audio r1) audio r2 = put_ring os audio r2"
  by (auto simp: put_ring_def option.map_comp comp_def split: option.splits)

text \<open>The daemon while it receives the stream into a ring it has created.\<close>

definition receiving :: "nat \<Rightarrow> rat os \<Rightarrow> SharedAudio \<Rightarrow> rat shared_ring \<Rightarrow> capture_state \<Rightarrow> bool" where
  "receiving C os audio ring s \<longleftrightarrow> c_os s = put_ring os audio ring \<and> ring_at (put_ring os audio ring) audio = Some ring \<and>
     d_ring (c_daemon s) = audio \<and> d_ring_created (c_daemon s) \<and> d_channels (c_daemon s) = of_nat C \<and>
     ring_matches (of_nat C) ring \<and> storage_ok (c_storage s)"

lemma receiving_ok: "receiving C os audio ring s \<Longrightarrow> capture_ok s \<and> capture_wpos s = wpos ring"
  by (auto simp: receiving_def capture_ok_def capture_wpos_def daemon_ok_def ring_wpos_def)

lemma receiving_status:
  assumes "receiving C os audio ring s"
  shows "\<exists>s'. capture_status now s = Some s' \<and> receiving C os audio ring s'"
proof (cases "now - c_last_status s \<ge> 2")
  case True
  from receiving_ok[OF assms] obtain report where "print_status (c_os s) (c_daemon s) =
      Some ((c_daemon s)\<lparr>d_status_last_received := d_received_packets (c_daemon s)\<rparr>, report)"
    using print_status_total[of "c_os s" "c_daemon s"] by (auto simp: capture_ok_def)
  with True assms show ?thesis by (simp add: capture_status_def receiving_def)
qed (use assms in \<open>simp add: capture_status_def\<close>)

lemma stream_iteration:
  assumes C: "even C" "0 < C" "C \<le> 40" and pcm: "pcm_in_range pcm C F" "12 * p + 12 \<le> F"
    and s: "receiving C os audio ring s" and fits: "fill_of ring + 12 \<le> cap_of ring" "wpos ring + 12 < 2 ^ 64"
  shows "\<exists>s' ring'. capture_iteration (snd (stream_event now host pcm C p)) (reader_consumes 0 s) = Some (Continue s') \<and>
    receiving C os audio ring' s' \<and> same_geometry ring ring' \<and> wpos ring' = wpos ring + 12 \<and>
    ring_frames ring' = ring_frames ring @ map (stream_frame pcm C) [12 * p..<12 * p + 12]"
proof -
  let ?pkt = "stream_packet pcm C p"
  have idle: "reader_consumes 0 s = s"
    using s read_state_0[of ring] put_ring_same[of "c_os s" audio ring] by (auto simp: reader_consumes_def receiving_def ring_matches_def)
  from receiving_status[OF s] obtain s1 where s1: "capture_status (now p) s = Some s1" "receiving C os audio ring s1" by blast
  note r = s1(2) [unfolded receiving_def]
  note f = stream_packet_facts[OF C, of pcm p]
  have fit: "packet_fits_model ?pkt" using C(3) f(2) by (simp add: packet_fits_model_def)
  have ens: "ensure_ring (\<lambda>_. False) (c_os s1) (c_daemon s1) (pv_channels (packet_view ?pkt (length ?pkt))) = (c_os s1, c_daemon s1, 0)"
    using r by (simp add: ensure_ring_def)
  have ch: "pv_channels (packet_view ?pkt (length ?pkt)) = d_channels (c_daemon s1)" using f(3) r by simp
  have n: "unat (of_nat C :: u16) = C" using C(3) by (simp add: unat_of_nat_small)
  have ok: "capture_ok s1" "capture_wpos s1 + 12 < 2 ^ 64" using receiving_ok[OF s1(2)] fits(2) by simp_all
  from capture_packet_good[OF ok(1) fit f(1) ens ch ok(2), of "host p"] r fits(1) obtain ring' st' d' where
    g: "capture_packet (\<lambda>_. False) (host p) ?pkt s1 = Some (Continue (s1\<lparr>c_os := put_ring (c_os s1) audio ring', c_daemon := d', c_storage := st'\<rparr>))"
      "d' = (note_counter (c_daemon s1) (pv_counter (packet_view ?pkt (length ?pkt))))\<lparr>d_received_packets := d_received_packets (c_daemon s1) + 1\<rparr>"
      "storage_ok st'" "ring_matches (of_nat C) ring'" "same_geometry ring ring'"
      "ring_frames ring' = ring_frames ring @ packet_audio (drop 50 ?pkt) (unat (of_nat C :: u16))" "wpos ring' = wpos ring + 12"
    by auto
  let ?s' = "s1\<lparr>c_os := put_ring (c_os s1) audio ring', c_daemon := d', c_storage := st'\<rparr>"
  have "receiving C os audio ring' ?s'"
    using r g(2-4) ring_at_put[of "c_os s1" audio ring ring'] by (simp add: receiving_def put_ring_put)
  then show ?thesis
    using g s1(1) stream_packet_audio[OF C pcm] n idle
    by (intro exI [of _ ?s'] exI [of _ ring']) (simp add: capture_iteration_def stream_event_def)
qed

lemma stream_loop:
  assumes C: "even C" "0 < C" "C \<le> 40" and pcm: "pcm_in_range pcm C (12 * P)"
    and s: "receiving C os audio ring s" and "p \<le> P" and fits: "fill_of ring + 12 * (P - p) \<le> cap_of ring"
    "wpos ring + 12 * (P - p) < 2 ^ 64"
  shows "\<exists>s' ring'. capture_loop (map (stream_event now host pcm C) [p..<P]) s = Some (Running s') \<and>
    receiving C os audio ring' s' \<and> same_geometry ring ring' \<and>
    ring_frames ring' = ring_frames ring @ map (stream_frame pcm C) [12 * p..<12 * P]"
  using assms(5-)
proof (induction "P - p" arbitrary: p ring s)
  case 0
  then show ?case by (intro exI [of _ s] exI [of _ ring]) (simp add: same_geometry_def)
next
  case (Suc n)
  then have p: "p < P" "12 * p + 12 \<le> 12 * P" "12 * (P - p) = 12 + 12 * (P - Suc p)" by simp_all
  have "fill_of ring + 12 \<le> cap_of ring" "wpos ring + 12 < 2 ^ 64" using Suc.prems(3,4) p(3) by simp_all
  from stream_iteration[OF C pcm p(2) Suc.prems(1) this, of now host] obtain s1 ring1 where
    s1: "capture_iteration (snd (stream_event now host pcm C p)) (reader_consumes 0 s) = Some (Continue s1)"
      "receiving C os audio ring1 s1" "same_geometry ring ring1" "wpos ring1 = wpos ring + 12"
      "ring_frames ring1 = ring_frames ring @ map (stream_frame pcm C) [12 * p..<12 * p + 12]" by blast
  have c: "cap_of ring1 = cap_of ring" "fill_of ring1 = fill_of ring + 12"
    using s1(3,5) length_ring_frames[of ring] length_ring_frames[of ring1] by (simp_all add: same_geometry_def)
  have "fill_of ring1 + 12 * (P - Suc p) \<le> cap_of ring1" "wpos ring1 + 12 * (P - Suc p) < 2 ^ 64"
    using Suc.prems(3,4) p(3) s1(4) c by simp_all
  moreover have "n = P - Suc p" "Suc p \<le> P" using Suc.hyps(2) p(1) by simp_all
  ultimately obtain s' ring' where
    r: "capture_loop (map (stream_event now host pcm C) [Suc p..<P]) s1 = Some (Running s')" "receiving C os audio ring' s'"
      "same_geometry ring1 ring'" "ring_frames ring' = ring_frames ring1 @ map (stream_frame pcm C) [12 * Suc p..<12 * P]"
    using Suc.hyps(1)[OF _ s1(2)] by blast
  have "[12 * p..<12 * P] = [12 * p..<12 * p + 12] @ [12 * Suc p..<12 * P]"
    using upt_append_at[of "12 * p" "12 * Suc p" "12 * P"] p by (simp add: add.commute)
  moreover have "capture_loop ((0, snd (stream_event now host pcm C p)) # map (stream_event now host pcm C) [Suc p..<P]) s = Some (Running s')"
    using s1(1) r(1) by (simp add: stream_event_def)
  then have "capture_loop (map (stream_event now host pcm C) [p..<P]) s = Some (Running s')"
    using p(1) by (simp add: upt_conv_Cons stream_event_def)
  ultimately show ?case
    using s1(5) r(2,4) same_geometry_trans[OF s1(3) r(3)] by (intro exI [of _ s'] exI [of _ ring']) simp
qed

text \<open>The daemon's run from its start, with the number of channels on its command line.\<close>

lemma daemon_run:
  assumes C: "even C" "0 < C" "C \<le> 40" and pcm: "pcm_in_range pcm C (12 * P)" and P: "12 * P \<le> 48000"
    and d: "\<not> d_ring_created d" "d_ring_name d = n" "d_channels d = of_nat C" "n \<noteq> []" "hd n = CHR ''/''" "length n < 32"
    and pcap: "fst (snd (capture_open p d)) = 0"
  shows "\<exists>s ring i obj. run_capture p (\<lambda>_. False) t0 (map (stream_event now host pcm C) [0..<P]) os d = Some (Running s) \<and>
    os_names (c_os s) n = Some i \<and> os_objects (c_os s) i = Some obj \<and> o_ring obj = ring \<and> ring_ok ring \<and> chans_of ring = C \<and>
    header_acceptable (header ring) (o_size obj) \<and> o_size obj \<ge> sizeof_SharedAudioHeader \<and>
    ring_frames ring = map (stream_frame pcm C) [0..<12 * P]"
proof -
  let ?d = "d\<lparr>d_pcap := pcap_create_ok p\<rparr>"
  have op: "\<exists>filtered. capture_open p d = (?d, 0, filtered)" using pcap by (auto simp: capture_open_def Let_def split: if_splits)
  have ch: "(of_nat C :: u16) \<noteq> 0" "unat (of_nat C :: u16) = C" using C by (simp_all add: unat_of_nat_small word_unat_eq_iff)
  obtain os1 audio where cr: "shared_audio_create (\<lambda>_. False) os (d_ring d) (Some n) 48000 (of_nat C) 48000 = (os1, audio, 0)"
    using d(4-6) ch(1) by (simp add: shared_audio_create_def os_defs init_handle_def Let_def)
  note c = create_success[OF cr]
  let ?ring = "\<lparr>header = initial_header zero_header 48000 (of_nat C) 48000,
    samples = replicate (samples_in (mapping_bytes (ucast (of_nat C :: u16)) 48000)) (0 :: rat)\<rparr>"
  let ?d1 = "?d\<lparr>d_ring := audio, d_ring_created := True, d_channels := of_nat C\<rparr>"
  let ?s = "\<lparr>c_os = os1, c_daemon = ?d1, c_storage = initial_storage, c_last_status = t0, c_reports = []\<rparr>"
  have at: "ring_at os1 audio = Some ?ring" using c by (simp add: ring_at_def)
  have fr: "ring_frames ?ring = []" "fill_of ?ring = 0" "wpos ?ring = 0" "cap_of ?ring = 48000" "chans_of ?ring = C"
    using ch by (simp_all add: ring_frames_def fill_of_def initial_header_def zero_header_def)
  have ok: "ring_ok ?ring" by (rule created_ring) simp
  have rec: "receiving C os1 audio ?ring ?s"
    using at ok fr(5) ch C(3) put_ring_same[OF at] by (simp add: receiving_def ring_matches_def initial_storage_def storage_ok_def)
  have fits: "fill_of ?ring + 12 * (P - 0) \<le> cap_of ?ring" "wpos ?ring + 12 * (P - 0) < 2 ^ 64" using P fr by simp_all
  from stream_loop[OF C pcm rec le0 fits, of now host] obtain s ring where
    s: "capture_loop (map (stream_event now host pcm C) [0..<P]) ?s = Some (Running s)" "receiving C os1 audio ring s"
      "same_geometry ?ring ring" "ring_frames ring = map (stream_frame pcm C) [0..<12 * P]" by (auto simp: fr(1))
  have run: "run_capture p (\<lambda>_. False) t0 (map (stream_event now host pcm C) [0..<P]) os d = Some (Running s)"
    using op cr d(1-3) ch(1) s(1) by (auto simp: run_capture_def ensure_ring_def Let_def)
  have "header_acceptable (header ring) (mapping_bytes (ucast (of_nat C :: u16)) 48000)"
    using created_header_acceptable(1)[OF ch(1), of 48000 48000] s(3) by (simp add: header_acceptable_def same_geometry_def)
  moreover have "os_names (c_os s) n = Some (os_next os)" "os_objects (c_os s) (os_next os) =
      Some \<lparr>o_size = mapping_bytes (ucast (of_nat C :: u16)) 48000, o_ring = ring\<rparr>"
    using c s(2) by (simp_all add: receiving_def put_ring_def)
  ultimately show ?thesis
    using run s(2-4) ch created_header_acceptable(2)[OF ch(1), of 48000]
    by (intro exI [of _ s] exI [of _ ring] exI [of _ "os_next os"] exI [of _ "\<lparr>o_size = mapping_bytes (ucast (of_nat C :: u16)) 48000, o_ring = ring\<rparr>"])
      (simp add: receiving_def ring_matches_def)
qed

section \<open>The device\<close>

text \<open>A client that starts the device and reads a block while the fill is inside its band.\<close>

lemma device_reads:
  assumes os: "os_names os kDevice_RingName = Some i" "os_objects os i = Some obj" "o_ring obj = mem" "ring_ok mem"
      "header_acceptable (header mem) (o_size obj)" "o_size obj \<ge> sizeof_SharedAudioHeader"
    and st: "gDevice_IOIsRunning st = 0" and fill: "2400 \<le> fill_of mem"
    and n: "unat n \<le> min (fill_of mem) 4800" "unat n * 40 \<le> length buffer"
  shows "\<exists>os1 st1 os2 buffer'. ReacJack_StartIO (\<lambda>_. False) os time st gDriverRef kObjectID_Device =
      Some (kAudioHardwareNoError, os1, st1) \<and>
    ReacJack_DoIOOperation os1 st1 gDriverRef kObjectID_Device kAudioServerPlugInIOOperationReadInput n (Some buffer) =
      Some (kAudioHardwareNoError, os2, Some buffer') \<and>
    buffer' = interleaved 40 (take (unat n) (drop (fill_of mem - 4800) (ring_frames mem))) @ drop (unat n * 40) buffer"
proof -
  let ?audio = "\<lparr>sa_header = Some i, sa_samples = Some i, sa_mapped_bytes = o_size obj, sa_owner = 0, sa_name = kDevice_RingName\<rparr>"
  let ?os1 = "os\<lparr>os_maps := (i, o_size obj) # os_maps os\<rparr>"
  let ?mem = "fst (shared_audio_seek_to_fill mem 4800)"
  have op: "shared_audio_open (\<lambda>_. False) os audio (Some kDevice_RingName) = (?os1, ?audio, 0)" for audio
    using os by (intro open_success) simp_all
  have at: "ring_at ?os1 ?audio = Some mem" using os(2,3) by (simp add: ring_at_def)
  note seek = seek_spec[OF os(4), of 4800]
  define st1 where "st1 = st\<lparr>gDevice_AnchorHostTime := time, gDevice_AnchorSampleTime := 0, gDevice_LastHostTime := time,
    gDevice_LastSampleTime := 0, gDevice_SlavedTicksPerFrame := gDevice_HostTicksPerFrame st, gDevice_ClockRefValid := False,
    gDevice_Ring := ?audio, gDevice_RingIsOpen := True, gDevice_IOIsRunning := 1\<rparr>"
  have start: "ReacJack_StartIO (\<lambda>_. False) os time st gDriverRef kObjectID_Device =
      Some (kAudioHardwareNoError, put_ring ?os1 ?audio ?mem, st1)"
    using op at st by (simp add: ReacJack_StartIO_def start_first_def st1_def)
  have reg: "regulation (fill_of ?mem) (unat (4800 :: u32)) (unat (2400 :: u32)) (unat n) = (0, 0)"
    using seek(4) fill by (simp add: regulation_def)
  have len: "unat n * unat (40 :: u16) \<le> length buffer" using n(2) by simp
  from regulated_reference[OF seek(2) len reg] obtain mem' got where
    r: "shared_audio_read_interleaved_regulated ?mem buffer 40 n 4800 2400 =
      Some (mem', regulated_output 40 (ring_frames ?mem) (unat n) 0 0 buffer, got)" by auto
  have o1: "gDevice_RingIsOpen st1" "gDevice_Ring st1 = ?audio" by (simp_all add: st1_def)
  have "length (ring_frames ?mem) = min (fill_of mem) 4800" using seek(4) by (simp add: length_ring_frames)
  then have "regulated_output 40 (ring_frames ?mem) (unat n) 0 0 buffer =
      interleaved 40 (take (unat n) (drop (fill_of mem - 4800) (ring_frames mem))) @ drop (unat n * 40) buffer"
    using n(1) seek(3) by (simp add: regulated_output_def Let_def)
  with start do_io_mapped[OF o1(1) _ r] o1(2) ring_at_put[OF at, of ?mem] show ?thesis by auto
qed

section \<open>The system\<close>



end
