(* ===== verification/Spec2Isabelle.thy ===== *)
theory Spec2Isabelle
  imports SharedRegulation SharedAccessRun SharedWeak ClockReleaseAcquire ReacjackdCorrect PwWeak ReacjackPw PwEndToEnd Reacjackctl HalClock HalIO JackPcap JackScreen EndToEnd
begin

text \<open>
  \<^bold>\<open>ReacJack\<close> receives digital audio that Roland REAC devices send as raw Ethernet packets and makes it
  available to the audio systems of a computer.  This development models its C programs and proves
  what they do with the audio, with their counters and with the resources they take.

  \<^bold>\<open>The program.\<close>  A packet carries twelve frames of up to forty channels of 24 bit audio
  (\<open>src/reac_decode.c\<close> parses and decodes it).  Three programs receive packets:

  \<^item> the daemon \<open>src/reacjackd.c\<close> decodes them into a ring in POSIX shared memory
    (\<open>src/shared_audio.c\<close>), and publishes with every block an observation of the clock;
  \<^item> the PipeWire client \<open>src/reacjack-pw.c\<close> puts them into a ring of its own, from which the process
    callback of its stream is served;
  \<^item> the JACK bridge \<open>src/reacjack.c\<close> puts the raw payload into a byte ring of the JACK library, from
    which the process callback of its client decodes and meters whole periods.

  Two programs read the shared ring: the CoreAudio driver \<open>src/coreaudio/ReacJackDriver.c\<close>, which
  publishes a device with forty channels, regulates the fill of the ring and slaves the clock of the
  device to that of the daemon, and the status tool \<open>src/reacjackctl.c\<close>.

  \<^bold>\<open>Theories and sources.\<close>  Every definition that models code has the name of the C function, or
  names a part of it that its theory says.

  \<^item> \<open>ReacPrelude\<close>: machine words, lists as memory with checked access (an access outside a block is
    \<^term>\<open>None\<close>, undefined behaviour), loops over index lists.  \<open>FloatModel\<close>: \<open>float\<close> and \<open>double\<close> values as
    rational numbers, with rounding to the nearest representable number.  \<open>RingSpec\<close>: the contract of
    a ring between one writer and one reader as a locale, with the FIFO theorem proved in it, and
    \<open>RingInterleaving\<close> the contract of its single memory accesses when both run at the same time (a
    step relation and a locale, with conservation and progress proved in it).  \<open>ReleaseAcquire\<close> is the
    memory of the atomic builtins of the compiler (histories of stores, views of what happens before, data races of
    plain accesses), and \<open>WeakRing\<close> the contract under which a ring is as good on that memory: no access is
    undefined, and conservation holds.  The shared ring and the PipeWire ring are
    instances of all three.  \<open>BlockCopies\<close>: copies of blocks that wrap around the end
    of a ring, as sets of element copies.  \<open>PacketLoss\<close>: the contract of a loss counter as a
    locale; the counters of all three receivers are instances.  \<open>CaptureLoop\<close>: how a run of a loop ends, the
    account of what a capture thread observes, and the contract of a capture
    thread as a locale; both capture backends of the JACK bridge are instances.
  \<^item> \<open>ReacDecode\<close>: \<open>reac_decode.c\<close>.  The parser returns exactly what the format says; what it accepts
    is decoded without leaving a buffer; encoding and decoding is the identity.
  \<^item> \<open>SharedAudio\<close>, \<open>SharedRegulation\<close>: the ring operations of \<open>shared_audio.c\<close>: writes are all or
    nothing, reads deliver the oldest frames, regulated reads keep the fill in its band under drift.
  \<^item> \<open>SharedConcurrent\<close>, \<open>SharedAccessRun\<close>: the same ring as two processes use it, one memory access at a
    time in any interleaving and with the samples of a block in any order (a step relation): there is
    no data race on a sample, no frame is lost, torn or delivered twice, neither side waits for the
    other, and a side that is left alone does what the functions of \<open>SharedAudio\<close> do.  \<open>SharedWeak\<close>: the
    same accesses on the memory of \<open>ReleaseAcquire\<close>, where a load of a position may find an old one.
  \<^item> \<open>SharedClock\<close>: the sequence lock around the clock observation, also as single memory accesses of
    a writer and a reader in any order: a reader never gets a torn pair.  \<open>ClockReleaseAcquire\<close>: the same on the
    memory of \<open>ReleaseAcquire\<close>, where the words may be seen in different states of progress.
  \<^item> \<open>SharedAudioShm\<close>: creating, opening, closing and removing the shared memory over a model of the
    POSIX calls, each of which may fail.
  \<^item> \<open>CaptureCommon\<close>: what the receivers share.  \<open>Reacjackd\<close>, \<open>ReacjackdCorrect\<close>: the daemon: ring setup,
    capture loop, tone generator, status, command line and exit.
  \<^item> \<open>PwRing\<close>, \<open>PwConcurrent\<close>, \<open>PwWeak\<close>, \<open>ReacjackPw\<close>: the ring of the PipeWire client, the memory accesses of its two
    threads in any interleaving and on the memory of \<open>ReleaseAcquire\<close>, its capture thread, process callback and main program.
  \<^item> \<open>HalProperties\<close>: the property tables of the CoreAudio driver; \<open>HalDevice\<close>: its state, object
    functions, start and stop, clock and read operation; \<open>HalClock\<close>: its time stamps are monotonic and
    follow the daemon; \<open>HalIO\<close>: its mapping is balanced over every history of calls (a step relation),
    it starts aligned, fills every block and stays in its band under drift.
  \<^item> \<open>Reacjackctl\<close>: the status tool.
  \<^item> \<open>JackBridge\<close>: the JACK bridge with its Linux capture backend; \<open>JackCapture\<close>: the capture thread
    accounts for every slot of the packet ring and every packet; \<open>JackPcap\<close>: the macOS backend;
    \<open>JackProcess\<close>: a period is delivered exactly or silenced; \<open>JackMain\<close>: setup and exit paths;
    \<open>JackScreen\<close>: the status screen stays inside its buffer (\<open>TextBuffer\<close>: the conversions of \<open>printf\<close> and a
    text that \<open>snprintf\<close> appends to).
  \<^item> \<open>SenderStream\<close>, \<open>EndToEnd\<close>: a sender's stream, and the system from the sender over the daemon and
    the shared ring to a client of the CoreAudio device; \<open>PwEndToEnd\<close>: from the sender to PipeWire.

  \<^bold>\<open>State, errors, loops.\<close>  A program's file scope variables or context structure are a record, and an
  operation takes and returns it.  Counters and positions are words of the width they have in C, so
  that they wrap.  Undefined behaviour is \<^term>\<open>None\<close>, so that a theorem which gives a result shows its
  absence.  The operating system, libpcap, PipeWire, JACK, CoreAudio and the functions of the C
  mathematics library are parameters: the results of their calls, or functions with the laws that
  their documentation states (the ring buffer of JACK).  Loops that wait for packets, signals
  or time run over the sequence of what they observe, one element for each pass, the reading of the
  running flag included, and theorems hold for all sequences.  When the observations of the daemon's capture and
  tone loops or of the JACK capture thread are used up, the loop is \<open>Running\<close>, which is not a return;
  it is \<open>Returned\<close> only by a pass that reads its flag as cleared, is told to stop or fails, and the theorems say which.  For
  the PipeWire client the runs \<open>capture_thread_main\<close> and \<open>run_client\<close> give the state after the observed
  passes, between which only \<open>main\<close> clears the flag.  Every other loop is a function with a termination proof.  No fuel is used, except
  for the bounded number of attempts that the code itself makes to read the clock.

  \<^bold>\<open>Bounds in the theorems.\<close>  Positions of a ring are 64 bits wide and are assumed not to have wrapped
  (at 48 kHz twelve million years).  Packets are shorter than \<open>2\<^sup>3\<^sup>1\<close> bytes.  A frame of the protocol's Ethernet
  type in the mapped packet ring of the JACK bridge is assumed to lie in its slot.  Signed counters of type \<open>long\<close>
  are words and wrap, while their overflow is undefined in C; they count packets.

  \<^bold>\<open>Defects.\<close>  Some theorems show behaviour that the code does not intend: the size checks of
  \<open>shared_audio_open\<close> and of the decoder wrap around for absurd headers and frame counts
  (\<open>opened_ring_fits_mapping\<close>, \<open>decode_size_check_wraps\<close>); the tone generator stalls after 4.4 days
  (\<open>tone_stalls_after_wrap\<close>); the PipeWire client leaks its stream when connecting it
  fails and does not release the library on its late error exits (\<open>pw_main_releases\<close>); the CoreAudio driver gives
  sizes for two properties in scopes where it says they do not exist (\<open>hal_property_tables_agree\<close>); and the JACK
  bridge reads outside the slot of a frame that is longer on the wire (\<open>long_frame_leaves_slot\<close>), mixes
  frames with packets in a time display (\<open>jack_underrun_counts_frames\<close>) and joins a thread that was not
  created (\<open>jack_main_releases\<close>).

  \<^bold>\<open>Not modelled.\<close>  A null handle or null structure passed to \<open>shared_audio.c\<close>, which no caller does; the wording of messages other than the status screen, thread names, signal
  installation, the PipeWire format description, and the method table and reference counting of
  COM beyond the functions it names; real time behaviour; floating point values that are not finite;
  relaxed loads that take a later store (the one relaxed load of the code is of a word that only its own
  thread stores to); interleavings of the CoreAudio read operation
  with a concurrent stop, which the code leaves to the host; the concurrent access of display and
  capture thread to the counters of the JACK bridge, and of the status tool to those of the shared ring.
\<close>

end
